(* ===== verification/Prelude.thy ===== *)
theory Prelude
  imports Main "HOL-Library.Word"
begin

unbundle bit_operations_syntax

text \<open>
  Shared vocabulary of the development: the machine types, the outcome of a fallible
  computation, state-passing actions with their sequencing operators, a small calculus of
  pre- and postconditions for such actions, and generic lemmas on lists and masks.
\<close>

named_theorems act_simps \<open>unfolding rules for actions\<close>

named_theorems act_rules \<open>introduction rules of the pre- and postcondition calculus\<close>

subsection \<open>Machine types\<close>

type_synonym u8 = "8 word"
type_synonym u16 = "16 word"
type_synonym u32 = "32 word"
type_synonym u64 = "64 word"

subsection \<open>Outcomes\<close>

text \<open>
  A Rust function returning \<open>Result\<close> either yields a value, yields an error, or does not
  return normally at all. The last case is a fault: a panic (\<open>unwrap\<close>, \<open>expect\<close>, a slice or
  array index out of range, \<open>assert!\<close>, \<open>unreachable!\<close>, \<open>debug_assert!\<close>), an arithmetic overflow (a panic
  with overflow checks, a wrapped value without), an access out of range that only a debug assertion
  checks (\<open>OutOfBounds\<close>: a panic with debug assertions, undefined behaviour without), or an exhausted
  bound on the number of iterations of a loop.
\<close>

datatype fault = Panicked | Overflow | OutOfBounds | OutOfFuel

datatype ('e, 'a) outcome = Ok 'a | Err 'e | Fault fault

fun map_outcome_err :: "('e \<Rightarrow> 'f) \<Rightarrow> ('e, 'a) outcome \<Rightarrow> ('f, 'a) outcome" where
  "map_outcome_err g (Ok x) = Ok x"
| "map_outcome_err g (Err e) = Err (g e)"
| "map_outcome_err g (Fault f) = Fault f"

fun is_fault :: "('e, 'a) outcome \<Rightarrow> bool" where
  "is_fault (Fault f) = True"
| "is_fault r = False"

subsection \<open>Actions\<close>

text \<open>
  A method taking \<open>&mut self\<close> is an action: it maps the state to an outcome and the state
  afterwards. The state after an error is kept, because the caller of a Rust method still owns
  the object after the method has failed.
\<close>

type_synonym ('s, 'e, 'a) act = "'s \<Rightarrow> ('e, 'a) outcome \<times> 's"

definition ret :: "'a \<Rightarrow> ('s, 'e, 'a) act" where
  "ret x = (\<lambda>s. (Ok x, s))"

definition fail :: "'e \<Rightarrow> ('s, 'e, 'a) act" where
  "fail e = (\<lambda>s. (Err e, s))"

definition crash :: "fault \<Rightarrow> ('s, 'e, 'a) act" where
  "crash f = (\<lambda>s. (Fault f, s))"

definition bnd :: "('s, 'e, 'a) act \<Rightarrow> ('a \<Rightarrow> ('s, 'e, 'b) act) \<Rightarrow> ('s, 'e, 'b) act" where
  "bnd m f = (\<lambda>s. case m s of
      (Ok x, t) \<Rightarrow> f x t
    | (Err e, t) \<Rightarrow> (Err e, t)
    | (Fault q, t) \<Rightarrow> (Fault q, t))"

definition get_state :: "('s \<Rightarrow> 'a) \<Rightarrow> ('s, 'e, 'a) act" where
  "get_state g = (\<lambda>s. (Ok (g s), s))"

definition modify :: "('s \<Rightarrow> 's) \<Rightarrow> ('s, 'e, unit) act" where
  "modify g = (\<lambda>s. (Ok (), g s))"

text \<open>A method call on a field: the action runs on the field and the field is written back.\<close>

definition zoom :: "('s \<Rightarrow> 't) \<Rightarrow> ('t \<Rightarrow> 's \<Rightarrow> 's) \<Rightarrow> ('t, 'e, 'a) act \<Rightarrow> ('s, 'e, 'a) act" where
  "zoom g p m = (\<lambda>s. case m (g s) of (r, t) \<Rightarrow> (r, p t s))"

definition map_err :: "('e \<Rightarrow> 'f) \<Rightarrow> ('s, 'e, 'a) act \<Rightarrow> ('s, 'f, 'a) act" where
  "map_err g m = (\<lambda>s. case m s of (r, t) \<Rightarrow> (map_outcome_err g r, t))"

lemma ret_apply [act_simps]: "ret x s = (Ok x, s)"
  by (simp add: ret_def)

lemma fail_apply [act_simps]: "fail e s = (Err e, s)"
  by (simp add: fail_def)

lemma crash_apply [act_simps]: "crash f s = (Fault f, s)"
  by (simp add: crash_def)

lemma get_state_apply [act_simps]: "get_state g s = (Ok (g s), s)"
  by (simp add: get_state_def)

lemma modify_apply [act_simps]: "modify g s = (Ok (), g s)"
  by (simp add: modify_def)

lemma bnd_Ok: "m s = (Ok x, t) \<Longrightarrow> bnd m f s = f x t"
  by (simp add: bnd_def)

lemma bnd_Err: "m s = (Err e, t) \<Longrightarrow> bnd m f s = (Err e, t)"
  by (simp add: bnd_def)

lemma bnd_Fault: "m s = (Fault q, t) \<Longrightarrow> bnd m f s = (Fault q, t)"
  by (simp add: bnd_def)

lemmas bnd_eqs = bnd_Ok bnd_Err bnd_Fault

lemma bnd_ret_left [simp]: "bnd (ret x) f = f x"
  by (simp add: bnd_def ret_def)

lemma bnd_assoc: "bnd (bnd m f) g = bnd m (\<lambda>x. bnd (f x) g)"
  by (auto simp: bnd_def fun_eq_iff split: prod.splits outcome.splits)

lemma bnd_eq_Ok_iff:
  "bnd m f s = (Ok y, u) \<longleftrightarrow> (\<exists>x t. m s = (Ok x, t) \<and> f x t = (Ok y, u))"
  by (auto simp: bnd_def split: prod.splits outcome.splits)

lemma zoom_apply: "m (g s) = (r, t) \<Longrightarrow> zoom g p m s = (r, p t s)"
  by (simp add: zoom_def)

lemma map_err_apply: "m s = (r, t) \<Longrightarrow> map_err g m s = (map_outcome_err g r, t)"
  by (simp add: map_err_def)

lemma map_outcome_err_Ok_iff [simp]: "map_outcome_err g r = Ok x \<longleftrightarrow> r = Ok x"
  by (cases r) auto

subsection \<open>Pre- and postconditions\<close>

text \<open>
  \<open>valid P m Q E\<close>: from every state that satisfies \<open>P\<close> the action \<open>m\<close> returns normally, that
  is, without a fault; a value and its state satisfy \<open>Q\<close>, an error and its state satisfy \<open>E\<close>.
\<close>

definition valid ::
  "('s \<Rightarrow> bool) \<Rightarrow> ('s, 'e, 'a) act \<Rightarrow> ('a \<Rightarrow> 's \<Rightarrow> bool) \<Rightarrow> ('e \<Rightarrow> 's \<Rightarrow> bool) \<Rightarrow> bool" where
  "valid P m Q E \<longleftrightarrow> (\<forall>s. P s \<longrightarrow> (case m s of
      (Ok x, t) \<Rightarrow> Q x t
    | (Err e, t) \<Rightarrow> E e t
    | (Fault q, t) \<Rightarrow> False))"

lemma validI:
  assumes "\<And>s. P s \<Longrightarrow> (case m s of (Ok x, t) \<Rightarrow> Q x t | (Err e, t) \<Rightarrow> E e t | (Fault q, t) \<Rightarrow> False)"
  shows "valid P m Q E"
  using assms by (simp add: valid_def)

lemma valid_cases:
  assumes "valid P m Q E" and "P s"
  obtains (Ok) x t where "m s = (Ok x, t)" and "Q x t"
    | (Err) e t where "m s = (Err e, t)" and "E e t"
proof -
  obtain r t where m: "m s = (r, t)" by fastforce
  with assms Ok Err show ?thesis
    by (cases r) (auto simp: valid_def)
qed

lemma valid_no_fault: "valid P m Q E \<Longrightarrow> P s \<Longrightarrow> \<not> is_fault (fst (m s))"
  by (erule valid_cases, assumption) auto

lemma valid_Ok: "valid P m Q E \<Longrightarrow> P s \<Longrightarrow> m s = (Ok x, t) \<Longrightarrow> Q x t"
  by (auto simp: valid_def split: prod.splits outcome.splits)

lemma valid_Err: "valid P m Q E \<Longrightarrow> P s \<Longrightarrow> m s = (Err e, t) \<Longrightarrow> E e t"
  by (auto simp: valid_def split: prod.splits outcome.splits)

lemma valid_conseq:
  assumes "valid P' m Q' E'"
    and "\<And>s. P s \<Longrightarrow> P' s"
    and "\<And>x t. Q' x t \<Longrightarrow> Q x t"
    and "\<And>e t. E' e t \<Longrightarrow> E e t"
  shows "valid P m Q E"
proof (rule validI)
  fix s assume "P s"
  then have "P' s" by (rule assms(2))
  with assms(1) show "case m s of (Ok x, t) \<Rightarrow> Q x t | (Err e, t) \<Rightarrow> E e t | (Fault q, t) \<Rightarrow> False"
    by (cases rule: valid_cases) (simp_all add: assms(3,4))
qed

lemma valid_pre:
  assumes "valid P' m Q E" and "\<And>s. P s \<Longrightarrow> P' s"
  shows "valid P m Q E"
  using assms by (simp add: valid_def)

lemma valid_ret [act_rules]: "valid (Q x) (ret x) Q E"
  by (simp add: valid_def ret_def)

lemma valid_fail [act_rules]: "valid (E e) (fail e) Q E"
  by (simp add: valid_def fail_def)

lemma valid_get_state [act_rules]: "valid (\<lambda>s. Q (g s) s) (get_state g) Q E"
  by (simp add: valid_def get_state_def)

lemma valid_modify [act_rules]: "valid (\<lambda>s. Q () (g s)) (modify g) Q E"
  by (simp add: valid_def modify_def)

lemma valid_bnd:
  assumes "valid P m R E" and "\<And>x. valid (R x) (f x) Q E"
  shows "valid P (bnd m f) Q E"
proof (rule validI)
  fix s assume "P s"
  with assms(1) show "case bnd m f s of (Ok x, t) \<Rightarrow> Q x t | (Err e, t) \<Rightarrow> E e t | (Fault q, t) \<Rightarrow> False"
  proof (cases rule: valid_cases)
    case (Ok x t)
    with assms(2) [of x] show ?thesis by (simp add: bnd_Ok valid_def)
  next
    case (Err e t)
    then show ?thesis by (simp add: bnd_Err)
  qed
qed

lemma valid_if [act_rules]:
  assumes "b \<Longrightarrow> valid P m Q E" and "\<not> b \<Longrightarrow> valid P n Q E"
  shows "valid P (if b then m else n) Q E"
  using assms by simp

lemma valid_map_err:
  assumes "valid P m Q (\<lambda>e. E (g e))"
  shows "valid P (map_err g m) Q E"
proof (rule validI)
  fix s assume "P s"
  with assms show "case map_err g m s of (Ok x, t) \<Rightarrow> Q x t | (Err e, t) \<Rightarrow> E e t | (Fault q, t) \<Rightarrow> False"
    by (cases rule: valid_cases) (simp_all add: map_err_def)
qed

lemma valid_zoom:
  assumes "\<And>s. P s \<Longrightarrow> P' (g s)"
    and "\<And>s. P s \<Longrightarrow> valid (\<lambda>t. t = g s) m (\<lambda>x t. Q x (p t s)) (\<lambda>e t. E e (p t s))"
  shows "valid P (zoom g p m) Q E"
  using assms(2) by (fastforce simp: valid_def zoom_def split: prod.splits outcome.splits)

subsection \<open>Partial correctness up to some faults\<close>

text \<open>
  \<open>safe F P m Q\<close>: from a state that satisfies \<open>P\<close> a value and its state satisfy \<open>Q\<close>, and a
  fault is one of \<open>F\<close>; nothing is said of errors.
\<close>

definition safe :: "fault set \<Rightarrow> ('s \<Rightarrow> bool) \<Rightarrow> ('s, 'e, 'a) act \<Rightarrow> ('a \<Rightarrow> 's \<Rightarrow> bool) \<Rightarrow> bool" where
  "safe F P m Q \<longleftrightarrow> (\<forall>s. P s \<longrightarrow> (case m s of
      (Ok x, t) \<Rightarrow> Q x t
    | (Err e, t) \<Rightarrow> True
    | (Fault q, t) \<Rightarrow> q \<in> F))"

lemma safeI:
  assumes "\<And>s. P s \<Longrightarrow> (case m s of (Ok x, t) \<Rightarrow> Q x t | (Err e, t) \<Rightarrow> True | (Fault q, t) \<Rightarrow> q \<in> F)"
  shows "safe F P m Q"
  using assms by (simp add: safe_def)

lemma safeD:
  "safe F P m Q \<Longrightarrow> P s \<Longrightarrow> (case m s of (Ok x, t) \<Rightarrow> Q x t | (Err e, t) \<Rightarrow> True | (Fault q, t) \<Rightarrow> q \<in> F)"
  by (simp add: safe_def)

lemma safe_Ok: "safe F P m Q \<Longrightarrow> P s \<Longrightarrow> m s = (Ok x, t) \<Longrightarrow> Q x t"
  by (auto simp: safe_def split: prod.splits outcome.splits)

lemma safe_Fault: "safe F P m Q \<Longrightarrow> P s \<Longrightarrow> m s = (Fault q, t) \<Longrightarrow> q \<in> F"
  by (auto simp: safe_def split: prod.splits outcome.splits)

lemma safe_valid: "valid P m Q E \<Longrightarrow> safe F P m Q"
  by (fastforce simp: valid_def safe_def split: prod.splits outcome.splits)

lemma safe_conseq:
  "safe F P' m Q' \<Longrightarrow> (\<And>s. P s \<Longrightarrow> P' s) \<Longrightarrow> (\<And>x t. Q' x t \<Longrightarrow> Q x t) \<Longrightarrow> safe F P m Q"
  by (fastforce simp: safe_def split: prod.splits outcome.splits)

lemma safe_bnd:
  "safe F P m R \<Longrightarrow> (\<And>x. safe F (R x) (f x) Q) \<Longrightarrow> safe F P (bnd m f) Q"
  by (fastforce simp: safe_def bnd_def split: prod.splits outcome.splits)

lemma safe_if: "(b \<Longrightarrow> safe F P m Q) \<Longrightarrow> (\<not> b \<Longrightarrow> safe F P n Q) \<Longrightarrow> safe F P (if b then m else n) Q"
  by simp

lemma safe_ret: "(\<And>s. P s \<Longrightarrow> Q x s) \<Longrightarrow> safe F P (ret x) Q"
  by (simp add: safe_def ret_def)

lemma safe_fail: "safe F P (fail e) Q"
  by (simp add: safe_def fail_def)

lemma safe_modify: "(\<And>s. P s \<Longrightarrow> Q () (g s)) \<Longrightarrow> safe F P (modify g) Q"
  by (simp add: safe_def modify_def)

lemma safe_fact: "(\<And>s. P s \<Longrightarrow> c) \<Longrightarrow> (c \<Longrightarrow> safe F P m Q) \<Longrightarrow> safe F P m Q"
  by (fastforce simp: safe_def)

lemma safe_zoom:
  assumes "\<And>s. P s \<Longrightarrow> safe F (\<lambda>t. t = g s) m (\<lambda>x t. Q x (p t s))"
  shows "safe F P (zoom g p m) Q"
  using assms by (fastforce simp: safe_def zoom_def split: prod.splits outcome.splits)

lemma safe_map_err:
  assumes "safe F P m Q"
  shows "safe F P (map_err g m) Q"
proof (rule safeI)
  fix s assume "P s"
  obtain r t where m: "m s = (r, t)" by fastforce
  from safeD [OF assms \<open>P s\<close>] m
  show "case map_err g m s of (Ok x, t) \<Rightarrow> Q x t | (Err e, t) \<Rightarrow> True | (Fault q, t) \<Rightarrow> q \<in> F"
    by (cases r) (simp_all add: map_err_def)
qed

lemma safe_get: "(\<And>x. safe F (\<lambda>s. P s \<and> g s = x) (f x) Q) \<Longrightarrow> safe F P (bnd (get_state g) f) Q"
  by (fastforce simp: safe_def bnd_def get_state_def split: prod.splits outcome.splits)

lemma safe_ex: "(\<And>y. safe F (P y) m Q) \<Longrightarrow> safe F (\<lambda>s. \<exists>y. P y s) m Q"
  by (fastforce simp: safe_def)

text \<open>
  \<open>traced E P m Q\<close> is the same with the state a fault leaves behind: the fault and that state satisfy \<open>E\<close>.
\<close>

definition traced :: "(fault \<Rightarrow> 's \<Rightarrow> bool) \<Rightarrow> ('s \<Rightarrow> bool) \<Rightarrow> ('s, 'e, 'a) act \<Rightarrow> ('a \<Rightarrow> 's \<Rightarrow> bool) \<Rightarrow> bool" where
  "traced E P m Q \<longleftrightarrow> (\<forall>s. P s \<longrightarrow> (case m s of
      (Ok x, t) \<Rightarrow> Q x t
    | (Err e, t) \<Rightarrow> True
    | (Fault q, t) \<Rightarrow> E q t))"

lemma tracedD:
  "traced E P m Q \<Longrightarrow> P s \<Longrightarrow> (case m s of (Ok x, t) \<Rightarrow> Q x t | (Err e, t) \<Rightarrow> True | (Fault q, t) \<Rightarrow> E q t)"
  by (simp add: traced_def)

lemma traced_safe: "safe {} P m Q \<Longrightarrow> traced E P m Q"
  by (fastforce simp: traced_def safe_def split: prod.splits outcome.splits)

lemma traced_conseq:
  "traced E P' m Q' \<Longrightarrow> (\<And>s. P s \<Longrightarrow> P' s) \<Longrightarrow> (\<And>x t. Q' x t \<Longrightarrow> Q x t) \<Longrightarrow> traced E P m Q"
  by (fastforce simp: traced_def split: prod.splits outcome.splits)

lemma traced_bnd:
  "traced E P m R \<Longrightarrow> (\<And>x. traced E (R x) (f x) Q) \<Longrightarrow> traced E P (bnd m f) Q"
  by (fastforce simp: traced_def bnd_def split: prod.splits outcome.splits)

lemma traced_if: "(b \<Longrightarrow> traced E P m Q) \<Longrightarrow> (\<not> b \<Longrightarrow> traced E P n Q) \<Longrightarrow> traced E P (if b then m else n) Q"
  by simp

lemma traced_ret: "(\<And>s. P s \<Longrightarrow> Q x s) \<Longrightarrow> traced E P (ret x) Q"
  by (simp add: traced_def ret_def)

lemma traced_fail: "traced E P (fail e) Q"
  by (simp add: traced_def fail_def)

lemma traced_modify: "(\<And>s. P s \<Longrightarrow> Q () (g s)) \<Longrightarrow> traced E P (modify g) Q"
  by (simp add: traced_def modify_def)

lemma traced_get: "(\<And>x. traced E (\<lambda>s. P s \<and> g s = x) (f x) Q) \<Longrightarrow> traced E P (bnd (get_state g) f) Q"
  by (fastforce simp: traced_def bnd_def get_state_def split: prod.splits outcome.splits)

lemma traced_step:
  "traced E P m (\<lambda>x s. A x \<and> P' s) \<Longrightarrow> (\<And>x. A x \<Longrightarrow> traced E P' (f x) Q) \<Longrightarrow> traced E P (bnd m f) Q"
  by (fastforce simp: traced_def bnd_def split: prod.splits outcome.splits)

lemma traced_get_fact:
  "(\<And>s. P s \<Longrightarrow> A (g s)) \<Longrightarrow> (\<And>x. A x \<Longrightarrow> traced E P (f x) Q) \<Longrightarrow> traced E P (bnd (get_state g) f) Q"
  by (fastforce simp: traced_def bnd_def get_state_def split: prod.splits outcome.splits)

lemma traced_zoom:
  assumes "\<And>s. P s \<Longrightarrow> traced (\<lambda>q t. E q (p t s)) (\<lambda>t. t = g s) m (\<lambda>x t. Q x (p t s))"
  shows "traced E P (zoom g p m) Q"
  using assms by (fastforce simp: traced_def zoom_def split: prod.splits outcome.splits)

lemma traced_map_err:
  assumes "traced E P m Q"
  shows "traced E P (map_err g m) Q"
  unfolding traced_def
proof (intro allI impI)
  fix s assume "P s"
  obtain r t where m: "m s = (r, t)" by fastforce
  from tracedD [OF assms \<open>P s\<close>] m
  show "case map_err g m s of (Ok x, t) \<Rightarrow> Q x t | (Err e, t) \<Rightarrow> True | (Fault q, t) \<Rightarrow> E q t"
    by (cases r) (simp_all add: map_err_def)
qed

subsection \<open>Lists\<close>

lemma take_add_drop: "take (m + n) xs = take m xs @ take n (drop m xs)"
  by (simp add: take_add)

lemma length_concat_const:
  "(\<And>x. length (f x) = k) \<Longrightarrow> length (concat (map f xs)) = k * length xs"
  by (induction xs) auto

lemma take_concat_const:
  assumes "\<And>x. length (f x) = k"
  shows "take (k * n) (concat (map f xs)) = concat (map f (take n xs))"
proof (induction xs arbitrary: n)
  case Nil
  show ?case by simp
next
  case (Cons x xs)
  then show ?case by (cases n) (auto simp: assms)
qed

lemma drop_concat_const:
  assumes "\<And>x. length (f x) = k"
  shows "drop (k * n) (concat (map f xs)) = concat (map f (drop n xs))"
proof (induction xs arbitrary: n)
  case Nil
  show ?case by simp
next
  case (Cons x xs)
  then show ?case by (cases n) (auto simp: assms)
qed

subsection \<open>Bits and index masks\<close>

lemma bit_word_beyond [simp]: "LENGTH('a) \<le> n \<Longrightarrow> \<not> bit (w :: 'a :: len word) n"
  using bit_imp_le_length [of w n] by auto

lemma and_mask_nat: "(n::nat) AND (2 ^ k - 1) = n mod 2 ^ k"
  by (simp only: mask_eq_exp_minus_1 [symmetric] take_bit_eq_mask [symmetric] take_bit_eq_mod)

lemma unat_u8_less: "unat (w :: u8) < 256"
  using unsigned_less [of w, where ?'a = nat] by simp

lemma unat_u16_less: "unat (w :: u16) < 65536"
  using unsigned_less [of w, where ?'a = nat] by simp

subsection \<open>Little- and big-endian integers\<close>

text \<open>\<open>u16::from_le_bytes\<close> and its relatives of the standard library, on byte lists.\<close>

fun le_bytes :: "u8 list \<Rightarrow> nat" where
  "le_bytes [] = 0"
| "le_bytes (b # bs) = unat b + 256 * le_bytes bs"

definition be_bytes :: "u8 list \<Rightarrow> nat" where
  "be_bytes bs = le_bytes (rev bs)"

fun to_le_bytes :: "nat \<Rightarrow> nat \<Rightarrow> u8 list" where
  "to_le_bytes 0 n = []"
| "to_le_bytes (Suc k) n = of_nat (n mod 256) # to_le_bytes k (n div 256)"

lemma le_bytes_bound: "le_bytes bs < 256 ^ length bs"
proof (induction bs)
  case Nil
  show ?case by simp
next
  case (Cons b bs)
  have "unat b < 256" using unsigned_less [of b] by simp
  with Cons show ?case by simp
qed

lemma length_to_le_bytes [simp]: "length (to_le_bytes k n) = k"
  by (induction k arbitrary: n) auto

lemma le_bytes_to_le_bytes: "n < 256 ^ k \<Longrightarrow> le_bytes (to_le_bytes k n) = n"
proof (induction k arbitrary: n)
  case 0
  then show ?case by simp
next
  case (Suc k)
  then have "n div 256 < 256 ^ k"
    by (simp add: less_mult_imp_div_less mult.commute)
  with Suc.IH show ?case by (simp add: unat_of_nat)
qed

end
