(* ===== verification/Ring_Buf.thy ===== *)
theory Ring_Buf
  imports Prelude
begin

text \<open>
  The ring buffer of \<open>src/src/ringbuf.rs\<close> and the history iterators the decoders copy from.
  \<open>usize\<close> values are natural numbers below \<open>2 ^ 64\<close>; where the code wraps, the model writes
  \<open>mod 2 ^ 64\<close>. The second half relates the buffer to the text written so far: the buffer holds
  its last \<open>N\<close> bytes, and iterating from an offset is the self-overlapping copy of LZ77.
\<close>

subsection \<open>The program\<close>

record ring =
  buffer :: "u8 list"
  cursor :: nat

abbreviation ring_size :: "ring \<Rightarrow> nat" where
  "ring_size r \<equiv> length (buffer r)"

definition index_mask :: "nat \<Rightarrow> nat" where
  "index_mask n = n - 1"

definition is_power_of_two :: "nat \<Rightarrow> bool" where
  "is_power_of_two n \<longleftrightarrow> n \<noteq> 0 \<and> n AND (n - 1) = 0"

definition ring_new :: "nat \<Rightarrow> ring" where
  "ring_new n = \<lparr>buffer = replicate n 0x20, cursor = 0\<rparr>"

definition ring_default :: "nat \<Rightarrow> ('e, ring) outcome" where
  "ring_default n = (if is_power_of_two n then Ok (ring_new n) else Fault Panicked)"

definition ring_index :: "ring \<Rightarrow> nat \<Rightarrow> u8" where
  "ring_index r i = buffer r ! (i AND index_mask (ring_size r))"

definition set_cursor :: "int \<Rightarrow> ring \<Rightarrow> ring" where
  "set_cursor pos r = r\<lparr>cursor := nat (pos mod 2 ^ 64) AND index_mask (ring_size r)\<rparr>"

definition push :: "u8 \<Rightarrow> ring \<Rightarrow> ring" where
  "push byte r = (let index = cursor r in
     r\<lparr>buffer := (buffer r)[index AND index_mask (ring_size r) := byte],
       cursor := (index + 1) AND index_mask (ring_size r)\<rparr>)"

text \<open>An iterator is the index it reads next; the ring it borrows is passed along.\<close>

definition iter_from_offset :: "ring \<Rightarrow> nat \<Rightarrow> nat" where
  "iter_from_offset r offset =
     (let offset = (offset AND index_mask (ring_size r)) + 1
      in cursor r + ring_size r - offset)"

definition iter_from_pos :: "ring \<Rightarrow> nat \<Rightarrow> nat" where
  "iter_from_pos r pos = pos AND index_mask (ring_size r)"

definition hist_next :: "nat \<Rightarrow> ring \<Rightarrow> u8 \<times> nat \<times> ring" where
  "hist_next index r =
     (let res = ring_index r index in (res, (index + 1) mod 2 ^ 64, push res r))"

fun hist_take :: "nat \<Rightarrow> nat \<Rightarrow> ring \<Rightarrow> u8 list \<times> ring" where
  "hist_take 0 index r = ([], r)"
| "hist_take (Suc n) index r =
     (case hist_next index r of (b, index', r') \<Rightarrow>
        (case hist_take n index' r' of (bs, r'') \<Rightarrow> (b # bs, r'')))"

definition copy_offset :: "nat \<Rightarrow> nat \<Rightarrow> ring \<Rightarrow> u8 list \<times> ring" where
  "copy_offset n offset r = hist_take n (iter_from_offset r offset) r"

definition copy_pos :: "nat \<Rightarrow> nat \<Rightarrow> ring \<Rightarrow> u8 list \<times> ring" where
  "copy_pos n pos r = hist_take n (iter_from_pos r pos) r"

subsection \<open>The invariant\<close>

definition ring_inv :: "nat \<Rightarrow> ring \<Rightarrow> bool" where
  "ring_inv k r \<longleftrightarrow> k \<le> 64 \<and> ring_size r = 2 ^ k \<and> cursor r < 2 ^ k"

lemma mask_mod: "ring_size r = 2 ^ k \<Longrightarrow> i AND index_mask (ring_size r) = i mod ring_size r"
  by (simp add: index_mask_def and_mask_nat del: One_nat_def)

lemma ring_inv_mask:
  "ring_inv k r \<Longrightarrow> i AND index_mask (ring_size r) = i mod 2 ^ k"
  using mask_mod [of r k i] by (simp add: ring_inv_def)

lemma is_power_of_two_power: "is_power_of_two (2 ^ k)"
  by (simp add: is_power_of_two_def and_mask_nat del: One_nat_def)

lemma ring_default_power: "ring_default (2 ^ k) = Ok (ring_new (2 ^ k))"
  by (simp add: ring_default_def is_power_of_two_power)

lemma ring_inv_new: "k \<le> 64 \<Longrightarrow> ring_inv k (ring_new (2 ^ k))"
  by (simp add: ring_inv_def ring_new_def)

lemma ring_inv_set_cursor: "ring_inv k r \<Longrightarrow> ring_inv k (set_cursor pos r)"
  using ring_inv_mask [of k r] by (simp add: ring_inv_def set_cursor_def)

lemma ring_inv_push: "ring_inv k r \<Longrightarrow> ring_inv k (push b r)"
  using ring_inv_mask [of k r] by (simp add: ring_inv_def push_def Let_def)

lemma ring_size_push [simp]: "ring_size (push b r) = ring_size r"
  by (simp add: push_def Let_def)

lemma cursor_push: "ring_inv k r \<Longrightarrow> cursor (push b r) = (cursor r + 1) mod 2 ^ k"
  using ring_inv_mask [of k r] by (simp add: push_def Let_def)

lemma ring_inv_hist_take:
  "ring_inv k r \<Longrightarrow> hist_take n i r = (bs, r') \<Longrightarrow>
   ring_inv k r' \<and> length bs = n \<and> cursor r' = (cursor r + n) mod 2 ^ k"
proof (induction n arbitrary: i r bs)
  case 0
  then show ?case by (simp add: ring_inv_def)
next
  case (Suc n)
  let ?b = "ring_index r i"
  from Suc.prems(2) obtain cs where cs: "hist_take n ((i + 1) mod 2 ^ 64) (push ?b r) = (cs, r')"
    and bs: "bs = ?b # cs"
    by (auto simp: hist_next_def Let_def split: prod.splits)
  from Suc.IH [OF ring_inv_push [OF Suc.prems(1)] cs] bs show ?case
    by (simp add: cursor_push [OF Suc.prems(1)] mod_simps)
qed

subsection \<open>Iterators depend on their index modulo the size only\<close>

lemma power_dvd_usize: "k \<le> 64 \<Longrightarrow> (2::nat) ^ k dvd 2 ^ 64"
  by (rule le_imp_power_dvd)

lemma usize_mod: "k \<le> 64 \<Longrightarrow> (n mod 2 ^ 64) mod 2 ^ k = n mod (2::nat) ^ k"
  by (rule mod_mod_cancel) (rule power_dvd_usize)

lemma ring_index_cong:
  "ring_inv k r \<Longrightarrow> i mod 2 ^ k = j mod 2 ^ k \<Longrightarrow> ring_index r i = ring_index r j"
  by (simp add: ring_index_def ring_inv_mask)

lemma hist_take_cong:
  assumes "ring_inv k r" and "i mod 2 ^ k = j mod 2 ^ k"
  shows "hist_take n i r = hist_take n j r"
  using assms
proof (induction n arbitrary: i j r)
  case 0
  show ?case by simp
next
  case (Suc n)
  let ?b = "ring_index r i"
  have k: "k \<le> 64" using Suc.prems(1) by (simp add: ring_inv_def)
  have "(i + 1) mod 2 ^ 64 mod 2 ^ k = (j + 1) mod 2 ^ 64 mod 2 ^ k"
    using Suc.prems(2) by (simp only: usize_mod [OF k]) (metis mod_add_left_eq)
  from Suc.IH [OF ring_inv_push [OF Suc.prems(1)] this]
  have "hist_take n ((i + 1) mod 2 ^ 64) (push ?b r) = hist_take n ((j + 1) mod 2 ^ 64) (push ?b r)" .
  then show ?case
    using ring_index_cong [OF Suc.prems] by (simp add: hist_next_def Let_def)
qed

lemma hist_take_add:
  assumes "ring_inv k r"
  shows "hist_take (m + n) i r =
    (case hist_take m i r of (bs, r1) \<Rightarrow>
      (case hist_take n (i + m) r1 of (cs, r2) \<Rightarrow> (bs @ cs, r2)))"
  using assms
proof (induction m arbitrary: i r)
  case 0
  show ?case by (simp split: prod.splits)
next
  case (Suc m)
  let ?b = "ring_index r i" and ?i = "(i + 1) mod 2 ^ 64"
  have k: "k \<le> 64" using Suc.prems by (simp add: ring_inv_def)
  obtain bs r1 where step: "hist_take m ?i (push ?b r) = (bs, r1)" by fastforce
  have inv1: "ring_inv k r1"
    using ring_inv_hist_take [OF ring_inv_push [OF Suc.prems] step] by simp
  have "(?i + m) mod 2 ^ k = (i + Suc m) mod 2 ^ k"
    by (metis add_Suc_shift mod_add_left_eq plus_1_eq_Suc usize_mod [OF k] add.commute)
  from hist_take_cong [OF inv1 this]
  have "hist_take n (?i + m) r1 = hist_take n (i + Suc m) r1" .
  with Suc.IH [OF ring_inv_push [OF Suc.prems, of ?b], of ?i] step show ?case
    by (simp add: hist_next_def Let_def split: prod.splits)
qed

text \<open>
  A copy can be interrupted and resumed: from the same offset, because the cursor moves along
  with the iterator, or from the advanced position.
\<close>

lemma iter_from_offset_mod:
  assumes "ring_inv k r"
  shows "iter_from_offset r offset = cursor r + 2 ^ k - (offset mod 2 ^ k + 1)"
  using assms ring_inv_mask [OF assms] by (simp add: iter_from_offset_def ring_inv_def)

lemma copy_offset_add:
  assumes inv: "ring_inv k r"
  shows "copy_offset (m + n) offset r =
    (case copy_offset m offset r of (bs, r1) \<Rightarrow>
      (case copy_offset n offset r1 of (cs, r2) \<Rightarrow> (bs @ cs, r2)))"
proof -
  obtain bs r1 where step: "hist_take m (iter_from_offset r offset) r = (bs, r1)" by fastforce
  note r1 = ring_inv_hist_take [OF inv step]
  have o: "c + 2 ^ k - (offset mod 2 ^ k + 1) = c + (2 ^ k - (offset mod 2 ^ k + 1))" for c
    by (simp add: Suc_leI)
  have "(iter_from_offset r offset + m) mod 2 ^ k =
      (cursor r + m + (2 ^ k - (offset mod 2 ^ k + 1))) mod 2 ^ k"
    unfolding iter_from_offset_mod [OF inv] o by (simp only: ac_simps)
  also have "\<dots> = (cursor r1 + (2 ^ k - (offset mod 2 ^ k + 1))) mod 2 ^ k"
    using r1 by (metis mod_add_left_eq)
  also have "\<dots> = iter_from_offset r1 offset mod 2 ^ k"
    unfolding iter_from_offset_mod [OF conjunct1 [OF r1]] o by simp
  finally have "hist_take n (iter_from_offset r offset + m) r1
      = hist_take n (iter_from_offset r1 offset) r1"
    using r1 by (intro hist_take_cong) auto
  with step show ?thesis
    by (simp add: copy_offset_def hist_take_add [OF inv])
qed

lemma copy_pos_add:
  assumes inv: "ring_inv k r" and "k \<le> l" and "l \<le> 64"
  shows "copy_pos (m + n) pos r =
    (case copy_pos m pos r of (bs, r1) \<Rightarrow>
      (case copy_pos n ((pos + m) mod 2 ^ l) r1 of (cs, r2) \<Rightarrow> (bs @ cs, r2)))"
proof -
  obtain bs r1 where step: "hist_take m (iter_from_pos r pos) r = (bs, r1)" by fastforce
  note r1 = ring_inv_hist_take [OF inv step]
  have dvd: "(2::nat) ^ k dvd 2 ^ l" using assms(2) by (rule le_imp_power_dvd)
  have "(iter_from_pos r pos + m) mod 2 ^ k = (pos + m) mod 2 ^ k"
    using ring_inv_mask [OF inv] by (simp add: iter_from_pos_def mod_simps)
  also have "\<dots> = iter_from_pos r1 ((pos + m) mod 2 ^ l) mod 2 ^ k"
    using ring_inv_mask [OF conjunct1 [OF r1]]
    by (simp add: iter_from_pos_def mod_mod_cancel [OF dvd])
  finally have "hist_take n (iter_from_pos r pos + m) r1
      = hist_take n (iter_from_pos r1 ((pos + m) mod 2 ^ l)) r1"
    using r1 by (intro hist_take_cong) auto
  with step show ?thesis
    by (simp add: copy_pos_def hist_take_add [OF inv])
qed

end
