(* ===== verification/Stub_Io.thy ===== *)
theory Stub_Io
  imports Prelude
begin

text \<open>
  The I/O layer of \<open>src/src/stub_io.rs\<close> and the error type of \<open>src/src/error.rs\<close>.

  The trait \<open>Read\<close> is a record of the three functions an implementation supplies, and every
  function of the library that is generic over \<open>R: Read\<close> takes such a record as its first
  argument. The implementations of the source (byte slices without \<open>std\<close>, the limited
  reader \<open>Take\<close>) are values of that record. The locales \<open>reader\<close> and \<open>reliable_reader\<close> state
  the contract of the trait against the bytes a reader has left.
\<close>

subsection \<open>Errors\<close>

datatype 'e lha_error =
    Io 'e
  | HeaderParse string
  | Decompress string
  | Checksum string

subsection \<open>The trait Read\<close>

text \<open>
  A buffer argument \<open>buf: &mut [u8]\<close> is given by its length; the bytes written to its front are
  the value returned, so their number is the \<open>usize\<close> the Rust method returns.
\<close>

record ('r, 'e) read_impl =
  rd_all :: "nat \<Rightarrow> ('r, 'e, u8 list) act"
  rd_exact :: "nat \<Rightarrow> ('r, 'e, u8 list) act"
  rd_eof :: 'e

text \<open>The provided method \<open>read_exact\<close> of the trait.\<close>

definition default_read_exact :: "(nat \<Rightarrow> ('r, 'e, u8 list) act) \<Rightarrow> 'e \<Rightarrow> nat \<Rightarrow> ('r, 'e, u8 list) act" where
  "default_read_exact read_all eof n =
     bnd (read_all n) (\<lambda>bs. if n \<noteq> length bs then fail eof else ret bs)"

subsection \<open>Byte slices\<close>

datatype eof_error = UnexpectedEofError

definition slice_read_all :: "nat \<Rightarrow> (u8 list, eof_error, u8 list) act" where
  "slice_read_all n = (\<lambda>s. let amt = min n (length s) in (Ok (take amt s), drop amt s))"

definition slice_read_exact :: "nat \<Rightarrow> (u8 list, eof_error, u8 list) act" where
  "slice_read_exact n = (\<lambda>s.
     if n > length s then (Err UnexpectedEofError, s) else slice_read_all n s)"

definition slice_reader :: "(u8 list, eof_error) read_impl" where
  "slice_reader = \<lparr>rd_all = slice_read_all, rd_exact = slice_read_exact, rd_eof = UnexpectedEofError\<rparr>"

subsection \<open>The limited reader Take\<close>

record 'r take_rd =
  limit :: nat
  take_inner :: 'r

definition take_new :: "'r \<Rightarrow> nat \<Rightarrow> 'r take_rd" where
  "take_new r l = \<lparr>limit = l, take_inner = r\<rparr>"

definition take_read_all :: "('r, 'e) read_impl \<Rightarrow> nat \<Rightarrow> ('r take_rd, 'e, u8 list) act" where
  "take_read_all rd n = (\<lambda>t.
     if limit t = 0 then (Ok [], t)
     else (case rd_all rd (min n (limit t)) (take_inner t) of
         (Ok bs, r) \<Rightarrow>
           (if length bs \<le> limit t
            then (Ok bs, \<lparr>limit = limit t - length bs, take_inner = r\<rparr>)
            else (Fault Panicked, t\<lparr>take_inner := r\<rparr>))
       | (Err e, r) \<Rightarrow> (Err e, t\<lparr>take_inner := r\<rparr>)
       | (Fault q, r) \<Rightarrow> (Fault q, t\<lparr>take_inner := r\<rparr>)))"

definition take_read_exact :: "('r, 'e) read_impl \<Rightarrow> nat \<Rightarrow> ('r take_rd, 'e, u8 list) act" where
  "take_read_exact rd n = (\<lambda>t.
     if n > limit t then (Err (rd_eof rd), t)
     else (case rd_exact rd n (take_inner t) of
         (Ok bs, r) \<Rightarrow> (Ok bs, \<lparr>limit = limit t - n, take_inner = r\<rparr>)
       | (Err e, r) \<Rightarrow> (Err e, t\<lparr>take_inner := r\<rparr>)
       | (Fault q, r) \<Rightarrow> (Fault q, t\<lparr>take_inner := r\<rparr>)))"

definition take_reader :: "('r, 'e) read_impl \<Rightarrow> ('r take_rd, 'e) read_impl" where
  "take_reader rd =
     \<lparr>rd_all = take_read_all rd, rd_exact = take_read_exact rd, rd_eof = rd_eof rd\<rparr>"

lemma take_reader_sel [simp]:
  "rd_all (take_reader rd) = take_read_all rd"
  "rd_exact (take_reader rd) = take_read_exact rd"
  "rd_eof (take_reader rd) = rd_eof rd"
  by (simp_all add: take_reader_def)

subsection \<open>Discarding the rest of a stream\<close>

text \<open>
  \<open>while 0 != rd.read_all(buf)? {}\<close>; the first argument bounds the number of iterations.
\<close>

fun discard_loop :: "nat \<Rightarrow> ('r, 'e) read_impl \<Rightarrow> nat \<Rightarrow> ('r, 'e, unit) act" where
  "discard_loop 0 rd buf = crash OutOfFuel"
| "discard_loop (Suc fuel) rd buf =
     bnd (rd_all rd buf) (\<lambda>bs. if bs = [] then ret () else discard_loop fuel rd buf)"

definition discard_to_end :: "nat \<Rightarrow> ('r, 'e) read_impl \<Rightarrow> nat \<Rightarrow> ('r, 'e, unit) act" where
  "discard_to_end fuel rd buf = (if buf = 0 then crash Panicked else discard_loop fuel rd buf)"

subsection \<open>The contract of a reader\<close>

text \<open>
  \<open>contents r\<close> are the bytes the reader \<open>r\<close> has still to deliver. A reader delivers them in
  order, \<open>read_all\<close> stops short only at their end, an error never adds bytes, and no call
  faults. This is what the documentation of the trait promises of its two methods.
\<close>

locale reader =
  fixes rd :: "('r, 'e) read_impl"
    and contents :: "'r \<Rightarrow> u8 list"
  assumes all_Ok: "rd_all rd n s = (Ok bs, t) \<Longrightarrow>
      bs = take n (contents s) \<and> contents t = drop n (contents s)"
    and all_Err: "rd_all rd n s = (Err e, t) \<Longrightarrow> length (contents t) \<le> length (contents s)"
    and all_no_Fault: "rd_all rd n s \<noteq> (Fault q, t)"
    and exact_Ok: "rd_exact rd n s = (Ok bs, t) \<Longrightarrow>
      n \<le> length (contents s) \<and> bs = take n (contents s) \<and> contents t = drop n (contents s)"
    and exact_Err: "rd_exact rd n s = (Err e, t) \<Longrightarrow> length (contents t) \<le> length (contents s)"
    and exact_no_Fault: "rd_exact rd n s \<noteq> (Fault q, t)"

text \<open>
  A reliable reader, moreover, never fails for a reason of its own: \<open>read_all\<close> always succeeds,
  and \<open>read_exact\<close> fails exactly when the bytes run out, with the end-of-file error.
\<close>

locale reliable_reader = reader +
  assumes all_total: "\<exists>bs t. rd_all rd n s = (Ok bs, t)"
    and exact_total: "n \<le> length (contents s) \<Longrightarrow> \<exists>bs t. rd_exact rd n s = (Ok bs, t)"
    and exact_short: "length (contents s) < n \<Longrightarrow> \<exists>t. rd_exact rd n s = (Err (rd_eof rd), t)"

context reader begin

lemma rd_all_cases:
  obtains (Ok) t where "rd_all rd n s = (Ok (take n (contents s)), t)"
      and "contents t = drop n (contents s)"
    | (Err) e t where "rd_all rd n s = (Err e, t)" and "length (contents t) \<le> length (contents s)"
proof -
  obtain r t where eq: "rd_all rd n s = (r, t)" by fastforce
  show thesis
  proof (cases r)
    case (Ok bs)
    with eq all_Ok show thesis by (intro that(1)) blast+
  next
    case (Err e)
    with eq all_Err show thesis by (intro that(2)) blast+
  next
    case (Fault q)
    with eq all_no_Fault show thesis by blast
  qed
qed

lemma rd_exact_cases:
  obtains (Ok) t where "rd_exact rd n s = (Ok (take n (contents s)), t)"
      and "n \<le> length (contents s)" and "contents t = drop n (contents s)"
    | (Err) e t where "rd_exact rd n s = (Err e, t)" and "length (contents t) \<le> length (contents s)"
proof -
  obtain r t where eq: "rd_exact rd n s = (r, t)" by fastforce
  show thesis
  proof (cases r)
    case (Ok bs)
    with eq exact_Ok show thesis by (intro that(1)) blast+
  next
    case (Err e)
    with eq exact_Err show thesis by (intro that(2)) blast+
  next
    case (Fault q)
    with eq exact_no_Fault show thesis by blast
  qed
qed

lemma discard_loop_terminates:
  assumes "length (contents s) < fuel" and "0 < buf"
  shows "(\<exists>t. discard_loop fuel rd buf s = (Ok (), t) \<and> contents t = []) \<or>
         (\<exists>e t. discard_loop fuel rd buf s = (Err e, t))"
  using assms(1)
proof (induction fuel arbitrary: s)
  case 0
  then show ?case by simp
next
  case (Suc fuel)
  show ?case
  proof (cases rule: rd_all_cases [of buf s])
    case (Ok t)
    show ?thesis
    proof (cases "contents s = []")
      case True
      with Ok assms(2) show ?thesis by (simp add: bnd_Ok act_simps)
    next
      case False
      with Ok assms(2) Suc.prems have "length (contents t) < fuel" by (cases "contents s") auto
      moreover have "take buf (contents s) \<noteq> []" using False assms(2) by simp
      ultimately show ?thesis using Ok(1) Suc.IH [of t] by (simp add: bnd_Ok)
    qed
  next
    case (Err e t)
    then show ?thesis by (simp add: bnd_Err)
  qed
qed

end

context reliable_reader begin

lemma rd_all_reliable:
  obtains t where "rd_all rd n s = (Ok (take n (contents s)), t)" and "contents t = drop n (contents s)"
  using all_total [of n s] all_Ok by blast

lemma rd_exact_reliable:
  assumes "n \<le> length (contents s)"
  obtains t where "rd_exact rd n s = (Ok (take n (contents s)), t)" and "contents t = drop n (contents s)"
  using exact_total [OF assms] exact_Ok by blast

lemma discard_loop_reliable:
  assumes "length (contents s) < fuel" and "0 < buf"
  obtains t where "discard_loop fuel rd buf s = (Ok (), t)" and "contents t = []"
proof -
  have "\<exists>t. discard_loop fuel rd buf s = (Ok (), t) \<and> contents t = []"
    using assms(1)
  proof (induction fuel arbitrary: s)
    case 0
    then show ?case by simp
  next
    case (Suc fuel)
    obtain t where t: "rd_all rd buf s = (Ok (take buf (contents s)), t)"
        "contents t = drop buf (contents s)"
      by (rule rd_all_reliable)
    show ?case
    proof (cases "contents s = []")
      case True
      with t show ?thesis by (simp add: bnd_Ok act_simps)
    next
      case False
      with t assms(2) Suc.prems have "length (contents t) < fuel" by (cases "contents s") auto
      moreover have "take buf (contents s) \<noteq> []" using False assms(2) by simp
      ultimately show ?thesis using t Suc.IH [of t] by (simp add: bnd_Ok)
    qed
  qed
  with that show thesis by blast
qed

end

subsection \<open>The implementations keep the contract\<close>

interpretation slice: reliable_reader slice_reader "\<lambda>s. s"
  by unfold_locales
    (auto simp: slice_reader_def slice_read_all_def slice_read_exact_def Let_def min_def
      split: if_splits)

definition take_contents :: "('r \<Rightarrow> u8 list) \<Rightarrow> 'r take_rd \<Rightarrow> u8 list" where
  "take_contents contents t = take (limit t) (contents (take_inner t))"

lemma reader_take:
  assumes "reader rd contents"
  shows "reader (take_reader rd) (take_contents contents)"
proof -
  note all_Ok = reader.all_Ok [OF assms]
    and all_Err = reader.all_Err [OF assms]
    and exact_Ok = reader.exact_Ok [OF assms]
    and exact_Err = reader.exact_Err [OF assms]
    and no_Fault = reader.all_no_Fault [OF assms] reader.exact_no_Fault [OF assms]
  show ?thesis
  proof (unfold_locales, goal_cases)
    case (1 n s bs t)
    then show ?case
      by (auto simp: take_reader_def take_read_all_def take_contents_def drop_take min_def
          dest!: all_Ok split: if_splits prod.splits outcome.splits)
  next
    case (2 n s e t)
    then show ?case
      by (auto simp: take_reader_def take_read_all_def take_contents_def
          dest!: all_Err split: if_splits prod.splits outcome.splits)
  next
    case (3 n s q t)
    show ?case
      by (auto simp: take_reader_def take_read_all_def no_Fault
          dest!: all_Ok split: if_splits prod.splits outcome.splits)
  next
    case (4 n s bs t)
    then show ?case
      by (auto simp: take_reader_def take_read_exact_def take_contents_def drop_take
          dest!: exact_Ok split: if_splits prod.splits outcome.splits)
  next
    case (5 n s e t)
    then show ?case
      by (auto simp: take_reader_def take_read_exact_def take_contents_def
          dest!: exact_Err split: if_splits prod.splits outcome.splits)
  next
    case (6 n s q t)
    show ?case
      by (auto simp: take_reader_def take_read_exact_def no_Fault
          split: if_splits prod.splits outcome.splits)
  qed
qed

lemma reliable_take:
  assumes "reliable_reader rd contents"
  shows "reliable_reader (take_reader rd) (take_contents contents)"
proof -
  note reliable = assms
  from reliable have base: "reader rd contents" by (simp add: reliable_reader_def)
  note all_Ok = reader.all_Ok [OF base]
    and all_total = reliable_reader.all_total [OF reliable]
    and exact_total = reliable_reader.exact_total [OF reliable]
    and exact_short = reliable_reader.exact_short [OF reliable]
  show ?thesis
  proof (rule reliable_reader.intro [OF reader_take [OF base]], unfold_locales, goal_cases)
    case (1 n s)
    obtain bs t where "rd_all rd (min n (limit s)) (take_inner s) = (Ok bs, t)"
      using all_total by blast
    with all_Ok [OF this] show ?case by (auto simp: take_reader_def take_read_all_def)
  next
    case (2 n s)
    then have "n \<le> limit s" and "n \<le> length (contents (take_inner s))"
      by (simp_all add: take_contents_def)
    with exact_total [of n "take_inner s"] show ?case
      by (auto simp: take_reader_def take_read_exact_def)
  next
    case (3 s n)
    show ?case
    proof (cases "n > limit s")
      case True
      then show ?thesis by (simp add: take_reader_def take_read_exact_def)
    next
      case False
      with 3 have "length (contents (take_inner s)) < n" by (simp add: take_contents_def)
      from exact_short [OF this] False show ?thesis
        by (auto simp: take_reader_def take_read_exact_def)
    qed
  qed
qed

interpretation slice_take: reliable_reader "take_reader slice_reader" "take_contents (\<lambda>s. s)"
  by (rule reliable_take) (rule slice.reliable_reader_axioms)

subsection \<open>What Take leaves in the inner reader\<close>

text \<open>
  A limited reader consumes from its inner reader exactly the bytes it delivers, so discarding
  to its end moves the inner reader past the limit and no further.
\<close>

lemma take_read_all_inner:
  assumes "reader rd contents" and "take_read_all rd n t = (Ok bs, t')"
  shows "limit t' = limit t - length bs \<and>
    contents (take_inner t') = drop (length bs) (contents (take_inner t)) \<and>
    bs = take (min n (limit t)) (contents (take_inner t))"
proof (cases "limit t = 0")
  case True
  with assms(2) show ?thesis by (auto simp: take_read_all_def)
next
  case False
  with assms(2) obtain r where "rd_all rd (min n (limit t)) (take_inner t) = (Ok bs, r)"
      and "t' = \<lparr>limit = limit t - length bs, take_inner = r\<rparr>"
    by (auto simp: take_read_all_def split: prod.splits outcome.splits if_splits)
  with reader.all_Ok [OF assms(1) this(1)] show ?thesis
    by (simp add: drop_take min_def)
qed

lemma discard_loop_take_inner:
  assumes "reader rd contents" and "0 < buf"
    and "discard_loop fuel (take_reader rd) buf t = (Ok (), t')"
  shows "contents (take_inner t') = drop (limit t) (contents (take_inner t))"
  using assms(3)
proof (induction fuel arbitrary: t)
  case 0
  then show ?case by (simp add: act_simps)
next
  case (Suc fuel)
  then obtain bs u where read: "take_read_all rd buf t = (Ok bs, u)"
    and rest: "(if bs = [] then ret () else discard_loop fuel (take_reader rd) buf) u = (Ok (), t')"
    by (auto simp: bnd_eq_Ok_iff)
  note u = take_read_all_inner [OF assms(1) read]
  show ?case
  proof (cases "bs = []")
    case True
    with u assms(2) have "limit t = 0 \<or> contents (take_inner t) = []"
      by (auto simp: min_def split: if_splits)
    with True rest u show ?thesis by (auto simp: act_simps)
  next
    case False
    with rest have "discard_loop fuel (take_reader rd) buf u = (Ok (), t')" by simp
    from Suc.IH [OF this] u show ?thesis
      by (cases "limit t \<le> length (contents (take_inner t))") (auto simp: min_def)
  qed
qed

subsection \<open>Properties\<close>

text \<open>C28: Discarding the rest of a limited reader always ends and leaves its inner reader exactly
  behind the limit: not one byte of the data that follows a member is consumed, whatever the
  size of the discard buffer, and every byte of the member is. One iteration more than there are
  bytes to discard is fuel enough.\<close>

theorem discard_to_end_exact:
  assumes "reliable_reader rd contents" and "0 < buf" and "min l (length (contents r)) < fuel"
  shows "\<exists>t. discard_to_end fuel (take_reader rd) buf (take_new r l) = (Ok (), t) \<and>
    contents (take_inner t) = drop l (contents r)"
proof -
  have base: "reader rd contents" using assms(1) by (simp add: reliable_reader_def)
  have "length (take_contents contents (take_new r l)) < fuel"
    using assms(3) by (simp add: take_contents_def take_new_def min.commute)
  then obtain t where t: "discard_loop fuel (take_reader rd) buf (take_new r l) = (Ok (), t)"
    using assms(2) by (rule reliable_reader.discard_loop_reliable [OF reliable_take [OF assms(1)]])
  from discard_loop_take_inner [OF base assms(2) this] t assms(2) show ?thesis
    by (simp add: discard_to_end_def take_new_def)
qed

lemma discard_to_end_exact_witness:
  "\<exists>t. discard_to_end 4 (take_reader slice_reader) 2 (take_new [1, 2, 3, 4, 5] 3) = (Ok (), t) \<and>
    take_inner t = [4, 5]"
  using discard_to_end_exact [OF slice.reliable_reader_axioms, of 2 3 "[1, 2, 3, 4, 5]" 4] by simp

end
