(* ===== verification/Crc.thy ===== *)
theory Crc
  imports Prelude
begin

text \<open>
  The CRC-16 of \<open>src/src/crc.rs\<close>: the table, the running sum and \<open>digest\<close>; the bit-by-bit
  definition of the checksum (reflected polynomial \<open>0xA001\<close>) as its specification; and what the
  checksum detects.
\<close>

subsection \<open>The program\<close>

definition crc16_table :: "u16 list" where
  "crc16_table = [
     0x0000, 0xc0c1, 0xc181, 0x0140, 0xc301, 0x03c0, 0x0280, 0xc241,
     0xc601, 0x06c0, 0x0780, 0xc741, 0x0500, 0xc5c1, 0xc481, 0x0440,
     0xcc01, 0x0cc0, 0x0d80, 0xcd41, 0x0f00, 0xcfc1, 0xce81, 0x0e40,
     0x0a00, 0xcac1, 0xcb81, 0x0b40, 0xc901, 0x09c0, 0x0880, 0xc841,
     0xd801, 0x18c0, 0x1980, 0xd941, 0x1b00, 0xdbc1, 0xda81, 0x1a40,
     0x1e00, 0xdec1, 0xdf81, 0x1f40, 0xdd01, 0x1dc0, 0x1c80, 0xdc41,
     0x1400, 0xd4c1, 0xd581, 0x1540, 0xd701, 0x17c0, 0x1680, 0xd641,
     0xd201, 0x12c0, 0x1380, 0xd341, 0x1100, 0xd1c1, 0xd081, 0x1040,
     0xf001, 0x30c0, 0x3180, 0xf141, 0x3300, 0xf3c1, 0xf281, 0x3240,
     0x3600, 0xf6c1, 0xf781, 0x3740, 0xf501, 0x35c0, 0x3480, 0xf441,
     0x3c00, 0xfcc1, 0xfd81, 0x3d40, 0xff01, 0x3fc0, 0x3e80, 0xfe41,
     0xfa01, 0x3ac0, 0x3b80, 0xfb41, 0x3900, 0xf9c1, 0xf881, 0x3840,
     0x2800, 0xe8c1, 0xe981, 0x2940, 0xeb01, 0x2bc0, 0x2a80, 0xea41,
     0xee01, 0x2ec0, 0x2f80, 0xef41, 0x2d00, 0xedc1, 0xec81, 0x2c40,
     0xe401, 0x24c0, 0x2580, 0xe541, 0x2700, 0xe7c1, 0xe681, 0x2640,
     0x2200, 0xe2c1, 0xe381, 0x2340, 0xe101, 0x21c0, 0x2080, 0xe041,
     0xa001, 0x60c0, 0x6180, 0xa141, 0x6300, 0xa3c1, 0xa281, 0x6240,
     0x6600, 0xa6c1, 0xa781, 0x6740, 0xa501, 0x65c0, 0x6480, 0xa441,
     0x6c00, 0xacc1, 0xad81, 0x6d40, 0xaf01, 0x6fc0, 0x6e80, 0xae41,
     0xaa01, 0x6ac0, 0x6b80, 0xab41, 0x6900, 0xa9c1, 0xa881, 0x6840,
     0x7800, 0xb8c1, 0xb981, 0x7940, 0xbb01, 0x7bc0, 0x7a80, 0xba41,
     0xbe01, 0x7ec0, 0x7f80, 0xbf41, 0x7d00, 0xbdc1, 0xbc81, 0x7c40,
     0xb401, 0x74c0, 0x7580, 0xb541, 0x7700, 0xb7c1, 0xb681, 0x7640,
     0x7200, 0xb2c1, 0xb381, 0x7340, 0xb101, 0x71c0, 0x7080, 0xb041,
     0x5000, 0x90c1, 0x9181, 0x5140, 0x9301, 0x53c0, 0x5280, 0x9241,
     0x9601, 0x56c0, 0x5780, 0x9741, 0x5500, 0x95c1, 0x9481, 0x5440,
     0x9c01, 0x5cc0, 0x5d80, 0x9d41, 0x5f00, 0x9fc1, 0x9e81, 0x5e40,
     0x5a00, 0x9ac1, 0x9b81, 0x5b40, 0x9901, 0x59c0, 0x5880, 0x9841,
     0x8801, 0x48c0, 0x4980, 0x8941, 0x4b00, 0x8bc1, 0x8a81, 0x4a40,
     0x4e00, 0x8ec1, 0x8f81, 0x4f40, 0x8d01, 0x4dc0, 0x4c80, 0x8c41,
     0x4400, 0x84c1, 0x8581, 0x4540, 0x8701, 0x47c0, 0x4680, 0x8641,
     0x8201, 0x42c0, 0x4380, 0x8341, 0x4100, 0x81c1, 0x8081, 0x4040]"

record crc16 =
  crc_sum :: u16

definition crc_new :: crc16 where
  "crc_new = \<lparr>crc_sum = 0\<rparr>"

definition crc_reset :: "crc16 \<Rightarrow> crc16" where
  "crc_reset c = c\<lparr>crc_sum := 0\<rparr>"

definition crc_step :: "u16 \<Rightarrow> u8 \<Rightarrow> u16" where
  "crc_step s n =
     (let index = (ucast s :: u8) XOR n in drop_bit 8 s XOR (crc16_table ! unat index))"

fun crc_fold :: "u16 \<Rightarrow> u8 list \<Rightarrow> u16" where
  "crc_fold s [] = s"
| "crc_fold s (n # data) = crc_fold (crc_step s n) data"

definition digest :: "u8 list \<Rightarrow> crc16 \<Rightarrow> crc16" where
  "digest data c = c\<lparr>crc_sum := crc_fold (crc_sum c) data\<rparr>"

definition sum16 :: "crc16 \<Rightarrow> u16" where
  "sum16 c = crc_sum c"

lemma crc_fold_append: "crc_fold s (xs @ ys) = crc_fold (crc_fold s xs) ys"
  by (induction xs arbitrary: s) auto

lemma digest_append: "digest (xs @ ys) c = digest ys (digest xs c)"
  by (simp add: digest_def crc_fold_append)

lemma digest_Nil [simp]: "digest [] c = c"
  by (simp add: digest_def)

subsection \<open>The checksum bit by bit\<close>

definition crc_bit :: "u16 \<Rightarrow> u16" where
  "crc_bit s = (if bit s 0 then drop_bit 1 s XOR 0xA001 else drop_bit 1 s)"

fun crc_shift :: "nat \<Rightarrow> u16 \<Rightarrow> u16" where
  "crc_shift 0 s = s"
| "crc_shift (Suc k) s = crc_shift k (crc_bit s)"

definition crc_byte :: "u16 \<Rightarrow> u8 \<Rightarrow> u16" where
  "crc_byte s n = crc_shift 8 (s XOR ucast n)"

lemma crc_bit_xor: "crc_bit (a XOR b) = crc_bit a XOR crc_bit b"
  by (rule bit_word_eqI) (auto simp: crc_bit_def bit_simps)

lemma crc_shift_xor: "crc_shift k (a XOR b) = crc_shift k a XOR crc_shift k b"
  by (induction k arbitrary: a b) (simp_all add: crc_bit_xor)

lemma crc_shift_low_zero: "take_bit k s = 0 \<Longrightarrow> crc_shift k s = drop_bit k s"
proof (induction k arbitrary: s)
  case 0
  then show ?case by simp
next
  case (Suc k)
  have bits: "\<not> bit s i" if "i < Suc k" for i
    using Suc.prems that by (metis bit_0_eq bit_take_bit_iff bot_apply bot_bool_def)
  then have "crc_bit s = drop_bit 1 s" by (simp add: crc_bit_def)
  moreover have "take_bit k (drop_bit 1 s) = 0"
    by (rule bit_word_eqI) (auto simp: bit_simps bits)
  ultimately show ?case using Suc.IH [of "drop_bit 1 s"] by simp
qed

lemma crc_shift_8:
  "crc_shift 8 s = crc_bit (crc_bit (crc_bit (crc_bit (crc_bit (crc_bit (crc_bit (crc_bit s)))))))"
  by (simp add: numeral_eq_Suc)

fun table_from :: "u16 \<Rightarrow> u16 list \<Rightarrow> bool" where
  "table_from i [] = True"
| "table_from i (e # es) = (e = crc_shift 8 i \<and> table_from (i + 1) es)"

lemma table_from_nth:
  "table_from i es \<Longrightarrow> k < length es \<Longrightarrow> es ! k = crc_shift 8 (i + of_nat k)"
proof (induction es arbitrary: i k)
  case Nil
  then show ?case by simp
next
  case (Cons e es)
  then show ?case by (cases k) (auto simp: add.assoc)
qed

lemma table_from_crc16_table: "table_from 0 crc16_table"
  by (simp add: crc16_table_def crc_shift_8 crc_bit_def)

lemma table_entry: "i < 256 \<Longrightarrow> crc16_table ! i = crc_shift 8 (of_nat i)"
  using table_from_nth [OF table_from_crc16_table, of i] by (simp add: crc16_table_def)

lemma crc_step_crc_byte: "crc_step s n = crc_byte s n"
proof -
  let ?lo = "(ucast s :: u8) XOR n"
  let ?hi = "push_bit 8 (drop_bit 8 s)"
  have split: "s XOR ucast n = ?hi XOR ucast ?lo"
    by (rule bit_word_eqI) (auto simp: bit_simps)
  have "take_bit 8 ?hi = 0"
    by (rule bit_word_eqI) (simp add: bit_simps)
  moreover have "drop_bit 8 ?hi = drop_bit 8 s"
  proof (rule bit_word_eqI)
    fix i assume "i < LENGTH(16)"
    show "bit (drop_bit 8 ?hi) i = bit (drop_bit 8 s) i"
      by (cases "i < 8") (simp_all add: bit_simps)
  qed
  ultimately have "crc_shift 8 ?hi = drop_bit 8 s" by (simp add: crc_shift_low_zero)
  moreover have "unat ?lo < 256" using unsigned_less [of ?lo] by simp
  then have "crc16_table ! unat ?lo = crc_shift 8 (ucast ?lo)"
    by (simp add: table_entry)
  ultimately show ?thesis
    by (simp add: crc_step_def crc_byte_def Let_def split crc_shift_xor)
qed

subsection \<open>What the checksum detects\<close>

lemma inj_crc_bit: "crc_bit a = crc_bit b \<Longrightarrow> a = b"
proof -
  have zero: "a = 0" if "crc_bit a = 0" for a
  proof (rule bit_word_eqI)
    fix i :: nat assume "i < LENGTH(16)"
    have "bit (crc_bit a) 15 = bit a 0"
      using bit_imp_le_length [of a 16] by (auto simp: crc_bit_def bit_simps)
    with that have b0: "\<not> bit a 0" by simp
    with that have "drop_bit 1 a = 0" by (simp add: crc_bit_def)
    then have "bit (drop_bit 1 a) (i - 1) = bit (0 :: u16) (i - 1)" by simp
    with b0 show "bit a i = bit 0 i" by (cases i) (simp_all add: bit_simps)
  qed
  assume "crc_bit a = crc_bit b"
  then have "crc_bit (a XOR b) = 0" by (simp add: crc_bit_xor)
  then have "a XOR b = 0" by (rule zero)
  then have "(a XOR b) XOR b = b" by simp
  then show "a = b" by (simp only: xor.assoc xor_self_eq xor.right_neutral)
qed

lemma inj_crc_shift: "crc_shift k a = crc_shift k b \<Longrightarrow> a = b"
  by (induction k arbitrary: a b) (auto dest: inj_crc_bit)

lemma crc_fold_inj: "crc_fold s xs = crc_fold t xs \<Longrightarrow> s = t"
proof (induction xs arbitrary: s t)
  case Nil
  then show ?case by simp
next
  case (Cons x xs)
  then have "crc_step s x = crc_step t x" by simp
  then have "s XOR ucast x = t XOR ucast x"
    unfolding crc_step_crc_byte crc_byte_def by (rule inj_crc_shift)
  then have "(s XOR ucast x) XOR ucast x = (t XOR ucast x) XOR ucast x" by simp
  then show ?case by (simp only: xor.assoc xor_self_eq xor.right_neutral)
qed

lemma crc_two_bytes:
  "crc_step (crc_step s a) b = crc_shift 16 (s XOR (ucast a OR push_bit 8 (ucast b)))"
proof -
  let ?b = "push_bit 8 (ucast b :: u16)"
  have "crc_shift 8 ?b = drop_bit 8 ?b"
    by (rule crc_shift_low_zero) (auto intro!: bit_word_eqI simp: bit_simps)
  also have "\<dots> = ucast b"
  proof (rule bit_word_eqI)
    fix i assume "i < LENGTH(16)"
    show "bit (drop_bit 8 ?b) i = bit (ucast b :: u16) i"
      by (cases "i < 8") (simp_all add: bit_simps)
  qed
  finally have b: "crc_shift 8 ?b = ucast b" .
  have add: "crc_shift 16 s = crc_shift 8 (crc_shift 8 s)" for s
    by (simp add: numeral_eq_Suc)
  have "s XOR (ucast a OR ?b) = (s XOR ucast a) XOR ?b"
    by (rule bit_word_eqI) (auto simp: bit_simps )
  then show ?thesis
    by (simp add: crc_step_crc_byte crc_byte_def add crc_shift_xor b)
qed

lemma crc_two_bytes_inj:
  assumes "crc_step (crc_step s a) b = crc_step (crc_step s a') b'"
  shows "a = a' \<and> b = b'"
proof -
  let ?w = "\<lambda>a b. (ucast a OR push_bit 8 (ucast b)) :: u16"
  have w: "ucast (?w a b) = a" "ucast (drop_bit 8 (?w a b)) = b" for a b :: u8
    by (auto intro!: bit_word_eqI simp: bit_simps )
  have "s XOR ?w a b = s XOR ?w a' b'"
    using assms unfolding crc_two_bytes by (rule inj_crc_shift)
  then have "s XOR (s XOR ?w a b) = s XOR (s XOR ?w a' b')" by simp
  then have "?w a b = ?w a' b'" by (simp only: xor.assoc [symmetric] xor_self_eq xor.left_neutral)
  then show ?thesis using w [of a b] w [of a' b'] by simp
qed

subsection \<open>Properties\<close>

text \<open>C24: The table-driven checksum of the code is the bitwise CRC-16 with the reflected polynomial
  0xA001 and the initial value 0: digesting data folds the bitwise step over its bytes.\<close>

theorem digest_is_crc16: "sum16 (digest data crc_new) = foldl crc_byte 0 data"
proof -
  have "crc_fold s xs = foldl crc_byte s xs" for s xs
    by (induction xs arbitrary: s) (simp_all add: crc_step_crc_byte)
  then show ?thesis by (simp add: sum16_def digest_def crc_new_def)
qed

text \<open>The checksum detects every change inside two adjacent bytes: two streams that differ at
  most in two adjacent bytes have the same checksum only when they are the same stream, from
  whatever state the digest starts.\<close>

lemma digest_detects_two_bytes:
  "sum16 (digest (pre @ [a, b] @ post) c) = sum16 (digest (pre @ [a', b'] @ post) c) \<longleftrightarrow> a = a' \<and> b = b'"
proof
  assume "sum16 (digest (pre @ [a, b] @ post) c) = sum16 (digest (pre @ [a', b'] @ post) c)"
  then have "crc_fold (crc_step (crc_step (crc_fold (crc_sum c) pre) a) b) post
      = crc_fold (crc_step (crc_step (crc_fold (crc_sum c) pre) a') b') post"
    by (simp add: sum16_def digest_def crc_fold_append)
  then show "a = a' \<and> b = b'" by (intro crc_two_bytes_inj) (rule crc_fold_inj)
qed simp

end
