(* ===== verification/Header_Types.thy ===== *)
theory Header_Types
  imports Stub_Io Crc
begin

text \<open>
  The data of an LHA header: the compression method of \<open>src/src/header/compression.rs\<close>, the
  operating system of \<open>src/src/header/ostype.rs\<close>, the MS-DOS attributes of
  \<open>src/src/header/msdos.rs\<close> and the record \<open>LhaHeader\<close> of \<open>src/src/header.rs\<close>, with the
  conversions between identifiers and enumerations.
\<close>

subsection \<open>Byte strings\<close>

definition ascii :: "string \<Rightarrow> u8 list" where
  "ascii s = map of_char s"

lemma length_ascii [simp]: "length (ascii s) = length s"
  by (simp add: ascii_def)

definition from_le :: "u8 list \<Rightarrow> 'a :: len word" where
  "from_le bs = of_nat (le_bytes bs)"

lemma unat_from_le:
  assumes "8 * length bs \<le> LENGTH('a)"
  shows "unat (from_le bs :: 'a :: len word) = le_bytes bs"
proof -
  have "le_bytes bs < 256 ^ length bs" by (rule le_bytes_bound)
  also have "(256 :: nat) ^ length bs = 2 ^ (8 * length bs)" by (simp add: power_mult)
  also have "\<dots> \<le> 2 ^ LENGTH('a)" using assms by (simp add: power_increasing)
  finally show ?thesis unfolding from_le_def by (simp add: unat_of_nat)
qed

subsection \<open>Compression methods\<close>

datatype compression_method =
  Lhd | Lzs | Lz4 | Lz5 | Lh0 | Lh1 | Lh4 | Lh5 | Lh6 | Lh7 | Lhx | Pm0 | Pm1 | Pm2

datatype unrecognized_compression = UnrecognizedCompressionMethod "u8 list"

definition compression_try_from :: "u8 list \<Rightarrow> (unrecognized_compression, compression_method) outcome" where
  "compression_try_from s =
     (if s = ascii ''-lhd-'' then Ok Lhd
      else if s = ascii ''-lzs-'' then Ok Lzs
      else if s = ascii ''-lz4-'' then Ok Lz4
      else if s = ascii ''-lz5-'' then Ok Lz5
      else if s = ascii ''-lh0-'' then Ok Lh0
      else if s = ascii ''-lh1-'' then Ok Lh1
      else if s = ascii ''-lh4-'' then Ok Lh4
      else if s = ascii ''-lh5-'' then Ok Lh5
      else if s = ascii ''-lh6-'' then Ok Lh6
      else if s = ascii ''-lh7-'' then Ok Lh7
      else if s = ascii ''-lhx-'' then Ok Lhx
      else if s = ascii ''-pm0-'' then Ok Pm0
      else if s = ascii ''-pm1-'' then Ok Pm1
      else if s = ascii ''-pm2-'' then Ok Pm2
      else Err (UnrecognizedCompressionMethod s))"

fun compression_is_directory :: "compression_method \<Rightarrow> bool" where
  "compression_is_directory Lhd = True"
| "compression_is_directory m = False"

fun as_identifier :: "compression_method \<Rightarrow> u8 list" where
  "as_identifier Lhd = ascii ''-lhd-''"
| "as_identifier Lzs = ascii ''-lzs-''"
| "as_identifier Lz4 = ascii ''-lz4-''"
| "as_identifier Lz5 = ascii ''-lz5-''"
| "as_identifier Lh0 = ascii ''-lh0-''"
| "as_identifier Lh1 = ascii ''-lh1-''"
| "as_identifier Lh4 = ascii ''-lh4-''"
| "as_identifier Lh5 = ascii ''-lh5-''"
| "as_identifier Lh6 = ascii ''-lh6-''"
| "as_identifier Lh7 = ascii ''-lh7-''"
| "as_identifier Lhx = ascii ''-lhx-''"
| "as_identifier Pm0 = ascii ''-pm0-''"
| "as_identifier Pm1 = ascii ''-pm1-''"
| "as_identifier Pm2 = ascii ''-pm2-''"

subsection \<open>Operating systems\<close>

datatype os_type =
  Generic | MsDos | Win95 | WinNt | Unix | Os2 | MacOs | Amiga | Atari | Java | Cpm | FlexOs |
  Runser | TownsOs | Os9 | Osk | Os386 | Human68k | Xosk

datatype unrecognized_os = UnrecognizedOsType u8

fun os_code :: "os_type \<Rightarrow> u8" where
  "os_code Generic = 0"
| "os_code MsDos = of_char (CHR ''M'')"
| "os_code Win95 = of_char (CHR ''w'')"
| "os_code WinNt = of_char (CHR ''W'')"
| "os_code Unix = of_char (CHR ''U'')"
| "os_code Os2 = of_char (CHR ''2'')"
| "os_code MacOs = of_char (CHR ''m'')"
| "os_code Amiga = of_char (CHR ''A'')"
| "os_code Atari = of_char (CHR ''a'')"
| "os_code Java = of_char (CHR ''J'')"
| "os_code Cpm = of_char (CHR ''C'')"
| "os_code FlexOs = of_char (CHR ''F'')"
| "os_code Runser = of_char (CHR ''R'')"
| "os_code TownsOs = of_char (CHR ''T'')"
| "os_code Os9 = of_char (CHR ''9'')"
| "os_code Osk = of_char (CHR ''K'')"
| "os_code Os386 = of_char (CHR ''3'')"
| "os_code Human68k = of_char (CHR ''H'')"
| "os_code Xosk = of_char (CHR ''X'')"

definition os_try_from :: "u8 \<Rightarrow> (unrecognized_os, os_type) outcome" where
  "os_try_from b =
     (if b = 0 then Ok Generic
      else if b = of_char (CHR ''M'') then Ok MsDos
      else if b = of_char (CHR ''w'') then Ok Win95
      else if b = of_char (CHR ''W'') then Ok WinNt
      else if b = of_char (CHR ''U'') then Ok Unix
      else if b = of_char (CHR ''2'') then Ok Os2
      else if b = of_char (CHR ''m'') then Ok MacOs
      else if b = of_char (CHR ''A'') then Ok Amiga
      else if b = of_char (CHR ''a'') then Ok Atari
      else if b = of_char (CHR ''J'') then Ok Java
      else if b = of_char (CHR ''C'') then Ok Cpm
      else if b = of_char (CHR ''F'') then Ok FlexOs
      else if b = of_char (CHR ''R'') then Ok Runser
      else if b = of_char (CHR ''T'') then Ok TownsOs
      else if b = of_char (CHR ''9'') then Ok Os9
      else if b = of_char (CHR ''K'') then Ok Osk
      else if b = of_char (CHR ''3'') then Ok Os386
      else if b = of_char (CHR ''H'') then Ok Human68k
      else if b = of_char (CHR ''X'') then Ok Xosk
      else Err (UnrecognizedOsType b))"

subsection \<open>MS-DOS attributes\<close>

text \<open>The attributes keep every bit (\<open>from_bits_retain\<close>), so they are the 16-bit word itself.\<close>

type_synonym ms_dos_attrs = u16

definition attr_read_only :: ms_dos_attrs where "attr_read_only = 1"
definition attr_hidden :: ms_dos_attrs where "attr_hidden = 2"
definition attr_system :: ms_dos_attrs where "attr_system = 4"
definition attr_volume :: ms_dos_attrs where "attr_volume = 8"
definition attr_subdir :: ms_dos_attrs where "attr_subdir = 16"
definition attr_archive :: ms_dos_attrs where "attr_archive = 32"
definition attr_symlink :: ms_dos_attrs where "attr_symlink = 64"
definition attr_reserved :: ms_dos_attrs where "attr_reserved = 0xFF80"

subsection \<open>The header\<close>

record lha_header =
  level :: u8
  compression :: "u8 list"
  compressed_size :: u64
  original_size :: u64
  filename :: "u8 list"
  msdos_attrs :: ms_dos_attrs
  last_modified :: u32
  os_type :: u8
  file_crc :: u16
  extended_area :: "u8 list"
  first_header_len :: u32
  extra_headers :: "u8 list"

definition header_default :: lha_header where
  "header_default = \<lparr>level = 0, compression = replicate 5 0, compressed_size = 0, original_size = 0,
     filename = [], msdos_attrs = attr_archive, last_modified = 0, os_type = 0, file_crc = 0,
     extended_area = [], first_header_len = 0, extra_headers = []\<rparr>"

definition header_compression_method :: "lha_header \<Rightarrow> (unrecognized_compression, compression_method) outcome" where
  "header_compression_method h = compression_try_from (compression h)"

definition header_is_directory :: "lha_header \<Rightarrow> bool" where
  "header_is_directory h = (case header_compression_method h of Ok m \<Rightarrow> compression_is_directory m | _ \<Rightarrow> False)"

definition parse_os_type :: "lha_header \<Rightarrow> (unrecognized_os, os_type) outcome" where
  "parse_os_type h = os_try_from (os_type h)"

lemma compression_identifier: "compression_try_from (as_identifier m) = Ok m"
  by (cases m) (simp_all add: compression_try_from_def ascii_def)

lemma compression_recognized: "compression_try_from s = Ok m \<Longrightarrow> s = as_identifier m"
  unfolding compression_try_from_def by (auto split: if_splits)

lemma os_recognized: "os_try_from b = Ok t \<Longrightarrow> b = os_code t"
  unfolding os_try_from_def by (auto split: if_splits)

lemma os_code_recognized: "os_try_from (os_code t) = Ok t"
  by (cases t) (simp_all add: os_try_from_def)

text \<open>The compression identifiers and the methods correspond one to one: the five bytes of a
  header are recognised as a method exactly when they are its identifier.\<close>

lemma compression_round_trip: "compression_try_from s = Ok m \<longleftrightarrow> s = as_identifier m"
  using compression_identifier compression_recognized by blast

text \<open>The codes of the operating systems and the enumeration correspond one to one, and every
  other code is reported back unchanged in the error.\<close>

lemma os_type_round_trip:
  "(os_try_from b = Ok t \<longleftrightarrow> b = os_code t) \<and>
   ((\<forall>t. b \<noteq> os_code t) \<longleftrightarrow> os_try_from b = Err (UnrecognizedOsType b))"
proof
  show "os_try_from b = Ok t \<longleftrightarrow> b = os_code t" using os_recognized os_code_recognized by blast
  have "(\<exists>t. os_try_from b = Ok t) \<or> os_try_from b = Err (UnrecognizedOsType b)"
    by (simp add: os_try_from_def)
  then show "(\<forall>t. b \<noteq> os_code t) \<longleftrightarrow> os_try_from b = Err (UnrecognizedOsType b)"
    using os_recognized os_code_recognized by (metis outcome.distinct(1))
qed

end
