(* ===== verification/Header_Parser.thy ===== *)
theory Header_Parser
  imports Header_Types
begin

text \<open>
  The header parser of \<open>src/src/header/parser.rs\<close>: the struct \<open>Parser\<close> with its running CRC,
  checksum and length, \<open>LhaHeader::read\<close> for the header levels 0 to 3, and the iterator over the
  extra headers. What is proved of them is in \<open>Header_Sound\<close>.

  \<open>reserve n\<close> is the answer of \<open>try_reserve_exact\<close>, whether \<open>n\<close> more bytes can be reserved; it is the only
  operation that asks the environment.
\<close>

subsection \<open>The iterator over the extra headers\<close>

definition ext_common :: u8 where "ext_common = 0x00"
definition ext_filename :: u8 where "ext_filename = 0x01"
definition ext_path :: u8 where "ext_path = 0x02"
definition ext_comment :: u8 where "ext_comment = 0x3F"
definition ext_msdos_attrs :: u8 where "ext_msdos_attrs = 0x40"
definition ext_msdos_time :: u8 where "ext_msdos_time = 0x41"
definition ext_msdos_size :: u8 where "ext_msdos_size = 0x42"
definition ext_unix_time :: u8 where "ext_unix_time = 0x54"
definition ext_ext_attrs :: u8 where "ext_ext_attrs = 0x7F"

lemmas ext_defs = ext_common_def ext_filename_def ext_path_def ext_comment_def ext_msdos_attrs_def
  ext_msdos_time_def ext_msdos_size_def ext_unix_time_def ext_ext_attrs_def

definition read_u16 :: "u8 list \<Rightarrow> u16 option" where
  "read_u16 bs = (if length bs = 2 then Some (from_le bs) else None)"

definition read_u32 :: "u8 list \<Rightarrow> u32 option" where
  "read_u32 bs = (if length bs = 4 then Some (from_le bs) else None)"

definition read_u64 :: "u8 list \<Rightarrow> u64 option" where
  "read_u64 bs = (if length bs = 8 then Some (from_le bs) else None)"

record extra_iter =
  it_data :: "u8 list"
  it_header_length :: u32
  it_header_len32 :: bool

definition counter_size :: "bool \<Rightarrow> nat" where
  "counter_size len32 = (if len32 then 4 else 2)"

text \<open>The length field at the end of an extra header.\<close>

definition next_length :: "bool \<Rightarrow> u8 list \<Rightarrow> u32 option" where
  "next_length len32 bs = (if len32 then read_u32 bs else map_option ucast (read_u16 bs))"

definition extra_next :: "(extra_iter, 'e, u8 list option) act" where
  "extra_next = (\<lambda>it.
     let header_length = unat (it_header_length it) in
     if header_length = 0 then (Ok None, it)
     else if length (it_data it) < header_length then (Fault Panicked, it)
     else if header_length < counter_size (it_header_len32 it) then (Fault Overflow, it)
     else (let res = take header_length (it_data it);
               body = take (header_length - counter_size (it_header_len32 it)) res;
               len = drop (header_length - counter_size (it_header_len32 it)) res
           in case next_length (it_header_len32 it) len of
                None \<Rightarrow> (Fault Panicked, it)
              | Some l \<Rightarrow> (Ok (Some body), it\<lparr>it_header_length := l, it_data := drop header_length (it_data it)\<rparr>)))"

text \<open>A \<open>for\<close> loop over the iterator, as the list of the slices it yields.\<close>

function extra_collect :: "extra_iter \<Rightarrow> ('e, u8 list list) outcome" where
  "extra_collect it = (case extra_next it of
       (Ok None, it') \<Rightarrow> Ok []
     | (Ok (Some h), it') \<Rightarrow> (case extra_collect it' of Ok hs \<Rightarrow> Ok (h # hs) | Err e \<Rightarrow> Err e | Fault q \<Rightarrow> Fault q)
     | (Err e, it') \<Rightarrow> Err e
     | (Fault q, it') \<Rightarrow> Fault q)"
  by auto

lemma extra_next_shorter: "extra_next it = (Ok (Some h), it') \<Longrightarrow> length (it_data it') < length (it_data it)"
  by (auto simp: extra_next_def Let_def split: if_splits option.splits)

termination extra_collect
  by (relation "measure (\<lambda>it. length (it_data it))") (auto dest!: extra_next_shorter [OF sym])

declare extra_collect.simps [simp del]

definition iter_extra :: "lha_header \<Rightarrow> extra_iter" where
  "iter_extra h = \<lparr>it_data = extra_headers h, it_header_length = first_header_len h,
     it_header_len32 = (level h = 3)\<rparr>"

subsection \<open>The parser state\<close>

record 'r parser =
  p_rd :: 'r
  p_crc :: crc16
  p_csum :: u8
  p_len :: nat

definition parser_new :: "'r \<Rightarrow> 'r parser" where
  "parser_new r = \<lparr>p_rd = r, p_crc = crc_new, p_csum = 0, p_len = 0\<rparr>"

definition wrapping_csum :: "u8 \<Rightarrow> u8 list \<Rightarrow> u8" where
  "wrapping_csum init data = sum_list data + init"

definition update_checksums_no_wrapping_sum :: "u8 list \<Rightarrow> 'r parser \<Rightarrow> 'r parser" where
  "update_checksums_no_wrapping_sum buf p = p\<lparr>p_len := p_len p + length buf, p_crc := digest buf (p_crc p)\<rparr>"

definition update_checksums :: "u8 list \<Rightarrow> 'r parser \<Rightarrow> 'r parser" where
  "update_checksums buf p =
     (let p = update_checksums_no_wrapping_sum buf p in p\<lparr>p_csum := wrapping_csum (p_csum p) buf\<rparr>)"

definition on_rd :: "('r, 'e, 'a) act \<Rightarrow> ('r parser, 'e lha_error, 'a) act" where
  "on_rd m = map_err Io (zoom p_rd (\<lambda>r p. p\<lparr>p_rd := r\<rparr>) m)"

definition read_u8_or_none :: "('r, 'e) read_impl \<Rightarrow> ('r parser, 'e lha_error, u8 option) act" where
  "read_u8_or_none rd = bnd (on_rd (rd_all rd 1)) (\<lambda>bs.
     case bs of [] \<Rightarrow> ret None
     | byte # _ \<Rightarrow> bnd (modify (update_checksums_no_wrapping_sum [byte])) (\<lambda>_. ret (Some byte)))"

definition parser_read_exact :: "('r, 'e) read_impl \<Rightarrow> nat \<Rightarrow> ('r parser, 'e lha_error, u8 list) act" where
  "parser_read_exact rd n = bnd (on_rd (rd_exact rd n)) (\<lambda>buf.
     bnd (modify (update_checksums buf)) (\<lambda>_. ret buf))"

definition parser_read_u8 :: "('r, 'e) read_impl \<Rightarrow> ('r parser, 'e lha_error, u8) act" where
  "parser_read_u8 rd = bnd (parser_read_exact rd 1) (\<lambda>buf. ret (from_le buf))"

definition parser_read_u16 :: "('r, 'e) read_impl \<Rightarrow> ('r parser, 'e lha_error, u16) act" where
  "parser_read_u16 rd = bnd (parser_read_exact rd 2) (\<lambda>buf. ret (from_le buf))"

definition parser_read_u32 :: "('r, 'e) read_impl \<Rightarrow> ('r parser, 'e lha_error, u32) act" where
  "parser_read_u32 rd = bnd (parser_read_exact rd 4) (\<lambda>buf. ret (from_le buf))"

definition read_limit_no_checksums ::
  "(nat \<Rightarrow> bool) \<Rightarrow> ('r, 'e) read_impl \<Rightarrow> nat \<Rightarrow> u8 list \<Rightarrow> ('r parser, 'e lha_error, u8 list) act" where
  "read_limit_no_checksums reserve rd n buf =
     (if reserve n then bnd (on_rd (rd_exact rd n)) (\<lambda>spare. ret (buf @ spare))
      else fail (HeaderParse ''memory allocation failed''))"

text \<open>
  \<open>read_limit\<close> has allocated its buffer with \<open>Vec::with_capacity\<close> (which does not return when it fails), so
  the bytes need not be reserved again and the test for them succeeds.
\<close>

definition read_limit :: "('r, 'e) read_impl \<Rightarrow> nat \<Rightarrow> ('r parser, 'e lha_error, u8 list) act" where
  "read_limit rd n = bnd (read_limit_no_checksums (\<lambda>_. True) rd n []) (\<lambda>buf.
     bnd (modify (update_checksums buf)) (\<lambda>_. ret buf))"

subsection \<open>LhaHeader::read\<close>

record raw_header =
  raw_compression :: "u8 list"
  raw_compressed_size :: "u8 list"
  raw_original_size :: "u8 list"
  raw_last_modified :: "u8 list"
  raw_msdos_attrs :: u8
  raw_lha_level :: u8

definition raw_header_size :: nat where
  "raw_header_size = 19"

text \<open>The packed struct over its 19 bytes.\<close>

definition raw_header_of :: "u8 list \<Rightarrow> raw_header" where
  "raw_header_of bs = \<lparr>raw_compression = take 5 bs, raw_compressed_size = take 4 (drop 5 bs),
     raw_original_size = take 4 (drop 9 bs), raw_last_modified = take 4 (drop 13 bs),
     raw_msdos_attrs = bs ! 17, raw_lha_level = bs ! 18\<rparr>"

definition header_error :: "string \<Rightarrow> ('s, 'e lha_error, 'a) act" where
  "header_error msg = fail (HeaderParse msg)"

definition read_raw_header :: "('r, 'e) read_impl \<Rightarrow> ('r parser, 'e lha_error, raw_header) act" where
  "read_raw_header rd =
     bnd (parser_read_exact rd raw_header_size) (\<lambda>bs. let raw = raw_header_of bs in
       if raw_lha_level raw > 3 then header_error ''unknown header level'' else ret raw)"

text \<open>The file name of a level 0 or 1 header.\<close>

definition read_filename :: "('r, 'e) read_impl \<Rightarrow> u8 \<Rightarrow> u8 \<Rightarrow>
    ('r parser, 'e lha_error, u8 list) act" where
  "read_filename rd lev header_len =
     (if lev < 2
      then bnd (parser_read_u8 rd) (\<lambda>filename_len.
             bnd (get_state p_len) (\<lambda>plen.
               if unat header_len < plen + unat filename_len then header_error ''wrong header size''
               else read_limit rd (unat filename_len)))
      else ret [])"

definition read_os_type :: "('r, 'e) read_impl \<Rightarrow> u8 \<Rightarrow> ('r parser, 'e lha_error, u8) act" where
  "read_os_type rd lev = (if lev > 0 then parser_read_u8 rd else ret 0)"

text \<open>
  The extended area of a level 0 or 1 header: the rest of the base header. A level 0 header has
  its operating system in the first byte of it.
\<close>

definition read_extended_area :: "('r, 'e) read_impl \<Rightarrow> u8 \<Rightarrow> u8 \<Rightarrow> u8 \<Rightarrow>
    ('r parser, 'e lha_error, u8 \<times> u8 list) act" where
  "read_extended_area rd lev header_len os =
     (if lev < 2
      then bnd (get_state p_len) (\<lambda>plen.
        if lev = 0 \<and> plen < 2 then crash Overflow
        else (let min_len = (if lev = 0 then plen - 2 else plen) in
          if unat header_len < min_len then header_error ''wrong header size''
          else (let extended_len = unat header_len - min_len in
            bnd (if extended_len \<noteq> 0 \<and> lev = 0
                 then bnd (parser_read_u8 rd) (\<lambda>os'. ret (os', extended_len - 1))
                 else ret (os, extended_len))
              (\<lambda>(os', extended_len).
                if extended_len \<noteq> 0
                then bnd (read_limit rd extended_len) (\<lambda>area. ret (os', area))
                else ret (os', [])))))
      else ret (os, []))"

text \<open>The length of the first extra header and the total length of a level 2 or 3 header.\<close>

definition read_header_lens :: "('r, 'e) read_impl \<Rightarrow> u8 \<Rightarrow> u8 \<Rightarrow> u8 \<Rightarrow>
    ('r parser, 'e lha_error, u32 \<times> u32) act" where
  "read_header_lens rd lev header_len csum =
     (if lev = 1 then bnd (parser_read_u16 rd) (\<lambda>first. ret (0, ucast first))
      else if lev = 2 then bnd (parser_read_u16 rd) (\<lambda>first. ret (from_le [header_len, csum], ucast first))
      else if lev = 3 then bnd (parser_read_u32 rd) (\<lambda>long. bnd (parser_read_u32 rd) (\<lambda>first.
        if header_len \<noteq> 4 \<or> csum \<noteq> 0 then header_error ''invalid header'' else ret (long, first)))
      else ret (0, 0))"

text \<open>
  The checksum of a level 0 or 1 header, the length of a level 2 or 3 header. The addition
  \<open>parser.len as u32 + first_header_len\<close> is one of \<open>u32\<close>.
\<close>

definition check_base_header :: "u8 \<Rightarrow> u8 \<Rightarrow> u32 \<Rightarrow> u32 \<Rightarrow> ('r parser, 'e lha_error, unit) act" where
  "check_base_header lev csum long first = bnd (get_state (\<lambda>p. (p_len p, p_csum p))) (\<lambda>(plen, pcsum).
     if lev < 2 then (if csum \<noteq> pcsum then header_error ''invalid header level checksum'' else ret ())
     else if plen mod 2 ^ 32 + unat first \<ge> 2 ^ 32 then crash Overflow
     else if unat long < plen mod 2 ^ 32 + unat first then header_error ''wrong header size''
     else ret ())"

text \<open>The variables the loop over the extra headers updates.\<close>

record extra_state =
  x_attrs :: ms_dos_attrs
  x_original_size :: u64
  x_compressed_size :: u64
  x_header_crc :: "u16 option"
  x_headers :: "u8 list"

text \<open>What is read from one extra header, and the header with its CRC field cleared.\<close>

definition inspect_extra :: "u8 \<Rightarrow> u8 list \<Rightarrow> extra_state \<Rightarrow> (string, u8 list \<times> extra_state) outcome" where
  "inspect_extra lev header x = (case header of
       [] \<Rightarrow> Ok (header, x)
     | tag # data \<Rightarrow>
         if tag = ext_common then
           (if x_header_crc x \<noteq> None then Err ''double common CRC-16 header''
            else if 2 \<le> length data
            then Ok (tag # 0 # 0 # drop 2 data, x\<lparr>x_header_crc := read_u16 (take 2 data)\<rparr>)
            else Ok (header, x))
         else if (tag = ext_msdos_attrs \<or> tag = ext_ext_attrs) \<and> 2 \<le> length data then
           Ok (header, case read_u16 (take 2 data) of
             Some attrs \<Rightarrow> x\<lparr>x_attrs := attrs\<rparr> | None \<Rightarrow> x)
         else if tag = ext_msdos_size \<and> 2 \<le> lev \<and> 16 \<le> length data then
           Ok (header, case (read_u64 (take 8 data), read_u64 (take 8 (drop 8 data))) of
             (Some compr, Some orig) \<Rightarrow> x\<lparr>x_compressed_size := compr, x_original_size := orig\<rparr>
           | _ \<Rightarrow> x)
         else Ok (header, x))"

definition min_header_len :: "u8 \<Rightarrow> nat" where
  "min_header_len lev = (if lev = 3 then 5 else 3)"

definition extra_fits :: "u32 \<Rightarrow> nat \<Rightarrow> nat \<Rightarrow> extra_state \<Rightarrow> bool" where
  "extra_fits long plen extra_header_len x =
     (if long \<noteq> 0 then plen + extra_header_len - 2 \<le> unat long
      else length (x_headers x) + extra_header_len \<le> unat (x_compressed_size x))"

text \<open>The loop over the extra headers; the first argument bounds the number of tests of its condition.\<close>

fun extra_loop :: "nat \<Rightarrow> (nat \<Rightarrow> bool) \<Rightarrow> ('r, 'e) read_impl \<Rightarrow> u8 \<Rightarrow> u32 \<Rightarrow> nat \<Rightarrow> extra_state \<Rightarrow>
    ('r parser, 'e lha_error, extra_state) act" where
  "extra_loop 0 reserve rd lev long extra_header_len x = crash OutOfFuel"
| "extra_loop (Suc fuel) reserve rd lev long extra_header_len x =
     (if extra_header_len = 0 then ret x
      else if extra_header_len < min_header_len lev then header_error ''wrong extra header size''
      else bnd (get_state p_len) (\<lambda>plen.
        if \<not> extra_fits long plen extra_header_len x then header_error ''wrong header size''
        else bnd (read_limit_no_checksums reserve rd extra_header_len (x_headers x)) (\<lambda>buf.
          let start = length buf - extra_header_len in
          case inspect_extra lev (drop start buf) x of
            Ok (header, x') \<Rightarrow>
              bnd (modify (update_checksums_no_wrapping_sum header)) (\<lambda>_.
                case next_length (lev = 3) (drop (length header - counter_size (lev = 3)) header) of
                  Some l \<Rightarrow> extra_loop fuel reserve rd lev long (unat l) (x'\<lparr>x_headers := take start buf @ header\<rparr>)
                | None \<Rightarrow> crash Panicked)
          | Err msg \<Rightarrow> header_error msg
          | Fault q \<Rightarrow> crash q)))"

definition header_fuel :: "u32 \<Rightarrow> u64 \<Rightarrow> nat" where
  "header_fuel long compressed = unat long + unat compressed + 3"

definition check_long_len :: "('r, 'e) read_impl \<Rightarrow> u8 \<Rightarrow> u32 \<Rightarrow> ('r parser, 'e lha_error, unit) act" where
  "check_long_len rd lev long = bnd (get_state (\<lambda>p. p_len p mod 2 ^ 32)) (\<lambda>plen.
     if long \<noteq> 0 \<and> unat long \<noteq> plen \<and> lev = 2 then
       (if plen + 1 \<ge> 2 ^ 32 then crash Overflow
        else if unat long = plen + 1 then bnd (parser_read_u8 rd) (\<lambda>_. ret ())
        else if unat long + 2 \<ge> 2 ^ 32 then crash Overflow
        else if unat long + 2 \<noteq> plen then header_error ''wrong length of headers''
        else ret ())
     else ret ())"

definition check_header_crc :: "u16 option \<Rightarrow> ('r parser, 'e lha_error, unit) act" where
  "check_header_crc header_crc = bnd (get_state p_crc) (\<lambda>crc.
     case header_crc of
       Some c \<Rightarrow> if c \<noteq> sum16 crc then header_error ''wrong header CRC-16 checksum'' else ret ()
     | None \<Rightarrow> ret ())"

definition adjust_compressed_size :: "u8 \<Rightarrow> extra_state \<Rightarrow> ('r parser, 'e lha_error, u64) act" where
  "adjust_compressed_size lev x =
     (if lev = 1 then
        (if length (x_headers x) > unat (x_compressed_size x)
         then header_error ''wrong length of skip size''
         else ret (x_compressed_size x - of_nat (length (x_headers x))))
      else ret (x_compressed_size x))"

text \<open>The parts of the header the base header yields, in the order they are read.\<close>

record base_header =
  b_raw :: raw_header
  b_filename :: "u8 list"
  b_file_crc :: u16
  b_os_type :: u8
  b_area :: "u8 list"
  b_long :: u32
  b_first :: u32

definition read_base_header :: "('r, 'e) read_impl \<Rightarrow> u8 \<Rightarrow> ('r parser, 'e lha_error, base_header) act" where
  "read_base_header rd header_len =
     bnd (parser_read_u8 rd) (\<lambda>csum.
     bnd (modify (\<lambda>p. p\<lparr>p_csum := 0\<rparr>)) (\<lambda>_.
     bnd (read_raw_header rd) (\<lambda>raw. let lev = raw_lha_level raw in
     bnd (read_filename rd lev header_len) (\<lambda>name.
     bnd (parser_read_u16 rd) (\<lambda>crc.
     bnd (read_os_type rd lev) (\<lambda>os.
     bnd (read_extended_area rd lev header_len os) (\<lambda>(os, area).
     bnd (read_header_lens rd lev header_len csum) (\<lambda>(long, first).
     bnd (check_base_header lev csum long first) (\<lambda>_.
       ret \<lparr>b_raw = raw, b_filename = name, b_file_crc = crc, b_os_type = os, b_area = area,
         b_long = long, b_first = first\<rparr>)))))))))"

definition extra_start :: "raw_header \<Rightarrow> extra_state" where
  "extra_start raw = \<lparr>x_attrs = ucast (raw_msdos_attrs raw), x_original_size = from_le (raw_original_size raw),
     x_compressed_size = from_le (raw_compressed_size raw), x_header_crc = None, x_headers = []\<rparr>"

definition header_of :: "base_header \<Rightarrow> u64 \<Rightarrow> extra_state \<Rightarrow> lha_header" where
  "header_of b compressed x = \<lparr>level = raw_lha_level (b_raw b), compression = raw_compression (b_raw b),
     compressed_size = compressed, original_size = x_original_size x, filename = b_filename b,
     msdos_attrs = x_attrs x, last_modified = from_le (raw_last_modified (b_raw b)),
     os_type = b_os_type b, file_crc = b_file_crc b, extended_area = b_area b,
     first_header_len = b_first b, extra_headers = x_headers x\<rparr>"

definition parse_header :: "(nat \<Rightarrow> bool) \<Rightarrow> ('r, 'e) read_impl \<Rightarrow> ('r parser, 'e lha_error, lha_header option) act" where
  "parse_header reserve rd = bnd (read_u8_or_none rd) (\<lambda>first_byte.
     case first_byte of
       None \<Rightarrow> ret None
     | Some header_len \<Rightarrow>
         if header_len = 0 then ret None
         else bnd (read_base_header rd header_len) (\<lambda>b.
           let lev = raw_lha_level (b_raw b); x = extra_start (b_raw b) in
           bnd (extra_loop (header_fuel (b_long b) (x_compressed_size x)) reserve rd lev (b_long b)
               (unat (b_first b)) x) (\<lambda>x.
           bnd (check_long_len rd lev (b_long b)) (\<lambda>_.
           bnd (check_header_crc (x_header_crc x)) (\<lambda>_.
           bnd (adjust_compressed_size lev x) (\<lambda>compressed.
             ret (Some (header_of b compressed x))))))))"

definition lha_read :: "(nat \<Rightarrow> bool) \<Rightarrow> ('r, 'e) read_impl \<Rightarrow> ('r, 'e lha_error, lha_header option) act" where
  "lha_read reserve rd = (\<lambda>r. case parse_header reserve rd (parser_new r) of (res, p) \<Rightarrow> (res, p_rd p))"

end
