(* ===== verification/Header_Sound.thy ===== *)
theory Header_Sound
  imports Header_Parser
begin

text \<open>
  Soundness of the header parser: it returns on every input, the only fault is the \<open>u32\<close> overflow
  of the level 3 length check, an accepted header is what the input says, its checksums match, the
  reader is left exactly behind it, and the iterator over its extra headers never panics. The
  proofs follow the parser step by step with the triples \<open>safe\<close> of the prelude.
\<close>

subsection \<open>Chains of extra headers\<close>

text \<open>
  \<open>chain len32 n hs m\<close>: the extra headers \<open>hs\<close> follow each other, the first one has length \<open>n\<close>,
  each holds the length of the next one in its last bytes, and the last one announces \<open>m\<close>.
\<close>

fun chain :: "bool \<Rightarrow> nat \<Rightarrow> u8 list list \<Rightarrow> nat \<Rightarrow> bool" where
  "chain len32 n [] m \<longleftrightarrow> n = m"
| "chain len32 n (h # hs) m \<longleftrightarrow> length h = n \<and> counter_size len32 < n \<and>
     (\<exists>l. next_length len32 (drop (n - counter_size len32) h) = Some l \<and> chain len32 (unat l) hs m)"

lemma chain_snoc:
  "chain len32 n hs (length h) \<Longrightarrow> counter_size len32 < length h \<Longrightarrow>
    next_length len32 (drop (length h - counter_size len32) h) = Some l \<Longrightarrow> chain len32 n (hs @ [h]) (unat l)"
  by (induction hs arbitrary: n) auto

definition header_body :: "bool \<Rightarrow> u8 list \<Rightarrow> u8 list" where
  "header_body len32 h = take (length h - counter_size len32) h"

lemma next_length_total: "length bs = counter_size len32 \<Longrightarrow> \<exists>l. next_length len32 bs = Some l"
  by (auto simp: next_length_def counter_size_def read_u16_def read_u32_def)

lemma extra_collect_chain:
  "chain len32 n hs 0 \<Longrightarrow> n < 2 ^ 32 \<Longrightarrow>
    extra_collect \<lparr>it_data = concat hs, it_header_length = of_nat n, it_header_len32 = len32\<rparr> =
      Ok (map (header_body len32) hs)"
proof (induction hs arbitrary: n)
  case Nil
  then show ?case by (simp add: extra_collect.simps extra_next_def)
next
  case (Cons h hs)
  then obtain l where h: "length h = n" "counter_size len32 < n"
      and l: "next_length len32 (drop (n - counter_size len32) h) = Some l"
      and rest: "chain len32 (unat l) hs 0" by auto
  have "unat l < 2 ^ 32" using unsigned_less [of l, where ?'a = nat] by simp
  note IH = Cons.IH [OF rest this]
  have "unat (of_nat n :: u32) = n" using Cons.prems(2) by (simp add: unat_of_nat)
  then show ?case using h l IH
    by (subst extra_collect.simps) (simp add: extra_next_def Let_def header_body_def)
qed

lemma extra_collect_step:
  assumes "extra_collect it = (Ok hs :: ('e, u8 list list) outcome)" and "(extra_next it :: ('e, _) outcome \<times> _) = (res, it')"
  shows "(res = Ok None \<and> hs = []) \<or> (\<exists>h hs'. res = Ok (Some h) \<and> hs = h # hs' \<and>
    extra_collect it' = (Ok hs' :: ('e, u8 list list) outcome))"
  using assms by (subst (asm) extra_collect.simps) (auto split: outcome.splits option.splits)

subsection \<open>Where the parser stands in its input\<close>

text \<open>
  With \<open>cs\<close> the bytes of the input before the header is read, \<open>pos contents cs k p\<close> says that the parser
  has consumed, counted and digested exactly the first \<open>k\<close> of them; \<open>summed\<close> adds that the wrapping
  checksum is that of the bytes behind the first two.
\<close>

definition pos :: "('r \<Rightarrow> u8 list) \<Rightarrow> u8 list \<Rightarrow> nat \<Rightarrow> 'r parser \<Rightarrow> bool" where
  "pos contents cs k p \<longleftrightarrow> p_len p = k \<and> k \<le> length cs \<and> contents (p_rd p) = drop k cs \<and>
     p_crc p = digest (take k cs) crc_new"

definition summed :: "('r \<Rightarrow> u8 list) \<Rightarrow> u8 list \<Rightarrow> nat \<Rightarrow> 'r parser \<Rightarrow> bool" where
  "summed contents cs k p \<longleftrightarrow> pos contents cs k p \<and> 2 \<le> k \<and> p_csum p = sum_list (drop 2 (take k cs))"

text \<open>Where the extended area of a level 0 or 1 header ends.\<close>

definition area_end :: "u8 \<Rightarrow> u8 \<Rightarrow> nat" where
  "area_end lev header_len = (if lev = 0 then unat header_len + 2 else unat header_len)"

text \<open>The number of bytes of a level 2 or 3 header before its extra headers.\<close>

definition long_base_len :: "u8 \<Rightarrow> nat" where
  "long_base_len lev = (if lev = 2 then 26 else 32)"

text \<open>
  Where the fields of the base header are in the input \<open>cs\<close>: the CRC-16 of the file is behind the file name of a
  level 0 or 1 header and at a fixed place in one of level 2 or 3, the byte for the operating system
  follows it (a level 0 header may end before it), then the extended area of a level 0 or 1 header; the
  length of the first extra header is the last field.
\<close>

definition crc_at :: "u8 list \<Rightarrow> nat" where
  "crc_at cs = (if cs ! 20 < 2 then 22 + unat (cs ! 21) else 21)"

definition os_at :: "u8 list \<Rightarrow> u8" where
  "os_at cs = (if cs ! 20 = 0 \<and> unat (cs ! 0) \<le> crc_at cs then 0 else cs ! (crc_at cs + 2))"

definition area_at :: "u8 list \<Rightarrow> u8 list" where
  "area_at cs = (if cs ! 20 < 2 then drop (crc_at cs + 3) (take (area_end (cs ! 20) (cs ! 0)) cs) else [])"

definition first_at :: "u8 list \<Rightarrow> u32" where
  "first_at cs =
     (if cs ! 20 = 0 then 0 else if cs ! 20 = 1 then from_le (take 2 (drop (unat (cs ! 0)) cs))
      else if cs ! 20 = 2 then from_le (take 2 (drop 24 cs)) else from_le (take 4 (drop 28 cs)))"

text \<open>
  The level 3 headers whose length check overflows: the length announced for the first extra header does
  not fit into a \<open>u32\<close> together with the 32 bytes of the base header.
\<close>

definition level3_overflows :: "u8 list \<Rightarrow> bool" where
  "level3_overflows cs \<longleftrightarrow> 32 \<le> length cs \<and> cs ! 0 = 4 \<and> cs ! 1 = 0 \<and> cs ! 20 = 3 \<and>
     2 ^ 32 \<le> 32 + le_bytes (take 4 (drop 28 cs))"

text \<open>What the base header read from \<open>cs\<close> is, and where the parser stands behind it.\<close>

definition base_ok :: "('r \<Rightarrow> u8 list) \<Rightarrow> u8 list \<Rightarrow> base_header \<Rightarrow> 'r parser \<Rightarrow> bool" where
  "base_ok contents cs b p \<longleftrightarrow> (let lev = raw_lha_level (b_raw b) in
     b_raw b = raw_header_of (take 19 (drop 2 cs)) \<and> lev = cs ! 20 \<and> lev \<le> 3 \<and>
     length (raw_compression (b_raw b)) = 5 \<and>
     (lev < 2 \<longrightarrow> pos contents cs (unat (cs ! 0) + 2) p \<and>
        cs ! 1 = sum_list (take (unat (cs ! 0)) (drop 2 cs)) \<and> b_long b = 0 \<and>
        b_filename b = take (unat (cs ! 21)) (drop 22 cs) \<and> length (b_filename b) = unat (cs ! 21)) \<and>
     (2 \<le> lev \<longrightarrow> pos contents cs (long_base_len lev) p \<and> b_filename b = [] \<and> b_area b = [] \<and>
        long_base_len lev + unat (b_first b) \<le> unat (b_long b)) \<and>
     (lev = 0 \<longrightarrow> b_first b = 0) \<and> (lev \<noteq> 3 \<longrightarrow> unat (b_first b) < 2 ^ 16) \<and>
     (lev = 2 \<longrightarrow> b_long b = from_le [cs ! 0, cs ! 1]) \<and>
     b_file_crc b = from_le (take 2 (drop (crc_at cs) cs)) \<and> b_os_type b = os_at cs \<and> b_area b = area_at cs \<and>
     b_first b = first_at cs)"

lemma level_cases:
  assumes "(lev :: u8) \<le> 3"
  obtains "lev = 0" | "lev = 1" | "lev = 2" | "lev = 3"
proof -
  from assms have "unat lev \<le> 3" by (simp add: word_le_nat_alt)
  then have "unat lev = 0 \<or> unat lev = 1 \<or> unat lev = 2 \<or> unat lev = 3" by arith
  then show thesis using that by (auto simp: word_unat_eq_iff)
qed

lemma ucast_of_nat_16: "n < 2 ^ 16 \<Longrightarrow> (ucast (of_nat n :: u16) :: u32) = of_nat n"
  by (simp add: word_unat_eq_iff unsigned_ucast_eq unat_of_nat take_bit_nat_eq_self)

context reader begin

lemma safe_on_rd_exact:
  assumes "\<And>p r. P p \<Longrightarrow> n \<le> length (contents (p_rd p)) \<Longrightarrow> contents r = drop n (contents (p_rd p)) \<Longrightarrow>
    Q (take n (contents (p_rd p))) (p\<lparr>p_rd := r\<rparr>)"
  shows "safe F P (on_rd (rd_exact rd n)) Q"
proof (rule safeI)
  fix p assume "P p"
  show "case on_rd (rd_exact rd n) p of (Ok x, t) \<Rightarrow> Q x t | (Err e, t) \<Rightarrow> True | (Fault q, t) \<Rightarrow> q \<in> F"
    using assms [OF \<open>P p\<close>]
    by (cases rule: rd_exact_cases [of n "p_rd p"]) (simp_all add: on_rd_def map_err_def zoom_def)
qed

lemma safe_read_exact:
  assumes "\<And>p r. P p \<Longrightarrow> n \<le> length (contents (p_rd p)) \<Longrightarrow> contents r = drop n (contents (p_rd p)) \<Longrightarrow>
    Q (take n (contents (p_rd p))) (update_checksums (take n (contents (p_rd p))) (p\<lparr>p_rd := r\<rparr>))"
  shows "safe F P (parser_read_exact rd n) Q"
  unfolding parser_read_exact_def
  apply (rule safe_bnd [where R = "\<lambda>buf p. Q buf (update_checksums buf p)"])
   apply (rule safe_on_rd_exact) using assms apply blast
  apply (rule safe_bnd [where R = "\<lambda>_. Q _"])
   apply (rule safe_modify) apply assumption
  apply (rule safe_ret) apply assumption
  done

lemma pos_advance:
  assumes "pos contents cs k p" and "n \<le> length (contents (p_rd p))" and "contents r = drop n (contents (p_rd p))"
  shows "take n (contents (p_rd p)) = take n (drop k cs)" and "length (take n (drop k cs)) = n"
    and "pos contents cs (k + n) (update_checksums (take n (drop k cs)) (p\<lparr>p_rd := r\<rparr>))"
  using assms by (auto simp: pos_def update_checksums_def update_checksums_no_wrapping_sum_def Let_def add.commute
      take_add_drop digest_append)

lemma summed_advance:
  assumes "summed contents cs k p" and "n \<le> length (contents (p_rd p))" and "contents r = drop n (contents (p_rd p))"
  shows "summed contents cs (k + n) (update_checksums (take n (contents (p_rd p))) (p\<lparr>p_rd := r\<rparr>))"
proof -
  from assms(1) have "take n (contents (p_rd p)) = take n (drop k cs)" and k: "2 \<le> k" "k \<le> length cs"
    by (simp_all add: summed_def pos_def)
  moreover have "drop 2 (take (k + n) cs) = drop 2 (take k cs) @ take n (drop k cs)"
    using k by (simp add: take_add)
  ultimately show ?thesis using assms(1) pos_advance [of cs k p n r] assms(2,3)
    by (simp add: summed_def) (simp add: update_checksums_def Let_def update_checksums_no_wrapping_sum_def
        wrapping_csum_def add.commute)
qed

lemma safe_read_pos: "safe F (pos contents cs k) (parser_read_exact rd n) (\<lambda>bs p. bs = take n (drop k cs) \<and> length bs = n \<and> pos contents cs (k + n) p)"
proof (rule safe_read_exact)
  fix p r assume "pos contents cs k p" "n \<le> length (contents (p_rd p))" "contents r = drop n (contents (p_rd p))"
  note advance = pos_advance [OF this]
  show "take n (contents (p_rd p)) = take n (drop k cs) \<and> length (take n (contents (p_rd p))) = n \<and>
    pos contents cs (k + n) (update_checksums (take n (contents (p_rd p))) (p\<lparr>p_rd := r\<rparr>))"
    unfolding advance(1) using advance(2,3) by simp
qed

lemma safe_read_summed:
  "safe F (summed contents cs k) (parser_read_exact rd n) (\<lambda>bs p. bs = take n (drop k cs) \<and> length bs = n \<and> summed contents cs (k + n) p)"
proof (rule safe_read_exact)
  fix p r assume p: "summed contents cs k p" "n \<le> length (contents (p_rd p))" "contents r = drop n (contents (p_rd p))"
  then have "pos contents cs k p" by (simp add: summed_def)
  note advance = pos_advance [OF this p(2,3)]
  show "take n (contents (p_rd p)) = take n (drop k cs) \<and> length (take n (contents (p_rd p))) = n \<and>
    summed contents cs (k + n) (update_checksums (take n (contents (p_rd p))) (p\<lparr>p_rd := r\<rparr>))"
    using advance(1,2) summed_advance [OF p] by simp
qed

lemma take_one_drop: "length (take 1 (drop k cs)) = 1 \<Longrightarrow> k < length cs \<and> take 1 (drop k cs) = [cs ! k]"
  by (cases "k < length cs") (auto simp: take_Suc hd_drop_conv_nth)

lemma from_le_u8: "from_le [b] = (b :: u8)"
  by (simp add: from_le_def)

lemma safe_read_u8_pos:
  "safe F (pos contents cs k) (parser_read_u8 rd) (\<lambda>b p. b = cs ! k \<and> k < length cs \<and> pos contents cs (k + 1) p)"
  unfolding parser_read_u8_def
proof (rule safe_bnd [OF safe_read_pos], rule safe_ret)
  fix bs p assume "bs = take 1 (drop k cs) \<and> length bs = 1 \<and> pos contents cs (k + 1) p"
  then show "from_le bs = cs ! k \<and> k < length cs \<and> pos contents cs (k + 1) p"
    using take_one_drop [of k cs] by (auto simp: from_le_u8)
qed

lemma safe_read_u8:
  "safe F (summed contents cs k) (parser_read_u8 rd) (\<lambda>b p. b = cs ! k \<and> k < length cs \<and> summed contents cs (k + 1) p)"
  unfolding parser_read_u8_def
proof (rule safe_bnd [OF safe_read_summed], rule safe_ret)
  fix bs p assume "bs = take 1 (drop k cs) \<and> length bs = 1 \<and> summed contents cs (k + 1) p"
  then show "from_le bs = cs ! k \<and> k < length cs \<and> summed contents cs (k + 1) p"
    using take_one_drop [of k cs] by (auto simp: from_le_u8)
qed

lemma safe_read_u16:
  "safe F (summed contents cs k) (parser_read_u16 rd) (\<lambda>w p. w = from_le (take 2 (drop k cs)) \<and> summed contents cs (k + 2) p)"
  unfolding parser_read_u16_def
  by (rule safe_bnd [OF safe_read_summed], rule safe_ret) simp

lemma safe_read_u32:
  "safe F (summed contents cs k) (parser_read_u32 rd) (\<lambda>w p. w = from_le (take 4 (drop k cs)) \<and> summed contents cs (k + 4) p)"
  unfolding parser_read_u32_def
  by (rule safe_bnd [OF safe_read_summed], rule safe_ret) simp

lemma safe_header_error: "safe F P (header_error msg) Q"
  unfolding header_error_def by (rule safe_fail)

lemma safe_read_limit_no_checksums:
  assumes "\<And>p r. P p \<Longrightarrow> n \<le> length (contents (p_rd p)) \<Longrightarrow> contents r = drop n (contents (p_rd p)) \<Longrightarrow>
    Q (buf @ take n (contents (p_rd p))) (p\<lparr>p_rd := r\<rparr>)"
  shows "safe F P (read_limit_no_checksums reserve rd n buf) Q"
  unfolding read_limit_no_checksums_def
  apply (rule safe_if)
   apply (rule safe_bnd [where R = "\<lambda>bs. Q (buf @ bs)"])
    apply (rule safe_on_rd_exact, rule assms; assumption)
   apply (rule safe_ret, assumption)
  apply (rule safe_fail)
  done

lemma safe_read_limit:
  "safe F (summed contents cs k) (read_limit rd n) (\<lambda>bs p. bs = take n (drop k cs) \<and> length bs = n \<and> summed contents cs (k + n) p)"
  unfolding read_limit_def
  apply (rule safe_bnd [where R = "\<lambda>bs p. bs = take n (drop k cs) \<and> length bs = n \<and> summed contents cs (k + n) (update_checksums bs p)"])
   apply (rule safe_read_limit_no_checksums)
   apply (use summed_advance pos_advance in \<open>fastforce simp: summed_def\<close>)
  apply (rule safe_bnd [where R = "\<lambda>_ p. _ p"], rule safe_modify, assumption)
  apply (rule safe_ret, assumption)
  done

lemma safe_read_raw_header:
  "safe F (summed contents cs 2) (read_raw_header rd) (\<lambda>raw p. raw = raw_header_of (take 19 (drop 2 cs)) \<and>
    raw_lha_level raw = cs ! 20 \<and> raw_lha_level raw \<le> 3 \<and> length (raw_compression raw) = 5 \<and> summed contents cs 21 p)"
  unfolding read_raw_header_def raw_header_size_def Let_def
proof (rule safe_bnd [OF safe_read_summed], rule safe_if, rule safe_header_error, rule safe_ret)
  fix bs p
  assume bs: "bs = take 19 (drop 2 cs) \<and> length bs = 19 \<and> summed contents cs (2 + 19) p"
    and lev: "\<not> 3 < raw_lha_level (raw_header_of bs)"
  have "(2 :: nat) + 19 = 21" by simp
  moreover have "raw_lha_level (raw_header_of bs) = cs ! 20" "length (raw_compression (raw_header_of bs)) = 5"
    using bs by (auto simp: raw_header_of_def)
  ultimately show "raw_header_of bs = raw_header_of (take 19 (drop 2 cs)) \<and>
    raw_lha_level (raw_header_of bs) = cs ! 20 \<and> raw_lha_level (raw_header_of bs) \<le> 3 \<and>
    length (raw_compression (raw_header_of bs)) = 5 \<and> summed contents cs 21 p"
    using bs lev by simp
qed

lemma safe_read_filename:
  "safe F (summed contents cs 21) (read_filename rd lev header_len) (\<lambda>name p.
    if lev < 2 then name = take (unat (cs ! 21)) (drop 22 cs) \<and> length name = unat (cs ! 21) \<and>
      22 + length name \<le> unat header_len \<and> summed contents cs (22 + length name) p
    else name = [] \<and> summed contents cs 21 p)"
  unfolding read_filename_def
proof (rule safe_if)
  assume lev: "lev < 2"
  have "safe F (summed contents cs 21) (bnd (parser_read_u8 rd) (\<lambda>filename_len. bnd (get_state p_len) (\<lambda>plen.
      if unat header_len < plen + unat filename_len then header_error ''wrong header size''
      else read_limit rd (unat filename_len))))
    (\<lambda>name p. name = take (unat (cs ! 21)) (drop 22 cs) \<and> length name = unat (cs ! 21) \<and>
      22 + length name \<le> unat header_len \<and> summed contents cs (22 + length name) p)"
  proof (rule safe_bnd [OF safe_read_u8], rule safe_get, rule safe_if, rule safe_header_error)
    fix l :: u8 and plen
    assume fits: "\<not> unat header_len < plen + unat l"
    show "safe F (\<lambda>p. (l = cs ! 21 \<and> 21 < length cs \<and> summed contents cs (21 + 1) p) \<and> p_len p = plen)
      (read_limit rd (unat l)) (\<lambda>name p. name = take (unat (cs ! 21)) (drop 22 cs) \<and>
        length name = unat (cs ! 21) \<and> 22 + length name \<le> unat header_len \<and> summed contents cs (22 + length name) p)"
    proof (rule safe_fact [where c = "l = cs ! 21 \<and> plen = 22"])
      assume l: "l = cs ! 21 \<and> plen = 22"
      show ?thesis
        by (rule safe_conseq [OF safe_read_limit [of F cs 22 "unat l"]]) (use fits l in auto)
    qed (auto simp: summed_def pos_def)
  qed
  with lev show "safe F (summed contents cs 21) (bnd (parser_read_u8 rd) (\<lambda>filename_len. bnd (get_state p_len) (\<lambda>plen.
      if unat header_len < plen + unat filename_len then header_error ''wrong header size''
      else read_limit rd (unat filename_len))))
    (\<lambda>name p. if lev < 2 then name = take (unat (cs ! 21)) (drop 22 cs) \<and> length name = unat (cs ! 21) \<and>
      22 + length name \<le> unat header_len \<and> summed contents cs (22 + length name) p
    else name = [] \<and> summed contents cs 21 p)" by simp
qed (rule safe_ret, simp)

lemma safe_read_os_type:
  "safe F (summed contents cs k) (read_os_type rd lev) (\<lambda>os p. if lev = 0 then os = 0 \<and> summed contents cs k p
    else os = cs ! k \<and> summed contents cs (k + 1) p)"
proof (cases "lev = 0")
  case True
  then show ?thesis by (simp add: read_os_type_def) (rule safe_ret, simp)
next
  case False
  then have "read_os_type rd lev = (parser_read_u8 rd :: ('r parser, 'e lha_error, u8) act)"
    by (simp add: read_os_type_def word_gt_0)
  then show ?thesis using False safe_conseq [OF safe_read_u8 [of F cs k]] by simp
qed

lemma safe_get_len:
  assumes "safe F (summed contents cs k) (f k) Q"
  shows "safe F (summed contents cs k) (bnd (get_state p_len) f) Q"
proof (rule safe_get)
  fix plen
  show "safe F (\<lambda>p. summed contents cs k p \<and> p_len p = plen) (f plen) Q"
  proof (rule safe_fact [where c = "plen = k"])
    assume "plen = k"
    show ?thesis unfolding \<open>plen = k\<close> by (rule safe_conseq [OF assms]) auto
  qed (auto simp: summed_def pos_def)
qed

lemma safe_read_area_bytes:
  "safe F (summed contents cs k)
    (if n \<noteq> 0 then bnd (read_limit rd n) (\<lambda>area. ret (os, area)) else ret (os, []))
    (\<lambda>(os', area) p. os' = os \<and> area = take n (drop k cs) \<and> summed contents cs (k + n) p)"
proof (rule safe_if)
  show "safe F (summed contents cs k) (bnd (read_limit rd n) (\<lambda>area. ret (os, area)))
    (\<lambda>(os', area) p. os' = os \<and> area = take n (drop k cs) \<and> summed contents cs (k + n) p)"
    by (rule safe_bnd [OF safe_read_limit], rule safe_ret) simp
  assume "\<not> n \<noteq> 0"
  then show "safe F (summed contents cs k) (ret (os, []))
    (\<lambda>(os', area) p. os' = os \<and> area = take n (drop k cs) \<and> summed contents cs (k + n) p)"
    by (intro safe_ret) simp
qed

lemma safe_read_extended_area:
  assumes "2 \<le> k"
  shows "safe F (summed contents cs k) (read_extended_area rd lev header_len os)
    (\<lambda>(os', area) p. if lev < 2 then k \<le> area_end lev header_len \<and> summed contents cs (area_end lev header_len) p \<and>
        (os', area) = (let n = area_end lev header_len - k in
          if n \<noteq> 0 \<and> lev = 0 then (cs ! k, take (n - 1) (drop (k + 1) cs)) else (os, take n (drop k cs)))
      else os' = os \<and> area = [] \<and> summed contents cs k p)"
proof -
  let ?m = "if lev = 0 then k - 2 else k"
  let ?n = "unat header_len - ?m"
  let ?os = "if ?n \<noteq> 0 \<and> lev = 0 then cs ! k else os"
  let ?l = "if ?n \<noteq> 0 \<and> lev = 0 then 1 else 0"
  have "safe F (summed contents cs k)
     (bnd (if ?n \<noteq> 0 \<and> lev = 0 then bnd (parser_read_u8 rd) (\<lambda>os'. ret (os', ?n - 1)) else ret (os, ?n))
        (\<lambda>(os', extended_len). if extended_len \<noteq> 0
           then bnd (read_limit rd extended_len) (\<lambda>area. ret (os', area)) else ret (os', [])))
     (\<lambda>(os', area) p. summed contents cs (k + ?n) p \<and> os' = ?os \<and> area = take (?n - ?l) (drop (k + ?l) cs))"
  proof (rule safe_bnd [where R = "\<lambda>(os', n) p. (os' = ?os \<and> n = ?n - ?l) \<and> summed contents cs (k + ?l) p"])
    show "safe F (summed contents cs k) (if ?n \<noteq> 0 \<and> lev = 0 then bnd (parser_read_u8 rd) (\<lambda>os'. ret (os', ?n - 1)) else ret (os, ?n))
      (\<lambda>(os', n) p. (os' = ?os \<and> n = ?n - ?l) \<and> summed contents cs (k + ?l) p)"
    proof (rule safe_if)
      assume "?n \<noteq> 0 \<and> lev = 0"
      then show "safe F (summed contents cs k) (bnd (parser_read_u8 rd) (\<lambda>os'. ret (os', ?n - 1)))
        (\<lambda>(os', n) p. (os' = ?os \<and> n = ?n - ?l) \<and> summed contents cs (k + ?l) p)"
        by (intro safe_bnd [OF safe_read_u8] safe_ret) auto
    qed (rule safe_ret, auto)
    fix on :: "u8 \<times> nat"
    obtain os' n where on: "on = (os', n)" by (cases on)
    show "safe F (case on of (os', n) \<Rightarrow> \<lambda>p. (os' = ?os \<and> n = ?n - ?l) \<and> summed contents cs (k + ?l) p)
      (case on of (os', extended_len) \<Rightarrow> if extended_len \<noteq> 0
         then bnd (read_limit rd extended_len) (\<lambda>area. ret (os', area)) else ret (os', []))
      (\<lambda>(os', area) p. summed contents cs (k + ?n) p \<and> os' = ?os \<and> area = take (?n - ?l) (drop (k + ?l) cs))"
      unfolding on prod.case
    proof (rule safe_fact [where c = "os' = ?os \<and> n = ?n - ?l"], blast)
      assume n: "os' = ?os \<and> n = ?n - ?l"
      have "k + ?l + n = k + ?n" using n by auto
      note area = safe_read_area_bytes [of F cs "k + ?l" n os', unfolded this]
      show "safe F (\<lambda>p. (os' = ?os \<and> n = ?n - ?l) \<and> summed contents cs (k + ?l) p)
        (if n \<noteq> 0 then bnd (read_limit rd n) (\<lambda>area. ret (os', area)) else ret (os', []))
        (\<lambda>(os', area) p. summed contents cs (k + ?n) p \<and> os' = ?os \<and> area = take (?n - ?l) (drop (k + ?l) cs))"
        by (rule safe_conseq [OF area]) (use n in blast)+
    qed
  qed
  note body = this
  show ?thesis
    unfolding read_extended_area_def
  proof (rule safe_if)
    assume lev: "lev < 2"
    let ?Q = "\<lambda>(os', area) p. if lev < 2 then k \<le> area_end lev header_len \<and> summed contents cs (area_end lev header_len) p \<and>
        (os', area) = (let n = area_end lev header_len - k in
          if n \<noteq> 0 \<and> lev = 0 then (cs ! k, take (n - 1) (drop (k + 1) cs)) else (os, take n (drop k cs)))
      else os' = os \<and> area = [] \<and> summed contents cs k p"
    show "safe F (summed contents cs k) (bnd (get_state p_len) (\<lambda>plen. if lev = 0 \<and> plen < 2 then crash Overflow
        else (let min_len = (if lev = 0 then plen - 2 else plen) in
          if unat header_len < min_len then header_error ''wrong header size''
          else (let extended_len = unat header_len - min_len in
            bnd (if extended_len \<noteq> 0 \<and> lev = 0
                 then bnd (parser_read_u8 rd) (\<lambda>os'. ret (os', extended_len - 1))
                 else ret (os, extended_len))
              (\<lambda>(os', extended_len).
                if extended_len \<noteq> 0
                then bnd (read_limit rd extended_len) (\<lambda>area. ret (os', area))
                else ret (os', [])))))) ?Q"
    proof (rule safe_get_len)
      have no_crash: "\<not> (lev = 0 \<and> k < 2)" using assms by simp
      have fits: "unat header_len < ?m \<or> k + ?n = area_end lev header_len"
        using assms lev by (auto simp: area_end_def)
      show "safe F (summed contents cs k) (if lev = 0 \<and> k < 2 then crash Overflow
        else (let min_len = ?m in
          if unat header_len < min_len then header_error ''wrong header size''
          else (let extended_len = unat header_len - min_len in
            bnd (if extended_len \<noteq> 0 \<and> lev = 0
                 then bnd (parser_read_u8 rd) (\<lambda>os'. ret (os', extended_len - 1))
                 else ret (os, extended_len))
              (\<lambda>(os', extended_len).
                if extended_len \<noteq> 0
                then bnd (read_limit rd extended_len) (\<lambda>area. ret (os', area))
                else ret (os', []))))) ?Q"
        unfolding Let_def
      proof (rule safe_if, use no_crash in blast, rule safe_if, rule safe_header_error, goal_cases)
        case 1
        with fits have eq: "k + ?n = area_end lev header_len" by blast
        then have end_at: "k \<le> area_end lev header_len" "?n = area_end lev header_len - k" by linarith+
        show ?case
          unfolding end_at(2)
          by (rule safe_conseq [OF body [unfolded end_at(2) le_add_diff_inverse [OF end_at(1)]]], assumption)
            (use lev end_at(1) in auto)
      qed
    qed
  qed (rule safe_ret, simp)
qed

lemma ucast_from_le: "length bs \<le> 2 \<Longrightarrow> (ucast (from_le bs :: u16) :: u32) = from_le bs \<and> unat (from_le bs :: u32) < 65536"
proof -
  assume "length bs \<le> 2"
  then have "le_bytes bs < 2 ^ 16" using le_bytes_bound [of bs] power_increasing [of "length bs" 2 "256 :: nat"] by simp
  then show ?thesis by (simp add: from_le_def ucast_of_nat_16 unat_of_nat)
qed

lemma two_not_le: "\<not> (2 :: u8) \<le> 1" "\<not> (2 :: u8) \<le> 0"
  by (simp_all add: word_le_nat_alt)

lemma safe_read_header_lens:
  "safe F (summed contents cs k) (read_header_lens rd lev header_len csum) (\<lambda>(long, first) p.
     if lev = 1 then long = 0 \<and> unat first < 2 ^ 16 \<and> first = from_le (take 2 (drop k cs)) \<and> summed contents cs (k + 2) p
     else if lev = 2 then long = from_le [header_len, csum] \<and> unat first < 2 ^ 16 \<and> first = from_le (take 2 (drop k cs)) \<and>
       summed contents cs (k + 2) p
     else if lev = 3 then header_len = 4 \<and> csum = 0 \<and> first = from_le (take 4 (drop (k + 4) cs)) \<and> summed contents cs (k + 8) p
     else long = 0 \<and> first = 0 \<and> summed contents cs k p)"
  (is "safe F ?P _ ?Q")
proof -
  have u16: "unat (ucast w :: u32) < 65536" for w :: u16
    using unat_u16_less [of w] by (simp add: unsigned_ucast_eq) (rule le_less_trans [OF take_bit_nat_less_eq_self])
  have "safe F ?P (bnd (parser_read_u16 rd) (\<lambda>first. ret (0, ucast first))) ?Q" if "lev = 1"
    by (rule safe_bnd [OF safe_read_u16], rule safe_ret) (simp add: that u16 ucast_from_le del: One_nat_def)
  moreover have "safe F ?P (bnd (parser_read_u16 rd) (\<lambda>first. ret (from_le [header_len, csum], ucast first))) ?Q"
    if "lev = 2"
    by (rule safe_bnd [OF safe_read_u16], rule safe_ret) (simp add: that u16 ucast_from_le)
  moreover have "safe F ?P (bnd (parser_read_u32 rd) (\<lambda>long. bnd (parser_read_u32 rd) (\<lambda>first.
      if header_len \<noteq> 4 \<or> csum \<noteq> 0 then header_error ''invalid header'' else ret (long, first)))) ?Q"
    if "lev = 3"
  proof (rule safe_bnd [OF safe_read_u32])
    fix long
    show "safe F (\<lambda>p. long = from_le (take 4 (drop k cs)) \<and> summed contents cs (k + 4) p)
      (bnd (parser_read_u32 rd) (\<lambda>first.
        if header_len \<noteq> 4 \<or> csum \<noteq> 0 then header_error ''invalid header'' else ret (long, first))) ?Q"
      apply (rule safe_bnd [OF safe_conseq [OF safe_read_u32 [of F cs "k + 4"]]], blast, assumption)
      apply (rule safe_if, rule safe_header_error, rule safe_ret)
      apply (simp add: that add.commute [of k])
      done
  qed
  moreover have "safe F ?P (ret (0, 0)) ?Q" if "lev \<noteq> 1" "lev \<noteq> 2" "lev \<noteq> 3"
    by (rule safe_ret) (simp add: that)
  ultimately show ?thesis
    unfolding read_header_lens_def by (intro safe_if) blast+
qed

lemma safe_check_base_header:
  assumes "lev = 3 \<Longrightarrow> 2 ^ 32 \<le> k + unat first \<Longrightarrow> k \<le> length cs \<Longrightarrow> Overflow \<in> F" and "lev \<le> 3" and "k < 2 ^ 31" and "lev \<noteq> 3 \<Longrightarrow> unat first < 2 ^ 16"
  shows "safe F (summed contents cs k) (check_base_header lev csum long first) (\<lambda>_ p. summed contents cs k p \<and>
    (if lev < 2 then csum = sum_list (drop 2 (take k cs)) else k + unat first \<le> unat long))"
  unfolding check_base_header_def
proof (rule safeI)
  fix p assume p: "summed contents cs k p"
  then have "p_len p = k" "p_csum p = sum_list (drop 2 (take k cs))" "k \<le> length cs" by (simp_all add: summed_def pos_def)
  moreover have "k mod 2 ^ 32 = k" using assms(3) by simp
  moreover have "k + unat first < 2 ^ 32" if "lev \<noteq> 3" using assms(3,4) that by simp
  ultimately show "case bnd (get_state (\<lambda>p. (p_len p, p_csum p))) (\<lambda>(plen, pcsum).
     if lev < 2 then (if csum \<noteq> pcsum then header_error ''invalid header level checksum'' else ret ())
     else if plen mod 2 ^ 32 + unat first \<ge> 2 ^ 32 then crash Overflow
     else if unat long < plen mod 2 ^ 32 + unat first then header_error ''wrong header size''
     else ret ()) p of (Ok x, t) \<Rightarrow> summed contents cs k t \<and>
       (if lev < 2 then csum = sum_list (drop 2 (take k cs)) else k + unat first \<le> unat long)
     | (Err e, t) \<Rightarrow> True | (Fault q, t) \<Rightarrow> q \<in> F"
    using p assms(1) by (cases "lev = 3") (auto simp: bnd_def act_simps header_error_def)
qed

lemma safe_base_tail:
  assumes "level3_overflows cs \<Longrightarrow> Overflow \<in> F" and "lev \<le> 3" and "lev = raw_lha_level raw" and "lev = cs ! 20"
    and "raw = raw_header_of (take 19 (drop 2 cs))" and "length (raw_compression raw) = 5"
    and "header_len = cs ! 0" and "csum = cs ! 1" and "k < 2 ^ 30"
    and "if lev < 2 then k = area_end lev header_len \<and> name = take (unat (cs ! 21)) (drop 22 cs) \<and>
      length name = unat (cs ! 21) else k = 24 \<and> name = [] \<and> area = []"
    and "crc = from_le (take 2 (drop (crc_at cs) cs))" and "os = os_at cs" and "area = area_at cs"
  shows "safe F (summed contents cs k) (bnd (read_header_lens rd lev header_len csum) (\<lambda>(long, first).
     bnd (check_base_header lev csum long first) (\<lambda>_.
       ret \<lparr>b_raw = raw, b_filename = name, b_file_crc = crc, b_os_type = os, b_area = area,
         b_long = long, b_first = first\<rparr>))) (base_ok contents cs)"
proof (rule safe_bnd [OF safe_read_header_lens])
  fix lens :: "u32 \<times> u32"
  obtain long first where lens: "lens = (long, first)" by (cases lens)
  let ?k = "if lev = 1 \<or> lev = 2 then k + 2 else if lev = 3 then k + 8 else k"
  let ?facts = "(lev < 2 \<longrightarrow> long = 0) \<and> (lev = 2 \<longrightarrow> long = from_le [header_len, csum]) \<and>
    (lev \<noteq> 3 \<longrightarrow> unat first < 2 ^ 16) \<and> first = first_at cs \<and> (lev = 3 \<longrightarrow> header_len = 4 \<and> csum = 0)"
  have "safe F (\<lambda>p. ?facts \<and> summed contents cs ?k p)
    (bnd (check_base_header lev csum long first) (\<lambda>_.
       ret \<lparr>b_raw = raw, b_filename = name, b_file_crc = crc, b_os_type = os, b_area = area,
         b_long = long, b_first = first\<rparr>)) (base_ok contents cs)"
  proof (rule safe_fact [where c = ?facts], blast)
    assume facts: ?facts
    have small: "?k < 2 ^ 31" using assms(9) by auto
    have overflow: "Overflow \<in> F" if "lev = 3" "2 ^ 32 \<le> ?k + unat first" "?k \<le> length cs"
    proof (rule assms(1))
      have "k = 24" using assms(10) that(1) by simp
      moreover have "unat first = le_bytes (take 4 (drop 28 cs))"
        using facts that(1) assms(4) [symmetric] by (simp add: first_at_def unat_from_le)
      ultimately show "level3_overflows cs"
        using that facts assms(4,7,8) by (simp add: level3_overflows_def)
    qed
    have check: "safe F (\<lambda>p. ?facts \<and> summed contents cs ?k p) (check_base_header lev csum long first)
      (\<lambda>_ p. summed contents cs ?k p \<and>
        (if lev < 2 then csum = sum_list (drop 2 (take ?k cs)) else ?k + unat first \<le> unat long))"
      by (intro safe_conseq [OF safe_check_base_header [where lev = lev and k = ?k and first = first and csum = csum and long = long and cs = cs]]) (use overflow small facts assms(2) in blast)+
    show "safe F (\<lambda>p. ?facts \<and> summed contents cs ?k p)
      (bnd (check_base_header lev csum long first) (\<lambda>_.
         ret \<lparr>b_raw = raw, b_filename = name, b_file_crc = crc, b_os_type = os, b_area = area,
           b_long = long, b_first = first\<rparr>)) (base_ok contents cs)"
    proof (rule safe_bnd [OF check], rule safe_ret)
      fix p
      assume p: "summed contents cs ?k p \<and>
        (if lev < 2 then csum = sum_list (drop 2 (take ?k cs)) else ?k + unat first \<le> unat long)"
      have base: "\<lparr>b_raw = raw, b_filename = name, b_file_crc = crc, b_os_type = os, b_area = area,
           b_long = long, b_first = first\<rparr> = b \<Longrightarrow> base_ok contents cs b p" for b
        using assms(2) p facts assms(3-8,10-13)
        by (elim level_cases) (auto simp: base_ok_def summed_def area_end_def long_base_len_def drop_take two_not_le area_at_def first_at_def)
      show "base_ok contents cs \<lparr>b_raw = raw, b_filename = name, b_file_crc = crc, b_os_type = os, b_area = area,
           b_long = long, b_first = first\<rparr> p" by (rule base) simp
    qed
  qed
  then show "safe F ((case lens of (long, first) \<Rightarrow> \<lambda>p.
     if lev = 1 then long = 0 \<and> unat first < 2 ^ 16 \<and> first = from_le (take 2 (drop k cs)) \<and> summed contents cs (k + 2) p
     else if lev = 2 then long = from_le [header_len, csum] \<and> unat first < 2 ^ 16 \<and> first = from_le (take 2 (drop k cs)) \<and>
       summed contents cs (k + 2) p
     else if lev = 3 then header_len = 4 \<and> csum = 0 \<and> first = from_le (take 4 (drop (k + 4) cs)) \<and> summed contents cs (k + 8) p
     else long = 0 \<and> first = 0 \<and> summed contents cs k p))
    (case lens of (long, first) \<Rightarrow> bnd (check_base_header lev csum long first) (\<lambda>_.
       ret \<lparr>b_raw = raw, b_filename = name, b_file_crc = crc, b_os_type = os, b_area = area,
         b_long = long, b_first = first\<rparr>)) (base_ok contents cs)"
    unfolding lens prod.case
  proof (rule safe_conseq)
    fix p
    assume pre: "if lev = 1 then long = 0 \<and> unat first < 2 ^ 16 \<and> first = from_le (take 2 (drop k cs)) \<and> summed contents cs (k + 2) p
     else if lev = 2 then long = from_le [header_len, csum] \<and> unat first < 2 ^ 16 \<and> first = from_le (take 2 (drop k cs)) \<and>
       summed contents cs (k + 2) p
     else if lev = 3 then header_len = 4 \<and> csum = 0 \<and> first = from_le (take 4 (drop (k + 4) cs)) \<and> summed contents cs (k + 8) p
     else long = 0 \<and> first = 0 \<and> summed contents cs k p"
    from assms(2) show "?facts \<and> summed contents cs ?k p"
    proof (cases rule: level_cases)
      case 1
      then show ?thesis using pre assms(4) [symmetric] by (simp add: first_at_def)
    next
      case 2
      then have "k = unat (cs ! 0)" using assms(7,10) by (simp add: area_end_def)
      then show ?thesis using 2 pre assms(4) [symmetric] by (auto simp: first_at_def)
    next
      case 3
      then have "k = 24" using assms(10) by (simp add: two_not_le)
      then show ?thesis using 3 pre assms(4) [symmetric] by (auto simp: first_at_def two_not_le)
    next
      case 4
      then have "k = 24" using assms(10) by simp
      then show ?thesis using 4 pre assms(4) [symmetric] by (simp add: first_at_def)
    qed
  qed
qed

lemma fields_at:
  assumes "lev = cs ! 20" and "header_len = cs ! 0" and "k = crc_at cs" and "k' = (if lev = 0 then k + 2 else k + 2 + 1)"
    and "lev \<le> 3"
    and "if lev < 2 then k' \<le> area_end lev header_len \<and> (os', area) = (let n = area_end lev header_len - k' in
        if n \<noteq> 0 \<and> lev = 0 then (cs ! k', take (n - 1) (drop (k' + 1) cs))
        else (if lev = 0 then 0 else cs ! (k + 2), take n (drop k' cs)))
      else os' = cs ! (k + 2) \<and> area = []"
  shows "os' = os_at cs \<and> area = area_at cs"
  using assms(5)
proof (cases rule: level_cases)
  case 1
  then show ?thesis
    using assms(1-4,6) by (auto simp: os_at_def area_at_def Let_def area_end_def drop_take numeral_3_eq_3 split: if_splits)
next
  case 2
  then show ?thesis
    using assms(1-4,6) by (auto simp: os_at_def area_at_def Let_def area_end_def drop_take numeral_3_eq_3 split: if_splits)
next
  case 3
  then show ?thesis using assms(1-4,6) by (auto simp: os_at_def area_at_def)
next
  case 4
  then show ?thesis using assms(1-4,6) by (auto simp: os_at_def area_at_def)
qed

lemma safe_base_middle:
  assumes "level3_overflows cs \<Longrightarrow> Overflow \<in> F" and "lev \<le> 3" and "lev = raw_lha_level raw" and "lev = cs ! 20"
    and "raw = raw_header_of (take 19 (drop 2 cs))" and "length (raw_compression raw) = 5"
    and "header_len = cs ! 0" and "csum = cs ! 1"
  shows "safe F (summed contents cs 21) (bnd (read_filename rd lev header_len) (\<lambda>name.
     bnd (parser_read_u16 rd) (\<lambda>crc.
     bnd (read_os_type rd lev) (\<lambda>os.
     bnd (read_extended_area rd lev header_len os) (\<lambda>(os, area).
     bnd (read_header_lens rd lev header_len csum) (\<lambda>(long, first).
     bnd (check_base_header lev csum long first) (\<lambda>_.
       ret \<lparr>b_raw = raw, b_filename = name, b_file_crc = crc, b_os_type = os, b_area = area,
         b_long = long, b_first = first\<rparr>))))))) (base_ok contents cs)"
proof (rule safe_bnd [where R = "\<lambda>name p. (if lev < 2 then name = take (unat (cs ! 21)) (drop 22 cs) \<and>
    length name = unat (cs ! 21) else name = []) \<and> summed contents cs (if lev < 2 then 22 + length name else 21) p"],
    goal_cases)
  case 1
  show ?case by (rule safe_conseq [OF safe_read_filename]) auto
next
  case (2 name)
  let ?N = "if lev < 2 then name = take (unat (cs ! 21)) (drop 22 cs) \<and> length name = unat (cs ! 21) else name = []"
  let ?k = "if lev < 2 then 22 + length name else 21"
  let ?k' = "if lev = 0 then ?k + 2 else ?k + 2 + 1"
  let ?tail = "\<lambda>crc os' area. bnd (read_header_lens rd lev header_len csum) (\<lambda>(long, first).
     bnd (check_base_header lev csum long first) (\<lambda>_.
       ret \<lparr>b_raw = raw, b_filename = name, b_file_crc = crc, b_os_type = os', b_area = area,
         b_long = long, b_first = first\<rparr>))"
  show ?case
  proof (rule safe_fact [where c = ?N], blast, rule safe_conseq [where Q' = "base_ok contents cs" and P' = "summed contents cs ?k"])
    assume name: ?N
    have at: "?k = crc_at cs" using name assms(4) by (auto simp: crc_at_def)
    have area: "safe F (summed contents cs ?k') (bnd (read_extended_area rd lev header_len (if lev = 0 then 0 else cs ! (?k + 2)))
        (\<lambda>(os', area). ?tail (from_le (take 2 (drop ?k cs))) os' area)) (base_ok contents cs)"
    proof (rule safe_bnd [OF safe_read_extended_area], simp, goal_cases)
      case (1 oa)
      obtain os' area where oa: "oa = (os', area)" by (cases oa)
      let ?A = "if lev < 2 then ?k' \<le> area_end lev header_len else area = []"
      let ?k'' = "if lev < 2 then area_end lev header_len else ?k'"
      let ?F = "os' = os_at cs \<and> area = area_at cs"
      show ?case unfolding oa prod.case
      proof (rule safe_fact [where c = "?A \<and> ?F"])
        assume A: "?A \<and> ?F"
        have "area_end lev header_len < 2 ^ 30"
          using unat_u8_less [of header_len] by (simp add: area_end_def)
        then have small: "?k'' < 2 ^ 30" by simp
        have "lev \<noteq> 0" if "\<not> lev < 2" using that by auto
        then have kind: "if lev < 2 then ?k'' = area_end lev header_len \<and> name = take (unat (cs ! 21)) (drop 22 cs) \<and>
          length name = unat (cs ! 21) else ?k'' = 24 \<and> name = [] \<and> area = []"
        proof (cases "lev < 2")
          case True
          show ?thesis using name unfolding if_P [OF True] by blast
        next
          case False
          with name A \<open>\<not> lev < 2 \<Longrightarrow> lev \<noteq> 0\<close> show ?thesis by simp
        qed
        have tail: "safe F (summed contents cs ?k'') (?tail (from_le (take 2 (drop ?k cs))) os' area) (base_ok contents cs)"
          by (rule safe_base_tail [OF _ assms(2-8) small kind]; (simp only: at | erule assms(1) | rule A [THEN conjunct2, THEN conjunct1] | rule A [THEN conjunct2, THEN conjunct2]))
        show "safe F (\<lambda>p. if lev < 2 then ?k' \<le> area_end lev header_len \<and> summed contents cs (area_end lev header_len) p \<and>
            (os', area) = (let n = area_end lev header_len - ?k' in
              if n \<noteq> 0 \<and> lev = 0 then (cs ! ?k', take (n - 1) (drop (?k' + 1) cs))
              else (if lev = 0 then 0 else cs ! (?k + 2), take n (drop ?k' cs)))
            else os' = (if lev = 0 then 0 else cs ! (?k + 2)) \<and> area = [] \<and> summed contents cs ?k' p)
          (?tail (from_le (take 2 (drop ?k cs))) os' area) (base_ok contents cs)"
          by (rule safe_conseq [OF tail]) (auto split: if_splits)
      next
        fix p
        assume p: "if lev < 2 then ?k' \<le> area_end lev header_len \<and> summed contents cs (area_end lev header_len) p \<and>
            (os', area) = (let n = area_end lev header_len - ?k' in
              if n \<noteq> 0 \<and> lev = 0 then (cs ! ?k', take (n - 1) (drop (?k' + 1) cs))
              else (if lev = 0 then 0 else cs ! (?k + 2), take n (drop ?k' cs)))
            else os' = (if lev = 0 then 0 else cs ! (?k + 2)) \<and> area = [] \<and> summed contents cs ?k' p"
        have at_k: "if lev < 2 then ?k' \<le> area_end lev header_len \<and> (os', area) = (let n = area_end lev header_len - ?k' in
              if n \<noteq> 0 \<and> lev = 0 then (cs ! ?k', take (n - 1) (drop (?k' + 1) cs))
              else (if lev = 0 then 0 else cs ! (?k + 2), take n (drop ?k' cs)))
            else os' = cs ! (?k + 2) \<and> area = []"
        proof (cases "lev < 2")
          case True
          then show ?thesis using p unfolding if_P [OF True] by blast
        next
          case False
          then have "lev \<noteq> 0" by auto
          then show ?thesis using p unfolding if_not_P [OF False] if_not_P [OF \<open>lev \<noteq> 0\<close>] by blast
        qed
        from fields_at [OF assms(4,7) at refl assms(2) at_k] at_k show "?A \<and> ?F" by (simp split: if_split_asm)
      qed
    qed
    show "safe F (summed contents cs ?k) (bnd (parser_read_u16 rd) (\<lambda>crc.
       bnd (read_os_type rd lev) (\<lambda>os.
       bnd (read_extended_area rd lev header_len os) (\<lambda>(os, area). ?tail crc os area)))) (base_ok contents cs)"
    proof (rule safe_bnd [OF safe_read_u16], goal_cases)
      case (1 crc)
      show ?case
      proof (rule safe_fact [where c = "crc = from_le (take 2 (drop ?k cs))"], blast,
          rule safe_bnd [where R = "\<lambda>os p. os = (if lev = 0 then 0 else cs ! (?k + 2)) \<and> summed contents cs ?k' p"],
          rule safe_conseq [OF safe_read_os_type], blast, simp split: if_splits, goal_cases)
        case (1 os)
        show ?case
        proof (rule safe_fact [where c = "os = (if lev = 0 then 0 else cs ! (?k + 2))"], blast)
          assume os: "os = (if lev = 0 then 0 else cs ! (?k + 2))"
          have crc: "crc = from_le (take 2 (drop ?k cs))" by (rule 1)
          show ?case unfolding os crc by (rule safe_conseq [OF area]) simp_all
        qed
      qed
    qed
  qed auto
qed

lemma safe_read_base_header:
  assumes "level3_overflows cs \<Longrightarrow> Overflow \<in> F" and "header_len = cs ! 0"
  shows "safe F (pos contents cs 1) (read_base_header rd header_len) (base_ok contents cs)"
  unfolding read_base_header_def Let_def
proof (rule safe_bnd [OF safe_read_u8_pos], rule safe_fact [where c = "_ = cs ! 1"], erule conjunct1,
    rule safe_bnd [where R = "\<lambda>_. summed contents cs 2"], rule safe_modify, goal_cases)
  case (1 csum p)
  then show ?case by (simp add: summed_def pos_def numeral_2_eq_2)
next
  case (2 csum _)
  show ?case
  proof (rule safe_bnd [OF safe_read_raw_header], goal_cases)
    case (1 raw)
    let ?lev = "raw_lha_level raw"
    let ?facts = "raw = raw_header_of (take 19 (drop 2 cs)) \<and> ?lev = cs ! 20 \<and> ?lev \<le> 3 \<and> length (raw_compression raw) = 5 \<and>
      20 < length cs"
    show ?case
    proof (rule safe_fact [where c = ?facts], elim conjE, intro conjI, assumption, assumption, assumption, assumption,
        simp add: summed_def pos_def)
      assume facts: ?facts
      show ?case
        by (rule safe_conseq [OF safe_base_middle [where lev = ?lev and cs = cs and csum = csum]])
          (use assms facts 2 in auto)
    qed
  qed
qed

end

subsection \<open>The loop over the extra headers\<close>

text \<open>An extra header as the parser keeps it, and the CRC it announces.\<close>

definition clear_crc :: "u8 list \<Rightarrow> u8 list" where
  "clear_crc r = (case r of [] \<Rightarrow> []
     | tag # data \<Rightarrow> if tag = ext_common \<and> 2 \<le> length data then tag # 0 # 0 # drop 2 data else r)"

definition stored_crc :: "u8 list \<Rightarrow> u16 option" where
  "stored_crc r = (case r of [] \<Rightarrow> None
     | tag # data \<Rightarrow> if tag = ext_common \<and> 2 \<le> length data then Some (from_le (take 2 data)) else None)"

text \<open>
  The attributes, the compressed and the original size the base header states, and how an extra
  header replaces them: one of the tags \<open>0x40\<close> and \<open>0x7F\<close> holds attributes behind its tag, and one of
  tag \<open>0x42\<close> in a level 2 or 3 header holds the two sizes as 64-bit numbers.
\<close>

definition base_said :: "u8 list \<Rightarrow> u16 \<times> u64 \<times> u64" where
  "base_said cs = (ucast (cs ! 19), from_le (take 4 (drop 7 cs)), from_le (take 4 (drop 11 cs)))"

definition extra_said :: "u8 \<Rightarrow> u8 list \<Rightarrow> u16 \<times> u64 \<times> u64 \<Rightarrow> u16 \<times> u64 \<times> u64" where
  "extra_said lev r s =
     (if 3 \<le> length r \<and> (hd r = 0x40 \<or> hd r = 0x7F) then (from_le (take 2 (drop 1 r)), snd s)
      else if 2 \<le> lev \<and> 17 \<le> length r \<and> hd r = 0x42
      then (fst s, from_le (take 8 (drop 1 r)), from_le (take 8 (drop 9 r)))
      else s)"

definition state_said :: "extra_state \<Rightarrow> u16 \<times> u64 \<times> u64" where
  "state_said x = (x_attrs x, x_compressed_size x, x_original_size x)"

lemma length_clear_crc [simp]: "length (clear_crc r) = length r"
  by (auto simp: clear_crc_def split: list.splits)

lemma length_concat_clear [simp]: "length (concat (map clear_crc raws)) = length (concat raws)"
  by (induction raws) auto

lemma inspect_extra_Ok:
  assumes "inspect_extra lev r x = Ok (h, x')"
  shows "h = clear_crc r" and "x_headers x' = x_headers x"
    and "stored_crc r \<noteq> None \<Longrightarrow> x_header_crc x = None \<and> x_header_crc x' = stored_crc r"
    and "stored_crc r = None \<Longrightarrow> x_header_crc x' = x_header_crc x"
    and "lev < 2 \<Longrightarrow> x_compressed_size x' = x_compressed_size x"
    and "state_said x' = extra_said lev r (state_said x)"
  using assms
  by (auto simp: inspect_extra_def clear_crc_def stored_crc_def read_u16_def read_u64_def not_le
      state_said_def extra_said_def ext_defs split: list.splits if_splits option.splits prod.splits)

lemma inspect_extra_no_Fault: "inspect_extra lev r x \<noteq> Fault q"
  by (auto simp: inspect_extra_def split: list.splits)

text \<open>
  \<open>raws\<close> are the extra headers read so far, \<open>k\<close> the number of bytes before them, and \<open>ehl\<close> the
  length of the next one.
\<close>

definition extra_ok :: "('r \<Rightarrow> u8 list) \<Rightarrow> u8 list \<Rightarrow> nat \<Rightarrow> u8 \<Rightarrow> nat \<Rightarrow> nat \<Rightarrow> u8 list list \<Rightarrow> extra_state \<Rightarrow> 'r parser \<Rightarrow> bool" where
  "extra_ok contents cs k lev first ehl raws x p \<longleftrightarrow>
     chain (lev = 3) first (map clear_crc raws) ehl \<and> x_headers x = concat (map clear_crc raws) \<and>
     concat raws = take (length (concat raws)) (drop k cs) \<and>
     k + length (concat raws) \<le> length cs \<and> contents (p_rd p) = drop (k + length (concat raws)) cs \<and>
     p_len p = k + length (concat raws) \<and>
     p_crc p = digest (take k cs @ x_headers x) crc_new \<and>
     state_said x = fold (extra_said lev) raws (base_said cs) \<and>
     (\<forall>r\<in>set raws. \<forall>c. stored_crc r = Some c \<longrightarrow> x_header_crc x = Some c)"

lemma extra_ok_start:
  "pos contents cs k p \<Longrightarrow> x_headers x = [] \<Longrightarrow> state_said x = base_said cs \<Longrightarrow>
    extra_ok contents cs k lev first first [] x p"
  by (simp add: extra_ok_def pos_def)

lemma extra_ok_step:
  assumes "extra_ok contents cs k lev first ehl raws x p" and "min_header_len lev \<le> ehl"
    and "ehl \<le> length (contents (p_rd p))" and "contents r = drop ehl (contents (p_rd p))"
    and "raw = take ehl (contents (p_rd p))" and "inspect_extra lev raw x = Ok (h, x')"
    and "next_length (lev = 3) (drop (length h - counter_size (lev = 3)) h) = Some l"
  shows "extra_ok contents cs k lev first (unat l) (raws @ [raw]) (x'\<lparr>x_headers := x_headers x @ h\<rparr>)
    (update_checksums_no_wrapping_sum h (p\<lparr>p_rd := r\<rparr>))"
proof -
  note inspected = inspect_extra_Ok [OF assms(6)]
  have raw: "raw = take ehl (drop (k + length (concat raws)) cs)" and len: "length raw = ehl"
    using assms(1,3,5) by (auto simp: extra_ok_def)
  have "counter_size (lev = 3) < length h"
    using assms(2) len inspected(1) by (auto simp: min_header_len_def counter_size_def split: if_splits)
  then have "chain (lev = 3) first (map clear_crc (raws @ [raw])) (unat l)"
    using chain_snoc [of "lev = 3" first "map clear_crc raws" "clear_crc raw" l] assms(1,7) inspected(1) len
    by (simp add: extra_ok_def)
  moreover have "concat (raws @ [raw]) = take (length (concat (raws @ [raw]))) (drop k cs)"
  proof -
    have "take (length (concat raws) + ehl) (drop k cs) =
        take (length (concat raws)) (drop k cs) @ take ehl (drop (k + length (concat raws)) cs)"
      by (simp only: take_add drop_drop add.commute [of k])
    also have "\<dots> = concat raws @ raw" using assms(1) raw by (simp add: extra_ok_def)
    finally show ?thesis using len by simp
  qed
  moreover have "\<forall>r\<in>set (raws @ [raw]). \<forall>c. stored_crc r = Some c \<longrightarrow> x_header_crc x' = Some c"
    using assms(1) inspected(3,4) by (cases "stored_crc raw") (auto simp: extra_ok_def)
  moreover have "length (concat (raws @ [raw])) = length (concat raws) + ehl" using len by simp
  moreover have "state_said (x'\<lparr>x_headers := x_headers x @ h\<rparr>) = fold (extra_said lev) (raws @ [raw]) (base_said cs)"
    using assms(1) inspected(6) by (simp add: extra_ok_def state_said_def)
  moreover note prev = assms(1) [unfolded extra_ok_def]
  moreover have "concat (map clear_crc raws @ [clear_crc raw]) = concat (map clear_crc raws) @ clear_crc raw" by simp
  moreover have "ehl + (k + length (concat raws)) \<le> length cs" using prev assms(3) by auto
  ultimately show ?thesis
    unfolding extra_ok_def using assms(3,4) len inspected(1)
    by (intro conjI)
      (simp_all add: update_checksums_no_wrapping_sum_def digest_append add.commute add.left_commute
        del: concat_append)
qed

text \<open>The parser behind the header: the padding \<open>pad\<close> of a level 2 header has been read as well.\<close>

definition header_start :: "u8 list \<Rightarrow> u8 \<Rightarrow> nat" where
  "header_start cs lev = (if lev < 2 then unat (cs ! 0) + 2 else long_base_len lev)"

definition parsed_ok :: "('r \<Rightarrow> u8 list) \<Rightarrow> u8 list \<Rightarrow> u8 \<Rightarrow> nat \<Rightarrow> u8 list list \<Rightarrow> u8 list \<Rightarrow> extra_state \<Rightarrow> 'r parser \<Rightarrow> bool" where
  "parsed_ok contents cs lev first raws pad x p \<longleftrightarrow>
     (let k = header_start cs lev; n = k + length (concat raws) + length pad in
      chain (lev = 3) first (map clear_crc raws) 0 \<and> x_headers x = concat (map clear_crc raws) \<and>
      take n cs = take k cs @ concat raws @ pad \<and> n \<le> length cs \<and>
      contents (p_rd p) = drop n cs \<and>
      p_crc p = digest (take k cs @ x_headers x @ pad) crc_new \<and>
      state_said x = fold (extra_said lev) raws (base_said cs) \<and>
      (\<forall>r\<in>set raws. \<forall>c. stored_crc r = Some c \<longrightarrow> x_header_crc x = Some c) \<and>
      length pad \<le> 1 \<and> (lev \<noteq> 2 \<longrightarrow> pad = []) \<and>
      (lev = 2 \<longrightarrow> n = unat (from_le [cs ! 0, cs ! 1] :: u32) \<or> n = unat (from_le [cs ! 0, cs ! 1] :: u32) + 2))"

context reader begin

lemma safe_extra_loop:
  assumes "long \<noteq> 0 \<Longrightarrow> B = unat long + 2 - k" and "long = 0 \<Longrightarrow> lev < 2"
  shows "length (concat raws) \<le> B \<Longrightarrow> B < fuel + length (concat raws) \<Longrightarrow>
    (long = 0 \<Longrightarrow> B = unat (x_compressed_size x)) \<Longrightarrow>
    safe F (extra_ok contents cs k lev first ehl raws x) (extra_loop fuel reserve rd lev long ehl x)
      (\<lambda>x' p. (\<exists>raws. extra_ok contents cs k lev first 0 raws x' p \<and> length (concat raws) \<le> B) \<and>
        (lev < 2 \<longrightarrow> x_compressed_size x' = x_compressed_size x))"
proof (induction fuel arbitrary: ehl x raws)
  case 0
  then show ?case by simp
next
  case (Suc fuel)
  show ?case
  proof (cases "ehl = 0")
    case True
    with Suc.prems show ?thesis by (auto intro!: safe_ret)
  next
    case False
    show ?thesis
    proof (rule safeI)
      fix p
      assume ok: "extra_ok contents cs k lev first ehl raws x p"
      then have len: "p_len p = k + length (concat raws)" "length (x_headers x) = length (concat raws)"
        by (simp_all add: extra_ok_def)
      let ?post = "\<lambda>r. case r of (Ok x', p) \<Rightarrow> (\<exists>raws. extra_ok contents cs k lev first 0 raws x' p \<and>
          length (concat raws) \<le> B) \<and> (lev < 2 \<longrightarrow> x_compressed_size x' = x_compressed_size x)
        | (Err e, p) \<Rightarrow> True | (Fault q, p) \<Rightarrow> q \<in> F"
      show "?post (extra_loop (Suc fuel) reserve rd lev long ehl x p)"
      proof (cases "ehl < min_header_len lev \<or> \<not> extra_fits long (p_len p) ehl x \<or> \<not> reserve ehl")
        case True
        then show ?thesis using False
          by (auto simp: bnd_def act_simps header_error_def read_limit_no_checksums_def)
      next
        case fits: False
        then have min: "min_header_len lev \<le> ehl" and room: "extra_fits long (p_len p) ehl x" and alloc: "reserve ehl"
          by simp_all
        have fit: "length (concat raws) + ehl \<le> B" and pos: "0 < ehl"
        proof -
          show "0 < ehl" using False by simp
          have "3 \<le> ehl" using min by (auto simp: min_header_len_def split: if_splits)
          then show "length (concat raws) + ehl \<le> B"
            using room assms(1) Suc.prems(3) len by (cases "long = 0") (auto simp: extra_fits_def)
        qed
        show ?thesis
        proof (cases rule: rd_exact_cases [of ehl "p_rd p"])
          case (Err e r)
          then show ?thesis using False fits
            by (simp add: bnd_def act_simps read_limit_no_checksums_def on_rd_def map_err_def zoom_def)
        next
          case (Ok r)
          let ?raw = "take ehl (contents (p_rd p))"
          have read: "read_limit_no_checksums reserve rd ehl (x_headers x) p = (Ok (x_headers x @ ?raw), p\<lparr>p_rd := r\<rparr>)"
            using Ok alloc by (simp add: bnd_def act_simps read_limit_no_checksums_def on_rd_def map_err_def zoom_def)
          have "length (x_headers x @ ?raw) - ehl = length (x_headers x)" using Ok(2) by simp
          then have start: "length (x_headers x @ ?raw) - ehl = length (x_headers x)"
              "take (length (x_headers x)) (x_headers x @ ?raw) = x_headers x" by simp_all
          have unfold: "extra_loop (Suc fuel) reserve rd lev long ehl x p =
            (case inspect_extra lev ?raw x of
              Ok (header, x') \<Rightarrow>
                bnd (modify (update_checksums_no_wrapping_sum header)) (\<lambda>_.
                  case next_length (lev = 3) (drop (length header - counter_size (lev = 3)) header) of
                    Some l \<Rightarrow> extra_loop fuel reserve rd lev long (unat l) (x'\<lparr>x_headers := x_headers x @ header\<rparr>)
                  | None \<Rightarrow> crash Panicked)
            | Err msg \<Rightarrow> header_error msg
            | Fault q \<Rightarrow> crash q) (p\<lparr>p_rd := r\<rparr>)"
            by (use False min room in \<open>simp add: bnd_Ok [of "read_limit_no_checksums reserve rd ehl (x_headers x)", OF read]
              bnd_Ok [of "get_state p_len", OF get_state_apply]
              Let_def start(1) del: length_append\<close>, unfold start, rule refl)
          show ?thesis
          proof (cases "inspect_extra lev ?raw x")
            case (Err msg)
            then show ?thesis unfolding unfold by (simp add: header_error_def act_simps)
          next
            case (Fault q)
            then show ?thesis by (simp add: inspect_extra_no_Fault)
          next
            case inspect: (Ok hx)
            then obtain h x' where hx: "inspect_extra lev ?raw x = Ok (h, x')" by (cases hx) auto
            note inspected = inspect_extra_Ok [OF hx]
            have lenh: "length h = ehl" using inspected(1) Ok(2) by simp
            have "counter_size (lev = 3) \<le> ehl"
              using min by (auto simp: min_header_len_def counter_size_def split: if_splits)
            then obtain l where l: "next_length (lev = 3) (drop (length h - counter_size (lev = 3)) h) = Some l"
              using next_length_total [of "drop (length h - counter_size (lev = 3)) h" "lev = 3"] lenh by auto
            let ?x = "x'\<lparr>x_headers := x_headers x @ h\<rparr>"
            let ?p = "update_checksums_no_wrapping_sum h (p\<lparr>p_rd := r\<rparr>)"
            have next_ok: "extra_ok contents cs k lev first (unat l) (raws @ [?raw]) ?x ?p"
              by (rule extra_ok_step [OF ok min Ok(2,3) refl hx l])
            have step: "extra_loop (Suc fuel) reserve rd lev long ehl x p = extra_loop fuel reserve rd lev long (unat l) ?x ?p"
              unfolding unfold using hx l by (simp add: bnd_def act_simps)
            have "length (concat (raws @ [?raw])) = length (concat raws) + ehl" using Ok(2) by simp
            moreover have "long = 0 \<Longrightarrow> B = unat (x_compressed_size ?x)"
              using Suc.prems(3) inspected(5) assms(2) by simp
            ultimately have "safe F (extra_ok contents cs k lev first (unat l) (raws @ [?raw]) ?x)
                (extra_loop fuel reserve rd lev long (unat l) ?x)
                (\<lambda>x' p. (\<exists>raws. extra_ok contents cs k lev first 0 raws x' p \<and> length (concat raws) \<le> B) \<and>
                  (lev < 2 \<longrightarrow> x_compressed_size x' = x_compressed_size ?x))"
              using Suc.prems(2) fit pos by (intro Suc.IH) simp_all
            from safeD [OF this next_ok] inspected(5) show ?thesis unfolding step
              by (auto split: prod.splits outcome.splits)
          qed
        qed
      qed
    qed
  qed
qed

lemma extra_ok_parsed:
  assumes "extra_ok contents cs (header_start cs lev) lev first 0 raws x p"
    and "lev = 2 \<Longrightarrow> p_len p = unat (from_le [cs ! 0, cs ! 1] :: u32) \<or> p_len p = unat (from_le [cs ! 0, cs ! 1] :: u32) + 2"
  shows "parsed_ok contents cs lev first raws [] x p"
  using assms unfolding parsed_ok_def extra_ok_def Let_def
  by (auto simp: take_add)

lemma extra_ok_parsed_pad:
  assumes "extra_ok contents cs (header_start cs lev) lev first 0 raws x p" and "lev = 2"
    and "unat (from_le [cs ! 0, cs ! 1] :: u32) = p_len p + 1"
    and "1 \<le> length (contents (p_rd p))" and "contents r = drop 1 (contents (p_rd p))"
  shows "parsed_ok contents cs lev first raws (take 1 (contents (p_rd p))) x
    (update_checksums (take 1 (contents (p_rd p))) (p\<lparr>p_rd := r\<rparr>))"
proof -
  note ok = assms(1) [unfolded extra_ok_def]
  let ?k = "header_start cs lev"
  let ?n = "?k + length (concat raws)"
  have c: "contents (p_rd p) = drop ?n cs" using ok by simp
  have pad: "length (take 1 (drop ?n cs)) = 1" using assms(4) c by simp
  have "take (?n + 1) cs = take ?k cs @ concat raws @ take 1 (drop ?n cs)"
    using ok by (simp only: take_add append_assoc)
  then show ?thesis
    unfolding parsed_ok_def Let_def c pad
    using ok assms(2,3,4,5) pad c
    by (simp add: update_checksums_def update_checksums_no_wrapping_sum_def Let_def digest_append)
qed

lemma safe_check_long_len:
  assumes "lev = 2 \<Longrightarrow> long = from_le [cs ! 0, cs ! 1] \<and> long \<noteq> 0 \<and>
      header_start cs lev + length (concat raws) \<le> unat long + 2"
  shows "safe F (extra_ok contents cs (header_start cs lev) lev first 0 raws x) (check_long_len rd lev long)
    (\<lambda>_ p. \<exists>pad. parsed_ok contents cs lev first raws pad x p)"
proof (rule safeI)
  fix p assume ok: "extra_ok contents cs (header_start cs lev) lev first 0 raws x p"
  have len: "p_len p = header_start cs lev + length (concat raws)" using ok by (simp add: extra_ok_def)
  show "case check_long_len rd lev long p of (Ok v, t) \<Rightarrow> \<exists>pad. parsed_ok contents cs lev first raws pad x t
    | (Err e, t) \<Rightarrow> True | (Fault q, t) \<Rightarrow> q \<in> F"
  proof (cases "lev = 2")
    case False
    with extra_ok_parsed [OF ok] show ?thesis
      by (auto simp: check_long_len_def bnd_def act_simps)
  next
    case True
    note long = assms [OF True]
    have "unat (from_le [cs ! 0, cs ! 1] :: u32) < 2 ^ 16"
      using le_bytes_bound [of "[cs ! 0, cs ! 1]"] by (simp add: unat_from_le)
    with long have small: "unat long < 2 ^ 16" by simp
    moreover have "p_len p \<le> unat long + 2" using long unfolding len by blast
    ultimately have mod: "p_len p mod 2 ^ 32 = p_len p" "p_len p + 1 < 2 ^ 32" "unat long + 2 < 2 ^ 32" by simp_all
    show ?thesis
    proof (cases "unat long = p_len p + 1")
      case pad: True
      have "safe F (\<lambda>q. q = p) (parser_read_exact rd 1) (\<lambda>_ t. \<exists>pad. parsed_ok contents cs lev first raws pad x t)"
        by (rule safe_read_exact) (use extra_ok_parsed_pad [OF ok True] pad long in auto)
      from safeD [OF this refl] pad True mod long show ?thesis
        by (auto simp: check_long_len_def bnd_def act_simps parser_read_u8_def split: prod.splits outcome.splits)
    next
      case no_pad: False
      show ?thesis
      proof (cases "unat long = p_len p \<or> unat long + 2 = p_len p")
        case match: True
        with extra_ok_parsed [OF ok] long have "parsed_ok contents cs lev first raws [] x p" by auto
        with no_pad True mod match show ?thesis
          by (auto simp: check_long_len_def bnd_def act_simps)
      next
        case False
        with no_pad True mod long show ?thesis
          by (auto simp: check_long_len_def bnd_def act_simps header_error_def)
      qed
    qed
  qed
qed

text \<open>What the header returned tells of the input, and where the reader stands behind it.\<close>

end

definition header_sound :: "('r \<Rightarrow> u8 list) \<Rightarrow> u8 list \<Rightarrow> lha_header \<Rightarrow> 'r \<Rightarrow> bool" where
  "header_sound contents cs h r \<longleftrightarrow> (\<exists>raws pad. let k = header_start cs (level h);
       n = k + length (concat raws) + length pad;
       said = fold (extra_said (level h)) raws (base_said cs);
       compressed = fst (snd said) in
     level h = cs ! 20 \<and> level h \<le> 3 \<and>
     compression h = take 5 (drop 2 cs) \<and> length (compression h) = 5 \<and>
     last_modified h = from_le (take 4 (drop 15 cs)) \<and>
     file_crc h = from_le (take 2 (drop (crc_at cs) cs)) \<and>
     os_type h = os_at cs \<and> extended_area h = area_at cs \<and> first_header_len h = first_at cs \<and>
     msdos_attrs h = fst said \<and> original_size h = snd (snd said) \<and>
     (if level h = 1 then length (extra_headers h) \<le> unat compressed \<and>
        compressed_size h = compressed - of_nat (length (extra_headers h))
      else compressed_size h = compressed) \<and>
     chain (level h = 3) (unat (first_header_len h)) (map clear_crc raws) 0 \<and>
     extra_headers h = concat (map clear_crc raws) \<and>
     take n cs = take k cs @ concat raws @ pad \<and> n \<le> length cs \<and> contents r = drop n cs \<and>
     (level h < 2 \<longrightarrow> cs ! 1 = sum_list (take (unat (cs ! 0)) (drop 2 cs)) \<and>
        filename h = take (unat (cs ! 21)) (drop 22 cs)) \<and>
     (2 \<le> level h \<longrightarrow> filename h = [] \<and> extended_area h = []) \<and>
     (\<forall>r\<in>set raws. \<forall>c. stored_crc r = Some c \<longrightarrow>
        c = sum16 (digest (take k cs @ extra_headers h @ pad) crc_new)) \<and>
     length pad \<le> 1 \<and> (level h \<noteq> 2 \<longrightarrow> pad = []) \<and>
     (level h = 2 \<longrightarrow> n = le_bytes [cs ! 0, cs ! 1] \<or> n = le_bytes [cs ! 0, cs ! 1] + 2))"

context reader begin

lemma safe_check_header_crc:
  "safe F (parsed_ok contents cs lev first raws pad x) (check_header_crc (x_header_crc x))
    (\<lambda>_ p. parsed_ok contents cs lev first raws pad x p \<and> (\<forall>r\<in>set raws. \<forall>c. stored_crc r = Some c \<longrightarrow>
        c = sum16 (digest (take (header_start cs lev) cs @ x_headers x @ pad) crc_new)))"
  by (rule safeI)
    (auto simp: check_header_crc_def bnd_def act_simps header_error_def parsed_ok_def Let_def split: option.splits)

text \<open>The compressed size of a level 1 header includes its extra headers.\<close>

definition adjusted :: "u8 \<Rightarrow> extra_state \<Rightarrow> u64 \<Rightarrow> bool" where
  "adjusted lev x c \<longleftrightarrow> (if lev = 1 then length (x_headers x) \<le> unat (x_compressed_size x) \<and>
     c = x_compressed_size x - of_nat (length (x_headers x)) else c = x_compressed_size x)"

lemma safe_adjust_compressed_size: "safe F P (adjust_compressed_size lev x) (\<lambda>c p. P p \<and> adjusted lev x c)"
  unfolding adjust_compressed_size_def
  by (intro safe_if safe_header_error safe_ret) (simp_all add: adjusted_def)

lemma safe_read_u8_or_none:
  "safe F (pos contents cs 0) (read_u8_or_none rd) (\<lambda>b p. case b of None \<Rightarrow> True | Some b \<Rightarrow> b = cs ! 0 \<and> pos contents cs 1 p)"
proof (rule safeI)
  fix p assume "pos contents cs 0 p"
  then have p: "p_len p = 0" "contents (p_rd p) = cs" "p_crc p = crc_new" by (simp_all add: pos_def)
  show "case read_u8_or_none rd p of (Ok b, t) \<Rightarrow> (case b of None \<Rightarrow> True | Some b \<Rightarrow> b = cs ! 0 \<and> pos contents cs 1 t)
    | (Err e, t) \<Rightarrow> True | (Fault q, t) \<Rightarrow> q \<in> F"
    by (cases rule: rd_all_cases [of 1 "p_rd p"]; cases cs)
      (simp_all add: p read_u8_or_none_def bnd_def on_rd_def map_err_def zoom_def act_simps pos_def
        update_checksums_no_wrapping_sum_def)
qed

lemma base_ok_facts:
  assumes "base_ok contents cs b p"
  shows "pos contents cs (header_start cs (raw_lha_level (b_raw b))) p"
    and "b_long b = 0 \<Longrightarrow> raw_lha_level (b_raw b) < 2"
    and "raw_lha_level (b_raw b) = 2 \<Longrightarrow> b_long b = from_le [cs ! 0, cs ! 1] \<and> b_long b \<noteq> 0"
    and "state_said (extra_start (b_raw b)) = base_said cs"
proof -
  have pos: "0 < long_base_len lev" for lev by (simp add: long_base_len_def)
  have long: "2 \<le> raw_lha_level (b_raw b) \<Longrightarrow> b_long b \<noteq> 0"
    using assms pos [of "raw_lha_level (b_raw b)"] unfolding base_ok_def Let_def by fastforce
  show "pos contents cs (header_start cs (raw_lha_level (b_raw b))) p"
  proof (cases "raw_lha_level (b_raw b) < 2")
    case True
    show ?thesis
      unfolding header_start_def if_P [OF True] using assms True unfolding base_ok_def Let_def by blast
  next
    case False
    then have "2 \<le> raw_lha_level (b_raw b)" by simp
    then show ?thesis
      unfolding header_start_def if_not_P [OF False] using assms unfolding base_ok_def Let_def by blast
  qed
  then have "2 \<le> length cs" by (auto simp: pos_def header_start_def long_base_len_def split: if_splits)
  moreover have "b_raw b = raw_header_of (take 19 (drop 2 cs))" using assms unfolding base_ok_def Let_def by blast
  ultimately show "state_said (extra_start (b_raw b)) = base_said cs"
    by (simp add: state_said_def extra_start_def base_said_def raw_header_of_def drop_take)
  show "b_long b = 0 \<Longrightarrow> raw_lha_level (b_raw b) < 2" using long not_less by blast
  show "raw_lha_level (b_raw b) = 2 \<Longrightarrow> b_long b = from_le [cs ! 0, cs ! 1] \<and> b_long b \<noteq> 0"
    using assms long unfolding base_ok_def Let_def by (metis order_refl)
qed

lemma header_sound_of:
  assumes "base_ok contents cs b q" and "parsed_ok contents cs (raw_lha_level (b_raw b)) (unat (b_first b)) raws pad x p"
    and "\<forall>r\<in>set raws. \<forall>c. stored_crc r = Some c \<longrightarrow>
        c = sum16 (digest (take (header_start cs (raw_lha_level (b_raw b))) cs @ x_headers x @ pad) crc_new)"
    and "adjusted (raw_lha_level (b_raw b)) x compressed"
  shows "header_sound contents cs (header_of b compressed x) (p_rd p)"
proof -
  let ?lev = "raw_lha_level (b_raw b)"
  have raw: "b_raw b = raw_header_of (take 19 (drop 2 cs))" using assms(1) unfolding base_ok_def Let_def by blast
  have said: "x_attrs x = fst (state_said x)" "x_compressed_size x = fst (snd (state_said x))"
      "x_original_size x = snd (snd (state_said x))" by (simp_all add: state_said_def)
  have len: "unat (from_le [cs ! 0, cs ! 1] :: u32) = le_bytes [cs ! 0, cs ! 1]" by (rule unat_from_le) simp
  have "?lev = cs ! 20" and "?lev \<le> 3" and "length (raw_compression (b_raw b)) = 5"
    and "?lev < 2 \<Longrightarrow> cs ! 1 = sum_list (take (unat (cs ! 0)) (drop 2 cs)) \<and> b_filename b = take (unat (cs ! 21)) (drop 22 cs)"
    and "2 \<le> ?lev \<Longrightarrow> b_filename b = [] \<and> b_area b = []"
    and "b_file_crc b = from_le (take 2 (drop (crc_at cs) cs))" and "b_os_type b = os_at cs"
    and "b_area b = area_at cs" and "b_first b = first_at cs"
    using assms(1) unfolding base_ok_def Let_def by blast+
  moreover have "raw_compression (b_raw b) = take 5 (drop 2 cs)"
      "raw_last_modified (b_raw b) = take 4 (drop 15 cs)"
    unfolding raw by (simp_all add: raw_header_of_def drop_take)
  moreover have fold: "state_said x = fold (extra_said ?lev) raws (base_said cs)"
    using assms(2) unfolding parsed_ok_def Let_def by blast
  moreover have "x_headers x = concat (map clear_crc raws)"
    using assms(2) unfolding parsed_ok_def Let_def by blast
  then have "?lev = 1 \<Longrightarrow> length (concat raws) \<le> unat (fst (snd (fold (extra_said ?lev) raws (base_said cs)))) \<and>
      compressed = fst (snd (fold (extra_said ?lev) raws (base_said cs))) - of_nat (length (concat raws))"
    and "?lev \<noteq> 1 \<Longrightarrow> compressed = fst (snd (fold (extra_said ?lev) raws (base_said cs)))"
    using assms(4) by (simp_all add: adjusted_def said fold)
  ultimately show ?thesis
    using assms(2,3) unfolding header_sound_def parsed_ok_def Let_def len
    by (intro exI [of _ raws] exI [of _ pad]) (simp add: header_of_def said)
qed

lemma safe_parse_header:
  assumes "level3_overflows cs \<Longrightarrow> Overflow \<in> F"
  shows "safe F (pos contents cs 0) (parse_header reserve rd)
    (\<lambda>oh p. case oh of None \<Rightarrow> True | Some h \<Rightarrow> header_sound contents cs h (p_rd p))"
    (is "safe F _ _ ?Q")
  unfolding parse_header_def
proof (rule safe_bnd [OF safe_read_u8_or_none])
  fix first_byte
  show "safe F (\<lambda>p. case first_byte of None \<Rightarrow> True | Some b \<Rightarrow> b = cs ! 0 \<and> pos contents cs 1 p)
    (case first_byte of None \<Rightarrow> ret None
     | Some header_len \<Rightarrow>
         if header_len = 0 then ret None
         else bnd (read_base_header rd header_len) (\<lambda>b.
           let lev = raw_lha_level (b_raw b); x = extra_start (b_raw b) in
           bnd (extra_loop (header_fuel (b_long b) (x_compressed_size x)) reserve rd lev (b_long b)
               (unat (b_first b)) x) (\<lambda>x.
           bnd (check_long_len rd lev (b_long b)) (\<lambda>_.
           bnd (check_header_crc (x_header_crc x)) (\<lambda>_.
           bnd (adjust_compressed_size lev x) (\<lambda>compressed.
             ret (Some (header_of b compressed x)))))))) ?Q"
  proof (cases first_byte)
    case None
    then show ?thesis by (auto intro!: safe_ret)
  next
    case (Some header_len)
    have "safe F (\<lambda>p. header_len = cs ! 0 \<and> pos contents cs 1 p)
      (bnd (read_base_header rd header_len) (\<lambda>b.
           let lev = raw_lha_level (b_raw b); x = extra_start (b_raw b) in
           bnd (extra_loop (header_fuel (b_long b) (x_compressed_size x)) reserve rd lev (b_long b)
               (unat (b_first b)) x) (\<lambda>x.
           bnd (check_long_len rd lev (b_long b)) (\<lambda>_.
           bnd (check_header_crc (x_header_crc x)) (\<lambda>_.
           bnd (adjust_compressed_size lev x) (\<lambda>compressed.
             ret (Some (header_of b compressed x)))))))) ?Q"
    proof (rule safe_fact [where c = "header_len = cs ! 0"], blast)
      assume hl: "header_len = cs ! 0"
      have "safe F (\<lambda>p. header_len = cs ! 0 \<and> pos contents cs 1 p) (read_base_header rd header_len)
          (base_ok contents cs)"
        by (rule safe_conseq [OF safe_read_base_header]) (use assms hl in auto)
      then show ?thesis
      proof (rule safe_bnd, goal_cases)
        case (1 b)
        let ?lev = "raw_lha_level (b_raw b)"
        let ?x = "extra_start (b_raw b)"
        let ?k = "header_start cs ?lev"
        let ?B = "if b_long b = 0 then unat (x_compressed_size ?x) else unat (b_long b) + 2 - ?k"
        let ?base = "\<exists>q. base_ok contents cs b q"
        show ?case unfolding Let_def
        proof (rule safe_fact [where c = ?base], blast)
          assume ?base
          then obtain q where base: "base_ok contents cs b q" by blast
          note facts = base_ok_facts [OF base]
          have loop: "safe F (extra_ok contents cs ?k ?lev (unat (b_first b)) (unat (b_first b)) [] ?x)
            (extra_loop (header_fuel (b_long b) (x_compressed_size ?x)) reserve rd ?lev (b_long b) (unat (b_first b)) ?x)
            (\<lambda>x p. (\<exists>raws. extra_ok contents cs ?k ?lev (unat (b_first b)) 0 raws x p \<and> length (concat raws) \<le> ?B) \<and>
              (?lev < 2 \<longrightarrow> x_compressed_size x = x_compressed_size ?x))"
            by (rule safe_extra_loop) (use facts(2) in \<open>auto simp: header_fuel_def\<close>)
          show "safe F (base_ok contents cs b)
            (bnd (extra_loop (header_fuel (b_long b) (x_compressed_size ?x)) reserve rd ?lev (b_long b) (unat (b_first b)) ?x) (\<lambda>x.
             bnd (check_long_len rd ?lev (b_long b)) (\<lambda>_.
             bnd (check_header_crc (x_header_crc x)) (\<lambda>_.
             bnd (adjust_compressed_size ?lev x) (\<lambda>compressed.
               ret (Some (header_of b compressed x))))))) ?Q"
          proof (rule safe_bnd [where R = "\<lambda>x p. \<exists>raws. extra_ok contents cs ?k ?lev (unat (b_first b)) 0 raws x p \<and>
              length (concat raws) \<le> ?B"], goal_cases)
            case 1
            show ?case
              by (rule safe_conseq [OF loop]; (rule extra_ok_start, erule base_ok_facts(1), simp add: extra_start_def, rule facts(4) | blast))
          next
            case (2 x)
            show ?case
            proof (rule safe_ex)
              fix raws
              let ?P = "extra_ok contents cs ?k ?lev (unat (b_first b)) 0 raws x"
              let ?len = "length (concat raws) \<le> ?B"
              show "safe F (\<lambda>p. ?P p \<and> ?len)
                (bnd (check_long_len rd ?lev (b_long b)) (\<lambda>_.
                 bnd (check_header_crc (x_header_crc x)) (\<lambda>_.
                 bnd (adjust_compressed_size ?lev x) (\<lambda>compressed.
                   ret (Some (header_of b compressed x)))))) ?Q"
              proof (rule safe_fact [where c = ?len], blast)
                assume len: ?len
                have "?lev = 2 \<Longrightarrow> b_long b = from_le [cs ! 0, cs ! 1] \<and> b_long b \<noteq> 0 \<and>
                    ?k + length (concat raws) \<le> unat (b_long b) + 2"
                  using facts(3) len base by (auto simp: base_ok_def Let_def header_start_def long_base_len_def)
                then have "safe F ?P (check_long_len rd ?lev (b_long b))
                    (\<lambda>_ p. \<exists>pad. parsed_ok contents cs ?lev (unat (b_first b)) raws pad x p)"
                  by (rule safe_check_long_len)
                then have check: "safe F (\<lambda>p. ?P p \<and> ?len) (check_long_len rd ?lev (b_long b))
                    (\<lambda>_ p. \<exists>pad. parsed_ok contents cs ?lev (unat (b_first b)) raws pad x p)"
                  by (rule safe_conseq) blast+
                show "safe F (\<lambda>p. ?P p \<and> ?len)
                  (bnd (check_long_len rd ?lev (b_long b)) (\<lambda>_.
                   bnd (check_header_crc (x_header_crc x)) (\<lambda>_.
                   bnd (adjust_compressed_size ?lev x) (\<lambda>compressed.
                     ret (Some (header_of b compressed x)))))) ?Q"
                  apply (rule safe_bnd [OF check])
                  apply (rule safe_ex)
                  apply (rule safe_bnd [OF safe_check_header_crc])
                  apply (rule safe_bnd [OF safe_adjust_compressed_size])
                  apply (rule safe_ret)
                  apply (unfold option.case, elim conjE, rule header_sound_of [OF base], assumption, assumption, assumption)
                  done
              qed
            qed
          qed
        qed
      qed
    qed
    with Some show ?thesis by (auto intro!: safe_if safe_ret)
  qed
qed

end

definition level3_prefix :: "u8 list" where
  "level3_prefix = [4, 0, 0x2D, 0x6C, 0x68, 0x30, 0x2D, 0, 0, 0, 0, 0, 0, 0, 0, 0, 0, 0, 0, 32, 3, 0, 0, 0]"

lemma lha_read_header_sound:
  assumes "reader rd contents" and "lha_read reserve rd r = (Ok (Some h), t)"
  shows "header_sound contents (contents r) h t"
proof -
  have "safe {Overflow} (pos contents (contents r) 0) (parse_header reserve rd)
      (\<lambda>oh p. case oh of None \<Rightarrow> True | Some h \<Rightarrow> header_sound contents (contents r) h (p_rd p))"
    by (rule reader.safe_parse_header [OF assms(1)]) simp
  moreover have "pos contents (contents r) 0 (parser_new r)" by (simp add: pos_def parser_new_def)
  ultimately show ?thesis
    using assms(2) safe_Ok [of "{Overflow}" _ "parse_header reserve rd" _ "parser_new r"]
    by (fastforce simp: lha_read_def split: prod.splits)
qed

lemma iter_extra_sound:
  assumes "header_sound contents cs h t"
  shows "\<exists>hs. extra_collect (iter_extra h) = (Ok hs :: ('e, u8 list list) outcome) \<and> (\<forall>b\<in>set hs. b \<noteq> []) \<and>
    sum_list (map (\<lambda>b. length b + counter_size (level h = 3)) hs) = length (extra_headers h)"
proof -
  from assms obtain raws where raws: "chain (level h = 3) (unat (first_header_len h)) (map clear_crc raws) 0"
      "extra_headers h = concat (map clear_crc raws)"
    unfolding header_sound_def Let_def by blast
  let ?hs = "map clear_crc raws"
  have "unat (first_header_len h) < 2 ^ 32" using unsigned_less [of "first_header_len h", where ?'a = nat] by simp
  from extra_collect_chain [OF raws(1) this, where ?'a = 'e]
  have "extra_collect (iter_extra h) = (Ok (map (header_body (level h = 3)) ?hs) :: ('e, u8 list list) outcome)"
    by (simp add: iter_extra_def raws(2))
  moreover have "chain l n hs m \<Longrightarrow> \<forall>b\<in>set hs. counter_size l < length b" for l n hs m
    by (induction hs arbitrary: n) auto
  from this [OF raws(1)] have long: "\<forall>b\<in>set ?hs. counter_size (level h = 3) < length b" .
  have "\<forall>b\<in>set hs. counter_size l < length b \<Longrightarrow> \<forall>b\<in>set (map (header_body l) hs). b \<noteq> []" for l hs
    by (auto simp: header_body_def)
  from this [OF long] have "\<forall>b\<in>set (map (header_body (level h = 3)) ?hs). b \<noteq> []" .
  moreover have "\<forall>b\<in>set hs. counter_size l < length b \<Longrightarrow>
      sum_list (map (\<lambda>b. length b + counter_size l) (map (header_body l) hs)) = length (concat hs)" for l hs
    by (induction hs) (auto simp: header_body_def)
  from this [OF long] have "sum_list (map (\<lambda>b. length b + counter_size (level h = 3))
      (map (header_body (level h = 3)) ?hs)) = length (extra_headers h)"
    by (simp only: raws(2))
  ultimately show ?thesis by blast
qed

lemma extra_loop_0: "0 < fuel \<Longrightarrow> extra_loop fuel reserve rd lev long 0 x = ret x"
  by (cases fuel) simp_all

lemmas header_eval = level3_prefix_def lha_read_def parse_header_def bnd_def act_simps parser_new_def
  slice_reader_def slice_read_all_def slice_read_exact_def on_rd_def map_err_def zoom_def Let_def
  read_u8_or_none_def read_base_header_def parser_read_u8_def parser_read_u16_def parser_read_u32_def
  parser_read_exact_def read_raw_header_def raw_header_size_def raw_header_of_def read_filename_def
  read_os_type_def read_extended_area_def read_header_lens_def check_base_header_def
  update_checksums_def update_checksums_no_wrapping_sum_def from_le_def

definition level3_example :: "u8 list" where
  "level3_example = level3_prefix @ [0xE8, 3, 0, 0, 0, 0, 0, 0]"

lemma level3_read:
  "\<exists>h. lha_read reserve slice_reader level3_example = (Ok (Some h), []) \<and> level h = 3"
  by (simp add: level3_example_def header_eval extra_loop_0 header_fuel_def check_long_len_def check_header_crc_def
      adjust_compressed_size_def extra_start_def header_of_def)

lemma lha_read_fault:
  assumes "reader rd contents" and "lha_read reserve rd r = (Fault q, t)"
  shows "q = Overflow \<and> level3_overflows (contents r)"
proof -
  let ?F = "if level3_overflows (contents r) then {Overflow} else {}"
  have safe: "safe ?F (pos contents (contents r) 0) (parse_header reserve rd)
      (\<lambda>oh p. case oh of None \<Rightarrow> True | Some h \<Rightarrow> header_sound contents (contents r) h (p_rd p))"
    by (rule reader.safe_parse_header [OF assms(1)]) simp
  have start: "pos contents (contents r) 0 (parser_new r)" by (simp add: pos_def parser_new_def)
  obtain p where "parse_header reserve rd (parser_new r) = (Fault q, p)"
    using assms(2) by (auto simp: lha_read_def split: prod.splits)
  from safe_Fault [OF safe start this] show ?thesis by (simp split: if_splits)
qed

subsection \<open>Properties\<close>

text \<open>C7: The header parser is safe on every input: whatever bytes the reader delivers and whenever it
  fails, the parser returns (no loop runs on, no slice is out of range, nothing panics), but for
  the overflow of a \<open>u32\<close> addition in the length check of a level 3 header.\<close>

theorem lha_read_safe:
  assumes "reader rd contents"
  shows "(\<exists>res t. lha_read reserve rd r = (res, t) \<and> \<not> is_fault res) \<or>
    (20 < length (contents r) \<and> contents r ! 20 = 3 \<and> (\<exists>t. lha_read reserve rd r = (Fault Overflow, t)))"
proof -
  obtain res t where run: "lha_read reserve rd r = (res, t)" by fastforce
  then show ?thesis using lha_read_fault [OF assms, of reserve r] by (cases res) (auto simp: level3_overflows_def)
qed

lemma lha_read_safe_witness:
  "\<exists>res t. lha_read (\<lambda>n. True) slice_reader [1, 2, 3] = (res, t) \<and> \<not> is_fault res"
  using lha_read_safe [OF slice.reader_axioms, of "\<lambda>n. True" "[1, 2, 3]"] by simp

text \<open>C6: A header the parser accepts is what its input says. The level, the identifier of the method, the time
  stamp, the file CRC-16, the operating system, the file name, the extended area and the length of the first
  extra header are the bytes at their places in the input. The attributes and the two sizes are those of the base
  header, as replaced by the extra headers that hold others, and the compressed size of a level 1 header is less
  the extra headers, which must not be longer than it. The checksum of a level 0 or 1 header and the CRC-16 of any
  header that carries one match; the extra headers are chained by their length fields up to one of length zero and
  are the bytes of the input but for the cleared CRC field; and the reader is left exactly behind the header, whose
  extent is the length byte of a level 0 or 1 header (plus its extra headers) and the length field of a level 2
  header, up to the two bytes some packers leave out.\<close>

theorem lha_read_sound:
  assumes "reader rd contents" and "lha_read reserve rd r = (Ok (Some h), t)"
  shows "header_sound contents (contents r) h t"
  using assms by (rule lha_read_header_sound)

lemma lha_read_sound_witness:
  "\<exists>h. header_sound (\<lambda>s. s) level3_example h [] \<and> level h = 3"
proof -
  obtain h where h: "lha_read (\<lambda>n. True) slice_reader level3_example = (Ok (Some h), [])" "level h = 3"
    using level3_read [of "\<lambda>n. True"] by blast
  from lha_read_sound [OF slice.reader_axioms h(1)] h(2) show ?thesis by blast
qed

text \<open>C32: Iterating over the extra headers of a header that was read never panics, although the
  iterator trusts the length fields it finds: it ends, yields only non-empty slices, and together
  with their length fields they are all of the extra header data.\<close>

theorem iter_extra_total:
  assumes "reader rd contents" and "lha_read reserve rd r = (Ok (Some h), t)"
  shows "\<exists>hs. extra_collect (iter_extra h) = (Ok hs :: ('e, u8 list list) outcome) \<and> (\<forall>b\<in>set hs. b \<noteq> []) \<and>
    sum_list (map (\<lambda>b. length b + counter_size (level h = 3)) hs) = length (extra_headers h)"
  using lha_read_header_sound [OF assms] by (rule iter_extra_sound)

lemma iter_extra_total_witness:
  "\<exists>h hs. lha_read (\<lambda>n. True) slice_reader level3_example = (Ok (Some h), []) \<and>
    extra_collect (iter_extra h) = (Ok hs :: (eof_error, u8 list list) outcome) \<and>
    sum_list (map (\<lambda>b. length b + counter_size (level h = 3)) hs) = length (extra_headers h)"
proof -
  obtain h where h: "lha_read (\<lambda>n. True) slice_reader level3_example = (Ok (Some h), [])"
    using level3_read [of "\<lambda>n. True"] by blast
  from iter_extra_total [OF slice.reader_axioms h, where ?'e = eof_error] h show ?thesis by blast
qed

text \<open>The total length of a level 3 header is not validated: a header of 32 bytes that announces
  a length of 1000 is accepted.\<close>

lemma level3_length_unchecked:
  "\<exists>h. lha_read reserve slice_reader (level3_prefix @ [0xE8, 3, 0, 0, 0, 0, 0, 0]) = (Ok (Some h), []) \<and> level h = 3"
  using level3_read [of reserve] unfolding level3_example_def .

end
