(* ===== verification/Header_Path.thy ===== *)
theory Header_Path
  imports Header_Sound
begin

text \<open>
  Names in a header: \<open>parse_str_nilterm\<close>, \<open>parse_pathname_to_str\<close> and \<open>parse_pathname\<close> of
  \<open>src/src/header/parser.rs\<close>, and the methods \<open>parse_pathname_to_str\<close>, \<open>parse_pathname\<close> and
  \<open>parse_comment\<close> of \<open>src/src/header.rs\<close>. A Rust string is the list of its bytes: everything that
  is pushed is ASCII. The platform enters with its path separators (\<open>windows\<close>; a build without
  \<open>std\<close> takes both separators as well), and with \<open>memchr\<close>, the search function of the crate of
  that name, which is a parameter.
\<close>

subsection \<open>Sanitising a string\<close>

definition c_dot :: u8 where "c_dot = 0x2E"
definition c_slash :: u8 where "c_slash = 0x2F"
definition c_backslash :: u8 where "c_backslash = 0x5C"
definition c_underscore :: u8 where "c_underscore = 0x5F"
definition c_percent :: u8 where "c_percent = 0x25"

lemmas char_defs = c_dot_def c_slash_def c_backslash_def c_underscore_def c_percent_def

definition is_separator :: "bool \<Rightarrow> u8 \<Rightarrow> bool" where
  "is_separator windows c \<longleftrightarrow> c = c_slash \<or> windows \<and> c = c_backslash"

definition hex_digit :: "u8 \<Rightarrow> u8" where
  "hex_digit n = (if n < 10 then 0x30 + n else 0x57 + n)"

text \<open>\<open>write!(out, "%{:02x}", byte)\<close>\<close>

definition percent :: "u8 \<Rightarrow> u8 list" where
  "percent b = [c_percent, hex_digit (b div 16), hex_digit (b mod 16)]"

fun push_rest :: "bool \<Rightarrow> bool \<Rightarrow> bool \<Rightarrow> u8 list \<Rightarrow> u8 list" where
  "push_rest windows nilterm ignore_sep [] = []"
| "push_rest windows nilterm ignore_sep (b # bs) =
     (if b = 0 \<and> nilterm then []
      else if b \<le> 0x1F \<or> 0x7F \<le> b then percent b @ push_rest windows nilterm ignore_sep bs
      else if \<not> ignore_sep \<and> is_separator windows b then c_underscore # push_rest windows nilterm ignore_sep bs
      else b # push_rest windows nilterm ignore_sep bs)"

definition plain_byte :: "bool \<Rightarrow> bool \<Rightarrow> u8 \<Rightarrow> bool" where
  "plain_byte windows ignore_sep c \<longleftrightarrow> \<not> (\<not> (0x20 \<le> c \<and> c < 0x7F) \<or> \<not> ignore_sep \<and> is_separator windows c)"

definition parse_str_nilterm :: "bool \<Rightarrow> u8 list \<Rightarrow> bool \<Rightarrow> bool \<Rightarrow> u8 list" where
  "parse_str_nilterm windows data nilterm ignore_sep =
     (let head = takeWhile (plain_byte windows ignore_sep) data;
          rest = dropWhile (plain_byte windows ignore_sep) data
      in if rest = [] then data else head @ push_rest windows nilterm ignore_sep rest)"

subsection \<open>Path names\<close>

text \<open>\<open>data.split(pred)\<close> of slices: the pieces between the matches, at least one.\<close>

fun split_on :: "('a \<Rightarrow> bool) \<Rightarrow> 'a list \<Rightarrow> 'a list list" where
  "split_on P [] = [[]]"
| "split_on P (x # xs) = (if P x then [] # split_on P xs
     else (case split_on P xs of [] \<Rightarrow> [[x]] | y # ys \<Rightarrow> (x # y) # ys))"

definition path_split_byte :: "u8 \<Rightarrow> bool" where
  "path_split_byte c \<longleftrightarrow> c = 0xFF \<or> c = c_slash \<or> c = c_backslash"

definition dots :: "u8 list set" where
  "dots = {[c_dot], [c_dot, c_dot]}"

definition skipped_part :: "u8 list \<Rightarrow> bool" where
  "skipped_part part \<longleftrightarrow> part = [c_dot] \<or> part = [c_dot, c_dot] \<or> part = []"

definition push_str_part :: "u8 list \<Rightarrow> u8 list \<Rightarrow> u8 list" where
  "push_str_part path name = (if path \<noteq> [] then path @ [c_slash] else path) @ name"

fun push_parts :: "bool \<Rightarrow> u8 list list \<Rightarrow> u8 list \<Rightarrow> u8 list" where
  "push_parts windows [] path = path"
| "push_parts windows (part # parts) path =
     push_parts windows parts
       (if skipped_part part then path else push_str_part path (parse_str_nilterm windows part False False))"

definition parse_pathname_to_str :: "bool \<Rightarrow> u8 list \<Rightarrow> u8 list \<Rightarrow> u8 list" where
  "parse_pathname_to_str windows data path = push_parts windows (split_on path_split_byte data) path"

text \<open>\<open>PathBuf::push\<close> on a Unix system: an absolute path replaces, any other is appended.\<close>

definition path_push :: "u8 list \<Rightarrow> u8 list \<Rightarrow> u8 list" where
  "path_push path p = (if p \<noteq> [] \<and> hd p = c_slash then p
     else if path \<noteq> [] \<and> last path \<noteq> c_slash then path @ [c_slash] @ p
     else path @ p)"

fun path_push_parts :: "u8 list list \<Rightarrow> u8 list \<Rightarrow> u8 list" where
  "path_push_parts [] path = path"
| "path_push_parts (part # parts) path =
     path_push_parts parts
       (if skipped_part part then path else path_push path (parse_str_nilterm False part False False))"

definition parse_pathname :: "u8 list \<Rightarrow> u8 list \<Rightarrow> u8 list" where
  "parse_pathname data path = path_push_parts (split_on path_split_byte data) path"

definition split_data_at_nil_or_end :: "(u8 \<Rightarrow> u8 list \<Rightarrow> nat option) \<Rightarrow> u8 list \<Rightarrow> u8 list \<times> u8 list option" where
  "split_data_at_nil_or_end memchr data = (case memchr 0 data of
       Some index \<Rightarrow> (take index data, Some (drop (index + 1) data))
     | None \<Rightarrow> (data, None))"

subsection \<open>The methods of the header\<close>

definition is_amiga :: "lha_header \<Rightarrow> bool" where
  "is_amiga h \<longleftrightarrow> parse_os_type h = Ok Amiga"

text \<open>The loop of both path methods: the path and the file name found in the extra headers.\<close>

fun path_headers :: "(u8 list \<Rightarrow> u8 list \<Rightarrow> u8 list) \<Rightarrow> bool \<Rightarrow> bool \<Rightarrow> u8 list list \<Rightarrow>
    u8 list \<times> u8 list \<Rightarrow> u8 list \<times> u8 list" where
  "path_headers parse windows nilterm [] (path, name) = (path, name)"
| "path_headers parse windows nilterm (header # headers) (path, name) =
     path_headers parse windows nilterm headers (case header of
         [] \<Rightarrow> (path, name)
       | tag # data \<Rightarrow>
           if tag = ext_filename then (path, parse_str_nilterm windows data nilterm False)
           else if tag = ext_path then (parse data path, name)
           else (path, name))"

definition base_name :: "(u8 \<Rightarrow> u8 list \<Rightarrow> nat option) \<Rightarrow> lha_header \<Rightarrow> u8 list" where
  "base_name memchr h =
     (if is_amiga h then fst (split_data_at_nil_or_end memchr (filename h)) else filename h)"

definition header_pathname_to_str :: "bool \<Rightarrow> (u8 \<Rightarrow> u8 list \<Rightarrow> nat option) \<Rightarrow> lha_header \<Rightarrow> ('e, u8 list) outcome" where
  "header_pathname_to_str windows memchr h = (case extra_collect (iter_extra h) of
       Ok headers \<Rightarrow>
         (case path_headers (parse_pathname_to_str windows) windows (is_amiga h) headers ([], []) of
           (path, name) \<Rightarrow>
             Ok (if name = [] then parse_pathname_to_str windows (base_name memchr h) path
                 else push_str_part path name))
     | Err e \<Rightarrow> Err e
     | Fault q \<Rightarrow> Fault q)"

text \<open>The method that returns a \<open>PathBuf\<close>, on a Unix system.\<close>

definition header_pathname :: "(u8 \<Rightarrow> u8 list \<Rightarrow> nat option) \<Rightarrow> lha_header \<Rightarrow> ('e, u8 list) outcome" where
  "header_pathname memchr h = (case extra_collect (iter_extra h) of
       Ok headers \<Rightarrow>
         (case path_headers parse_pathname False (is_amiga h) headers ([], []) of
           (path, name) \<Rightarrow>
             Ok (if name = [] then parse_pathname (base_name memchr h) path else path_push path name))
     | Err e \<Rightarrow> Err e
     | Fault q \<Rightarrow> Fault q)"

text \<open>The loop of \<open>parse_comment\<close>, which returns early: a comment, or the raw file name.\<close>

function comment_loop :: "bool \<Rightarrow> extra_iter \<Rightarrow> u8 list \<Rightarrow> ('e, u8 list + u8 list) outcome" where
  "comment_loop windows it raw_filename = (case extra_next it of
       (Ok None, it') \<Rightarrow> Ok (Inr raw_filename)
     | (Ok (Some []), it') \<Rightarrow> comment_loop windows it' raw_filename
     | (Ok (Some (tag # data)), it') \<Rightarrow>
         if tag = ext_filename then comment_loop windows it' data
         else if tag = ext_comment \<and> parse_str_nilterm windows data False True \<noteq> []
         then Ok (Inl (parse_str_nilterm windows data False True))
         else comment_loop windows it' raw_filename
     | (Err e, it') \<Rightarrow> Err e
     | (Fault q, it') \<Rightarrow> Fault q)"
  by auto

termination comment_loop
  by (relation "measure (\<lambda>(windows, it, raw). length (it_data it))") (auto dest!: extra_next_shorter [OF sym])

declare comment_loop.simps [simp del]

definition header_comment :: "bool \<Rightarrow> (u8 \<Rightarrow> u8 list \<Rightarrow> nat option) \<Rightarrow> lha_header \<Rightarrow> ('e, u8 list option) outcome" where
  "header_comment windows memchr h = (case comment_loop windows (iter_extra h) (filename h) of
       Ok (Inl comment) \<Rightarrow> Ok (Some comment)
     | Ok (Inr raw_filename) \<Rightarrow>
         if is_amiga h
         then Ok (map_option (\<lambda>data. parse_str_nilterm windows data False True)
             (snd (split_data_at_nil_or_end memchr raw_filename)))
         else Ok None
     | Err e \<Rightarrow> Err e
     | Fault q \<Rightarrow> Fault q)"

subsection \<open>What sanitising yields\<close>

definition printable :: "u8 \<Rightarrow> bool" where
  "printable b \<longleftrightarrow> 0x20 \<le> b \<and> b < 0x7F"

definition good_name :: "bool \<Rightarrow> u8 list \<Rightarrow> bool" where
  "good_name windows c \<longleftrightarrow> (\<forall>b\<in>set c. printable b \<and> \<not> is_separator windows b)"

definition safe_name :: "bool \<Rightarrow> u8 list \<Rightarrow> bool" where
  "safe_name windows c \<longleftrightarrow> good_name windows c \<and> c \<noteq> [] \<and> c \<notin> dots"

lemma hex_digit_printable:
  assumes "n < 16"
  shows "printable (hex_digit n)" and "\<not> is_separator windows (hex_digit n)"
proof -
  have "unat n < 16" using assms by (simp add: word_less_nat_alt)
  then have "unat n \<in> set [0..<16]" by simp
  then have "n \<in> {0, 1, 2, 3, 4, 5, 6, 7, 8, 9, 10, 11, 12, 13, 14, 15}"
    by (auto simp: upt_rec word_unat_eq_iff)
  then show "printable (hex_digit n)" and "\<not> is_separator windows (hex_digit n)"
    by (auto simp: printable_def hex_digit_def is_separator_def char_defs word_less_nat_alt word_le_nat_alt)
qed

lemma printable_chars: "printable c_percent" "printable c_underscore" "printable c_slash"
    "\<not> is_separator windows c_percent" "\<not> is_separator windows c_underscore"
  by (simp_all add: printable_def is_separator_def char_defs)

lemma printable_kept: "\<not> b \<le> 0x1F \<Longrightarrow> \<not> 0x7F \<le> b \<Longrightarrow> printable b"
  by (simp add: printable_def word_le_nat_alt word_less_nat_alt)

lemma percent_printable:
  "c \<in> set (percent b) \<Longrightarrow> printable c" "c \<in> set (percent b) \<Longrightarrow> \<not> is_separator windows c"
proof -
  have "unat b div 16 < 16" using unat_u8_less [of b] by linarith
  then have d: "b div 16 < 16" by (simp add: word_less_nat_alt unat_div_distrib)
  have m: "b mod 16 < 16" by (simp add: word_less_nat_alt unat_mod_distrib)
  show "c \<in> set (percent b) \<Longrightarrow> printable c" "c \<in> set (percent b) \<Longrightarrow> \<not> is_separator windows c"
    using hex_digit_printable [OF d] hex_digit_printable [OF m]
    by (auto simp: percent_def printable_chars)
qed

lemma push_rest_printable: "c \<in> set (push_rest windows nilterm ign data) \<Longrightarrow> printable c"
  by (induction windows nilterm ign data rule: push_rest.induct)
    (auto simp: percent_printable printable_chars printable_kept split: if_splits)

lemma push_rest_no_separator: "c \<in> set (push_rest windows nilterm False data) \<Longrightarrow> \<not> is_separator windows c"
  by (induction windows nilterm False data rule: push_rest.induct)
    (auto simp: percent_printable printable_chars split: if_splits)

lemma parse_str_printable: "c \<in> set (parse_str_nilterm windows data nilterm ign) \<Longrightarrow> printable c"
  by (auto simp: parse_str_nilterm_def Let_def plain_byte_def printable_def push_rest_printable [unfolded printable_def]
      dest: set_takeWhileD split: if_splits)

lemma parse_str_no_separator:
  "c \<in> set (parse_str_nilterm windows data nilterm False) \<Longrightarrow> \<not> is_separator windows c"
  by (auto simp: parse_str_nilterm_def Let_def plain_byte_def push_rest_no_separator
      dest: set_takeWhileD split: if_splits)

lemma parse_str_good: "good_name windows (parse_str_nilterm windows data nilterm False)"
  by (auto simp: good_name_def parse_str_printable parse_str_no_separator)

lemma split_on_parts: "part \<in> set (split_on P xs) \<Longrightarrow> x \<in> set part \<Longrightarrow> \<not> P x"
  by (induction xs arbitrary: part) (fastforce split: if_splits list.splits)+

lemma push_rest_marks:
  assumes "rest \<noteq> []" and "\<not> plain_byte windows False (hd rest)"
  shows "c_percent \<in> set (push_rest windows False False rest) \<or> c_underscore \<in> set (push_rest windows False False rest)"
proof (cases rest)
  case (Cons b bs)
  with assms(2) have "b \<le> 0x1F \<or> 0x7F \<le> b \<or> is_separator windows b"
    using printable_kept [of b] by (auto simp: plain_byte_def printable_def)
  then show ?thesis by (auto simp: Cons percent_def)
qed (use assms in simp)

lemma parse_str_safe:
  assumes "\<not> skipped_part part"
  shows "safe_name windows (parse_str_nilterm windows part False False)"
proof -
  let ?rest = "dropWhile (plain_byte windows False) part"
  have "parse_str_nilterm windows part False False \<noteq> [] \<and> parse_str_nilterm windows part False False \<notin> dots"
  proof (cases "?rest = []")
    case True
    with assms show ?thesis by (auto simp: parse_str_nilterm_def Let_def skipped_part_def dots_def)
  next
    case False
    then have "\<not> plain_byte windows False (hd ?rest)" by (rule hd_dropWhile)
    from push_rest_marks [OF False this] have "c_percent \<in> set (parse_str_nilterm windows part False False) \<or>
        c_underscore \<in> set (parse_str_nilterm windows part False False)"
      using False by (auto simp: parse_str_nilterm_def Let_def)
    then show ?thesis by (auto simp: dots_def char_defs)
  qed
  then show ?thesis by (simp add: safe_name_def parse_str_good)
qed

subsection \<open>Paths as lists of names\<close>

fun join_path :: "u8 list list \<Rightarrow> u8 list" where
  "join_path [] = []"
| "join_path [c] = c"
| "join_path (c # d # cs) = c @ [c_slash] @ join_path (d # cs)"

lemma join_path_Nil: "\<forall>c\<in>set cs. c \<noteq> [] \<Longrightarrow> join_path cs = [] \<longleftrightarrow> cs = []"
  by (cases cs rule: join_path.cases) auto

lemma join_path_snoc: "cs \<noteq> [] \<Longrightarrow> join_path (cs @ [c]) = join_path cs @ [c_slash] @ c"
  by (induction cs rule: join_path.induct) auto

lemma push_str_part_join:
  "\<forall>c\<in>set cs. c \<noteq> [] \<Longrightarrow> push_str_part (join_path cs) c = join_path (cs @ [c])"
  by (cases "cs = []") (simp_all add: push_str_part_def join_path_Nil join_path_snoc)

lemma join_path_hd: "cs \<noteq> [] \<Longrightarrow> hd cs \<noteq> [] \<Longrightarrow> hd (join_path cs) = hd (hd cs)"
  by (cases cs rule: join_path.cases) auto

lemma join_path_last: "cs \<noteq> [] \<Longrightarrow> last cs \<noteq> [] \<Longrightarrow> last (join_path cs) = last (last cs)"
  by (cases cs rule: rev_cases; cases "butlast cs = []") (auto simp: join_path_snoc)

lemma safe_names_nonempty: "\<forall>c\<in>set cs. safe_name windows c \<Longrightarrow> \<forall>c\<in>set cs. c \<noteq> []"
  by (auto simp: safe_name_def)

lemma push_parts_safe:
  "\<forall>c\<in>set cs. safe_name windows c \<Longrightarrow>
    \<exists>ds. (\<forall>c\<in>set ds. safe_name windows c) \<and> push_parts windows parts (join_path cs) = join_path ds"
proof (induction parts arbitrary: cs)
  case Nil
  then show ?case by auto
next
  case (Cons part parts)
  show ?case
  proof (cases "skipped_part part")
    case True
    with Cons show ?thesis by simp
  next
    case False
    let ?c = "parse_str_nilterm windows part False False"
    have "\<forall>c\<in>set (cs @ [?c]). safe_name windows c" using Cons.prems parse_str_safe [OF False] by auto
    from Cons.IH [OF this] False show ?thesis
      by (simp add: push_str_part_join [OF safe_names_nonempty [OF Cons.prems]])
  qed
qed

lemma path_headers_safe:
  "\<forall>c\<in>set cs. safe_name windows c \<Longrightarrow> good_name windows name \<Longrightarrow>
    path_headers (parse_pathname_to_str windows) windows nilterm headers (join_path cs, name) = (path', name') \<Longrightarrow>
    (\<exists>ds. (\<forall>c\<in>set ds. safe_name windows c) \<and> path' = join_path ds) \<and> good_name windows name'"
proof (induction headers arbitrary: cs name)
  case Nil
  then show ?case by auto
next
  case (Cons header headers)
  note unchanged = Cons.IH [OF Cons.prems(1,2)]
  show ?case
  proof (cases header)
    case Nil
    with unchanged Cons.prems(3) show ?thesis by simp
  next
    case header: (Cons tag data)
    obtain ds where ds: "\<forall>c\<in>set ds. safe_name windows c" "parse_pathname_to_str windows data (join_path cs) = join_path ds"
      unfolding parse_pathname_to_str_def using push_parts_safe [OF Cons.prems(1)] by blast
    show ?thesis
      using Cons.prems(3) unchanged Cons.IH [OF Cons.prems(1) parse_str_good] Cons.IH [OF ds(1) Cons.prems(2)]
      by (auto simp: header ds(2) split: if_splits)
  qed
qed

subsection \<open>What the names and the comment are\<close>

text \<open>
  A byte of a name or comment: a printable ASCII character stands for itself, but for a path separator in
  a name, which is replaced by an underscore; any other byte is written as \<open>%\<close> and two lower
  case hexadecimal digits. For \<open>memchr\<close> its documentation is the assumption: the index of the
  first match.
\<close>

definition escaped_byte :: "bool \<Rightarrow> bool \<Rightarrow> u8 \<Rightarrow> u8 list" where
  "escaped_byte windows ignore_sep b =
     (if b < 0x20 \<or> 0x7F \<le> b
      then [0x25, ascii ''0123456789abcdef'' ! (unat b div 16), ascii ''0123456789abcdef'' ! (unat b mod 16)]
      else if \<not> ignore_sep \<and> is_separator windows b then [0x5F] else [b])"

definition escaped :: "bool \<Rightarrow> bool \<Rightarrow> u8 list \<Rightarrow> u8 list" where
  "escaped windows ignore_sep data = concat (map (escaped_byte windows ignore_sep) data)"

definition up_to_nul :: "u8 list \<Rightarrow> u8 list" where
  "up_to_nul data = takeWhile (\<lambda>b. b \<noteq> 0) data"

definition memchr_ok :: "(u8 \<Rightarrow> u8 list \<Rightarrow> nat option) \<Rightarrow> bool" where
  "memchr_ok memchr \<longleftrightarrow> (\<forall>b bs. memchr b bs = (if b \<in> set bs then Some (length (takeWhile (\<lambda>c. c \<noteq> b) bs)) else None))"

definition memchr_list :: "u8 \<Rightarrow> u8 list \<Rightarrow> nat option" where
  "memchr_list b bs = (if b \<in> set bs then Some (length (takeWhile (\<lambda>c. c \<noteq> b) bs)) else None)"

text \<open>The data of the extra headers with a tag, the names a path is made of, and the file name.\<close>

definition tagged :: "u8 \<Rightarrow> u8 list list \<Rightarrow> u8 list list" where
  "tagged tag hs = map tl (filter (\<lambda>b. b \<noteq> [] \<and> hd b = tag) hs)"

definition names_of :: "bool \<Rightarrow> u8 list \<Rightarrow> u8 list list" where
  "names_of windows data = map (escaped windows False)
     (filter (\<lambda>part. part \<noteq> [] \<and> part \<noteq> ascii ''.'' \<and> part \<noteq> ascii ''..'')
       (split_on (\<lambda>c. c = 0xFF \<or> c = 0x2F \<or> c = 0x5C) data))"

definition extra_name :: "bool \<Rightarrow> bool \<Rightarrow> u8 list list \<Rightarrow> u8 list" where
  "extra_name windows amiga hs = (if tagged 0x01 hs = [] then []
     else escaped windows False (if amiga then up_to_nul (last (tagged 0x01 hs)) else last (tagged 0x01 hs)))"

lemma memchr_list: "memchr_ok memchr_list"
  by (simp add: memchr_ok_def memchr_list_def)

lemma hex_digit_nth:
  assumes "n < 16"
  shows "hex_digit n = ascii ''0123456789abcdef'' ! unat n"
proof -
  have "unat n < 16" using assms by (simp add: word_less_nat_alt)
  then have "unat n \<in> set [0..<16]" by simp
  then have "n \<in> {0, 1, 2, 3, 4, 5, 6, 7, 8, 9, 10, 11, 12, 13, 14, 15}"
    by (auto simp: upt_rec word_unat_eq_iff)
  then show ?thesis by (elim insertE) (simp_all add: hex_digit_def ascii_def)
qed

lemma percent_escaped: "b \<le> 0x1F \<or> 0x7F \<le> b \<Longrightarrow> percent b = escaped_byte windows ign b"
proof -
  have "unat b div 16 < 16" using unat_u8_less [of b] by linarith
  then have d: "b div 16 < 16" "unat (b div 16) = unat b div 16" by (simp_all add: word_less_nat_alt unat_div_distrib)
  have m: "b mod 16 < 16" "unat (b mod 16) = unat b mod 16" by (simp_all add: word_less_nat_alt unat_mod_distrib)
  assume "b \<le> 0x1F \<or> 0x7F \<le> b"
  then have "b < 0x20 \<or> 0x7F \<le> b" by (auto simp: word_le_nat_alt word_less_nat_alt)
  then show ?thesis
    using hex_digit_nth [OF d(1)] hex_digit_nth [OF m(1)] d(2) m(2)
    by (simp add: percent_def escaped_byte_def c_percent_def)
qed

lemma plain_escaped: "plain_byte windows ign b \<Longrightarrow> escaped_byte windows ign b = [b] \<and> b \<noteq> 0"
  by (auto simp: plain_byte_def escaped_byte_def word_le_nat_alt word_less_nat_alt)

lemma push_rest_escaped:
  "push_rest windows nilterm ign data = escaped windows ign (if nilterm then up_to_nul data else data)"
proof (induction windows nilterm ign data rule: push_rest.induct)
  case (2 windows nilterm ign b bs)
  then show ?case
    using percent_escaped [of b windows ign] printable_kept [of b]
    by (auto simp: escaped_def up_to_nul_def escaped_byte_def c_underscore_def printable_def not_less [symmetric])
qed (simp add: escaped_def up_to_nul_def)

lemma parse_str_escaped:
  "parse_str_nilterm windows data nilterm ign = escaped windows ign (if nilterm then up_to_nul data else data)"
proof -
  let ?P = "plain_byte windows ign"
  have plain: "list_all ?P xs \<Longrightarrow> escaped windows ign xs = xs \<and> up_to_nul xs = xs \<and> up_to_nul (xs @ ys) = xs @ up_to_nul ys" for xs ys
    by (induction xs) (auto simp: escaped_def up_to_nul_def dest: plain_escaped)
  have head: "list_all ?P (takeWhile ?P data)" by (auto simp: list_all_iff dest: set_takeWhileD)
  note plain = plain [OF head]
  have append: "escaped windows ign (xs @ ys) = escaped windows ign xs @ escaped windows ign ys" for xs ys
    by (simp add: escaped_def)
  have data: "data = takeWhile ?P data @ dropWhile ?P data" by simp
  show ?thesis
  proof (cases "dropWhile ?P data = []")
    case True
    then have "takeWhile ?P data = data" using data by simp
    with True plain show ?thesis by (simp add: parse_str_nilterm_def Let_def)
  next
    case False
    then have "parse_str_nilterm windows data nilterm ign =
        takeWhile ?P data @ escaped windows ign (if nilterm then up_to_nul (dropWhile ?P data) else dropWhile ?P data)"
      by (simp only: parse_str_nilterm_def Let_def push_rest_escaped if_False)
    also have "\<dots> = escaped windows ign (if nilterm then takeWhile ?P data @ up_to_nul (dropWhile ?P data)
        else takeWhile ?P data @ dropWhile ?P data)"
      using plain by (simp only: append split: if_split) blast
    also have "\<dots> = escaped windows ign (if nilterm then up_to_nul data else data)"
      using plain [of "dropWhile ?P data"] unfolding data [symmetric] by simp
    finally show ?thesis .
  qed
qed

lemma escaped_Nil: "escaped windows ign data = [] \<longleftrightarrow> data = []"
  by (cases data) (auto simp: escaped_def escaped_byte_def)

lemma escaped_printable: "b \<in> set (escaped windows ign data) \<Longrightarrow> printable b"
  using parse_str_printable [of b windows data False ign] by (simp add: parse_str_escaped)

lemma split_nul:
  assumes "memchr_ok memchr"
  shows "split_data_at_nil_or_end memchr data =
    (up_to_nul data, if 0 \<in> set data then Some (tl (dropWhile (\<lambda>b. b \<noteq> 0) data)) else None)"
proof -
  have head: "take (length (takeWhile P xs)) xs = takeWhile P xs" for P and xs :: "u8 list"
    by (rule takeWhile_eq_take [symmetric])
  have rest: "drop (Suc (length (takeWhile P xs))) xs = tl (dropWhile P xs)" for P and xs :: "u8 list"
    by (simp add: dropWhile_eq_drop tl_drop drop_Suc)
  show ?thesis
  proof (cases "0 \<in> set data")
    case True
    with assms show ?thesis by (simp add: memchr_ok_def split_data_at_nil_or_end_def up_to_nul_def head rest)
  next
    case False
    then have "up_to_nul data = data" unfolding up_to_nul_def by (auto simp: takeWhile_eq_all_conv)
    with False assms show ?thesis by (simp add: memchr_ok_def split_data_at_nil_or_end_def)
  qed
qed

lemma is_amiga_code: "is_amiga h \<longleftrightarrow> os_type h = 0x41"
  by (simp add: is_amiga_def parse_os_type_def os_type_round_trip)

lemma push_parts_names:
  "\<forall>c\<in>set cs. c \<noteq> [] \<Longrightarrow> push_parts windows parts (join_path cs) =
    join_path (cs @ map (escaped windows False) (filter (\<lambda>part. \<not> skipped_part part) parts))"
proof (induction parts arbitrary: cs)
  case (Cons part parts)
  show ?case
  proof (cases "skipped_part part")
    case False
    then have "escaped windows False part \<noteq> []" by (simp add: escaped_Nil skipped_part_def)
    then have "\<forall>c\<in>set (cs @ [escaped windows False part]). c \<noteq> []" using Cons.prems by auto
    from Cons.IH [OF this] False show ?thesis
      by (simp add: push_str_part_join [OF Cons.prems] parse_str_escaped)
  qed (use Cons in simp)
qed simp

lemma names_of_nonempty: "c \<in> set (names_of windows data) \<Longrightarrow> c \<noteq> []"
  by (auto simp: names_of_def escaped_Nil)

lemma parse_pathname_names:
  "\<forall>c\<in>set cs. c \<noteq> [] \<Longrightarrow>
    parse_pathname_to_str windows data (join_path cs) = join_path (cs @ names_of windows data)"
proof -
  have "(\<lambda>part. \<not> skipped_part part) = (\<lambda>part. part \<noteq> [] \<and> part \<noteq> ascii ''.'' \<and> part \<noteq> ascii ''..'')"
    by (auto simp: skipped_part_def ascii_def char_defs)
  moreover have "path_split_byte = (\<lambda>c. c = 0xFF \<or> c = 0x2F \<or> c = 0x5C)"
    by (auto simp: path_split_byte_def char_defs)
  ultimately show "\<forall>c\<in>set cs. c \<noteq> [] \<Longrightarrow> ?thesis"
    by (simp add: parse_pathname_to_str_def names_of_def push_parts_names)
qed

lemma path_headers_names:
  "\<forall>c\<in>set cs. c \<noteq> [] \<Longrightarrow>
    path_headers (parse_pathname_to_str windows) windows amiga hs (join_path cs, name) =
      (join_path (cs @ concat (map (names_of windows) (tagged 0x02 hs))),
       if tagged 0x01 hs = [] then name else extra_name windows amiga hs)"
proof (induction hs arbitrary: cs name)
  case (Cons b hs)
  show ?case
  proof (cases b)
    case Nil
    with Cons show ?thesis by (simp add: tagged_def extra_name_def)
  next
    case b: (Cons tag data)
    have "\<forall>c\<in>set (cs @ names_of windows data). c \<noteq> []" using Cons.prems names_of_nonempty by auto
    note IH = Cons.IH [OF Cons.prems] Cons.IH [OF this]
    show ?thesis
      unfolding b by (auto simp: IH parse_pathname_names [OF Cons.prems] tagged_def extra_name_def ext_defs parse_str_escaped)
  qed
qed (simp add: tagged_def)

lemma pathname_names:
  assumes "memchr_ok memchr" and "extra_collect (iter_extra h) = (Ok hs :: ('e, u8 list list) outcome)"
  shows "header_pathname_to_str windows memchr h = (Ok (join_path (concat (map (names_of windows) (tagged 0x02 hs)) @
    (if extra_name windows (os_type h = 0x41) hs \<noteq> [] then [extra_name windows (os_type h = 0x41) hs]
     else names_of windows (if os_type h = 0x41 then up_to_nul (filename h) else filename h)))) :: ('e, u8 list) outcome)"
proof -
  let ?dirs = "concat (map (names_of windows) (tagged 0x02 hs))"
  have dirs: "\<forall>c\<in>set ?dirs. c \<noteq> []" using names_of_nonempty by auto
  have "path_headers (parse_pathname_to_str windows) windows (is_amiga h) hs ([], []) =
      (join_path ?dirs, extra_name windows (os_type h = 0x41) hs)"
    using path_headers_names [of "[]" windows "is_amiga h" hs "[]"]
    by (simp add: is_amiga_code extra_name_def)
  moreover have "base_name memchr h = (if os_type h = 0x41 then up_to_nul (filename h) else filename h)"
    by (simp add: base_name_def is_amiga_code split_nul [OF assms(1)])
  ultimately show ?thesis
    by (simp add: header_pathname_to_str_def assms(2) parse_pathname_names [OF dirs] push_str_part_join [OF dirs])
qed

lemma names_of_safe:
  assumes "c \<in> set (names_of windows data)"
  shows "safe_name windows c"
proof -
  from assms obtain part where part: "c = parse_str_nilterm windows part False False" "part \<noteq> []"
      "part \<noteq> ascii ''.''" "part \<noteq> ascii ''..''"
    by (auto simp: names_of_def parse_str_escaped)
  then have "\<not> skipped_part part" by (simp add: skipped_part_def ascii_def char_defs)
  from parse_str_safe [OF this] part(1) show ?thesis by simp
qed

lemma extra_name_good: "good_name windows (extra_name windows amiga hs)"
  using parse_str_good [of windows "last (tagged 0x01 hs)" amiga]
  by (simp add: extra_name_def parse_str_escaped) (simp add: good_name_def)

text \<open>On a Unix system \<open>PathBuf::push\<close> does to these paths what the string version does.\<close>

lemma path_push_join:
  assumes "\<forall>c\<in>set cs. safe_name False c" and "good_name False name" and "name \<noteq> []"
  shows "path_push (join_path cs) name = push_str_part (join_path cs) name"
proof -
  have name: "hd name \<noteq> c_slash"
    using assms(2,3) by (cases name) (auto simp: good_name_def is_separator_def)
  show ?thesis
  proof (cases "cs = []")
    case True
    with name show ?thesis by (simp add: path_push_def push_str_part_def)
  next
    case False
    then have "safe_name False (last cs)" using assms(1) by simp
    then have "last (last cs) \<noteq> c_slash" "last cs \<noteq> []"
      by (auto simp: safe_name_def good_name_def is_separator_def dest: last_in_set)
    then have "last (join_path cs) \<noteq> c_slash" using join_path_last [OF False] by simp
    moreover have "join_path cs \<noteq> []" using join_path_Nil [OF safe_names_nonempty [OF assms(1)]] False by simp
    ultimately show ?thesis using name by (simp add: path_push_def push_str_part_def)
  qed
qed

lemma path_push_parts_join:
  "\<forall>c\<in>set cs. safe_name False c \<Longrightarrow> path_push_parts parts (join_path cs) = push_parts False parts (join_path cs)"
proof (induction parts arbitrary: cs)
  case (Cons part parts)
  show ?case
  proof (cases "skipped_part part")
    case False
    let ?c = "parse_str_nilterm False part False False"
    have c: "safe_name False ?c" by (rule parse_str_safe [OF False])
    then have "\<forall>c\<in>set (cs @ [?c]). safe_name False c" using Cons.prems by auto
    from Cons.IH [OF this] c path_push_join [OF Cons.prems, of ?c] False show ?thesis
      by (simp add: safe_name_def push_str_part_join [OF safe_names_nonempty [OF Cons.prems]])
  qed (use Cons in simp)
qed simp

lemma path_headers_unix:
  "\<forall>c\<in>set cs. safe_name False c \<Longrightarrow>
    path_headers parse_pathname False nilterm headers (join_path cs, name) =
    path_headers (parse_pathname_to_str False) False nilterm headers (join_path cs, name)"
proof (induction headers arbitrary: cs name)
  case (Cons header headers)
  show ?case
  proof (cases header)
    case header: (Cons tag data)
    obtain ds where ds: "\<forall>c\<in>set ds. safe_name False c" "parse_pathname_to_str False data (join_path cs) = join_path ds"
      unfolding parse_pathname_to_str_def using push_parts_safe [OF Cons.prems] by blast
    then have "parse_pathname data (join_path cs) = join_path ds"
      by (simp add: parse_pathname_def path_push_parts_join [OF Cons.prems] parse_pathname_to_str_def)
    then show ?thesis using Cons.IH [OF Cons.prems] Cons.IH [OF ds(1)] by (simp add: header ds(2))
  qed (use Cons in simp)
qed simp

lemma comment_loop_spec:
  "extra_collect it = (Ok hs :: ('e, u8 list list) outcome) \<Longrightarrow>
    (comment_loop windows it raw :: ('e, u8 list + u8 list) outcome) = Ok (
      case find (\<lambda>data. data \<noteq> []) (tagged 0x3F hs) of
        Some data \<Rightarrow> Inl (escaped windows True data)
      | None \<Rightarrow> Inr (if tagged 0x01 hs = [] then raw else last (tagged 0x01 hs)))"
proof (induction "length (it_data it)" arbitrary: it raw hs rule: less_induct)
  case less
  obtain res it' where n: "(extra_next it :: ('e, _) outcome \<times> _) = (res, it')" by fastforce
  note unfold = comment_loop.simps [of windows it raw, where ?'a = 'e, unfolded n prod.case]
  from extra_collect_step [OF less.prems n] show ?case
  proof (elim disjE exE conjE)
    fix b hs'
    assume step: "res = Ok (Some b)" "hs = b # hs'" "extra_collect it' = (Ok hs' :: ('e, u8 list list) outcome)"
    with n have "length (it_data it') < length (it_data it)" using extra_next_shorter by blast
    note IH = less.hyps [OF this step(3)]
    show ?thesis
      unfolding unfold step by (cases b) (auto simp: IH tagged_def ext_defs parse_str_escaped escaped_Nil split: option.splits)
  qed (simp add: unfold tagged_def)
qed

definition example_header :: lha_header where
  "example_header = header_default\<lparr>level := 1, filename := ascii ''../a'' @ [0xFF, 0x62, 1]\<rparr>"

lemma example_pathname: "header_pathname_to_str False memchr example_header = Ok (ascii ''a/b%01'')"
  by (simp add: example_header_def header_default_def header_pathname_to_str_def iter_extra_def extra_collect.simps
      extra_next_def base_name_def is_amiga_def parse_os_type_def os_try_from_def parse_pathname_to_str_def ascii_def
      path_split_byte_def char_defs skipped_part_def push_str_part_def parse_str_nilterm_def plain_byte_def
      is_separator_def percent_def hex_digit_def Let_def word_le_nat_alt)

subsection \<open>Properties\<close>

text \<open>C33: The path name of a header is the names of its path extra headers, each split at \<open>0xFF\<close>, \<open>/\<close> and \<open>\\<close> with
  the parts \<open>.\<close>, \<open>..\<close> and the empty ones left out, followed by the name in its last file name extra header if
  that is not empty, else by the names in the file name of the base header, all joined by slashes. Every
  name is non-empty and consists of printable ASCII characters other than a path separator, so the path is
  relative, and no name is \<open>.\<close> or \<open>..\<close> except the one taken from a file name extra header, which is not
  checked: it can be \<open>..\<close>, although the documentation of the method says that such components are stripped.\<close>

theorem pathname_components:
  assumes "memchr_ok memchr" and "extra_collect (iter_extra h) = (Ok hs :: ('e, u8 list list) outcome)"
  shows "\<exists>cs. header_pathname_to_str windows memchr h = (Ok (join_path cs) :: ('e, u8 list) outcome) \<and>
    cs = concat (map (names_of windows) (tagged 0x02 hs)) @
      (if extra_name windows (os_type h = 0x41) hs \<noteq> [] then [extra_name windows (os_type h = 0x41) hs]
       else names_of windows (if os_type h = 0x41 then up_to_nul (filename h) else filename h)) \<and>
    (\<forall>c\<in>set cs. c \<noteq> [] \<and> (\<forall>b\<in>set c. printable b \<and> \<not> is_separator windows b)) \<and>
    (\<forall>c\<in>set cs. c = ascii ''.'' \<or> c = ascii ''..'' \<longrightarrow> c = extra_name windows (os_type h = 0x41) hs) \<and>
    (join_path cs = [] \<or> hd (join_path cs) \<noteq> c_slash)"
proof -
  let ?name = "extra_name windows (os_type h = 0x41) hs"
  let ?cs = "concat (map (names_of windows) (tagged 0x02 hs)) @ (if ?name \<noteq> [] then [?name]
      else names_of windows (if os_type h = 0x41 then up_to_nul (filename h) else filename h))"
  have names: "safe_name windows c \<or> c = ?name \<and> c \<noteq> []" if "c \<in> set ?cs" for c
    using that names_of_safe by (auto split: if_splits)
  then have good: "good_name windows c \<and> c \<noteq> []" if "c \<in> set ?cs" for c
    using extra_name_good [of windows "os_type h = 0x41" hs] names [OF that] by (auto simp: safe_name_def)
  have dots: "c = ?name" if "c \<in> set ?cs" and "c = ascii ''.'' \<or> c = ascii ''..''" for c
    using names [OF that(1)] that(2) by (auto simp: safe_name_def dots_def ascii_def c_dot_def)
  have "join_path cs = [] \<or> hd (join_path cs) \<noteq> c_slash" if "\<And>c. c \<in> set cs \<Longrightarrow> good_name windows c \<and> c \<noteq> []" for cs
  proof (cases cs)
    case (Cons c ds)
    then have "hd (join_path cs) = hd c" and "hd c \<in> set c" and "good_name windows c"
      using that [of c] join_path_hd [of cs] by auto
    then show ?thesis by (auto simp: good_name_def is_separator_def)
  qed simp
  note relative = this [of ?cs, OF good]
  show ?thesis
  proof (intro exI [of _ ?cs] conjI ballI impI)
    show "header_pathname_to_str windows memchr h = (Ok (join_path ?cs) :: ('e, u8 list) outcome)"
      by (rule pathname_names [OF assms])
  next
    fix c assume "c \<in> set ?cs"
    from good [OF this] show "c \<noteq> []" and "\<And>b. b \<in> set c \<Longrightarrow> printable b" and "\<And>b. b \<in> set c \<Longrightarrow> \<not> is_separator windows b"
      by (simp_all add: good_name_def)
  qed (rule refl, erule dots, assumption, rule relative)
qed

text \<open>A header with two path extra headers and two file names: the last one counts and is escaped.\<close>

definition path_header :: lha_header where
  "path_header = header_default\<lparr>level := 1, first_header_len := 10, extra_headers :=
     [2, 0x61, 0xFF, 0x2E, 0x2E, 0x5C, 0x62, 0xFF, 4, 0,  1, 0x63, 6, 0,  1, 0x2F, 0x64, 0xC3, 0, 0]\<rparr>"

lemma path_header_extras: "extra_collect (iter_extra path_header) = (Ok [[2, 0x61, 0xFF, 0x2E, 0x2E, 0x5C, 0x62, 0xFF], [1, 0x63], [1, 0x2F, 0x64, 0xC3]] :: (unit, u8 list list) outcome)"
  by (simp add: path_header_def header_default_def iter_extra_def extra_collect.simps extra_next_def next_length_def
      read_u16_def from_le_def counter_size_def)

lemma pathname_components_witness:
  "header_pathname_to_str False memchr_list path_header = (Ok (ascii ''a/b/_d%c3'') :: (unit, u8 list) outcome)"
  using pathname_components [OF memchr_list path_header_extras, of False]
  by (simp add: path_header_def header_default_def tagged_def names_of_def extra_name_def escaped_def escaped_byte_def
      is_separator_def char_defs ascii_def)

text \<open>The exception of the last name is real: an extra header with the file name \<open>..\<close> yields the path
  \<open>..\<close>, although the documentation of the method says that such components are stripped.\<close>

lemma filename_dotdot_kept:
  "header_pathname_to_str windows memchr
     (header_default\<lparr>level := 1, first_header_len := 5, extra_headers := [ext_filename, c_dot, c_dot, 0, 0]\<rparr>) =
   (Ok [c_dot, c_dot] :: ('e, u8 list) outcome)"
  by (simp add: header_default_def header_pathname_to_str_def iter_extra_def extra_collect.simps
      extra_next_def is_amiga_def parse_os_type_def os_try_from_def next_length_def read_u16_def from_le_def
      counter_size_def push_str_part_def parse_str_nilterm_def plain_byte_def ext_defs
      is_separator_def char_defs Let_def)

text \<open>C34: On a Unix system the two path methods agree: the \<open>PathBuf\<close> built by pushing components is the
  string the other method builds, for every header.\<close>

theorem pathname_unix:
  "header_pathname memchr h = (header_pathname_to_str False memchr h :: ('e, u8 list) outcome)"
proof (cases "extra_collect (iter_extra h) :: ('e, u8 list list) outcome")
  case (Ok headers)
  obtain p name where pn: "path_headers (parse_pathname_to_str False) False (is_amiga h) headers ([], []) = (p, name)"
    by fastforce
  have "good_name False []" by (simp add: good_name_def)
  from path_headers_safe [of "[]" False "[]" "is_amiga h" headers p name] this pn
  obtain cs where cs: "\<forall>c\<in>set cs. safe_name False c" "p = join_path cs" and name: "good_name False name" by auto
  show ?thesis
    using Ok pn cs name path_headers_unix [of "[]" "is_amiga h" headers "[]"] path_push_join [OF cs(1) name]
    by (simp add: header_pathname_def header_pathname_to_str_def parse_pathname_def parse_pathname_to_str_def
        path_push_parts_join)
qed (simp_all add: header_pathname_def header_pathname_to_str_def)

text \<open>C36: The comment of a header is the data of its first comment extra header that has any; without one, on an
  Amiga, it is what follows the first nul of the file name, that of the last file name extra header
  or else of the base header. Every byte of it that is not a printable ASCII character is written as \<open>%xx\<close>,
  path separators are kept, and nothing is left out.\<close>

theorem comment_printable:
  assumes "memchr_ok memchr" and "extra_collect (iter_extra h) = (Ok hs :: ('e, u8 list list) outcome)"
  shows "header_comment windows memchr h = (Ok (
      case find (\<lambda>data. data \<noteq> []) (tagged 0x3F hs) of
        Some data \<Rightarrow> Some (escaped windows True data)
      | None \<Rightarrow>
          (let name = if tagged 0x01 hs = [] then filename h else last (tagged 0x01 hs)
           in if os_type h = 0x41 \<and> 0 \<in> set name
              then Some (escaped windows True (tl (dropWhile (\<lambda>b. b \<noteq> 0) name))) else None)) :: ('e, u8 list option) outcome)"
    (is "_ = (Ok ?comment :: _)")
proof -
  show ?thesis
    unfolding header_comment_def comment_loop_spec [OF assms(2)]
    by (auto simp: is_amiga_code split_nul [OF assms(1)] parse_str_escaped Let_def split: option.splits)
qed

lemma comment_printable_witness:
  "header_comment False memchr_list (path_header\<lparr>os_type := 0x41, extra_headers := [], first_header_len := 0, filename := [0x61, 0, 0x80, 0x2F]\<rparr>) =
     (Ok (Some (ascii ''%80/'')) :: (unit, u8 list option) outcome)"
proof -
  let ?h = "path_header\<lparr>os_type := 0x41, extra_headers := [], first_header_len := 0, filename := [0x61, 0, 0x80, 0x2F]\<rparr>"
  have "extra_collect (iter_extra ?h) = (Ok [] :: (unit, u8 list list) outcome)"
    by (simp add: path_header_def header_default_def iter_extra_def extra_collect.simps extra_next_def)
  from comment_printable [OF memchr_list this, of False] show ?thesis
    by (simp add: tagged_def escaped_def escaped_byte_def ascii_def)
qed

end
