(* ===== verification/Header_Format.thy ===== *)
theory Header_Format
  imports Header_Sound
begin

text \<open>
  The format of a header, as an encoder of its fields for the levels 0 to 3, and completeness of
  the parser: what the encoder writes is accepted and read back, and the reader is left exactly
  behind it. Together with the soundness of \<open>Header_Sound\<close> this says which headers the parser reads.
\<close>

subsection \<open>Runs that succeed\<close>

text \<open>From every state of \<open>P\<close> the action returns \<open>x\<close> and ends in a state of \<open>Q\<close>.\<close>

definition gives :: "('s \<Rightarrow> bool) \<Rightarrow> ('s, 'e, 'a) act \<Rightarrow> 'a \<Rightarrow> ('s \<Rightarrow> bool) \<Rightarrow> bool" where
  "gives P m x Q \<longleftrightarrow> (\<forall>s. P s \<longrightarrow> (\<exists>t. m s = (Ok x, t) \<and> Q t))"

lemma givesI: "(\<And>s. P s \<Longrightarrow> \<exists>t. m s = (Ok x, t) \<and> Q t) \<Longrightarrow> gives P m x Q"
  by (simp add: gives_def)

lemma givesD: "gives P m x Q \<Longrightarrow> P s \<Longrightarrow> \<exists>t. m s = (Ok x, t) \<and> Q t"
  by (simp add: gives_def)

lemma gives_ret: "gives P (ret x) x P"
  by (simp add: gives_def ret_def)

lemma gives_bnd: "gives P m x R \<Longrightarrow> gives R (f x) y Q \<Longrightarrow> gives P (bnd m f) y Q"
  unfolding gives_def by (metis bnd_Ok)

lemma gives_get: "(\<And>s. P s \<Longrightarrow> f s = x) \<Longrightarrow> gives P (get_state f) x P"
  by (simp add: gives_def get_state_def)

lemma gives_modify: "(\<And>s. P s \<Longrightarrow> Q (g s)) \<Longrightarrow> gives P (modify g) () Q"
  by (simp add: gives_def modify_def)

lemma gives_pre: "gives P m x Q \<Longrightarrow> P = P' \<Longrightarrow> gives P' m x Q"
  by simp

lemma gives_post: "gives P m x Q \<Longrightarrow> (\<And>s. Q s \<Longrightarrow> R s) \<Longrightarrow> gives P m x R"
  unfolding gives_def by blast

lemma gives_ex: "(\<And>y. gives (P y) m x Q) \<Longrightarrow> gives (\<lambda>s. \<exists>y. P y s) m x Q"
  by (auto simp: gives_def)

lemma gives_value: "gives P m x Q \<Longrightarrow> x = y \<Longrightarrow> gives P m y Q"
  by simp

subsection \<open>Numbers\<close>

lemma from_le_to_le: "n < 256 ^ k \<Longrightarrow> from_le (to_le_bytes k n) = of_nat n"
  by (simp add: from_le_def le_bytes_to_le_bytes)

lemma from_le_unat:
  fixes w :: "'a :: len word"
  assumes "LENGTH('a) \<le> 8 * k"
  shows "from_le (to_le_bytes k (unat w)) = (ucast w :: 'b :: len word)"
proof -
  have "unat w < 2 ^ LENGTH('a)" by (rule unsigned_less)
  also have "(2 :: nat) ^ LENGTH('a) \<le> 2 ^ (8 * k)" using assms by (simp add: power_increasing)
  also have "(2 :: nat) ^ (8 * k) = 256 ^ k" by (simp add: power_mult)
  finally show ?thesis by (simp add: from_le_to_le unsigned_def)
qed

subsection \<open>The encoder\<close>

record header_fields =
  fd_level :: u8
  fd_method :: "u8 list"
  fd_compressed :: u32
  fd_original :: u32
  fd_modified :: u32
  fd_attrs :: u8
  fd_name :: "u8 list"
  fd_crc :: u16
  fd_os :: u8
  fd_area :: "u8 list"
  fd_extras :: "u8 list list"

text \<open>Every extra header ends with the length of the next one.\<close>

definition first_len :: "nat \<Rightarrow> u8 list list \<Rightarrow> nat" where
  "first_len c bodies = (case bodies of [] \<Rightarrow> 0 | b # bs \<Rightarrow> length b + c)"

fun extra_chain :: "nat \<Rightarrow> u8 list list \<Rightarrow> u8 list list" where
  "extra_chain c [] = []"
| "extra_chain c (b # bs) = (b @ to_le_bytes c (first_len c bs)) # extra_chain c bs"

definition hdr_counter :: "header_fields \<Rightarrow> nat" where
  "hdr_counter f = counter_size (fd_level f = 3)"

definition hdr_raws :: "header_fields \<Rightarrow> u8 list list" where
  "hdr_raws f = extra_chain (hdr_counter f) (fd_extras f)"

definition extra_len :: "header_fields \<Rightarrow> nat" where
  "extra_len f = length (concat (hdr_raws f))"

text \<open>A level 1 header counts its extra headers to the data.\<close>

definition size_field :: "header_fields \<Rightarrow> nat" where
  "size_field f = unat (fd_compressed f) + (if fd_level f = 1 then extra_len f else 0)"

definition fixed_part :: "header_fields \<Rightarrow> u8 list" where
  "fixed_part f = fd_method f @ to_le_bytes 4 (size_field f) @ to_le_bytes 4 (unat (fd_original f)) @
     to_le_bytes 4 (unat (fd_modified f)) @ [fd_attrs f, fd_level f]"

definition hdr_pad :: "header_fields \<Rightarrow> u8 list" where
  "hdr_pad f = (if fd_level f = 2 \<and> (26 + extra_len f) mod 256 = 0 then [0] else [])"

text \<open>What follows the first two bytes, but for the extra headers.\<close>

definition name_part :: "header_fields \<Rightarrow> u8 list" where
  "name_part f = (if fd_level f < 2 then of_nat (length (fd_name f)) # fd_name f else [])"

definition lens_part :: "header_fields \<Rightarrow> u8 list" where
  "lens_part f = (if fd_level f = 3 then to_le_bytes 4 (32 + extra_len f) else []) @
     (if fd_level f = 0 then [] else to_le_bytes (hdr_counter f) (first_len (hdr_counter f) (fd_extras f)))"

definition hdr_base :: "header_fields \<Rightarrow> u8 list" where
  "hdr_base f = fixed_part f @ name_part f @ to_le_bytes 2 (unat (fd_crc f)) @ fd_os f # fd_area f @ lens_part f"

definition hdr_front :: "header_fields \<Rightarrow> u8 list" where
  "hdr_front f = (if fd_level f < 2 then [of_nat (length (hdr_base f)), sum_list (hdr_base f)]
     else if fd_level f = 2 then to_le_bytes 2 (26 + extra_len f + length (hdr_pad f))
     else [4, 0])"

definition encode_header :: "header_fields \<Rightarrow> u8 list" where
  "encode_header f = hdr_front f @ hdr_base f @ concat (hdr_raws f) @ hdr_pad f"

text \<open>The bytes the CRC-16 of the header is taken of.\<close>

definition crc_bytes :: "header_fields \<Rightarrow> u8 list" where
  "crc_bytes f = hdr_front f @ hdr_base f @ concat (map clear_crc (hdr_raws f)) @ hdr_pad f"

text \<open>The extra headers the parser looks at have the data it looks for.\<close>

definition body_ok :: "u8 \<Rightarrow> u8 list \<Rightarrow> bool" where
  "body_ok lev b \<longleftrightarrow> b \<noteq> [] \<and> (hd b \<in> {ext_common, ext_msdos_attrs, ext_ext_attrs} \<longrightarrow> 3 \<le> length b) \<and>
     (hd b = ext_msdos_size \<and> 2 \<le> lev \<longrightarrow> 17 \<le> length b)"

definition valid_fields :: "header_fields \<Rightarrow> bool" where
  "valid_fields f \<longleftrightarrow> fd_level f \<le> 3 \<and> length (fd_method f) = 5 \<and>
     (fd_level f = 0 \<longrightarrow> fd_extras f = []) \<and> (2 \<le> fd_level f \<longrightarrow> fd_name f = [] \<and> fd_area f = []) \<and>
     (fd_level f < 2 \<longrightarrow> length (hdr_base f) < 256) \<and> size_field f < 2 ^ 32 \<and>
     (fd_level f = 2 \<longrightarrow> 27 + extra_len f < 2 ^ 16) \<and> (fd_level f = 3 \<longrightarrow> 32 + extra_len f < 2 ^ 32) \<and>
     list_all (\<lambda>b. body_ok (fd_level f) b \<and> length b + hdr_counter f < 256 ^ hdr_counter f) (fd_extras f) \<and>
     length (filter (\<lambda>b. hd b = ext_common) (fd_extras f)) \<le> 1 \<and>
     list_all (\<lambda>r. stored_crc r \<in> {None, Some (sum16 (digest (crc_bytes f) crc_new))}) (hdr_raws f)"

text \<open>What an extra header says about the member.\<close>

definition body_effect :: "u8 \<Rightarrow> u8 list \<Rightarrow> extra_state \<Rightarrow> extra_state" where
  "body_effect lev b x =
     (if hd b = ext_common then x\<lparr>x_header_crc := Some (from_le (take 2 (tl b)))\<rparr>
      else if hd b = ext_msdos_attrs \<or> hd b = ext_ext_attrs then x\<lparr>x_attrs := from_le (take 2 (tl b))\<rparr>
      else if hd b = ext_msdos_size \<and> 2 \<le> lev then
        x\<lparr>x_compressed_size := from_le (take 8 (tl b)), x_original_size := from_le (take 8 (drop 8 (tl b)))\<rparr>
      else x)"

definition said :: "header_fields \<Rightarrow> extra_state" where
  "said f = fold (body_effect (fd_level f)) (fd_extras f)
     \<lparr>x_attrs = ucast (fd_attrs f), x_original_size = ucast (fd_original f),
       x_compressed_size = of_nat (size_field f), x_header_crc = None, x_headers = []\<rparr>"

definition header_fields_of :: "header_fields \<Rightarrow> lha_header" where
  "header_fields_of f = \<lparr>level = fd_level f, compression = fd_method f,
     compressed_size = (if fd_level f = 1 then ucast (fd_compressed f) else x_compressed_size (said f)),
     original_size = x_original_size (said f), filename = fd_name f, msdos_attrs = x_attrs (said f),
     last_modified = fd_modified f, os_type = fd_os f, file_crc = fd_crc f, extended_area = fd_area f,
     first_header_len = of_nat (first_len (hdr_counter f) (fd_extras f)),
     extra_headers = concat (map clear_crc (hdr_raws f))\<rparr>"

subsection \<open>Reading the parts\<close>

text \<open>
  The parser has digested \<open>ds\<close>, which are as many bytes as it has read, its checksum is \<open>s\<close>, and the
  reader has \<open>cs\<close> left.
\<close>

definition stands :: "('r \<Rightarrow> u8 list) \<Rightarrow> u8 list \<Rightarrow> u8 \<Rightarrow> u8 list \<Rightarrow> 'r parser \<Rightarrow> bool" where
  "stands contents ds s cs p \<longleftrightarrow> p_len p = length ds \<and> p_crc p = digest ds crc_new \<and> p_csum p = s \<and> contents (p_rd p) = cs"

lemma gives_len: "gives (stands contents ds s cs) (get_state p_len) (length ds) (stands contents ds s cs)"
  by (rule gives_get) (simp add: stands_def)

lemma gives_digest:
  "gives (stands contents ds s cs) (modify (update_checksums_no_wrapping_sum bs)) () (stands contents (ds @ bs) s cs)"
  by (rule gives_modify) (simp add: stands_def update_checksums_no_wrapping_sum_def digest_append)

lemma gives_checksums:
  "gives (stands contents ds s cs) (modify (update_checksums bs)) () (stands contents (ds @ bs) (s + sum_list bs) cs)"
  by (rule gives_modify)
    (simp add: stands_def update_checksums_def update_checksums_no_wrapping_sum_def digest_append Let_def wrapping_csum_def add.commute)

text \<open>Behind the first two bytes the checksum is the sum of what was read.\<close>

definition behind_front :: "('r \<Rightarrow> u8 list) \<Rightarrow> u8 \<Rightarrow> u8 \<Rightarrow> u8 list \<Rightarrow> u8 list \<Rightarrow> 'r parser \<Rightarrow> bool" where
  "behind_front contents b0 b1 es cs = stands contents (b0 # b1 # es) (sum_list es) cs"

definition raw_part :: "header_fields \<Rightarrow> raw_header" where
  "raw_part f = \<lparr>raw_compression = fd_method f, raw_compressed_size = to_le_bytes 4 (size_field f),
     raw_original_size = to_le_bytes 4 (unat (fd_original f)), raw_last_modified = to_le_bytes 4 (unat (fd_modified f)),
     raw_msdos_attrs = fd_attrs f, raw_lha_level = fd_level f\<rparr>"

definition base_part :: "header_fields \<Rightarrow> base_header" where
  "base_part f = \<lparr>b_raw = raw_part f, b_filename = fd_name f, b_file_crc = fd_crc f, b_os_type = fd_os f, b_area = fd_area f,
     b_long = (if fd_level f < 2 then 0 else if fd_level f = 2 then of_nat (26 + extra_len f + length (hdr_pad f))
       else of_nat (32 + extra_len f)),
     b_first = of_nat (first_len (hdr_counter f) (fd_extras f))\<rparr>"

lemma length_extra_chain: "length (concat (extra_chain c bodies)) = (\<Sum>b\<leftarrow>bodies. length b + c)"
  by (induction c bodies rule: extra_chain.induct) simp_all

lemma first_len_le: "first_len c bodies \<le> length (concat (extra_chain c bodies))"
  by (cases bodies) (simp_all add: first_len_def)

lemma first_len_bound:
  assumes "valid_fields f"
  shows "first_len (hdr_counter f) (fd_extras f) < 256 ^ hdr_counter f" and "first_len (hdr_counter f) (fd_extras f) \<le> extra_len f"
    and "fd_level f = 0 \<Longrightarrow> first_len (hdr_counter f) (fd_extras f) = 0 \<and> extra_len f = 0"
  using assms first_len_le [of "hdr_counter f" "fd_extras f"]
  by (auto simp: valid_fields_def first_len_def extra_len_def hdr_raws_def split: list.splits)

lemma length_fixed_part: "length (fd_method f) = 5 \<Longrightarrow> length (fixed_part f) = 19"
  by (simp add: fixed_part_def)

lemma unat_of_nat_32: "n < 2 ^ 32 \<Longrightarrow> unat (of_nat n :: u32) = n"
  by (simp add: unat_of_nat)

lemma base_long:
  assumes f: "valid_fields f" and lev: "\<not> fd_level f < 2"
  shows "length (hdr_base f) + 2 + unat (b_first (base_part f)) \<le> unat (b_long (base_part f))"
    and "unat (b_long (base_part f)) = length (hdr_base f) + 2 + extra_len f + length (hdr_pad f)"
    and "b_long (base_part f) \<noteq> 0"
proof -
  have m: "fd_level f \<le> 3" "fd_area f = []" "length (fd_method f) = 5" using f lev by (simp_all add: valid_fields_def not_less)
  note n = first_len_bound(2) [OF f]
  have pad: "length (hdr_pad f) \<le> 1" "fd_level f \<noteq> 2 \<Longrightarrow> length (hdr_pad f) = 0" by (simp_all add: hdr_pad_def)
  from m(1) consider "fd_level f = 2" | "fd_level f = 3" using lev by (cases rule: level_cases) auto
  then have len: "unat (b_long (base_part f)) = length (hdr_base f) + 2 + extra_len f + length (hdr_pad f)"
  proof cases
    case 1
    then have "26 + extra_len f + length (hdr_pad f) < 2 ^ 32" using f pad(1) by (simp add: valid_fields_def)
    then have "unat (b_long (base_part f)) = 26 + extra_len f + length (hdr_pad f)"
      using 1 by (simp add: base_part_def unat_of_nat_32 del: of_nat_add)
    then show ?thesis using 1 m
      by (simp add: hdr_base_def length_fixed_part name_part_def lens_part_def hdr_counter_def counter_size_def)
  next
    case 2
    then have "32 + extra_len f < 2 ^ 32" using f by (simp add: valid_fields_def)
    then have "unat (b_long (base_part f)) = 32 + extra_len f"
      using 2 by (simp add: base_part_def unat_of_nat_32 del: of_nat_add)
    then show ?thesis using 2 m pad(2)
      by (simp add: hdr_base_def length_fixed_part name_part_def lens_part_def hdr_counter_def counter_size_def)
  qed
  then show "unat (b_long (base_part f)) = length (hdr_base f) + 2 + extra_len f + length (hdr_pad f)" .
  have "unat (b_long (base_part f)) < 2 ^ 32" using unsigned_less [of "b_long (base_part f)", where ?'a = nat] by simp
  then have "unat (b_first (base_part f)) = first_len (hdr_counter f) (fd_extras f)"
    using len n by (simp add: base_part_def unat_of_nat_32)
  then show "length (hdr_base f) + 2 + unat (b_first (base_part f)) \<le> unat (b_long (base_part f))" using len n by simp
  show "b_long (base_part f) \<noteq> 0" using len by auto
qed

context reliable_reader begin

lemma gives_on_rd:
  assumes "length bs = n"
  shows "gives (stands contents ds s (bs @ cs)) (on_rd (rd_exact rd n)) bs (stands contents ds s cs)"
proof (rule givesI)
  fix p assume p: "stands contents ds s (bs @ cs) p"
  then have "n \<le> length (contents (p_rd p))" using assms by (simp add: stands_def)
  then obtain t where "rd_exact rd n (p_rd p) = (Ok (take n (contents (p_rd p))), t)" "contents t = drop n (contents (p_rd p))"
    by (rule rd_exact_reliable)
  with p assms show "\<exists>t. on_rd (rd_exact rd n) p = (Ok bs, t) \<and> stands contents ds s cs t"
    by (auto simp: on_rd_def map_err_def zoom_def stands_def)
qed

lemma gives_exact:
  assumes "length bs = n"
  shows "gives (stands contents ds s (bs @ cs)) (parser_read_exact rd n) bs (stands contents (ds @ bs) (s + sum_list bs) cs)"
  unfolding parser_read_exact_def
  by (rule gives_bnd [OF gives_on_rd [OF assms] gives_bnd [OF gives_checksums gives_ret]])

lemma gives_u8: "gives (stands contents ds s (b # cs)) (parser_read_u8 rd) b (stands contents (ds @ [b]) (s + b) cs)"
proof -
  have "gives (stands contents ds s ([b] @ cs)) (bnd (parser_read_exact rd 1) (\<lambda>buf. ret (from_le buf)))
      (from_le [b] :: u8) (stands contents (ds @ [b]) (s + sum_list [b]) cs)"
    by (rule gives_bnd [OF gives_exact gives_ret]) simp
  then show ?thesis by (simp add: parser_read_u8_def from_le_u8)
qed

lemma gives_u16:
  "length bs = 2 \<Longrightarrow>
    gives (stands contents ds s (bs @ cs)) (parser_read_u16 rd) (from_le bs) (stands contents (ds @ bs) (s + sum_list bs) cs)"
  unfolding parser_read_u16_def by (rule gives_bnd [OF gives_exact gives_ret])

lemma gives_u32:
  "length bs = 4 \<Longrightarrow>
    gives (stands contents ds s (bs @ cs)) (parser_read_u32 rd) (from_le bs) (stands contents (ds @ bs) (s + sum_list bs) cs)"
  unfolding parser_read_u32_def by (rule gives_bnd [OF gives_exact gives_ret])

lemma gives_first: "gives (stands contents ds s (b # cs)) (read_u8_or_none rd) (Some b) (stands contents (ds @ [b]) s cs)"
proof -
  have "gives (stands contents ds s (b # cs)) (on_rd (rd_all rd 1)) [b] (stands contents ds s cs)"
  proof (rule givesI)
    fix p assume p: "stands contents ds s (b # cs) p"
    obtain t where "rd_all rd 1 (p_rd p) = (Ok (take 1 (contents (p_rd p))), t)" "contents t = drop 1 (contents (p_rd p))"
      by (rule rd_all_reliable)
    with p show "\<exists>t. on_rd (rd_all rd 1) p = (Ok [b], t) \<and> stands contents ds s cs t"
      by (auto simp: on_rd_def map_err_def zoom_def stands_def)
  qed
  then show ?thesis
    unfolding read_u8_or_none_def by (rule gives_bnd) (simp, rule gives_bnd [OF gives_digest gives_ret])
qed

lemma gives_limit_no_checksums:
  "reserve n \<Longrightarrow> length bs = n \<Longrightarrow>
    gives (stands contents ds s (bs @ cs)) (read_limit_no_checksums reserve rd n buf) (buf @ bs) (stands contents ds s cs)"
  unfolding read_limit_no_checksums_def by (simp, rule gives_bnd [OF gives_on_rd gives_ret])

lemma gives_limit:
  "length bs = n \<Longrightarrow>
    gives (stands contents ds s (bs @ cs)) (read_limit rd n) bs (stands contents (ds @ bs) (s + sum_list bs) cs)"
  unfolding read_limit_def
  by (rule gives_bnd [OF gives_limit_no_checksums [where buf = "[]" and reserve = "\<lambda>_. True", unfolded append_Nil, OF TrueI] gives_bnd [OF gives_checksums gives_ret]])

subsubsection \<open>The base header\<close>

lemma sum_exact:
  "length bs = n \<Longrightarrow> gives (behind_front contents b0 b1 es (bs @ cs)) (parser_read_exact rd n) bs (behind_front contents b0 b1 (es @ bs) cs)"
  using gives_exact [of bs n "b0 # b1 # es" "sum_list es" cs] by (simp add: behind_front_def)

lemma sum_u8: "gives (behind_front contents b0 b1 es (b # cs)) (parser_read_u8 rd) b (behind_front contents b0 b1 (es @ [b]) cs)"
  using gives_u8 [of "b0 # b1 # es" "sum_list es" b cs] by (simp add: behind_front_def)

lemma sum_u16:
  "n < 2 ^ 16 \<Longrightarrow> gives (behind_front contents b0 b1 es (to_le_bytes 2 n @ cs)) (parser_read_u16 rd) (of_nat n) (behind_front contents b0 b1 (es @ to_le_bytes 2 n) cs)"
  using gives_u16 [of "to_le_bytes 2 n" "b0 # b1 # es" "sum_list es" cs] by (simp add: behind_front_def from_le_to_le)

lemma sum_u32:
  "n < 2 ^ 32 \<Longrightarrow> gives (behind_front contents b0 b1 es (to_le_bytes 4 n @ cs)) (parser_read_u32 rd) (of_nat n) (behind_front contents b0 b1 (es @ to_le_bytes 4 n) cs)"
  using gives_u32 [of "to_le_bytes 4 n" "b0 # b1 # es" "sum_list es" cs] by (simp add: behind_front_def from_le_to_le)

lemma sum_limit:
  "length bs = n \<Longrightarrow>
    gives (behind_front contents b0 b1 es (bs @ cs)) (read_limit rd n) bs (behind_front contents b0 b1 (es @ bs) cs)"
  using gives_limit [of bs n "b0 # b1 # es" "sum_list es" cs] by (simp add: behind_front_def)

lemma sum_len: "gives (behind_front contents b0 b1 es cs) (get_state p_len) (length es + 2) (behind_front contents b0 b1 es cs)"
  using gives_len [of contents "b0 # b1 # es" "sum_list es" cs] by (simp add: behind_front_def)

lemma sum_raw:
  assumes "length (fd_method f) = 5" and "fd_level f \<le> 3"
  shows "gives (behind_front contents b0 b1 es (fixed_part f @ cs)) (read_raw_header rd) (raw_part f) (behind_front contents b0 b1 (es @ fixed_part f) cs)"
proof -
  have "length (fixed_part f) = raw_header_size" using assms(1) by (simp add: fixed_part_def raw_header_size_def)
  moreover have "raw_header_of (fixed_part f) = raw_part f"
    using assms(1) by (simp add: raw_header_of_def fixed_part_def raw_part_def nth_append)
  moreover have "\<not> raw_lha_level (raw_part f) > 3" using assms(2) by (simp add: raw_part_def)
  ultimately show ?thesis
    unfolding read_raw_header_def Let_def by (intro gives_bnd [OF sum_exact]) (simp_all add: gives_ret)
qed

lemma sum_filename:
  assumes "lev < 2" and "length name < 256" and "length es + 3 + length name \<le> unat h"
  shows "gives (behind_front contents b0 b1 es (of_nat (length name) # name @ cs)) (read_filename rd lev h) name
    (behind_front contents b0 b1 (es @ of_nat (length name) # name) cs)"
proof -
  have n: "unat (of_nat (length name) :: u8) = length name" using assms(2) by (simp add: unat_of_nat)
  have "gives (behind_front contents b0 b1 (es @ [of_nat (length name)]) (name @ cs)) (read_limit rd (length name)) name
      (behind_front contents b0 b1 (es @ of_nat (length name) # name) cs)"
    using sum_limit [of name "length name" b0 b1 "es @ [of_nat (length name)]" cs] by simp
  then show ?thesis
    using assms(1,3) unfolding read_filename_def
    by (simp, intro gives_bnd [OF sum_u8] gives_bnd [OF sum_len]) (simp add: n)
qed

lemma sum_area:
  shows sum_area_0: "unat h = length es + 1 + length area \<Longrightarrow>
      gives (behind_front contents b0 b1 es (os # area @ cs)) (read_extended_area rd 0 h x) (os, area)
        (behind_front contents b0 b1 (es @ os # area) cs)"
    and sum_area_1: "unat h = length es + 2 + length area \<Longrightarrow>
      gives (behind_front contents b0 b1 es (area @ cs)) (read_extended_area rd 1 h os) (os, area)
        (behind_front contents b0 b1 (es @ area) cs)"
proof -
  have rest: "gives (behind_front contents b0 b1 es (area @ cs)) (if length area \<noteq> 0
        then bnd (read_limit rd (length area)) (\<lambda>a. ret (os, a)) else ret (os, [])) (os, area)
      (behind_front contents b0 b1 (es @ area) cs)" for es
  proof (cases "area = []")
    case False
    then have "gives (behind_front contents b0 b1 es (area @ cs)) (bnd (read_limit rd (length area)) (\<lambda>a. ret (os, a))) (os, area)
        (behind_front contents b0 b1 (es @ area) cs)"
      by (intro gives_bnd [OF sum_limit gives_ret]) simp_all
    with False show ?thesis by simp
  qed (simp add: gives_ret)
  show "unat h = length es + 2 + length area \<Longrightarrow>
      gives (behind_front contents b0 b1 es (area @ cs)) (read_extended_area rd 1 h os) (os, area)
        (behind_front contents b0 b1 (es @ area) cs)"
    unfolding read_extended_area_def using rest [of es]
    by (simp, intro gives_bnd [OF sum_len]) (simp add: Let_def)
  show "unat h = length es + 1 + length area \<Longrightarrow>
      gives (behind_front contents b0 b1 es (os # area @ cs)) (read_extended_area rd 0 h x) (os, area)
        (behind_front contents b0 b1 (es @ os # area) cs)"
    unfolding read_extended_area_def using rest [of "es @ [os]"]
    by (simp, intro gives_bnd [OF sum_len])
      (simp add: Let_def bnd_assoc, intro gives_bnd [OF sum_u8], simp)
qed

lemma gives_csum: "gives (stands contents [b0] s (b1 # cs)) (parser_read_u8 rd) b1 (stands contents [b0, b1] (s + b1) cs)"
  using gives_u8 [of "[b0]" s b1 cs] by simp

lemma gives_reset_csum: "gives (stands contents [b0, b1] s cs) (modify (\<lambda>p. p\<lparr>p_csum := 0\<rparr>)) () (behind_front contents b0 b1 [] cs)"
  by (rule gives_modify) (simp add: stands_def behind_front_def)

lemma sum_check:
  assumes "lev < 2 \<Longrightarrow> b1 = sum_list es"
    and "\<not> lev < 2 \<Longrightarrow> length es + 2 + unat first \<le> unat long"
  shows "gives (behind_front contents b0 b1 es cs) (check_base_header lev b1 long first) () (behind_front contents b0 b1 es cs)"
proof (cases "lev < 2")
  case True
  with assms(1) show ?thesis
    unfolding check_base_header_def
    by (intro gives_bnd [OF gives_get [where x = "(length es + 2, sum_list es)"]]) (simp_all add: stands_def behind_front_def gives_ret)
next
  case False
  have "unat long < 2 ^ 32" using unsigned_less [of long, where ?'a = nat] by simp
  then have "length es + 2 < 2 ^ 32" "length es + 2 + unat first < 2 ^ 32" using assms(2) [OF False] by simp_all
  with False assms(2) show ?thesis
    unfolding check_base_header_def
    by (intro gives_bnd [OF gives_get [where x = "(length es + 2, sum_list es)"]]) (simp_all add: stands_def behind_front_def gives_ret)
qed

lemma sum_name:
  assumes f: "valid_fields f" and b0: "fd_level f < 2 \<Longrightarrow> unat b0 = length (hdr_base f)"
  shows "gives (behind_front contents b0 b1 (fixed_part f) (name_part f @ cs)) (read_filename rd (fd_level f) b0) (fd_name f)
    (behind_front contents b0 b1 (fixed_part f @ name_part f) cs)"
proof (cases "fd_level f < 2")
  case True
  then have len: "length (hdr_base f) < 256" and m: "length (fd_method f) = 5" using f by (simp_all add: valid_fields_def)
  have "length (fixed_part f) + length (fd_name f) + 4 \<le> length (hdr_base f)" using True by (simp add: hdr_base_def name_part_def)
  with True len b0 show ?thesis by (simp add: name_part_def sum_filename)
next
  case False
  with f have "fd_name f = []" by (simp add: valid_fields_def not_less)
  with False show ?thesis by (simp add: read_filename_def name_part_def gives_ret)
qed

lemma sum_os_area:
  assumes f: "valid_fields f" and b0: "fd_level f < 2 \<Longrightarrow> unat b0 = length (hdr_base f)"
    and es: "length es = length (fixed_part f @ name_part f) + 2"
  shows "gives (behind_front contents b0 b1 es (fd_os f # fd_area f @ cs))
    (bnd (read_os_type rd (fd_level f)) (read_extended_area rd (fd_level f) b0)) (fd_os f, fd_area f)
    (behind_front contents b0 b1 (es @ fd_os f # fd_area f) cs)"
proof -
  have "fd_level f \<le> 3" using f by (simp add: valid_fields_def)
  then consider "fd_level f = 0" | "fd_level f = 1" | "2 \<le> fd_level f" "\<not> fd_level f < 2" "fd_level f \<noteq> 0"
    by (cases rule: level_cases) auto
  then show ?thesis
  proof cases
    case 1
    then have "unat b0 = length es + 1 + length (fd_area f)" using b0 es by (simp add: hdr_base_def lens_part_def)
    with 1 show ?thesis by (simp add: read_os_type_def sum_area_0)
  next
    case 2
    then have "unat b0 = length (es @ [fd_os f]) + 2 + length (fd_area f)"
      using b0 es by (simp add: hdr_base_def lens_part_def hdr_counter_def counter_size_def)
    then have "gives (behind_front contents b0 b1 (es @ [fd_os f]) (fd_area f @ cs)) (read_extended_area rd 1 b0 (fd_os f))
        (fd_os f, fd_area f) (behind_front contents b0 b1 ((es @ [fd_os f]) @ fd_area f) cs)"
      by (intro sum_area_1)
    with 2 show ?thesis by (simp add: read_os_type_def) (rule gives_bnd [OF sum_u8])
  next
    case 3
    then have "fd_area f = []" using f by (simp add: valid_fields_def)
    moreover have "0 < fd_level f" using 3(3) by (simp add: word_neq_0_conv)
    moreover have "read_extended_area rd (fd_level f) b0 = (\<lambda>os. ret (os, []))"
      using 3 by (simp add: read_extended_area_def fun_eq_iff)
    ultimately show ?thesis using gives_bnd [OF sum_u8 gives_ret] by (simp add: read_os_type_def)
  qed
qed

lemma sum_lens:
  assumes f: "valid_fields f" and front: "hdr_front f = [b0, b1]"
  shows "gives (behind_front contents b0 b1 es (lens_part f @ cs)) (read_header_lens rd (fd_level f) b0 b1)
    (b_long (base_part f), b_first (base_part f)) (behind_front contents b0 b1 (es @ lens_part f) cs)"
proof -
  let ?n = "first_len (hdr_counter f) (fd_extras f)"
  have "fd_level f \<le> 3" using f by (simp add: valid_fields_def)
  then show ?thesis
  proof (cases rule: level_cases)
    case 1
    with first_len_bound(3) [OF f] show ?thesis
      by (simp add: read_header_lens_def lens_part_def base_part_def gives_ret)
  next
    case 2
    then have n: "?n < 2 ^ 16" using first_len_bound(1) [OF f] by (simp add: hdr_counter_def counter_size_def)
    have "(ucast (of_nat ?n :: u16) :: u32) = of_nat ?n" using n by (simp add: ucast_of_nat_16)
    with 2 n show ?thesis
      by (simp add: read_header_lens_def lens_part_def base_part_def hdr_counter_def counter_size_def)
        (rule gives_bnd [OF sum_u16], simp, simp add: gives_ret)
  next
    case 3
    then have n: "?n < 2 ^ 16" using first_len_bound(1) [OF f] by (simp add: hdr_counter_def counter_size_def)
    have "(ucast (of_nat ?n :: u16) :: u32) = of_nat ?n" using n by (simp add: ucast_of_nat_16)
    moreover have "[b0, b1] = to_le_bytes 2 (26 + extra_len f + length (hdr_pad f))" using 3 front by (simp add: hdr_front_def)
    then have "(from_le [b0, b1] :: u32) = of_nat (26 + extra_len f + length (hdr_pad f))"
      using 3 f by (simp only:) (rule from_le_to_le, simp add: valid_fields_def hdr_pad_def)
    ultimately show ?thesis using 3 n
      by (simp add: read_header_lens_def lens_part_def base_part_def hdr_counter_def counter_size_def)
        (rule gives_bnd [OF sum_u16], simp, simp add: gives_ret)
  next
    case 4
    have n: "?n < 2 ^ 32" using 4 first_len_bound(1) [OF f] by (simp add: hdr_counter_def counter_size_def)
    have b: "b0 = 4" "b1 = 0" using 4 front by (simp_all add: hdr_front_def)
    have total: "32 + extra_len f < 2 ^ 32" using 4 f by (simp add: valid_fields_def)
    have "gives (behind_front contents b0 b1 es (to_le_bytes 4 (32 + extra_len f) @ to_le_bytes 4 ?n @ cs))
      (bnd (parser_read_u32 rd) (\<lambda>long. bnd (parser_read_u32 rd) (\<lambda>first.
        if b0 \<noteq> 4 \<or> b1 \<noteq> 0 then header_error ''invalid header'' else ret (long, first))))
      (of_nat (32 + extra_len f), of_nat ?n) (behind_front contents b0 b1 ((es @ to_le_bytes 4 (32 + extra_len f)) @ to_le_bytes 4 ?n) cs)"
      by (intro gives_bnd [OF sum_u32 [OF total]] gives_bnd [OF sum_u32 [OF n]]) (simp add: b gives_ret)
    then show ?thesis
      using 4 by (simp add: read_header_lens_def lens_part_def base_part_def hdr_counter_def counter_size_def)
  qed
qed

lemma gives_base_header:
  assumes f: "valid_fields f" and front: "hdr_front f = [b0, b1]"
  shows "gives (stands contents [b0] s (b1 # hdr_base f @ cs)) (read_base_header rd b0) (base_part f)
    (behind_front contents b0 b1 (hdr_base f) cs)"
proof -
  have m: "length (fd_method f) = 5" "fd_level f \<le> 3" using f by (simp_all add: valid_fields_def)
  note fixed = length_fixed_part [OF m(1)]
  have lev: "raw_lha_level (raw_part f) = fd_level f" by (simp add: raw_part_def)
  have b0: "unat b0 = length (hdr_base f)" and b1: "b1 = sum_list (hdr_base f)" if "fd_level f < 2"
    using that front f by (auto simp: hdr_front_def valid_fields_def unat_of_nat)
  have crc: "(of_nat (unat (fd_crc f)) :: u16) = fd_crc f" "unat (fd_crc f) < 2 ^ 16" using unsigned_less [of "fd_crc f"] by simp_all
  let ?es = "(fixed_part f @ name_part f) @ to_le_bytes 2 (unat (fd_crc f))"
  have base: "(?es @ fd_os f # fd_area f) @ lens_part f = hdr_base f" by (simp add: hdr_base_def)
  have long: "length (hdr_base f) + 2 + unat (b_first (base_part f)) \<le> unat (b_long (base_part f))" if "\<not> fd_level f < 2"
    using base_long(1) [OF f that] .
  have tail: "gives (behind_front contents b0 b1 ?es (fd_os f # fd_area f @ lens_part f @ cs))
    (bnd (read_os_type rd (fd_level f)) (\<lambda>os. bnd (read_extended_area rd (fd_level f) b0 os) (\<lambda>(os, area).
     bnd (read_header_lens rd (fd_level f) b0 b1) (\<lambda>(long, first).
     bnd (check_base_header (fd_level f) b1 long first) (\<lambda>_.
       ret \<lparr>b_raw = raw_part f, b_filename = fd_name f, b_file_crc = fd_crc f, b_os_type = os, b_area = area,
         b_long = long, b_first = first\<rparr>))))) (base_part f) (behind_front contents b0 b1 (hdr_base f) cs)"
    unfolding bnd_assoc [symmetric]
    apply (rule gives_bnd [OF sum_os_area [OF f b0]], assumption, simp)
    apply (unfold prod.case, rule gives_bnd [OF sum_lens [OF f front]], unfold base prod.case)
    apply (rule gives_bnd [OF sum_check gives_ret [THEN gives_value]])
    using b1 long by (simp_all add: base_part_def)
  show ?thesis
    unfolding read_base_header_def Let_def
    apply (rule gives_bnd [OF gives_csum], rule gives_bnd [OF gives_reset_csum])
    apply (subst hdr_base_def, unfold append_assoc append_Cons)
    apply (rule gives_bnd [OF sum_raw [OF m]], unfold append_Nil lev)
    apply (rule gives_bnd [OF sum_name [OF f b0]], assumption)
    apply (rule gives_bnd [OF sum_u16 [OF crc(2)]], unfold crc(1))
    apply (rule tail)
    done
qed

end

subsection \<open>The extra headers\<close>

lemma clear_crc_append: "body_ok lev b \<Longrightarrow> clear_crc (b @ l) = clear_crc b @ l"
  by (cases b) (auto simp: clear_crc_def body_ok_def)

lemma inspect_body:
  assumes "body_ok lev b" and "hd b = ext_common \<Longrightarrow> x_header_crc x = None"
  shows "inspect_extra lev (b @ l) x = Ok (clear_crc b @ l, body_effect lev b x)"
proof -
  obtain tag data where b: "b = tag # data" using assms(1) by (cases b) (auto simp: body_ok_def)
  have distinct: "ext_common \<noteq> ext_msdos_attrs" "ext_common \<noteq> ext_ext_attrs" "ext_common \<noteq> ext_msdos_size"
      "ext_msdos_attrs \<noteq> ext_msdos_size" "ext_ext_attrs \<noteq> ext_msdos_size"
    by (simp_all add: ext_defs)
  have long: "tag = ext_common \<or> tag = ext_msdos_attrs \<or> tag = ext_ext_attrs \<Longrightarrow> 2 \<le> length data"
    "tag = ext_msdos_size \<Longrightarrow> 2 \<le> lev \<Longrightarrow> 16 \<le> length data"
    using assms(1) b by (auto simp: body_ok_def)
  consider "tag = ext_common" | "tag = ext_msdos_attrs" | "tag = ext_ext_attrs" | "tag = ext_msdos_size" "2 \<le> lev"
    | "tag \<noteq> ext_common" "tag \<noteq> ext_msdos_attrs" "tag \<noteq> ext_ext_attrs" "\<not> (tag = ext_msdos_size \<and> 2 \<le> lev)"
    by blast
  then show ?thesis
  proof cases
    case 1
    with long(1) assms(2) b show ?thesis by (simp add: inspect_extra_def clear_crc_def body_effect_def read_u16_def)
  next
    case 2
    with long(1) b distinct show ?thesis
      by (simp add: inspect_extra_def clear_crc_def body_effect_def read_u16_def distinct [symmetric])
  next
    case 3
    with long(1) b distinct show ?thesis
      by (simp add: inspect_extra_def clear_crc_def body_effect_def read_u16_def distinct [symmetric])
  next
    case 4
    with long(2) b distinct show ?thesis
      by (simp add: inspect_extra_def clear_crc_def body_effect_def read_u64_def distinct [symmetric])
  next
    case 5
    then have "inspect_extra lev (b @ l) x = Ok (b @ l, x)"
      unfolding b inspect_extra_def append_Cons list.case by (simp only: if_False simp_thms) auto
    with 5 b show ?thesis by (auto simp: clear_crc_def body_effect_def)
  qed
qed

lemma next_length_to_le:
  assumes "n < 256 ^ counter_size l32"
  shows "next_length l32 (to_le_bytes (counter_size l32) n) = Some (of_nat n)" and "unat (of_nat n :: u32) = n"
  using assms
  by (simp_all add: next_length_def counter_size_def read_u32_def read_u16_def from_le_to_le unat_of_nat ucast_of_nat_16
      split: if_splits)

lemma body_effect_simps:
  "x_headers (body_effect lev b x) = x_headers x"
  "lev < 2 \<Longrightarrow> x_compressed_size (body_effect lev b x) = x_compressed_size x"
  "x_header_crc (body_effect lev b x) = (if hd b = ext_common then Some (from_le (take 2 (tl b))) else x_header_crc x)"
  "body_effect lev b (x\<lparr>x_headers := hs\<rparr>) = (body_effect lev b x)\<lparr>x_headers := hs\<rparr>"
  by (auto simp: body_effect_def not_less)

lemma fold_body_effect_headers:
  "fold (body_effect lev) bs (x\<lparr>x_headers := hs\<rparr>) = (fold (body_effect lev) bs x)\<lparr>x_headers := hs\<rparr>"
  by (induction bs arbitrary: x) (simp_all add: body_effect_simps)

context reliable_reader begin

lemma gives_extra_loop:
  assumes c: "c = counter_size (lev = 3)" and reserve: "\<And>n. reserve n"
  shows "list_all (\<lambda>b. body_ok lev b \<and> length b + c < 256 ^ c) bodies \<Longrightarrow>
    length (filter (\<lambda>b. hd b = ext_common) bodies) + (if x_header_crc x = None then 0 else 1) \<le> 1 \<Longrightarrow>
    (long \<noteq> 0 \<Longrightarrow> length ds + length (concat (extra_chain c bodies)) \<le> unat long) \<Longrightarrow>
    (long = 0 \<Longrightarrow> lev < 2 \<and> length (x_headers x) + length (concat (extra_chain c bodies)) \<le> unat (x_compressed_size x)) \<Longrightarrow>
    length bodies < fuel \<Longrightarrow>
    gives (stands contents ds s (concat (extra_chain c bodies) @ cs))
      (extra_loop fuel reserve rd lev long (first_len c bodies) x)
      ((fold (body_effect lev) bodies x)\<lparr>x_headers := x_headers x @ concat (map clear_crc (extra_chain c bodies))\<rparr>)
      (stands contents (ds @ concat (map clear_crc (extra_chain c bodies))) s cs)"
proof (induction bodies arbitrary: x ds fuel)
  case Nil
  then show ?case by (cases fuel) (simp_all add: first_len_def gives_ret)
next
  case (Cons b bs)
  obtain k where fuel: "fuel = Suc k" "length bs < k" using Cons.prems(5) by (cases fuel) auto
  have b: "body_ok lev b" "length b + c < 256 ^ c" using Cons.prems(1) by simp_all
  let ?n = "first_len c bs" and ?l = "to_le_bytes c (first_len c bs)"
  have n: "?n < 256 ^ c" using Cons.prems(1) by (cases bs) (simp_all add: first_len_def)
  have "b \<noteq> []" using b(1) by (simp add: body_ok_def)
  then have min: "\<not> length b + c < min_header_len lev" "length b + c \<noteq> 0"
    by (cases b; simp add: min_header_len_def c counter_size_def)+
  have crc: "hd b = ext_common \<Longrightarrow> x_header_crc x = None" using Cons.prems(2) by (auto split: if_splits)
  let ?x = "(body_effect lev b x)\<lparr>x_headers := x_headers x @ clear_crc b @ ?l\<rparr>"
  have fits: "extra_fits long (length ds) (length b + c) x"
    using Cons.prems(3,4) by (auto simp: extra_fits_def)
  have rest: "gives (stands contents (ds @ clear_crc b @ ?l) s (concat (extra_chain c bs) @ cs))
      (extra_loop k reserve rd lev long ?n ?x)
      ((fold (body_effect lev) bs ?x)\<lparr>x_headers := x_headers ?x @ concat (map clear_crc (extra_chain c bs))\<rparr>)
      (stands contents ((ds @ clear_crc b @ ?l) @ concat (map clear_crc (extra_chain c bs))) s cs)"
  proof (rule Cons.IH)
    show "length (filter (\<lambda>b. hd b = ext_common) bs) + (if x_header_crc ?x = None then 0 else 1) \<le> 1"
      using Cons.prems(2) by (auto simp: body_effect_simps split: if_splits)
  qed (use Cons.prems(1,3,4) fuel in \<open>auto simp: body_effect_simps\<close>)
  have read: "gives (stands contents ds s ((b @ ?l) @ concat (extra_chain c bs) @ cs))
      (read_limit_no_checksums reserve rd (length b + c) (x_headers x)) (x_headers x @ b @ ?l)
      (stands contents ds s (concat (extra_chain c bs) @ cs))"
    by (rule gives_limit_no_checksums) (simp_all add: reserve)
  have "gives (stands contents ds s ((b @ ?l) @ concat (extra_chain c bs) @ cs))
      (extra_loop fuel reserve rd lev long (length b + c) x)
      ((fold (body_effect lev) bs ?x)\<lparr>x_headers := x_headers ?x @ concat (map clear_crc (extra_chain c bs))\<rparr>)
      (stands contents ((ds @ clear_crc b @ ?l) @ concat (map clear_crc (extra_chain c bs))) s cs)"
    unfolding fuel(1) extra_loop.simps
    using min
    apply (simp only: if_False)
    apply (rule gives_bnd [OF gives_len], simp only: fits not_True_eq_False if_False)
    apply (rule gives_bnd [OF read])
    apply (simp add: inspect_body [OF b(1) crc] c [symmetric] next_length_to_le [of ?n "lev = 3", folded c, OF n] Let_def)
    apply (rule gives_bnd [OF gives_digest])
    using rest apply simp
    done
  then show ?case
    by (simp add: first_len_def clear_crc_append [OF b(1)] fold_body_effect_headers body_effect_simps)
qed

end

subsection \<open>The whole header\<close>

lemma front_bytes:
  assumes f: "valid_fields f"
  obtains b0 b1 where "hdr_front f = [b0, b1]" and "b0 \<noteq> 0"
proof -
  have m: "fd_level f \<le> 3" "length (fd_method f) = 5" using f by (simp_all add: valid_fields_def)
  from m(1) consider "fd_level f < 2" | "fd_level f = 2" | "fd_level f = 3" by (cases rule: level_cases) auto
  then show thesis
  proof cases
    case 1
    have "0 < length (hdr_base f)" by (simp add: hdr_base_def)
    moreover have "length (hdr_base f) < 256" using f 1 by (simp add: valid_fields_def)
    ultimately have "(of_nat (length (hdr_base f)) :: u8) \<noteq> 0" by (simp add: word_unat_eq_iff unat_of_nat)
    with 1 show thesis by (intro that) (simp_all add: hdr_front_def)
  next
    case 2
    let ?n = "26 + extra_len f + length (hdr_pad f)"
    have "?n mod 256 \<noteq> 0"
    proof (cases "(26 + extra_len f) mod 256 = 0")
      case True
      then have "(26 + extra_len f + 1) mod 256 \<noteq> 0" by presburger
      with True 2 show ?thesis by (simp add: hdr_pad_def)
    qed (use 2 in \<open>simp add: hdr_pad_def\<close>)
    then have "(of_nat (?n mod 256) :: u8) \<noteq> 0" by (simp add: word_unat_eq_iff unat_of_nat)
    moreover have "hdr_front f = [of_nat (?n mod 256), of_nat (?n div 256 mod 256)]"
      using 2 by (simp add: hdr_front_def numeral_2_eq_2)
    ultimately show thesis by (rule that [rotated])
  next
    case 3
    then show thesis by (intro that [of 4 0]) (simp_all add: hdr_front_def)
  qed
qed

lemma stored_crc_body: "body_ok lev b \<Longrightarrow> stored_crc (b @ l) = (if hd b = ext_common then Some (from_le (take 2 (tl b))) else None)"
  by (cases b) (auto simp: stored_crc_def body_ok_def)

lemma fold_crc:
  "list_all (body_ok lev) bodies \<Longrightarrow> list_all (\<lambda>r. stored_crc r \<in> {None, Some w}) (extra_chain c bodies) \<Longrightarrow>
    x_header_crc x \<in> {None, Some w} \<Longrightarrow> x_header_crc (fold (body_effect lev) bodies x) \<in> {None, Some w}"
proof (induction bodies arbitrary: x)
  case (Cons b bs)
  then have "stored_crc (b @ to_le_bytes c (first_len c bs)) \<in> {None, Some w}" "body_ok lev b" by simp_all
  then have "x_header_crc (body_effect lev b x) \<in> {None, Some w}"
    using Cons.prems(3) by (simp add: body_effect_simps stored_crc_body split: if_splits)
  with Cons show ?case by simp
qed simp

lemma fold_compressed: "lev < 2 \<Longrightarrow> x_compressed_size (fold (body_effect lev) bodies x) = x_compressed_size x"
  by (induction bodies arbitrary: x) (simp_all add: body_effect_simps)

lemma length_le_chain: "list_all (body_ok lev) bodies \<Longrightarrow> length bodies \<le> length (concat (extra_chain c bodies))"
proof (induction bodies)
  case (Cons b bs)
  then have "0 < length b" "length bs \<le> length (concat (extra_chain c bs))" by (simp_all add: body_ok_def)
  moreover have "length (concat (extra_chain c (b # bs))) = length b + c + length (concat (extra_chain c bs))" by simp
  ultimately show ?case unfolding length_Cons by linarith
qed simp

lemma valid_bodies: "valid_fields f \<Longrightarrow> list_all (body_ok (fd_level f)) (fd_extras f)"
  by (auto simp: valid_fields_def list_all_iff)

lemma said_crc: "valid_fields f \<Longrightarrow> x_header_crc (said f) \<in> {None, Some (sum16 (digest (crc_bytes f) crc_new))}"
  unfolding said_def by (rule fold_crc [OF valid_bodies, where c = "hdr_counter f"]) (simp_all add: valid_fields_def hdr_raws_def)

definition start_of :: "header_fields \<Rightarrow> extra_state" where
  "start_of f = \<lparr>x_attrs = ucast (fd_attrs f), x_original_size = ucast (fd_original f),
     x_compressed_size = of_nat (size_field f), x_header_crc = None, x_headers = []\<rparr>"

lemma extra_start_part: "valid_fields f \<Longrightarrow> extra_start (raw_part f) = start_of f"
  by (simp add: extra_start_def raw_part_def start_of_def from_le_unat from_le_to_le valid_fields_def)

lemma unat_size: "valid_fields f \<Longrightarrow> unat (of_nat (size_field f) :: u64) = size_field f"
  by (simp add: unat_of_nat valid_fields_def)

lemma header_of_part:
  "header_of (base_part f) (if fd_level f = 1 then ucast (fd_compressed f) else x_compressed_size (said f))
     ((said f)\<lparr>x_headers := concat (map clear_crc (hdr_raws f))\<rparr>) = header_fields_of f"
  by (simp add: header_of_def header_fields_of_def base_part_def raw_part_def from_le_unat)

lemma gives_check_crc:
  assumes "crc \<in> {None, Some (sum16 (digest ds crc_new))}"
  shows "gives (stands contents ds s cs) (check_header_crc crc) () (stands contents ds s cs)"
  unfolding check_header_crc_def
  using assms by (intro gives_bnd [OF gives_get [where x = "digest ds crc_new"]]) (auto simp: stands_def gives_ret)

lemma gives_adjust:
  assumes f: "valid_fields f"
  shows "gives P (adjust_compressed_size (fd_level f) ((said f)\<lparr>x_headers := concat (map clear_crc (hdr_raws f))\<rparr>))
    (if fd_level f = 1 then ucast (fd_compressed f) else x_compressed_size (said f)) P"
proof (cases "fd_level f = 1")
  case True
  then have c: "x_compressed_size (said f) = of_nat (size_field f)" by (simp add: said_def fold_compressed)
  have "extra_len f \<le> size_field f" using True by (simp add: size_field_def)
  moreover have "(of_nat (size_field f) - of_nat (extra_len f) :: u64) = ucast (fd_compressed f)"
    using True by (simp add: size_field_def unsigned_def)
  ultimately show ?thesis
    using True by (simp add: adjust_compressed_size_def c unat_size [OF f] extra_len_def [symmetric] gives_ret)
qed (simp add: adjust_compressed_size_def gives_ret)

context reliable_reader begin

lemma gives_long_len:
  assumes f: "valid_fields f" and ds: "length ds = length (hdr_base f) + 2 + extra_len f"
  shows "gives (stands contents ds s (hdr_pad f @ cs)) (check_long_len rd (fd_level f) (b_long (base_part f))) ()
    (\<lambda>p. \<exists>s. stands contents (ds @ hdr_pad f) s cs p)"
proof (cases "fd_level f = 2")
  case False
  then show ?thesis
    unfolding check_long_len_def by (intro gives_bnd [OF gives_get]) (auto simp: stands_def hdr_pad_def gives_def ret_def)
next
  case True
  have long: "unat (b_long (base_part f)) = length ds + length (hdr_pad f)" using base_long(2) [OF f] True ds by simp
  then have lt: "length ds + length (hdr_pad f) < 2 ^ 32" using unsigned_less [of "b_long (base_part f)", where ?'a = nat] by simp
  have len: "gives (stands contents ds s (hdr_pad f @ cs)) (get_state (\<lambda>p. p_len p mod 2 ^ 32)) (length ds)
      (stands contents ds s (hdr_pad f @ cs))"
    using lt by (intro gives_get) (simp add: stands_def)
  show ?thesis
  proof (cases "hdr_pad f")
    case Nil
    with long len show ?thesis
      unfolding check_long_len_def by (intro gives_bnd [OF len]) (auto simp: gives_def ret_def)
  next
    case (Cons a as)
    then have pad: "hdr_pad f = [0]" by (simp add: hdr_pad_def split: if_splits)
    have "gives (stands contents ds s (hdr_pad f @ cs)) (bnd (parser_read_u8 rd) (\<lambda>_. ret ())) () (\<lambda>p. \<exists>s. stands contents (ds @ hdr_pad f) s cs p)"
      unfolding pad append_Cons append_Nil
      by (rule gives_bnd [OF gives_u8]) (auto simp: gives_def ret_def)
    with long lt base_long(3) [OF f] True pad show ?thesis
      unfolding check_long_len_def by (intro gives_bnd [OF len]) simp
  qed
qed

lemma gives_header:
  assumes f: "valid_fields f" and reserve: "\<And>n. reserve n"
  shows "gives (stands contents [] 0 (encode_header f @ cs)) (parse_header reserve rd) (Some (header_fields_of f))
    (\<lambda>p. contents (p_rd p) = cs)"
proof -
  obtain b0 b1 where front: "hdr_front f = [b0, b1]" "b0 \<noteq> 0" by (rule front_bytes [OF f])
  let ?lev = "fd_level f" and ?c = "hdr_counter f" and ?bodies = "fd_extras f"
  let ?ds = "b0 # b1 # hdr_base f" and ?hs = "concat (map clear_crc (hdr_raws f))"
  let ?x = "(said f)\<lparr>x_headers := ?hs\<rparr>"
  have lev: "raw_lha_level (b_raw (base_part f)) = ?lev" "extra_start (b_raw (base_part f)) = start_of f"
    by (simp_all add: base_part_def raw_part_def extra_start_part [OF f, unfolded raw_part_def])
  have first: "unat (b_first (base_part f)) = first_len ?c ?bodies"
    using first_len_bound(1) [OF f] by (simp add: base_part_def unat_of_nat hdr_counter_def counter_size_def split: if_splits)
  have chain: "concat (extra_chain ?c ?bodies) = concat (hdr_raws f)" "length (concat (hdr_raws f)) = extra_len f"
    by (simp_all add: hdr_raws_def extra_len_def)
  have room: "b_long (base_part f) = 0 \<Longrightarrow> ?lev < 2 \<and> extra_len f \<le> size_field f"
    "b_long (base_part f) \<noteq> 0 \<Longrightarrow> length ?ds + extra_len f \<le> unat (b_long (base_part f))"
  proof -
    have "?lev \<le> 3" using f by (simp add: valid_fields_def)
    then show "b_long (base_part f) = 0 \<Longrightarrow> ?lev < 2 \<and> extra_len f \<le> size_field f"
      using base_long(3) [OF f] first_len_bound(3) [OF f] by (cases rule: level_cases) (auto simp: size_field_def)
    assume "b_long (base_part f) \<noteq> 0"
    then have "\<not> ?lev < 2" by (auto simp: base_part_def)
    from base_long(2) [OF f this] show "length ?ds + extra_len f \<le> unat (b_long (base_part f))" by simp
  qed
  have loop: "gives (stands contents ?ds (sum_list (hdr_base f)) (concat (hdr_raws f) @ hdr_pad f @ cs))
      (extra_loop (header_fuel (b_long (base_part f)) (x_compressed_size (start_of f))) reserve rd ?lev
        (b_long (base_part f)) (unat (b_first (base_part f))) (start_of f))
      ?x (stands contents (?ds @ ?hs) (sum_list (hdr_base f)) (hdr_pad f @ cs))"
  proof -
    have "length ?bodies < header_fuel (b_long (base_part f)) (x_compressed_size (start_of f))"
      using length_le_chain [OF valid_bodies [OF f], of ?c] room chain
      by (cases "b_long (base_part f) = 0") (auto simp: header_fuel_def start_of_def unat_size [OF f])
    then show ?thesis
      using gives_extra_loop [of ?c ?lev reserve ?bodies "start_of f" "b_long (base_part f)" ?ds] f reserve room chain
      by (simp add: first hdr_counter_def valid_fields_def start_of_def unat_size [OF f] said_def [folded start_of_def] hdr_raws_def)
  qed
  have eq: "encode_header f @ cs = b0 # b1 # hdr_base f @ concat (hdr_raws f) @ hdr_pad f @ cs"
    by (simp add: encode_header_def front)
  have crc: "(?ds @ ?hs) @ hdr_pad f = crc_bytes f" by (simp add: crc_bytes_def front)
  have len: "length (?ds @ ?hs) = length (hdr_base f) + 2 + extra_len f" using chain by simp
  have check: "x_header_crc ?x \<in> {None, Some (sum16 (digest (crc_bytes f) crc_new))}" using said_crc [OF f] by simp
  show ?thesis
    unfolding parse_header_def eq
    apply (rule gives_bnd [OF gives_first], unfold option.case append_Nil, simp only: front(2) if_False)
    apply (rule gives_bnd [OF gives_base_header [OF f front(1)]])
    apply (simp only: Let_def lev behind_front_def)
    apply (rule gives_bnd [OF loop])
    apply (rule gives_bnd [OF gives_long_len [OF f len]], rule gives_ex, unfold crc)
    apply (rule gives_bnd [OF gives_check_crc [OF check]])
    apply (rule gives_bnd [OF gives_adjust [OF f]])
    apply (unfold header_of_part, rule gives_post [OF gives_ret], simp add: stands_def)
    done
qed

lemma lha_read_encoded:
  assumes f: "valid_fields f" and reserve: "\<And>n. reserve n" and r: "contents r = encode_header f @ cs"
  obtains r' where "lha_read reserve rd r = (Ok (Some (header_fields_of f)), r')" and "contents r' = cs"
proof -
  have "stands contents [] 0 (encode_header f @ cs) (parser_new r)" using r by (simp add: stands_def parser_new_def)
  from givesD [OF gives_header [OF f, of reserve cs] this] reserve
  obtain p where "parse_header reserve rd (parser_new r) = (Ok (Some (header_fields_of f)), p)" "contents (p_rd p) = cs" by blast
  then show thesis by (intro that [of "p_rd p"]) (simp_all add: lha_read_def)
qed

lemma lha_read_end:
  assumes "contents r = 0 # cs"
  obtains r' where "lha_read reserve rd r = (Ok None, r')" and "contents r' = cs"
proof -
  have "gives (stands contents [] 0 (0 # cs)) (parse_header reserve rd) None (stands contents [0] 0 cs)"
    unfolding parse_header_def
    by (rule gives_bnd [OF gives_first]) (simp add: gives_ret)
  moreover have "stands contents [] 0 (0 # cs) (parser_new r)" using assms by (simp add: stands_def parser_new_def)
  ultimately show thesis
    using that by (auto simp: lha_read_def stands_def dest!: givesD)
qed

end

lemma extra_chain_is_chain:
  assumes "c = counter_size l32"
  shows "list_all (\<lambda>b. body_ok lev b \<and> length b + c < 256 ^ c) bodies \<Longrightarrow>
    chain l32 (first_len c bodies) (map clear_crc (extra_chain c bodies)) 0"
proof (induction bodies)
  case (Cons b bs)
  have b: "body_ok lev b" "b \<noteq> []" using Cons.prems by (simp_all add: body_ok_def)
  have n: "first_len c bs < 256 ^ c" using Cons.prems by (cases bs) (simp_all add: first_len_def)
  show ?case
    using Cons b next_length_to_le [of "first_len c bs" l32, folded assms, OF n]
    by (simp add: first_len_def [of c "b # bs"] clear_crc_append [OF b(1)] assms [symmetric])
qed (simp add: first_len_def)

lemma bodies_of_chain:
  "list_all (body_ok lev) bodies \<Longrightarrow>
    map (header_body l32) (map clear_crc (extra_chain (counter_size l32) bodies)) = map clear_crc bodies"
proof (induction bodies)
  case (Cons b bs)
  then have "body_ok lev b" by simp
  from clear_crc_append [OF this] Cons show ?case by (simp add: header_body_def)
qed simp

lemma iter_extra_encoded:
  assumes f: "valid_fields f"
  shows "extra_collect (iter_extra (header_fields_of f)) = (Ok (map clear_crc (fd_extras f)) :: ('e, u8 list list) outcome)"
proof -
  let ?l32 = "fd_level f = 3" and ?n = "first_len (hdr_counter f) (fd_extras f)"
  have "?n < 2 ^ 32" using first_len_bound(1) [OF f] by (simp add: hdr_counter_def counter_size_def split: if_splits)
  moreover have "chain ?l32 ?n (map clear_crc (hdr_raws f)) 0"
    using extra_chain_is_chain [of "hdr_counter f" ?l32 "fd_level f" "fd_extras f"] f
    by (simp add: hdr_raws_def hdr_counter_def valid_fields_def)
  ultimately have "extra_collect \<lparr>it_data = concat (map clear_crc (hdr_raws f)), it_header_length = of_nat ?n, it_header_len32 = ?l32\<rparr> =
      (Ok (map (header_body ?l32) (map clear_crc (hdr_raws f))) :: ('e, u8 list list) outcome)"
    by (intro extra_collect_chain)
  then show ?thesis
    using bodies_of_chain [OF valid_bodies [OF f], of ?l32] by (simp add: iter_extra_def header_fields_of_def hdr_raws_def hdr_counter_def)
qed

subsection \<open>A level 3 header whose length overflows\<close>

definition crashes :: "('s \<Rightarrow> bool) \<Rightarrow> ('s, 'e, 'a) act \<Rightarrow> fault \<Rightarrow> bool" where
  "crashes P m q \<longleftrightarrow> (\<forall>s. P s \<longrightarrow> (\<exists>t. m s = (Fault q, t)))"

lemma crashes_bnd: "gives P m x R \<Longrightarrow> crashes R (f x) q \<Longrightarrow> crashes P (bnd m f) q"
  unfolding gives_def crashes_def by (metis bnd_Ok)

lemma crashes_first: "crashes P m q \<Longrightarrow> crashes P (bnd m f) q"
  by (force simp: crashes_def bnd_def)

lemma crashes_crash: "crashes P (crash q) q"
  by (simp add: crashes_def act_simps)

lemma level3_split:
  assumes "level3_overflows cs"
  obtains raw crc os long first rest where "cs = 4 # 0 # raw @ crc @ os # long @ first @ rest"
    and "length raw = 19" and "length crc = 2" and "length long = 4" and "length first = 4"
    and "raw ! 18 = 3" and "2 ^ 32 \<le> 32 + le_bytes first"
proof
  have len: "32 \<le> length cs" and front: "cs ! 0 = 4" "cs ! 1 = 0" using assms by (simp_all add: level3_overflows_def)
  have split: "drop k cs = take n (drop k cs) @ drop (k + n) cs" for k n
    by (metis append_take_drop_id drop_drop add.commute)
  have "cs = cs ! 0 # cs ! 1 # drop 2 cs"
    using len by (cases cs; cases "tl cs") (auto simp: numeral_2_eq_2)
  moreover have "drop 23 cs = cs ! 23 # drop 24 cs" using len Cons_nth_drop_Suc [of 23 cs] by simp
  ultimately show "cs = 4 # 0 # take 19 (drop 2 cs) @ take 2 (drop 21 cs) @ cs ! 23 # take 4 (drop 24 cs) @
      take 4 (drop 28 cs) @ drop 32 cs"
    using split [of 2 19] split [of 21 2] split [of 24 4] split [of 28 4] front by simp
qed (use assms in \<open>auto simp: level3_overflows_def\<close>)

context reliable_reader begin

lemma crashes_header:
  assumes "level3_overflows cs"
  shows "crashes (stands contents [] 0 cs) (parse_header reserve rd) Overflow"
proof -
  obtain raw crc os long first rest where cs: "cs = 4 # 0 # raw @ crc @ os # long @ first @ rest"
      and len: "length raw = 19" "length crc = 2" "length long = 4" "length first = 4"
      and raw: "raw ! 18 = 3" and big: "2 ^ 32 \<le> 32 + le_bytes first"
    by (rule level3_split [OF assms])
  let ?es = "[4, 0] @ raw"
  have lev: "raw_lha_level (raw_header_of raw) = 3" using raw by (simp add: raw_header_of_def)
  have first: "unat (from_le first :: u32) = le_bytes first" using len by (simp add: unat_from_le)
  have read_raw: "gives (stands contents [4, 0] 0 (raw @ cs')) (read_raw_header rd) (raw_header_of raw)
      (stands contents ?es (sum_list raw) cs')" for cs'
    unfolding read_raw_header_def Let_def
    by (rule gives_bnd [OF gives_exact]) (simp_all add: len lev raw_header_size_def gives_ret)
  have area: "read_extended_area rd 3 4 = (\<lambda>os. ret (os, []))"
    by (simp add: read_extended_area_def fun_eq_iff)
  have lens: "gives (stands contents ds s (long @ first @ rest)) (read_header_lens rd 3 4 0) (from_le long, from_le first)
      (stands contents ((ds @ long) @ first) ((s + sum_list long) + sum_list first) rest)" for ds s
    unfolding read_header_lens_def using len
    by simp (intro gives_bnd [OF gives_u32] gives_bnd [OF gives_u32] gives_value [OF gives_ret]; simp add: gives_ret)
  have check: "crashes (stands contents ds s cs') (check_base_header 3 c l (from_le first)) Overflow" if "length ds = 32" for ds s cs' c l
    unfolding check_base_header_def
    by (rule crashes_bnd [OF gives_get [where x = "(32, s)"]])
      (use that big first in \<open>simp_all add: stands_def crashes_crash\<close>)
  show ?thesis
    unfolding parse_header_def cs
    apply (rule crashes_bnd [OF gives_first], simp, rule crashes_first)
    apply (unfold read_base_header_def Let_def)
    apply (rule crashes_bnd [OF gives_csum], rule crashes_bnd [OF gives_reset_csum [unfolded behind_front_def sum_list.Nil]])
    apply (rule crashes_bnd [OF read_raw], unfold lev)
    apply (rule crashes_bnd [where x = "[]"], simp add: read_filename_def, rule gives_ret)
    apply (rule crashes_bnd [OF gives_u16 [OF len(2)]])
    apply (simp add: read_os_type_def area, rule crashes_bnd [OF gives_u8], simp)
    apply (rule crashes_bnd [OF lens], simp, rule crashes_first, rule check)
    apply (simp add: len)
    done
qed

lemma lha_read_level3_overflow:
  assumes "level3_overflows (contents r)"
  obtains t where "lha_read reserve rd r = (Fault Overflow, t)"
proof -
  have "stands contents [] 0 (contents r) (parser_new r)" by (simp add: stands_def parser_new_def)
  with crashes_header [OF assms, of reserve] show thesis
    by (force simp: crashes_def lha_read_def intro: that)
qed

end

subsection \<open>Properties\<close>

text \<open>C39: The header parser panics for exactly the level 3 headers whose length check overflows: a header
  of level 3 that begins with its word size 4 and whose announced length of the first extra header, the
  four bytes at 28, is at most 32 short of \<open>2^32\<close>, so that the \<open>u32\<close> addition \<open>parser.len as u32 +
  first_header_len\<close> is out of range. Everything else is accepted or rejected with an error.\<close>

theorem level3_length_overflow:
  assumes "reliable_reader rd contents"
  shows "(\<exists>t. lha_read reserve rd r = (Fault q, t)) \<longleftrightarrow>
    q = Overflow \<and> 32 \<le> length (contents r) \<and> contents r ! 0 = 4 \<and> contents r ! 1 = 0 \<and> contents r ! 20 = 3 \<and>
    2 ^ 32 \<le> 32 + le_bytes (take 4 (drop 28 (contents r)))"
proof -
  have base: "reader rd contents" using assms by (simp add: reliable_reader_def)
  have "(\<exists>t. lha_read reserve rd r = (Fault q, t)) \<longleftrightarrow> q = Overflow \<and> level3_overflows (contents r)"
    using lha_read_fault [OF base] reliable_reader.lha_read_level3_overflow [OF assms] by metis
  then show ?thesis unfolding level3_overflows_def .
qed

lemma level3_length_overflow_witness:
  "\<exists>t. lha_read (\<lambda>n. True) slice_reader (level3_prefix @ [32, 0, 0, 0, 0xE0, 0xFF, 0xFF, 0xFF]) = (Fault Overflow, t)"
  by (subst level3_length_overflow [OF slice.reliable_reader_axioms])
    (simp add: level3_prefix_def)

text \<open>C2: The parser is complete: every header the encoder writes, at each of the levels 0 to 3 and with any extra
  headers that fit, is accepted when memory can be allocated; what is returned are the fields that were
  encoded, with the attributes and sizes the extra headers give; the reader is left exactly behind the header, and
  iterating over the extra headers gives them back in their order.\<close>

theorem header_round_trip:
  assumes "reliable_reader rd contents" and "\<And>n. reserve n" and "valid_fields f" and "contents r = encode_header f @ cs"
  shows "\<exists>r'. lha_read reserve rd r = (Ok (Some (header_fields_of f)), r') \<and> contents r' = cs \<and>
    extra_collect (iter_extra (header_fields_of f)) = (Ok (map clear_crc (fd_extras f)) :: (unit, _) outcome)"
proof -
  obtain r' where "lha_read reserve rd r = (Ok (Some (header_fields_of f)), r')" "contents r' = cs"
    by (rule reliable_reader.lha_read_encoded [OF assms(1,3,2,4)])
  with iter_extra_encoded [OF assms(3), where ?'e = unit] show ?thesis by simp
qed

text \<open>A level 2 header with a file name and its own CRC-16 in extra headers.\<close>

definition example_fields :: header_fields where
  "example_fields = \<lparr>fd_level = 2, fd_method = [0x2D, 0x6C, 0x68, 0x35, 0x2D], fd_compressed = 7, fd_original = 9, fd_modified = 1,
     fd_attrs = 32, fd_name = [], fd_crc = 0x1234, fd_os = 0x55, fd_area = [], fd_extras = [[1, 0x61], [0, 0xE3, 0x91]]\<rparr>"

lemma example_fields_crc: "sum16 (digest (crc_bytes example_fields) crc_new) = 0x91E3"
  by code_simp

lemma example_fields_valid: "valid_fields example_fields"
proof -
  have raws: "hdr_raws example_fields = [[1, 0x61, 5, 0], [0, 0xE3, 0x91, 0, 0]]" by code_simp
  have bodies: "list_all (\<lambda>b. body_ok (fd_level example_fields) b \<and> length b + hdr_counter example_fields < 256 ^ hdr_counter example_fields)
      (fd_extras example_fields)"
    by (simp add: example_fields_def hdr_counter_def counter_size_def body_ok_def ext_defs)
  have crcs: "list_all (\<lambda>r. stored_crc r \<in> {None, Some (sum16 (digest (crc_bytes example_fields) crc_new))}) (hdr_raws example_fields)"
    unfolding example_fields_crc raws by (simp add: stored_crc_def ext_defs from_le_def)
  show ?thesis
    unfolding valid_fields_def
    using bodies crcs by (simp add: raws extra_len_def) (simp add: example_fields_def size_field_def ext_defs)
qed

theorem header_round_trip_witness:
  "\<exists>h. lha_read (\<lambda>n. True) slice_reader (encode_header example_fields @ [7]) = (Ok (Some h), [7]) \<and> level h = 2 \<and>
    extra_collect (iter_extra h) = (Ok [[1, 0x61], [0, 0, 0]] :: (unit, _) outcome)"
proof -
  have "map clear_crc (fd_extras example_fields) = [[1, 0x61], [0, 0, 0]]"
    by (simp add: example_fields_def clear_crc_def ext_defs)
  moreover have "level (header_fields_of example_fields) = 2" by (simp add: header_fields_of_def example_fields_def)
  ultimately show ?thesis
    using header_round_trip [OF slice.reliable_reader_axioms _ example_fields_valid refl, of "\<lambda>n. True" "[7]"] by auto
qed

end
