(* ===== verification/Header_Time.thy ===== *)
theory Header_Time
  imports Header_Format "HOL-Library.Signed_Division"
begin

text \<open>
  Time stamps: \<open>parse_msdos_datetime\<close>, \<open>parse_win_filetime\<close> and the method
  \<open>parse_last_modified\<close> of \<open>src/src/header.rs\<close>, and \<open>TimestampResult\<close> of
  \<open>src/src/header/timestamp.rs\<close>. Dates are those of the crate \<open>chrono\<close>: its functions are
  parameters of the model, collected in a record.
\<close>

subsection \<open>The functions of chrono\<close>

datatype 't local_result = LocalNone | Single 't | Ambiguous 't 't

record ('d, 'n, 't, 'l) chrono =
  from_ymd_opt :: "int \<Rightarrow> u32 \<Rightarrow> u32 \<Rightarrow> 'd option"
  and_hms_opt :: "'d \<Rightarrow> u32 \<Rightarrow> u32 \<Rightarrow> u32 \<Rightarrow> 'n option"
  timestamp_opt :: "int \<Rightarrow> u32 \<Rightarrow> 't local_result"
  naive_utc :: "'t \<Rightarrow> 'n"
  naive_local :: "'t \<Rightarrow> 'n"
  from_naive_utc :: "'n \<Rightarrow> 't"
  from_local_datetime :: "'n \<Rightarrow> 'l local_result"
  with_local_timezone :: "'t \<Rightarrow> 'l"

fun local_single :: "'l local_result \<Rightarrow> 'l option" where
  "local_single (Single l) = Some l"
| "local_single r = None"

subsection \<open>TimestampResult\<close>

datatype ('n, 't) timestamp_result = TsNone | Naive 'n | Utc 't

fun ts_is_none :: "('n, 't) timestamp_result \<Rightarrow> bool" where
  "ts_is_none TsNone = True"
| "ts_is_none r = False"

fun ts_is_naive :: "('n, 't) timestamp_result \<Rightarrow> bool" where
  "ts_is_naive (Naive dt) = True"
| "ts_is_naive r = False"

fun ts_is_utc :: "('n, 't) timestamp_result \<Rightarrow> bool" where
  "ts_is_utc (Utc dt) = True"
| "ts_is_utc r = False"

fun to_naive_utc :: "('d, 'n, 't, 'l) chrono \<Rightarrow> ('n, 't) timestamp_result \<Rightarrow> 'n option" where
  "to_naive_utc c (Naive dt) = Some dt"
| "to_naive_utc c (Utc dt) = Some (naive_utc c dt)"
| "to_naive_utc c TsNone = None"

fun to_naive_local :: "('d, 'n, 't, 'l) chrono \<Rightarrow> ('n, 't) timestamp_result \<Rightarrow> 'n option" where
  "to_naive_local c (Naive dt) = Some dt"
| "to_naive_local c (Utc dt) = Some (naive_local c dt)"
| "to_naive_local c TsNone = None"

fun to_utc :: "('d, 'n, 't, 'l) chrono \<Rightarrow> ('n, 't) timestamp_result \<Rightarrow> 't option" where
  "to_utc c (Naive dt) = Some (from_naive_utc c dt)"
| "to_utc c (Utc dt) = Some dt"
| "to_utc c TsNone = None"

fun to_local :: "('d, 'n, 't, 'l) chrono \<Rightarrow> ('n, 't) timestamp_result \<Rightarrow> 'l option" where
  "to_local c (Naive dt) = local_single (from_local_datetime c dt)"
| "to_local c (Utc dt) = Some (with_local_timezone c dt)"
| "to_local c TsNone = None"

definition of_naive_option :: "'n option \<Rightarrow> ('n, 't) timestamp_result" where
  "of_naive_option dt = (case dt of Some dt \<Rightarrow> Naive dt | None \<Rightarrow> TsNone)"

definition of_local_result :: "'t local_result \<Rightarrow> ('n, 't) timestamp_result" where
  "of_local_result dt = (case dt of LocalNone \<Rightarrow> TsNone | Ambiguous a b \<Rightarrow> TsNone | Single dt \<Rightarrow> Utc dt)"

definition of_naive :: "'n \<Rightarrow> ('n, 't) timestamp_result" where
  "of_naive dt = Naive dt"

text \<open>\<open>From<DateTime<T>>\<close>; the conversion of a time zone \<open>T\<close> to UTC is the argument.\<close>

definition of_datetime :: "('z \<Rightarrow> 't) \<Rightarrow> 'z \<Rightarrow> ('n, 't) timestamp_result" where
  "of_datetime with_utc dt = Utc (with_utc dt)"

text \<open>\<open>Display\<close>; what the dates of \<open>chrono\<close> display are the arguments.\<close>

fun timestamp_display :: "('n \<Rightarrow> string) \<Rightarrow> ('t \<Rightarrow> string) \<Rightarrow> ('n, 't) timestamp_result \<Rightarrow> string" where
  "timestamp_display naive utc TsNone = ''-''"
| "timestamp_display naive utc (Naive dt) = naive dt"
| "timestamp_display naive utc (Utc dt) = utc dt"

text \<open>
  The local date of a \<open>DateTime<Utc>\<close> is its date in UTC (\<open>naive_local\<close> uses the time zone of its argument), so
  \<open>to_naive_local\<close> is \<open>to_naive_utc\<close>, although it is documented to be in the \<open>Local\<close> time zone.
\<close>

lemma to_naive_local_utc:
  assumes "\<And>dt. naive_local c dt = naive_utc c dt"
  shows "to_naive_local c r = to_naive_utc c r"
  by (cases r) (simp_all add: assms)

subsection \<open>MS-DOS and Windows time stamps\<close>

definition parse_msdos_datetime :: "('d, 'n, 't, 'l) chrono \<Rightarrow> u32 \<Rightarrow> 'n option" where
  "parse_msdos_datetime c ts =
     (let sec = push_bit 1 ts AND 0x3E;
          mn = drop_bit 5 ts AND 0x3F;
          hour = drop_bit 11 ts AND 0x1F;
          day = drop_bit 16 ts AND 0x1F;
          mon = drop_bit 21 ts AND 0xF;
          year = 1980 + uint (drop_bit 25 ts AND 0x7F)
      in case from_ymd_opt c year mon day of
           Some d \<Rightarrow> and_hms_opt c d hour mn sec
         | None \<Rightarrow> None)"

text \<open>
  \<open>ft / 10_000_000\<close> and \<open>ft % 10_000_000\<close> on \<open>i64\<close> truncate towards zero; \<open>as u32\<close> keeps the low 32
  bits, and the multiplication by 100 is one of \<open>u32\<close>.
\<close>

definition filetime_epoch :: int where
  "filetime_epoch = 116444736000000000"

definition parse_win_filetime :: "('d, 'n, 't, 'l) chrono \<Rightarrow> u64 \<Rightarrow> ('e, 't local_result) outcome" where
  "parse_win_filetime c filetime =
     (if uint filetime < 2 ^ 63 \<and> - (2 ^ 63) \<le> uint filetime - filetime_epoch
      then (let ft = uint filetime - filetime_epoch;
                secs = ft sdiv 10000000;
                frac = (ft smod 10000000) mod 2 ^ 32
            in if frac * 100 < 2 ^ 32 then Ok (timestamp_opt c secs (of_int (frac * 100))) else Fault Overflow)
      else Ok LocalNone)"

subsection \<open>The last modification time of a header\<close>

definition utc_of_ts :: "('d, 'n, 't, 'l) chrono \<Rightarrow> u32 \<Rightarrow> ('n, 't) timestamp_result" where
  "utc_of_ts c ts = of_local_result (timestamp_opt c (uint ts) 0)"

text \<open>The loop over the extra headers, which returns early with a time stamp; \<open>&data[8..16]\<close> panics
  unless there are 16 bytes.\<close>

function modified_loop :: "('d, 'n, 't, 'l) chrono \<Rightarrow> extra_iter \<Rightarrow> ('e, ('n, 't) timestamp_result option) outcome" where
  "modified_loop c it = (case extra_next it of
       (Ok None, it') \<Rightarrow> Ok None
     | (Ok (Some []), it') \<Rightarrow> modified_loop c it'
     | (Ok (Some (tag # data)), it') \<Rightarrow>
         if tag = ext_unix_time then
           (if 4 \<le> length data then (case read_u32 (take 4 data) of
                Some ts \<Rightarrow> Ok (Some (utc_of_ts c ts))
              | None \<Rightarrow> modified_loop c it')
            else modified_loop c it')
         else if tag = ext_msdos_time \<and> length data = 24 then
           (if length data < 16 then Fault Panicked else case read_u64 (take 8 (drop 8 data)) of
                Some mtime \<Rightarrow> (case parse_win_filetime c mtime of
                    Ok r \<Rightarrow> Ok (Some (of_local_result r))
                  | Err e \<Rightarrow> Err e
                  | Fault q \<Rightarrow> Fault q)
              | None \<Rightarrow> modified_loop c it')
         else modified_loop c it'
     | (Err e, it') \<Rightarrow> Err e
     | (Fault q, it') \<Rightarrow> Fault q)"
  by auto

termination modified_loop
  by (relation "measure (\<lambda>(c, it). length (it_data it))") (auto dest!: extra_next_shorter [OF sym])

declare modified_loop.simps [simp del]

definition modified_fallback :: "('d, 'n, 't, 'l) chrono \<Rightarrow> lha_header \<Rightarrow> ('n, 't) timestamp_result" where
  "modified_fallback c h =
     (if level h < 2 then
        (if (parse_os_type h = Ok Unix \<or> parse_os_type h = Ok Osk) \<and> 5 \<le> length (extended_area h)
         then (case read_u32 (take 4 (drop 1 (extended_area h))) of
             Some ts \<Rightarrow> utc_of_ts c ts
           | None \<Rightarrow> of_naive_option (parse_msdos_datetime c (last_modified h)))
         else of_naive_option (parse_msdos_datetime c (last_modified h)))
      else utc_of_ts c (last_modified h))"

definition parse_last_modified :: "('d, 'n, 't, 'l) chrono \<Rightarrow> lha_header \<Rightarrow> ('e, ('n, 't) timestamp_result) outcome" where
  "parse_last_modified c h = (case modified_loop c (iter_extra h) of
       Ok (Some r) \<Rightarrow> Ok r
     | Ok None \<Rightarrow> Ok (modified_fallback c h)
     | Err e \<Rightarrow> Err e
     | Fault q \<Rightarrow> Fault q)"

subsection \<open>Bit fields\<close>

lemma field_of_nat:
  assumes "n < 2 ^ 32"
  shows "drop_bit k (of_nat n :: u32) AND mask m = of_nat (n div 2 ^ k mod 2 ^ m)"
proof -
  have n: "unat (of_nat n :: u32) = n" using assms by (simp add: unat_of_nat)
  have "n div 2 ^ k mod 2 ^ m \<le> n" using div_le_dividend mod_less_eq_dividend order_trans by blast
  with assms have "unat (of_nat (n div 2 ^ k mod 2 ^ m) :: u32) = n div 2 ^ k mod 2 ^ m"
    by (simp add: unat_of_nat)
  moreover have "unat (drop_bit k w AND mask m) = take_bit m (drop_bit k (unat w))" for w :: u32
    by (rule bit_eqI) (auto simp: bit_simps dest: bit_imp_le_length)
  ultimately show ?thesis
    by (simp only: word_unat_eq_iff n take_bit_eq_mod drop_bit_eq_div)
qed

definition msdos_fields :: "nat \<Rightarrow> nat \<Rightarrow> nat \<Rightarrow> nat \<Rightarrow> nat \<Rightarrow> nat \<Rightarrow> nat" where
  "msdos_fields y mo d h mi s = s + 2 ^ 5 * (mi + 2 ^ 6 * (h + 2 ^ 5 * (d + 2 ^ 5 * (mo + 2 ^ 4 * y))))"

lemma win_filetime_late:
  assumes "filetime_epoch \<le> uint ft" "uint ft < 2 ^ 63"
  shows "\<exists>secs nanos. parse_win_filetime c ft = (Ok (timestamp_opt c secs nanos) :: ('e, 't local_result) outcome) \<and>
    uint nanos < 1000000000 \<and> 0 \<le> secs \<and> secs * 10000000 * 100 + uint nanos = (uint ft - filetime_epoch) * 100"
proof -
  let ?ft = "uint ft - filetime_epoch"
  have late: "0 \<le> ?ft" using assms(1) by simp
  have s: "?ft smod 10000000 = ?ft mod 10000000" "?ft sdiv 10000000 = ?ft div 10000000"
    using late by (cases "?ft = 0"; simp add: signed_divide_int_def signed_modulo_int_def sgn_if)+
  have small: "0 \<le> ?ft mod 10000000" "?ft mod 10000000 < 10000000" by simp_all
  then have m: "?ft mod 10000000 mod 2 ^ 32 = ?ft mod 10000000" by simp
  have cast: "0 \<le> x \<Longrightarrow> x < 2 ^ 32 \<Longrightarrow> uint (of_int x :: u32) = x" for x
    by (simp add: take_bit_int_eq_self unsigned_of_int)
  have "uint (of_int (?ft mod 10000000 * 100) :: u32) = ?ft mod 10000000 * 100"
    by (rule cast) (use small in simp_all)
  moreover have "parse_win_filetime c ft =
      (Ok (timestamp_opt c (?ft div 10000000) (of_int (?ft mod 10000000 * 100))) :: ('e, 't local_result) outcome)"
    unfolding parse_win_filetime_def Let_def s m using assms(2) late small by (simp add: filetime_epoch_def)
  moreover have "?ft div 10000000 * 10000000 * 100 + ?ft mod 10000000 * 100 = ?ft * 100"
    by (simp only: distrib_right [symmetric] div_mult_mod_eq)
  moreover have "0 \<le> ?ft div 10000000" using late by simp
  ultimately show ?thesis using small by (intro exI conjI) (assumption | simp)+
qed

lemma win_filetime_early:
  assumes "uint ft < filetime_epoch"
  shows "(parse_win_filetime c ft = (Fault q :: ('e, 't local_result) outcome)) =
    (q = Overflow \<and> \<not> 10000000 dvd (uint ft - filetime_epoch))"
proof -
  let ?ft = "uint ft - filetime_epoch"
  define k where "k = (- ?ft) mod 10000000"
  have s: "?ft smod 10000000 = - k"
    using assms by (simp add: signed_modulo_int_def k_def)
  have k: "0 \<le> k" "k < 10000000" by (simp_all add: k_def)
  have dvd: "10000000 dvd ?ft \<longleftrightarrow> k = 0" by (metis dvd_eq_mod_eq_0 dvd_minus_iff k_def)
  have "(- k) mod 2 ^ 32 = (if k = 0 then 0 else 2 ^ 32 - k)"
    using k by (cases "k = 0") (simp_all add: zmod_zminus1_eq_if)
  then have "(- k) mod 2 ^ 32 * 100 < 2 ^ 32 \<longleftrightarrow> k = 0" using k by auto
  moreover have "0 \<le> uint ft" by simp
  then have "uint ft < 2 ^ 63" "- (2 ^ 63) \<le> ?ft" using assms by (simp_all add: filetime_epoch_def)
  ultimately show ?thesis unfolding parse_win_filetime_def Let_def s dvd by auto
qed

lemma win_filetime_beyond: "2 ^ 63 \<le> uint ft \<Longrightarrow> parse_win_filetime c ft = (Ok LocalNone :: ('e, 't local_result) outcome)"
  by (simp add: parse_win_filetime_def)

lemma win_filetime_fault:
  assumes "parse_win_filetime c ft = (Fault q :: ('e, 't local_result) outcome)"
  shows "q = Overflow \<and> uint ft < filetime_epoch \<and> \<not> 10000000 dvd (uint ft - filetime_epoch)"
proof (cases "uint ft < filetime_epoch")
  case True
  with assms win_filetime_early [OF True, of c q, where ?'e = 'e] show ?thesis by blast
next
  case False
  with assms win_filetime_late [of ft c, where ?'e = 'e] win_filetime_beyond [of ft c, where ?'e = 'e] show ?thesis
    by (cases "uint ft < 2 ^ 63") auto
qed

lemma win_filetime_no_Err: "parse_win_filetime c ft \<noteq> Err e"
  by (simp add: parse_win_filetime_def Let_def)

subsection \<open>Which time stamp is taken\<close>

text \<open>
  The bytes of the header say what its time is: an extra header of tag \<open>0x54\<close> with at least four bytes holds
  a Unix time, one of tag \<open>0x41\<close> with exactly 24 bytes holds Windows time stamps, of which the second
  is the modification time. Without such an extra header it is the time of the base header: Unix time
  from level 2 on, an MS-DOS time stamp below, unless the extended area of an archive made on Unix
  (\<open>0x55\<close>) or OS-9/68k (\<open>0x4B\<close>) holds a Unix time.
\<close>

definition single_utc :: "'t local_result \<Rightarrow> ('n, 't) timestamp_result" where
  "single_utc r = (case r of Single t \<Rightarrow> Utc t | _ \<Rightarrow> TsNone)"

definition carries_time :: "u8 list \<Rightarrow> bool" where
  "carries_time b \<longleftrightarrow> b \<noteq> [] \<and> (hd b = 0x54 \<and> 5 \<le> length b \<or> hd b = 0x41 \<and> length b = 25)"

definition extra_time :: "('d, 'n, 't, 'l) chrono \<Rightarrow> u8 list \<Rightarrow> ('e, ('n, 't) timestamp_result) outcome" where
  "extra_time c b =
     (if hd b = 0x54 then Ok (single_utc (timestamp_opt c (int (le_bytes (take 4 (drop 1 b)))) 0))
      else (case parse_win_filetime c (from_le (take 8 (drop 9 b))) of
          Ok r \<Rightarrow> Ok (single_utc r)
        | Err e \<Rightarrow> Err e
        | Fault q \<Rightarrow> Fault q))"

definition base_time :: "('d, 'n, 't, 'l) chrono \<Rightarrow> lha_header \<Rightarrow> ('n, 't) timestamp_result" where
  "base_time c h =
     (if 2 \<le> level h then single_utc (timestamp_opt c (uint (last_modified h)) 0)
      else if (os_type h = 0x55 \<or> os_type h = 0x4B) \<and> 5 \<le> length (extended_area h)
      then single_utc (timestamp_opt c (int (le_bytes (take 4 (drop 1 (extended_area h))))) 0)
      else (case parse_msdos_datetime c (last_modified h) of Some dt \<Rightarrow> Naive dt | None \<Rightarrow> TsNone))"

lemma single_utc: "of_local_result r = single_utc r"
  by (cases r) (simp_all add: of_local_result_def single_utc_def)

lemma uint_from_le: "8 * length bs \<le> LENGTH('a :: len) \<Longrightarrow> uint (from_le bs :: 'a word) = int (le_bytes bs)"
  using unat_from_le [of bs, where ?'a = 'a] by (simp add: uint_nat)

lemma utc_from_le: "length bs = 4 \<Longrightarrow> utc_of_ts c (from_le bs) = single_utc (timestamp_opt c (int (le_bytes bs)) 0)"
  by (simp add: utc_of_ts_def single_utc uint_from_le)

lemma modified_fallback_time: "modified_fallback c h = base_time c h"
proof -
  have "parse_os_type h = Ok Unix \<longleftrightarrow> os_type h = 0x55" "parse_os_type h = Ok Osk \<longleftrightarrow> os_type h = 0x4B"
    by (simp_all add: parse_os_type_def os_type_round_trip)
  then show ?thesis
    by (auto simp: modified_fallback_def base_time_def read_u32_def uint_from_le of_naive_option_def not_less
        utc_of_ts_def single_utc split: option.splits)
qed

lemma modified_loop_find:
  "extra_collect it = (Ok hs :: ('e, u8 list list) outcome) \<Longrightarrow>
    (modified_loop c it :: ('e, ('n, 't) timestamp_result option) outcome) = (case find carries_time hs of
        Some b \<Rightarrow> (case extra_time c b of Ok ts \<Rightarrow> Ok (Some ts) | Err e \<Rightarrow> Err e | Fault q \<Rightarrow> Fault q)
      | None \<Rightarrow> Ok None)"
proof (induction "length (it_data it)" arbitrary: it hs rule: less_induct)
  case less
  obtain res it' where n: "(extra_next it :: ('e, _) outcome \<times> _) = (res, it')" by fastforce
  note unfold = modified_loop.simps [of c it, where ?'e = 'e, unfolded n prod.case]
  from extra_collect_step [OF less.prems n] show ?case
  proof (elim disjE exE conjE)
    fix h hs'
    assume step: "res = Ok (Some h)" "hs = h # hs'" "extra_collect it' = (Ok hs' :: ('e, u8 list list) outcome)"
    with n have "length (it_data it') < length (it_data it)" using extra_next_shorter by blast
    note IH = less.hyps [OF this step(3)]
    show ?thesis
    proof (cases "carries_time h")
      case True
      then obtain tag data where h: "h = tag # data" by (cases h) (simp_all add: carries_time_def)
      have "drop 9 h = drop 8 data" by (simp add: h)
      with True show ?thesis
        unfolding unfold step h
        by (auto simp: carries_time_def extra_time_def ext_defs read_u32_def read_u64_def utc_from_le single_utc
            split: outcome.splits)
    next
      case False
      with IH step show ?thesis
        unfolding unfold by (cases h) (auto simp: carries_time_def ext_defs)
    qed
  qed (simp add: unfold)
qed

subsection \<open>Properties\<close>

text \<open>C38: The bit fields of an MS-DOS time stamp are the documented ones: a stamp packed from a year since
  1980, a month, a day, an hour, a minute and a number of two-second units is decoded to exactly
  these, and the date is asked for in this order.\<close>

theorem msdos_datetime_fields:
  assumes "y < 128" and "mo < 16" and "d < 32" and "h < 32" and "mi < 64" and "s < 32"
  shows "parse_msdos_datetime c (of_nat (msdos_fields y mo d h mi s)) =
    (case from_ymd_opt c (1980 + int y) (of_nat mo) (of_nat d) of
       Some date \<Rightarrow> and_hms_opt c date (of_nat h) (of_nat mi) (of_nat (2 * s))
     | None \<Rightarrow> None)"
proof -
  let ?n = "msdos_fields y mo d h mi s"
  have n: "?n < 2 ^ 32" using assms by (simp add: msdos_fields_def)
  have mask: "0x3E = (push_bit 1 (mask 5) :: u32)" "0x3F = (mask 6 :: u32)" "0x1F = (mask 5 :: u32)"
      "0xF = (mask 4 :: u32)" "0x7F = (mask 7 :: u32)"
    by (simp_all add: mask_eq_exp_minus_1)
  have low: "push_bit 1 (of_nat ?n :: u32) AND push_bit 1 (mask 5) = of_nat (2 * s)"
  proof -
    have "push_bit 1 (of_nat ?n :: u32) AND push_bit 1 (mask 5) = push_bit 1 (of_nat ?n AND mask 5)" by simp
    also have "of_nat ?n AND mask 5 = (of_nat (?n mod 2 ^ 5) :: u32)" using field_of_nat [OF n, of 0 5] by simp
    also have "?n mod 2 ^ 5 = s" unfolding msdos_fields_def by (simp only: mod_mult_self2) (use assms in simp)
    finally show ?thesis by (simp add: push_bit_eq_mult mult.commute)
  qed
  let ?x4 = "mo + 2 ^ 4 * y"
  let ?x3 = "d + 2 ^ 5 * ?x4"
  let ?x2 = "h + 2 ^ 5 * ?x3"
  let ?x1 = "mi + 2 ^ 6 * ?x2"
  have field: "(v + 2 ^ k * x) div 2 ^ k = x" "(v + 2 ^ k * x) mod 2 ^ k = v" if "v < 2 ^ k" for v k x :: nat
    using that by simp_all
  have bounds: "s < 2 ^ 5" "mi < 2 ^ 6" "h < 2 ^ 5" "d < 2 ^ 5" "mo < 2 ^ 4" using assms by simp_all
  have divs: "?n div 2 ^ 5 = ?x1" "?x1 div 2 ^ 6 = ?x2" "?x2 div 2 ^ 5 = ?x3" "?x3 div 2 ^ 5 = ?x4" "?x4 div 2 ^ 4 = y"
    unfolding msdos_fields_def by (rule field(1), rule bounds)+
  have chain: "?n div 2 ^ 11 = ?x2" "?n div 2 ^ 16 = ?x3" "?n div 2 ^ 21 = ?x4" "?n div 2 ^ 25 = y"
  proof -
    show 1: "?n div 2 ^ 11 = ?x2" using div_mult2_eq [of ?n "2 ^ 5" "2 ^ 6"] unfolding divs by simp
    show 2: "?n div 2 ^ 16 = ?x3" using div_mult2_eq [of ?n "2 ^ 11" "2 ^ 5"] unfolding 1 divs by simp
    show 3: "?n div 2 ^ 21 = ?x4" using div_mult2_eq [of ?n "2 ^ 16" "2 ^ 5"] unfolding 2 divs by simp
    show "?n div 2 ^ 25 = y" using div_mult2_eq [of ?n "2 ^ 21" "2 ^ 4"] unfolding 3 divs by simp
  qed
  have mods: "?x1 mod 2 ^ 6 = mi" "?x2 mod 2 ^ 5 = h" "?x3 mod 2 ^ 5 = d" "?x4 mod 2 ^ 4 = mo" "y mod 2 ^ 7 = y"
    by (rule field(2), rule bounds)+ (use assms(1) in simp)
  have "uint (of_nat y :: u32) = int y" using assms(1) by (simp add: uint_nat unat_of_nat)
  then show ?thesis
    unfolding parse_msdos_datetime_def mask Let_def low field_of_nat [OF n] divs(1) chain mods by simp
qed

definition example_chrono :: "(int \<times> u32 \<times> u32, (int \<times> u32 \<times> u32) \<times> u32 \<times> u32 \<times> u32, int \<times> u32, unit) chrono" where
  "example_chrono = \<lparr>from_ymd_opt = (\<lambda>y m d. Some (y, m, d)), and_hms_opt = (\<lambda>d h m s. Some (d, h, m, s)),
     timestamp_opt = (\<lambda>s n. Single (s, n)), naive_utc = (\<lambda>t. ((0, 0, 0), 0, 0, 0)), naive_local = (\<lambda>t. ((0, 0, 0), 0, 0, 0)),
     from_naive_utc = (\<lambda>n. (0, 0)), from_local_datetime = (\<lambda>n. LocalNone), with_local_timezone = (\<lambda>t. ())\<rparr>"

lemma msdos_datetime_fields_witness:
  "parse_msdos_datetime example_chrono (of_nat (msdos_fields 44 2 29 23 59 29)) = Some ((2024, 2, 29), 23, 59, 58)"
  using msdos_datetime_fields [of 44 2 29 23 59 29 example_chrono] by (simp add: example_chrono_def)

text \<open>C37: A Windows time stamp is split into seconds and nanoseconds that chrono accepts: from the Unix
  epoch on they make up the time stamp and the nanoseconds are below one second. Before it the
  cast of a negative remainder makes the multiplication overflow (a panic with overflow checks)
  unless the stamp is a whole second.\<close>

theorem win_filetime_split:
  "(filetime_epoch \<le> uint ft \<and> uint ft < 2 ^ 63 \<longrightarrow>
     (\<exists>secs nanos. parse_win_filetime c ft = (Ok (timestamp_opt c secs nanos) :: ('e, 't local_result) outcome) \<and>
       uint nanos < 1000000000 \<and> 0 \<le> secs \<and> secs * 10000000 * 100 + uint nanos = (uint ft - filetime_epoch) * 100)) \<and>
   (uint ft < filetime_epoch \<longrightarrow>
     (parse_win_filetime c ft = (Fault Overflow :: ('e, 't local_result) outcome)) = (\<not> 10000000 dvd (uint ft - filetime_epoch))) \<and>
   (2 ^ 63 \<le> uint ft \<longrightarrow> parse_win_filetime c ft = (Ok LocalNone :: ('e, 't local_result) outcome))"
  using win_filetime_late [of ft c, where ?'e = 'e] win_filetime_early [of ft c Overflow, where ?'e = 'e]
    win_filetime_beyond [of ft c, where ?'e = 'e] by blast

lemma win_filetime_split_witness:
  "parse_win_filetime example_chrono 116444735999999999 = (Fault Overflow :: ('e, (int \<times> u32) local_result) outcome)"
  using win_filetime_split [of 116444735999999999 example_chrono, where ?'e = 'e] by (simp add: filetime_epoch_def)

text \<open>C35: The last modification time of a header that was read is the one its bytes state: that of the first extra
  header that holds a time stamp, the Unix time of tag \<open>0x54\<close> or the modification time of tag \<open>0x41\<close>,
  else that of the base header, which depends on its level and operating system. The method never panics, but
  for the overflow of a Windows time stamp before the Unix epoch that is not a whole second.\<close>

theorem last_modified_total:
  assumes "reader rd contents" and "lha_read reserve rd r = (Ok (Some h), t)"
  shows "\<exists>hs. extra_collect (iter_extra h) = (Ok hs :: ('e, u8 list list) outcome) \<and>
    (parse_last_modified c h :: ('e, ('n, 't) timestamp_result) outcome) = (case find carries_time hs of
      Some b \<Rightarrow> extra_time c b | None \<Rightarrow> Ok (base_time c h)) \<and>
    ((\<exists>q. parse_last_modified c h = (Fault q :: ('e, ('n, 't) timestamp_result) outcome)) \<longrightarrow>
      (\<exists>b\<in>set hs. hd b = 0x41 \<and> length b = 25 \<and> (let stamp = int (le_bytes (take 8 (drop 9 b))) in
        stamp < filetime_epoch \<and> \<not> 10000000 dvd stamp - filetime_epoch)))"
proof -
  from iter_extra_sound [OF lha_read_header_sound [OF assms]]
  obtain hs where hs: "extra_collect (iter_extra h) = (Ok hs :: ('e, u8 list list) outcome)" by blast
  let ?time = "(case find carries_time hs of
      Some b \<Rightarrow> extra_time c b | None \<Rightarrow> Ok (base_time c h)) :: ('e, ('n, 't) timestamp_result) outcome"
  have eq: "parse_last_modified c h = ?time"
    unfolding parse_last_modified_def modified_loop_find [OF hs]
    by (simp add: modified_fallback_time split: option.splits outcome.splits)
  have "\<exists>b\<in>set hs. hd b = 0x41 \<and> length b = 25 \<and> (let stamp = int (le_bytes (take 8 (drop 9 b))) in
        stamp < filetime_epoch \<and> \<not> 10000000 dvd stamp - filetime_epoch)" if "?time = Fault q" for q
  proof -
    from that obtain b where b: "find carries_time hs = Some b" "extra_time c b = (Fault q :: ('e, ('n, 't) timestamp_result) outcome)"
      by (auto split: option.splits)
    then have "b \<in> set hs" "carries_time b" by (auto simp: find_Some_iff)
    moreover have "hd b \<noteq> 0x54" and ft: "parse_win_filetime c (from_le (take 8 (drop 9 b))) = (Fault q :: ('e, 't local_result) outcome)"
      using b(2) by (auto simp: extra_time_def split: if_splits outcome.splits)
    moreover have "uint (from_le (take 8 (drop 9 b)) :: u64) = int (le_bytes (take 8 (drop 9 b)))" by (simp add: uint_from_le)
    ultimately show ?thesis
      using win_filetime_fault [OF ft] by (intro bexI [of _ b]) (auto simp: carries_time_def)
  qed
  with hs eq show ?thesis by auto
qed

text \<open>The time of a level 2 header with a Unix time in its second extra header.\<close>

definition timed_fields :: header_fields where
  "timed_fields = example_fields\<lparr>fd_extras := [[0x54, 1], [0x54, 0, 0xCA, 0x9A, 0x3B]]\<rparr>"

lemma timed_fields_valid: "valid_fields timed_fields"
proof -
  have raws: "hdr_raws timed_fields = [[0x54, 1, 7, 0], [0x54, 0, 0xCA, 0x9A, 0x3B, 0, 0]]" by code_simp
  show ?thesis
    unfolding valid_fields_def raws extra_len_def
    by (simp add: timed_fields_def example_fields_def hdr_counter_def counter_size_def body_ok_def ext_defs size_field_def
        stored_crc_def)
qed

lemma last_modified_total_witness:
  "\<exists>h. lha_read (\<lambda>n. True) slice_reader (encode_header timed_fields) = (Ok (Some h), []) \<and>
    parse_last_modified example_chrono h = (Ok (Utc (1000000000, 0)) :: (unit, ((int \<times> u32 \<times> u32) \<times> u32 \<times> u32 \<times> u32, int \<times> u32) timestamp_result) outcome)"
proof -
  obtain s where h: "lha_read (\<lambda>n. True) slice_reader (encode_header timed_fields @ []) = (Ok (Some (header_fields_of timed_fields)), s)"
      and s: "s = []"
    using slice.lha_read_encoded [OF timed_fields_valid, of "\<lambda>n. True" "encode_header timed_fields @ []" "[]"] by blast
  from last_modified_total [OF slice.reader_axioms h, of example_chrono, where ?'e = unit]
  obtain hs where hs: "extra_collect (iter_extra (header_fields_of timed_fields)) = (Ok hs :: (unit, _) outcome)"
    and time: "(parse_last_modified example_chrono (header_fields_of timed_fields) :: (unit, _) outcome) = (case find carries_time hs of
      Some b \<Rightarrow> extra_time example_chrono b | None \<Rightarrow> Ok (base_time example_chrono (header_fields_of timed_fields)))"
    by blast
  have "hs = [[0x54, 1], [0x54, 0, 0xCA, 0x9A, 0x3B]]"
    using hs iter_extra_encoded [OF timed_fields_valid, where ?'e = unit]
    by (simp add: timed_fields_def clear_crc_def ext_defs)
  with time h s show ?thesis
    by (simp add: carries_time_def extra_time_def example_chrono_def single_utc_def)
qed

end
