(* ===== verification/Lz_Window.thy ===== *)
theory Lz_Window
  imports Ring_Buf
begin

text \<open>
  The ring buffer as a sliding window. The window of a ring are its bytes from the oldest to the
  newest; pushing shifts it, and iterating from an offset is the overlapping copy of LZ77. The
  locale \<open>sliding_window\<close> is the interface the decoders rely on, the ring buffer of the code is
  its interpretation.
\<close>

subsection \<open>The interface\<close>

text \<open>
  A copy source \<open>copy n a\<close> appends \<open>n\<close> bytes taken from the address \<open>a\<close>; \<open>adv n a\<close> is the address
  at which an interrupted copy goes on after \<open>n\<close> bytes.
\<close>

locale sliding_window =
  fixes inv :: "'w \<Rightarrow> bool"
    and win :: "'w \<Rightarrow> u8 list"
    and put :: "u8 \<Rightarrow> 'w \<Rightarrow> 'w"
    and copy :: "nat \<Rightarrow> nat \<Rightarrow> 'w \<Rightarrow> u8 list \<times> 'w"
    and adv :: "nat \<Rightarrow> nat \<Rightarrow> nat"
  assumes inv_put: "inv w \<Longrightarrow> inv (put b w)"
    and win_put: "inv w \<Longrightarrow> win (put b w) = drop 1 (win w @ [b])"
    and copy_0: "inv w \<Longrightarrow> copy 0 a w = ([], w)"
    and inv_copy: "inv w \<Longrightarrow> copy n a w = (bs, w') \<Longrightarrow> inv w'"
    and length_copy: "inv w \<Longrightarrow> copy n a w = (bs, w') \<Longrightarrow> length bs = n"
    and win_copy: "inv w \<Longrightarrow> copy n a w = (bs, w') \<Longrightarrow> win w' = drop n (win w @ bs)"
    and copy_add: "inv w \<Longrightarrow> copy m a w = (bs, w') \<Longrightarrow>
      copy (m + n) a w = (case copy n (adv m a) w' of (cs, w'') \<Rightarrow> (bs @ cs, w''))"
    and adv_add: "adv (m + n) a = adv n (adv m a)"

text \<open>The two commands of every LZ77 decoder, and what a list of them writes.\<close>

datatype lz_command = Literal u8 | History nat nat

fun lz_exec :: "(u8 \<Rightarrow> 'w \<Rightarrow> 'w) \<Rightarrow> (nat \<Rightarrow> nat \<Rightarrow> 'w \<Rightarrow> u8 list \<times> 'w) \<Rightarrow> lz_command \<Rightarrow> 'w \<Rightarrow> u8 list \<times> 'w" where
  "lz_exec put copy (Literal b) w = ([b], put b w)"
| "lz_exec put copy (History a n) w = copy n a w"

fun lz_run :: "(u8 \<Rightarrow> 'w \<Rightarrow> 'w) \<Rightarrow> (nat \<Rightarrow> nat \<Rightarrow> 'w \<Rightarrow> u8 list \<times> 'w) \<Rightarrow> lz_command list \<Rightarrow> 'w \<Rightarrow> u8 list \<times> 'w" where
  "lz_run put copy [] w = ([], w)"
| "lz_run put copy (c # cs) w =
     (case lz_exec put copy c w of (bs, w') \<Rightarrow> (case lz_run put copy cs w' of (ds, w'') \<Rightarrow> (bs @ ds, w'')))"

fun lz_length :: "lz_command \<Rightarrow> nat" where
  "lz_length (Literal b) = 1"
| "lz_length (History a n) = n"

text \<open>
  A copy into a buffer with room for \<open>n\<close> bytes only: the bytes written, what is left of the copy
  (the address to go on from and a positive count, both cast to \<open>width\<close> bits), and the window.
\<close>

definition history_copy :: "(nat \<Rightarrow> nat \<Rightarrow> 'w \<Rightarrow> u8 list \<times> 'w) \<Rightarrow> (nat \<Rightarrow> nat \<Rightarrow> nat) \<Rightarrow> nat \<Rightarrow>
    nat \<Rightarrow> nat \<Rightarrow> nat \<Rightarrow> 'w \<Rightarrow> u8 list \<times> (nat \<times> nat) option \<times> 'w" where
  "history_copy copy adv width n a count w =
     (let real_count = min n count; rest = (count - real_count) mod 2 ^ width
      in case copy real_count a w of (bs, w') \<Rightarrow>
           (bs, if rest = 0 then None else Some (adv real_count a, rest), w'))"

definition resume_copy :: "(nat \<Rightarrow> nat \<Rightarrow> 'w \<Rightarrow> u8 list \<times> 'w) \<Rightarrow> (nat \<Rightarrow> nat \<Rightarrow> nat) \<Rightarrow> nat \<Rightarrow>
    nat \<Rightarrow> (nat \<times> nat) option \<Rightarrow> 'w \<Rightarrow> u8 list \<times> (nat \<times> nat) option \<times> 'w" where
  "resume_copy copy adv width n progress w = (case progress of
       None \<Rightarrow> ([], None, w)
     | Some (a, count) \<Rightarrow> history_copy copy adv width n a count w)"

definition progress_count :: "(nat \<times> nat) option \<Rightarrow> nat" where
  "progress_count progress = (case progress of None \<Rightarrow> 0 | Some (a, count) \<Rightarrow> count)"

definition progress_ok :: "(nat \<Rightarrow> nat \<Rightarrow> nat) \<Rightarrow> nat \<Rightarrow> (nat \<times> nat) option \<Rightarrow> bool" where
  "progress_ok adv width progress \<longleftrightarrow> (case progress of
       None \<Rightarrow> True
     | Some (a, count) \<Rightarrow> adv 0 a = a \<and> 0 < count \<and> count < 2 ^ width)"

context sliding_window begin

lemma history_copy_step:
  assumes "inv w" and "count < 2 ^ width" and "history_copy copy adv width n a count w = (bs, p, w')"
  shows "length bs = min n count" and "progress_count p = count - length bs" and "inv w'"
    and "progress_ok adv width p"
proof -
  let ?m = "min n count"
  obtain cs v where c: "copy ?m a w = (cs, v)" by fastforce
  have "(count - ?m) mod 2 ^ width = count - ?m" using assms(2) by simp
  then have eqs: "bs = cs" "w' = v" "p = (if count - ?m = 0 then None else Some (adv ?m a, count - ?m))"
    using assms(3) c by (auto simp: history_copy_def Let_def)
  have len: "length bs = ?m" using length_copy [OF assms(1) c] eqs(1) by simp
  then show "length bs = min n count" .
  show "progress_count p = count - length bs" unfolding len eqs(3) by (simp add: progress_count_def)
  show "inv w'" using inv_copy [OF assms(1) c] eqs(2) by simp
  have "adv 0 (adv ?m a) = adv ?m a" using adv_add [of ?m 0 a] by simp
  moreover have "count - ?m < 2 ^ width" using assms(2) by simp
  ultimately show "progress_ok adv width p" unfolding eqs(3) progress_ok_def by (cases "count - ?m = 0") simp_all
qed

lemma resume_copy_step:
  assumes "inv w" and "progress_ok adv width p" and "resume_copy copy adv width n p w = (bs, p', w')"
  shows "length bs = min n (progress_count p)" and "progress_count p' = progress_count p - length bs" and "inv w'"
    and "progress_ok adv width p'"
proof -
  have "length bs = min n (progress_count p) \<and> progress_count p' = progress_count p - length bs \<and> inv w' \<and>
    progress_ok adv width p'"
  proof (cases p)
    case None
    with assms show ?thesis by (auto simp: resume_copy_def progress_count_def progress_ok_def)
  next
    case (Some ac)
    then obtain a c where p: "p = Some (a, c)" by (cases ac) auto
    with assms have "c < 2 ^ width" "history_copy copy adv width n a c w = (bs, p', w')"
      by (simp_all add: resume_copy_def progress_ok_def)
    from history_copy_step [OF assms(1) this] p show ?thesis by (simp add: progress_count_def)
  qed
  then show "length bs = min n (progress_count p)" and "progress_count p' = progress_count p - length bs" and "inv w'"
    and "progress_ok adv width p'" by simp_all
qed

lemma history_copy_add:
  assumes "inv w" and "count < 2 ^ width"
  shows "history_copy copy adv width (m + n) a count w =
    (case history_copy copy adv width m a count w of (bs, p, w1) \<Rightarrow>
      (case resume_copy copy adv width n p w1 of (cs, p', w2) \<Rightarrow> (bs @ cs, p', w2)))"
proof -
  let ?i = "min m count"
  let ?j = "min n (count - ?i)"
  obtain bs w1 where c1: "copy ?i a w = (bs, w1)" by fastforce
  obtain cs w2 where c2: "copy ?j (adv ?i a) w1 = (cs, w2)" by fastforce
  have ij: "min (m + n) count = ?i + ?j" by simp
  have c: "copy (min (m + n) count) a w = (bs @ cs, w2)"
    unfolding ij using copy_add [OF assms(1) c1, of ?j] c2 by simp
  have idle: "cs = [] \<and> w2 = w1" if "?j = 0"
    using c2 that copy_0 [OF inv_copy [OF assms(1) c1]] by simp
  have less: "(count - x) mod 2 ^ width = count - x" for x using assms(2) by simp
  show ?thesis
  proof (cases "count - ?i = 0")
    case True
    then have i: "?i = count" "min (m + n) count = count" "?j = 0" by simp_all
    from idle [OF i(3)] have "cs = []" "w2 = w1" by simp_all
    with c have "copy count a w = (bs, w1)" unfolding i by simp
    then show ?thesis
      by (simp add: history_copy_def resume_copy_def Let_def i)
  next
    case False
    then have "?i = m" by simp
    have "count - m - ?j = count - min (m + n) count" using \<open>?i = m\<close> by simp
    moreover have "adv (min (m + n) count) a = adv ?j (adv m a)"
      unfolding ij adv_add using \<open>?i = m\<close> by simp
    ultimately show ?thesis using False c1 c c2 unfolding \<open>?i = m\<close>
      by (simp add: history_copy_def resume_copy_def Let_def less adv_add)
  qed
qed

lemma resume_copy_add:
  assumes "inv w" and "progress_ok adv width p"
  shows "resume_copy copy adv width (m + n) p w =
    (case resume_copy copy adv width m p w of (bs, p1, w1) \<Rightarrow>
      (case resume_copy copy adv width n p1 w1 of (cs, p2, w2) \<Rightarrow> (bs @ cs, p2, w2)))"
proof (cases p)
  case None
  then show ?thesis by (simp add: resume_copy_def)
next
  case (Some ac)
  then obtain a c where p: "p = Some (a, c)" by (cases ac) auto
  with assms(2) have "c < 2 ^ width" by (simp add: progress_ok_def)
  from history_copy_add [OF assms(1) this] show ?thesis by (simp add: p resume_copy_def)
qed

lemma resume_copy_idle:
  assumes "inv w" and "progress_ok adv width p" and "progress_count p = 0 \<or> n = 0"
  shows "resume_copy copy adv width n p w = ([], p, w)"
proof (cases p)
  case None
  then show ?thesis by (simp add: resume_copy_def)
next
  case (Some ac)
  then obtain a c where p: "p = Some (a, c)" by (cases ac) auto
  with assms have "n = 0" "adv 0 a = a" "0 < c" "c < 2 ^ width"
    by (auto simp: progress_ok_def progress_count_def)
  then show ?thesis by (simp add: p resume_copy_def history_copy_def copy_0 [OF assms(1)])
qed

text \<open>A buffer with room for the whole copy gets all of it.\<close>

lemma history_copy_all:
  assumes "count \<le> n" and "copy count a w = (bs, w')"
  shows "history_copy copy adv width n a count w = (bs, None, w')"
  using assms by (simp add: history_copy_def Let_def min_def)

lemma lz_exec_step:
  assumes "inv w" and "lz_exec put copy c w = (bs, w')"
  shows "inv w'" and "length bs = lz_length c" and "win w' = drop (length bs) (win w @ bs)"
proof -
  have "inv w' \<and> length bs = lz_length c \<and> win w' = drop (length bs) (win w @ bs)"
  proof (cases c)
    case (Literal b)
    with assms show ?thesis by (auto simp: inv_put win_put)
  next
    case (History a n)
    with assms have "copy n a w = (bs, w')" by simp
    note facts = inv_copy [OF assms(1) this] length_copy [OF assms(1) this] win_copy [OF assms(1) this]
    then show ?thesis by (simp add: History)
  qed
  then show "inv w'" and "length bs = lz_length c" and "win w' = drop (length bs) (win w @ bs)" by simp_all
qed

text \<open>The window always holds the most recent bytes of what was there before and was written since.\<close>

lemma lz_run_window:
  "inv w \<Longrightarrow> lz_run put copy cs w = (bs, w') \<Longrightarrow>
    inv w' \<and> length bs = sum_list (map lz_length cs) \<and> win w' = drop (length bs) (win w @ bs)"
proof (induction cs arbitrary: w bs)
  case Nil
  then show ?case by simp
next
  case (Cons c cs)
  from Cons.prems(2) obtain xs v ys where step: "lz_exec put copy c w = (xs, v)"
      and run: "lz_run put copy cs v = (ys, w')" and bs: "bs = xs @ ys"
    by (auto split: prod.splits)
  note v = lz_exec_step [OF Cons.prems(1) step]
  have "drop (length ys) (drop (length xs) (win w @ xs) @ ys) = drop (length bs) (win w @ bs)"
  proof -
    have "drop (length xs) (win w @ xs) @ ys = drop (length xs) ((win w @ xs) @ ys)" by (subst drop_append) simp
    then show ?thesis by (simp only: drop_drop bs append_assoc length_append add.commute)
  qed
  with Cons.IH [OF v(1) run] v show ?case by (simp add: bs)
qed

end

subsection \<open>The window of a ring\<close>

definition window :: "ring \<Rightarrow> u8 list" where
  "window r = drop (cursor r) (buffer r) @ take (cursor r) (buffer r)"

lemma length_window: "ring_inv k r \<Longrightarrow> length (window r) = 2 ^ k"
  by (simp add: window_def ring_inv_def)

lemma window_nth:
  assumes "ring_inv k r" and "j < 2 ^ k"
  shows "window r ! j = ring_index r (cursor r + j)"
proof -
  have size: "ring_size r = 2 ^ k" and cur: "cursor r < 2 ^ k" using assms(1) by (simp_all add: ring_inv_def)
  have idx: "ring_index r (cursor r + j) = buffer r ! ((cursor r + j) mod 2 ^ k)"
    using ring_inv_mask [OF assms(1)] by (simp add: ring_index_def)
  show ?thesis
  proof (cases "cursor r + j < 2 ^ k")
    case True
    then have "j < 2 ^ k - cursor r" by simp
    then show ?thesis unfolding idx using True size cur by (simp add: window_def nth_append)
  next
    case False
    then have "(cursor r + j) mod 2 ^ k = cursor r + j - 2 ^ k"
      using assms(2) cur by (simp add: mod_if)
    moreover have "\<not> j < 2 ^ k - cursor r" and "j - (2 ^ k - cursor r) = cursor r + j - 2 ^ k"
      using False cur by simp_all
    ultimately show ?thesis unfolding idx using size cur assms(2)
      by (simp add: window_def nth_append less_diff_conv)
  qed
qed

lemma window_push:
  assumes "ring_inv k r"
  shows "window (push b r) = drop 1 (window r @ [b])"
proof (rule nth_equalityI)
  note inv' = ring_inv_push [OF assms, of b]
  have cur: "cursor r < 2 ^ k" and size: "ring_size r = 2 ^ k" using assms by (simp_all add: ring_inv_def)
  show "length (window (push b r)) = length (drop 1 (window r @ [b]))"
    using length_window [OF assms] length_window [OF inv'] by simp
  fix j assume "j < length (window (push b r))"
  then have j: "j < 2 ^ k" using length_window [OF inv'] by simp
  have "window (push b r) ! j = ring_index (push b r) (cursor (push b r) + j)"
    by (rule window_nth [OF inv' j])
  also have "\<dots> = ring_index (push b r) (cursor r + 1 + j)"
    by (rule ring_index_cong [OF inv']) (simp add: cursor_push [OF assms] mod_simps)
  also have "\<dots> = (buffer r)[cursor r := b] ! ((cursor r + 1 + j) mod 2 ^ k)"
    using ring_inv_mask [OF inv'] ring_inv_mask [OF assms] cur
    by (simp add: ring_index_def push_def Let_def)
  also have "\<dots> = drop 1 (window r @ [b]) ! j"
  proof (cases "j + 1 < 2 ^ k")
    case True
    then have "(cursor r + 1 + j) mod 2 ^ k \<noteq> cursor r"
      using cur by (auto simp: mod_if)
    then have "(buffer r)[cursor r := b] ! ((cursor r + 1 + j) mod 2 ^ k) = ring_index r (cursor r + (j + 1))"
      using ring_inv_mask [OF assms] by (simp add: ring_index_def add.commute add.left_commute)
    also have "\<dots> = window r ! (j + 1)" using window_nth [OF assms True] by simp
    also have "\<dots> = (window r @ [b]) ! (1 + j)" using True length_window [OF assms] by (simp add: nth_append)
    also have "\<dots> = drop 1 (window r @ [b]) ! j" by (rule nth_drop [symmetric]) simp
    finally show ?thesis .
  next
    case False
    then have "j + 1 = 2 ^ k" using j by simp
    then have "(cursor r + 1 + j) mod 2 ^ k = cursor r" using cur by (metis add.assoc add.commute mod_add_self2 mod_less)
    then have "(buffer r)[cursor r := b] ! ((cursor r + 1 + j) mod 2 ^ k) = b" using cur size by simp
    also have "\<dots> = (window r @ [b]) ! (1 + j)"
      using \<open>j + 1 = 2 ^ k\<close> length_window [OF assms] by (simp add: nth_append)
    also have "\<dots> = drop 1 (window r @ [b]) ! j"
      using length_window [OF assms] j by (intro nth_drop [symmetric]) simp
    finally show ?thesis .
  qed
  finally show "window (push b r) ! j = drop 1 (window r @ [b]) ! j" .
qed

lemma window_hist_take:
  "ring_inv k r \<Longrightarrow> hist_take n i r = (bs, r') \<Longrightarrow> window r' = drop n (window r @ bs)"
proof (induction n arbitrary: i r bs)
  case 0
  then show ?case by simp
next
  case (Suc n)
  let ?b = "ring_index r i"
  from Suc.prems(2) obtain cs where cs: "hist_take n ((i + 1) mod 2 ^ 64) (push ?b r) = (cs, r')"
    and bs: "bs = ?b # cs"
    by (auto simp: hist_next_def Let_def split: prod.splits)
  have ne: "window r \<noteq> []" using length_window [OF Suc.prems(1)] by auto
  have "window r' = drop n (drop 1 (window r @ [?b]) @ cs)"
    using Suc.IH [OF ring_inv_push [OF Suc.prems(1)] cs] window_push [OF Suc.prems(1)] by simp
  also have "\<dots> = drop (Suc n) (window r @ bs)"
    using ne by (cases "window r") (simp_all add: bs)
  finally show ?case .
qed

subsection \<open>Both addressings of the ring are interpretations\<close>

text \<open>An offset stays the same while a copy goes on, a position moves along.\<close>

lemma copy_offset_mod:
  assumes "ring_inv k r" and "k \<le> l"
  shows "copy_offset n (a mod 2 ^ l) r = copy_offset n a r"
proof -
  have "a mod 2 ^ l mod 2 ^ k = a mod 2 ^ k"
    using assms(2) by (intro mod_mod_cancel le_imp_power_dvd)
  then show ?thesis by (simp add: copy_offset_def iter_from_offset_mod [OF assms(1)])
qed

lemma offset_window: "k \<le> l \<Longrightarrow> sliding_window (ring_inv k) window push copy_offset (\<lambda>m a. a mod 2 ^ l)"
proof (unfold_locales, goal_cases)
  case (1 w b)
  then show ?case by (simp add: ring_inv_push)
next
  case (2 w b)
  then show ?case by (simp add: window_push)
next
  case (3 w a)
  show ?case by (simp add: copy_offset_def)
next
  case (4 w n a bs w')
  then show ?case using ring_inv_hist_take by (auto simp: copy_offset_def)
next
  case (5 w n a bs w')
  then show ?case using ring_inv_hist_take by (auto simp: copy_offset_def)
next
  case (6 w n a bs w')
  then show ?case using window_hist_take by (auto simp: copy_offset_def)
next
  case (7 w m a bs w' n)
  then have "ring_inv k w'" using ring_inv_hist_take by (auto simp: copy_offset_def)
  with 7 show ?case using copy_offset_add [of k w m n a] by (simp add: copy_offset_mod)
next
  case (8 m n a)
  show ?case by simp
qed

lemma pos_window: "k \<le> 16 \<Longrightarrow> sliding_window (ring_inv k) window push copy_pos (\<lambda>m a. (a + m) mod 2 ^ 16)"
proof (unfold_locales, goal_cases)
  case (1 w b)
  then show ?case by (simp add: ring_inv_push)
next
  case (2 w b)
  then show ?case by (simp add: window_push)
next
  case (3 w a)
  show ?case by (simp add: copy_pos_def)
next
  case (4 w n a bs w')
  then show ?case using ring_inv_hist_take by (auto simp: copy_pos_def)
next
  case (5 w n a bs w')
  then show ?case using ring_inv_hist_take by (auto simp: copy_pos_def)
next
  case (6 w n a bs w')
  then show ?case using window_hist_take by (auto simp: copy_pos_def)
next
  case (7 w m a bs w' n)
  then show ?case using copy_pos_add [of k w 16 m n a] by simp
next
  case (8 m n a)
  show ?case by (simp add: mod_simps add.assoc)
qed

interpretation win_lzs: sliding_window "ring_inv 11" window push copy_pos "\<lambda>m a. (a + m) mod 2 ^ 16"
  by (rule pos_window) simp

interpretation win_lz5: sliding_window "ring_inv 12" window push copy_pos "\<lambda>m a. (a + m) mod 2 ^ 16"
  by (rule pos_window) simp

interpretation win_lh1: sliding_window "ring_inv 12" window push copy_offset "\<lambda>m a. a mod 2 ^ 16"
  by (rule offset_window) simp

interpretation win_lh5: sliding_window "ring_inv 13" window push copy_offset "\<lambda>m a. a mod 2 ^ 32"
  by (rule offset_window) simp

interpretation win_lh7: sliding_window "ring_inv 16" window push copy_offset "\<lambda>m a. a mod 2 ^ 32"
  by (rule offset_window) simp

interpretation win_lhx: sliding_window "ring_inv 19" window push copy_offset "\<lambda>m a. a mod 2 ^ 32"
  by (rule offset_window) simp

subsection \<open>A copy repeats the last bytes\<close>

lemma hist_take_periodic:
  assumes "ring_inv k r" and "d < 2 ^ k"
  shows "fst (hist_take n (cursor r + (2 ^ k - 1 - d)) r) =
    map (\<lambda>i. window r ! (2 ^ k - 1 - d + i mod (d + 1))) [0..<n]"
  using assms
proof (induction n arbitrary: r)
  case 0
  show ?case by simp
next
  case (Suc n)
  let ?i = "cursor r + (2 ^ k - 1 - d)" and ?L = "2 ^ k - 1 - d"
  let ?b = "ring_index r ?i"
  let ?r = "push ?b r"
  have k: "k \<le> 64" using Suc.prems(1) by (simp add: ring_inv_def)
  have b: "?b = window r ! ?L" using window_nth [OF Suc.prems(1), of ?L] by simp
  note inv' = ring_inv_push [OF Suc.prems(1), of ?b]
  have "(?i + 1) mod 2 ^ 64 mod 2 ^ k = (cursor ?r + ?L) mod 2 ^ k"
    unfolding usize_mod [OF k] cursor_push [OF Suc.prems(1)] by (simp add: mod_simps)
  from hist_take_cong [OF inv' this, of n]
  have "fst (hist_take (Suc n) ?i r) = ?b # fst (hist_take n (cursor ?r + ?L) ?r)"
    by (simp add: hist_next_def Let_def split: prod.splits)
  also have "\<dots> = ?b # map (\<lambda>i. window ?r ! (?L + i mod (d + 1))) [0..<n]"
    by (simp only: Suc.IH [OF inv' Suc.prems(2)])
  also have "map (\<lambda>i. window ?r ! (?L + i mod (d + 1))) [0..<n]
      = map (\<lambda>i. window r ! (?L + Suc i mod (d + 1))) [0..<n]"
  proof (rule map_cong [OF refl])
    fix i
    let ?j = "i mod (d + 1)"
    have len: "length (window r) = 2 ^ k" using length_window [OF Suc.prems(1)] .
    have j: "?j \<le> d" by (simp add: less_Suc_eq_le)
    have "window ?r ! (?L + ?j) = (window r @ [?b]) ! (1 + (?L + ?j))"
      unfolding window_push [OF Suc.prems(1)] using len by (intro nth_drop) simp
    then have nth: "window ?r ! (?L + ?j) = (window r @ [?b]) ! (?L + ?j + 1)"
      by (simp only: add.commute)
    show "window ?r ! (?L + ?j) = window r ! (?L + Suc i mod (d + 1))"
    proof (cases "?j = d")
      case True
      then have "?L + ?j + 1 = 2 ^ k" using Suc.prems(2) by simp
      moreover have "Suc i mod (d + 1) = 0" using True by (simp add: mod_Suc)
      ultimately show ?thesis unfolding nth using len b by (simp add: nth_append)
    next
      case False
      then have "Suc i mod (d + 1) = ?j + 1" by (simp add: mod_Suc)
      moreover have "?j < d" using j False by (rule le_neq_implies_less)
      then have "?L + ?j + 1 < 2 ^ k" using Suc.prems(2) by linarith
      ultimately show ?thesis unfolding nth using len by (simp add: nth_append)
    qed
  qed
  also have "?b # map (\<lambda>i. window r ! (?L + Suc i mod (d + 1))) [0..<n]
      = map (\<lambda>i. window r ! (?L + i mod (d + 1))) [0..<Suc n]"
    unfolding b by (simp add: upt_conv_Cons map_Suc_upt [symmetric] comp_def del: upt_Suc)
  finally show ?case .
qed

lemma copy_offset_periodic:
  assumes "ring_inv k r" and "d < 2 ^ k"
  shows "fst (copy_offset n d r) = map (\<lambda>i. window r ! (2 ^ k - 1 - d + i mod (d + 1))) [0..<n]"
proof -
  have "iter_from_offset r d = cursor r + (2 ^ k - 1 - d)"
    using iter_from_offset_mod [OF assms(1), of d] assms(2) by simp
  then show ?thesis unfolding copy_offset_def using hist_take_periodic [OF assms] by simp
qed

text \<open>A position is an offset from the cursor.\<close>

lemma mod_wrap: "(c::nat) < N \<Longrightarrow> p < N \<Longrightarrow> (c + N - 1 - p) mod N = (if p < c then c - 1 - p else c + N - 1 - p)"
proof (cases "p < c")
  case True
  moreover assume "c < N"
  ultimately have "c + N - 1 - p = (c - 1 - p) + N" and "c - 1 - p < N" by simp_all
  then have "(c + N - 1 - p) mod N = c - 1 - p" by (simp only: mod_add_self2 mod_less)
  with True show ?thesis by (simp only: if_True)
qed simp

lemma copy_pos_offset:
  assumes "ring_inv k r"
  shows "copy_pos n p r = copy_offset n ((cursor r + 2 ^ k - 1 - p mod 2 ^ k) mod 2 ^ k) r"
proof -
  let ?c = "cursor r" and ?N = "(2::nat) ^ k" and ?p = "p mod 2 ^ k"
  let ?d = "(?c + ?N - 1 - ?p) mod ?N"
  have c: "?c < ?N" and p: "?p < ?N" using assms by (simp_all add: ring_inv_def)
  have d: "?d = (if ?p < ?c then ?c - 1 - ?p else ?c + ?N - 1 - ?p)"
    using c p by (rule mod_wrap)
  have "iter_from_offset r ?d = (if ?p < ?c then ?p + ?N else ?p)"
  proof (cases "?p < ?c")
    case True
    then have "?d = ?c - 1 - ?p" using d by (simp only: if_True)
    then show ?thesis unfolding iter_from_offset_mod [OF assms] mod_mod_trivial using True c by simp
  next
    case False
    then have eq: "?d = ?c + ?N - 1 - ?p" using d by (simp only: if_False)
    have "?c + ?N - (?c + ?N - 1 - ?p + 1) = ?p" using c p by linarith
    then show ?thesis unfolding iter_from_offset_mod [OF assms] mod_mod_trivial eq using False
      by (simp only: if_False)
  qed
  then have "iter_from_pos r p mod ?N = iter_from_offset r ?d mod ?N"
    using ring_inv_mask [OF assms] by (simp add: iter_from_pos_def)
  then show ?thesis
    unfolding copy_pos_def copy_offset_def by (rule hist_take_cong [OF assms])
qed

end
