(* ===== verification/Fill_Buffer.thy ===== *)
theory Fill_Buffer
  imports Stub_Io Lz_Window
begin

text \<open>
  The shape \<open>fill_buffer\<close> has in every decoder: first the pending part of an interrupted copy is
  written, then commands are executed until the buffer is full, the last of which may again be
  interrupted. The locale \<open>decoder\<close> states what the two parts promise, and proves from it that
  a file may be decoded in buffers of any sizes.
\<close>

subsection \<open>The loop\<close>

text \<open>
  \<open>while let Some(dst) = target.next()\<close>: the second argument of a step is the room left in the
  buffer, the byte \<open>dst\<close> included; the bytes a step returns are those it writes. The first
  argument of the loop bounds the number of its iterations.
\<close>

fun fill_loop :: "nat \<Rightarrow> (nat \<Rightarrow> ('s, 'e, u8 list) act) \<Rightarrow> nat \<Rightarrow> ('s, 'e, u8 list) act" where
  "fill_loop fuel step 0 = ret []"
| "fill_loop 0 step (Suc n) = crash OutOfFuel"
| "fill_loop (Suc fuel) step (Suc n) =
     bnd (step (Suc n)) (\<lambda>bs.
       bnd (fill_loop fuel step (Suc n - length bs)) (\<lambda>cs. ret (bs @ cs)))"

definition fill_with :: "(nat \<Rightarrow> ('s, 'e, u8 list) act) \<Rightarrow> (nat \<Rightarrow> ('s, 'e, u8 list) act) \<Rightarrow>
    nat \<Rightarrow> ('s, 'e, u8 list) act" where
  "fill_with resume step n =
     bnd (resume n) (\<lambda>bs. bnd (fill_loop (n - length bs) step (n - length bs)) (\<lambda>cs. ret (bs @ cs)))"

text \<open>Running one action after the other and appending what they write.\<close>

definition app :: "('s, 'e, 'a list) act \<Rightarrow> ('s, 'e, 'a list) act \<Rightarrow> ('s, 'e, 'a list) act" where
  "app m m' = bnd m (\<lambda>bs. bnd m' (\<lambda>cs. ret (bs @ cs)))"

lemma app_Ok: "m s = (Ok bs, t) \<Longrightarrow> m' t = (Ok cs, u) \<Longrightarrow> app m m' s = (Ok (bs @ cs), u)"
  by (simp add: app_def bnd_Ok ret_apply)

lemma app_Ok_Err: "m s = (Ok bs, t) \<Longrightarrow> m' t = (Err e, u) \<Longrightarrow> app m m' s = (Err e, u)"
  by (simp add: app_def bnd_Ok bnd_Err)

lemma app_Ok_Fault: "m s = (Ok bs, t) \<Longrightarrow> m' t = (Fault q, u) \<Longrightarrow> app m m' s = (Fault q, u)"
  by (simp add: app_def bnd_Ok bnd_Fault)

lemma app_Err: "m s = (Err e, t) \<Longrightarrow> app m m' s = (Err e, t)"
  by (simp add: app_def bnd_Err)

lemma app_Fault: "m s = (Fault q, t) \<Longrightarrow> app m m' s = (Fault q, t)"
  by (simp add: app_def bnd_Fault)

lemma app_assoc: "app (app m n) k = app m (app n k)"
  by (simp add: app_def bnd_assoc)

lemma app_eq_Ok_iff:
  "app m m' s = (Ok xs, u) \<longleftrightarrow> (\<exists>bs t cs. m s = (Ok bs, t) \<and> m' t = (Ok cs, u) \<and> xs = bs @ cs)"
  by (fastforce simp: app_def bnd_eq_Ok_iff ret_apply)

lemma app_cong: "m s = n s \<Longrightarrow> (\<And>bs t. n s = (Ok bs, t) \<Longrightarrow> m' t = n' t) \<Longrightarrow> app m m' s = app n n' s"
  by (auto simp: app_def bnd_def split: prod.splits outcome.splits)

subsection \<open>The interface\<close>

locale decoder =
  fixes resume :: "nat \<Rightarrow> ('s, 'e, u8 list) act"
    and step :: "nat \<Rightarrow> ('s, 'e, u8 list) act"
    and pending :: "'s \<Rightarrow> nat"
    and inv :: "'s \<Rightarrow> bool"
  assumes resume_Ok: "inv s \<Longrightarrow> \<exists>bs t. resume n s = (Ok bs, t) \<and> inv t \<and>
      length bs = min n (pending s) \<and> pending t = pending s - length bs"
    and resume_idle: "inv s \<Longrightarrow> pending s = 0 \<or> n = 0 \<Longrightarrow> resume n s = (Ok [], s)"
    and resume_add: "inv s \<Longrightarrow> resume (m + n) s = app (resume m) (resume n) s"
    and step_Ok: "inv s \<Longrightarrow> pending s = 0 \<Longrightarrow> 0 < n \<Longrightarrow> step n s = (Ok bs, t) \<Longrightarrow>
      inv t \<and> 0 < length bs \<and> length bs \<le> n \<and> (length bs < n \<longrightarrow> pending t = 0)"
    and step_add: "inv s \<Longrightarrow> pending s = 0 \<Longrightarrow> 0 < m \<Longrightarrow> step (m + n) s = app (step m) (resume n) s"

context decoder begin

lemma loop_enough:
  "inv s \<Longrightarrow> pending s = 0 \<Longrightarrow> n \<le> fuel \<Longrightarrow> fill_loop fuel step n s = fill_loop n step n s"
proof (induction n arbitrary: fuel s rule: less_induct)
  case (less n)
  show ?case
  proof (cases n)
    case 0
    then show ?thesis by (cases fuel) simp_all
  next
    case (Suc k)
    then obtain f where f: "fuel = Suc f" "k \<le> f" using less.prems(3) by (cases fuel) auto
    obtain r t where st: "step n s = (r, t)" by fastforce
    show ?thesis
    proof (cases r)
      case (Ok bs)
      with st have "step n s = (Ok bs, t)" by simp
      from step_Ok [OF less.prems(1,2) _ this] have t: "inv t" "0 < length bs" "length bs \<le> n"
          "length bs < n \<longrightarrow> pending t = 0"
        using Suc by auto
      have "fill_loop f step (n - length bs) t = fill_loop k step (n - length bs) t"
      proof (cases "length bs < n")
        case True
        have lt: "n - length bs < n" "n - length bs \<le> f" "n - length bs \<le> k" using t(2) Suc f(2) by linarith+
        have "pending t = 0" using t(4) True by simp
        from less.IH [OF lt(1) t(1) this lt(2)] less.IH [OF lt(1) t(1) this lt(3)] show ?thesis by simp
      next
        case False
        with t(3) show ?thesis by simp
      qed
      then show ?thesis using st Ok Suc f(1) by (simp add: bnd_def)
    next
      case (Err e)
      then show ?thesis using st Suc f(1) by (simp add: bnd_def)
    next
      case (Fault q)
      then show ?thesis using st Suc f(1) by (simp add: bnd_def)
    qed
  qed
qed

lemma loop_unfold:
  assumes "inv s" and "pending s = 0" and "0 < n"
  shows "fill_loop n step n s =
    bnd (step n) (\<lambda>bs. bnd (fill_loop (n - length bs) step (n - length bs)) (\<lambda>cs. ret (bs @ cs))) s"
proof -
  obtain k where n: "n = Suc k" using assms(3) by (cases n) auto
  obtain r t where st: "step n s = (r, t)" by fastforce
  have "bnd (fill_loop k step (n - length bs)) (\<lambda>cs. ret (bs @ cs)) t =
      bnd (fill_loop (n - length bs) step (n - length bs)) (\<lambda>cs. ret (bs @ cs)) t" if "r = Ok bs" for bs
  proof -
    from step_Ok [OF assms st [unfolded that]] have t: "inv t" "0 < length bs" "length bs < n \<longrightarrow> pending t = 0"
        "length bs \<le> n"
      by auto
    have "fill_loop k step (n - length bs) t = fill_loop (n - length bs) step (n - length bs) t"
    proof (cases "length bs < n")
      case True
      have "n - length bs \<le> k" using t(2) n by linarith
      with True t show ?thesis by (intro loop_enough) auto
    next
      case False
      with t(4) show ?thesis by simp
    qed
    then show ?thesis by (simp add: bnd_def)
  qed
  then show ?thesis using st n by (cases r) (simp_all add: bnd_def)
qed

abbreviation fill :: "nat \<Rightarrow> ('s, 'e, u8 list) act" where
  "fill \<equiv> fill_with resume step"

lemma fill_idle:
  assumes "inv s" and "pending s = 0"
  shows "fill n s = fill_loop n step n s"
  by (simp add: fill_with_def bnd_Ok [of "resume n", OF resume_idle [OF assms(1) disjI1 [OF assms(2)]]])
    (simp add: bnd_def ret_def split: prod.splits outcome.splits)

text \<open>One command, and the rest of the buffer after it.\<close>

lemma fill_step:
  assumes "inv s" and "pending s = 0" and "0 < n"
  shows "fill n s = bnd (step n) (\<lambda>bs. bnd (fill (n - length bs)) (\<lambda>cs. ret (bs @ cs))) s"
proof -
  obtain r t where st: "step n s = (r, t)" by fastforce
  have "fill_loop (n - length bs) step (n - length bs) t = fill (n - length bs) t" if "r = Ok bs" for bs
  proof -
    from step_Ok [OF assms st [unfolded that]] have t: "inv t" "length bs < n \<longrightarrow> pending t = 0"
        "length bs \<le> n"
      by auto
    show ?thesis
    proof (cases "length bs < n")
      case True
      with t show ?thesis by (simp add: fill_idle)
    next
      case False
      have "resume 0 t = (Ok [], t)" using resume_idle [OF t(1), of 0] by simp
      then show ?thesis using False t(3) by (simp add: fill_with_def bnd_Ok ret_apply)
    qed
  qed
  then show ?thesis using st
    unfolding fill_idle [OF assms(1,2)] loop_unfold [OF assms] by (cases r) (simp_all add: bnd_def)
qed

lemma fill_0: "inv s \<Longrightarrow> fill 0 s = (Ok [], s)"
  using resume_idle [of s 0] by (simp add: fill_with_def bnd_Ok ret_apply)

lemma fill_resume:
  assumes "inv s" and "resume n s = (Ok bs, t)"
  shows "fill n s = bnd (fill (n - length bs)) (\<lambda>cs. ret (bs @ cs)) t"
proof -
  from resume_Ok [OF assms(1), of n] assms(2) have t: "inv t" "length bs = min n (pending s)"
      "pending t = pending s - length bs"
    by auto
  have "fill_loop (n - length bs) step (n - length bs) t = fill (n - length bs) t"
  proof (cases "length bs < n")
    case True
    then have "pending t = 0" using t by simp
    with t(1) show ?thesis by (simp add: fill_idle)
  next
    case False
    then show ?thesis using fill_0 [OF t(1)] by (simp add: ret_apply)
  qed
  then show ?thesis unfolding fill_with_def by (simp add: bnd_Ok [of "resume n", OF assms(2)]) (simp add: bnd_def)
qed

lemma app_bnd: "app (\<lambda>s. bnd m (\<lambda>cs. ret (bs @ cs)) s) k t = bnd (app m k) (\<lambda>cs. ret (bs @ cs)) t"
  by (auto simp: app_def bnd_def ret_def split: prod.splits outcome.splits)

lemma fill_add_idle:
  "inv s \<Longrightarrow> pending s = 0 \<Longrightarrow> fill (m + n) s = app (fill m) (fill n) s"
proof (induction m arbitrary: s rule: less_induct)
  case (less m)
  show ?case
  proof (cases "m = 0")
    case True
    then show ?thesis using fill_0 [OF less.prems(1)]
      by (simp add: app_def bnd_Ok) (simp add: bnd_def ret_def split: prod.splits outcome.splits)
  next
    case False
    then have m: "0 < m" "0 < m + n" by simp_all
    note L = fill_step [OF less.prems m(2)] and M = fill_step [OF less.prems m(1)]
      and S = step_add [OF less.prems m(1), of n]
    obtain r t where st: "step m s = (r, t)" by fastforce
    show ?thesis
    proof (cases r)
      case (Ok bs)
      with st have stO: "step m s = (Ok bs, t)" by simp
      from step_Ok [OF less.prems m(1) stO] have t: "inv t" "0 < length bs" "length bs \<le> m"
          "length bs < m \<Longrightarrow> pending t = 0"
        by auto
      obtain cs u where u: "resume n t = (Ok cs, u)" using resume_Ok [OF t(1), of n] by blast
      have lhs: "fill (m + n) s = bnd (fill (m + n - length (bs @ cs))) (\<lambda>ds. ret ((bs @ cs) @ ds)) u"
      proof -
        have "step (m + n) s = (Ok (bs @ cs), u)"
          unfolding S by (rule app_Ok [of "step m" _ _ _ "resume n", OF stO u])
        then show ?thesis unfolding L by (rule bnd_Ok)
      qed
      have rhs: "app (fill m) (fill n) s = bnd (app (fill (m - length bs)) (fill n)) (\<lambda>ds. ret (bs @ ds)) t"
      proof -
        have "fill m s = bnd (fill (m - length bs)) (\<lambda>ds. ret (bs @ ds)) t"
          unfolding M by (simp add: bnd_Ok [of "step m", OF stO])
        then have "app (fill m) (fill n) s = app (\<lambda>s. bnd (fill (m - length bs)) (\<lambda>ds. ret (bs @ ds)) s) (fill n) t"
          by (simp add: app_def bnd_def)
        then show ?thesis by (simp only: app_bnd)
      qed
      show ?thesis
      proof (cases "length bs < m")
        case True
        then have idle: "pending t = 0" by (rule t(4))
        then have "resume n t = (Ok [], t)" using resume_idle [OF t(1)] by simp
        with u have cs: "cs = []" "u = t" by simp_all
        have "m - length bs < m" using t(2) m(1) by simp
        from less.IH [OF this t(1) idle] have "fill (m - length bs + n) t = app (fill (m - length bs)) (fill n) t" .
        moreover have "m + n - length bs = m - length bs + n" using True by simp
        ultimately show ?thesis unfolding lhs rhs cs by (simp add: bnd_def)
      next
        case False
        with t(3) have len: "length bs = m" by simp
        have "app (fill 0) (fill n) t = fill n t"
          using fill_0 [OF t(1)] by (simp add: app_def bnd_Ok) (simp add: bnd_def ret_def split: prod.splits outcome.splits)
        with fill_resume [OF t(1) u] show ?thesis unfolding lhs rhs len
          by (simp add: len bnd_def ret_def split: prod.splits outcome.splits)
      qed
    next
      case (Err e)
      with st have "step m s = (Err e, t)" by simp
      moreover from this have "fill m s = (Err e, t)" unfolding M by (rule bnd_Err)
      moreover from calculation have "step (m + n) s = (Err e, t)" unfolding S by (intro app_Err)
      then have "fill (m + n) s = (Err e, t)" unfolding L by (rule bnd_Err)
      ultimately show ?thesis by (simp add: app_Err)
    next
      case (Fault q)
      with st have "step m s = (Fault q, t)" by simp
      moreover from this have "fill m s = (Fault q, t)" unfolding M by (rule bnd_Fault)
      moreover from calculation have "step (m + n) s = (Fault q, t)" unfolding S by (intro app_Fault)
      then have "fill (m + n) s = (Fault q, t)" unfolding L by (rule bnd_Fault)
      ultimately show ?thesis by (simp add: app_Fault)
    qed
  qed
qed

text \<open>Filling a buffer is filling its first part and then the rest, errors included.\<close>

lemma fill_add:
  assumes "inv s"
  shows "fill (m + n) s = app (fill m) (fill n) s"
proof -
  obtain bs t where t: "resume m s = (Ok bs, t)" and t': "inv t" "length bs = min m (pending s)"
      "pending t = pending s - length bs"
    using resume_Ok [OF assms] by blast
  obtain cs u where u: "resume n t = (Ok cs, u)" using resume_Ok [OF t'(1)] by blast
  have "resume (m + n) s = (Ok (bs @ cs), u)"
    unfolding resume_add [OF assms] by (rule app_Ok [of "resume m" _ _ _ "resume n", OF t u])
  note lhs = fill_resume [OF assms this]
  have rhs: "app (fill m) (fill n) s = bnd (app (fill (m - length bs)) (fill n)) (\<lambda>ds. ret (bs @ ds)) t"
  proof -
    have "app (fill m) (fill n) s = app (\<lambda>s. bnd (fill (m - length bs)) (\<lambda>ds. ret (bs @ ds)) s) (fill n) t"
      using fill_resume [OF assms t] by (simp add: app_def bnd_def)
    then show ?thesis by (simp only: app_bnd)
  qed
  show ?thesis
  proof (cases "length bs < m")
    case True
    then have idle: "pending t = 0" using t' by simp
    then have "resume n t = (Ok [], t)" using resume_idle [OF t'(1)] by simp
    with u have cs: "cs = []" "u = t" by simp_all
    have "m + n - length bs = m - length bs + n" using True by simp
    with fill_add_idle [OF t'(1) idle, of "m - length bs" n] show ?thesis
      unfolding lhs rhs cs by (simp add: bnd_def)
  next
    case False
    with t'(2) have len: "length bs = m" by simp
    have "app (fill 0) (fill n) t = fill n t"
      using fill_0 [OF t'(1)] by (simp add: app_def bnd_Ok) (simp add: bnd_def ret_def split: prod.splits outcome.splits)
    with fill_resume [OF t'(1) u] show ?thesis unfolding lhs rhs len
      by (simp add: len bnd_def ret_def split: prod.splits outcome.splits)
  qed
qed

lemma fill_Ok_idle:
  "inv s \<Longrightarrow> pending s = 0 \<Longrightarrow> fill n s = (Ok bs, t) \<Longrightarrow> length bs = n \<and> inv t"
proof (induction n arbitrary: s bs rule: less_induct)
  case (less n)
  show ?case
  proof (cases "n = 0")
    case True
    with less.prems fill_0 show ?thesis by auto
  next
    case False
    then have n: "0 < n" by simp
    from less.prems(3) obtain xs u ys where st: "step n s = (Ok xs, u)" and rest: "fill (n - length xs) u = (Ok ys, t)"
        and bs: "bs = xs @ ys"
      unfolding fill_step [OF less.prems(1,2) n] by (fastforce simp: bnd_eq_Ok_iff ret_apply)
    from step_Ok [OF less.prems(1,2) n st] have u: "inv u" "0 < length xs" "length xs \<le> n"
        "length xs < n \<Longrightarrow> pending u = 0"
      by auto
    show ?thesis
    proof (cases "length xs < n")
      case True
      have "n - length xs < n" using u(2) n by simp
      from less.IH [OF this u(1) u(4) [OF True] rest] True bs show ?thesis by simp
    next
      case False
      with rest u fill_0 [OF u(1)] bs show ?thesis by simp
    qed
  qed
qed

lemma fill_Ok:
  assumes "inv s" and "fill n s = (Ok bs, t)"
  shows "length bs = n" and "inv t"
proof -
  obtain xs u where u: "resume n s = (Ok xs, u)" "inv u" "length xs = min n (pending s)"
      "pending u = pending s - length xs"
    using resume_Ok [OF assms(1)] by blast
  from assms(2) obtain ys where rest: "fill (n - length xs) u = (Ok ys, t)" and bs: "bs = xs @ ys"
    unfolding fill_resume [OF assms(1) u(1)] by (fastforce simp: bnd_eq_Ok_iff ret_apply)
  have "length bs = n \<and> inv t"
  proof (cases "length xs < n")
    case True
    then have "pending u = 0" using u by simp
    from fill_Ok_idle [OF u(2) this rest] bs True show ?thesis by simp
  next
    case False
    with rest u fill_0 [OF u(2)] bs show ?thesis by simp
  qed
  then show "length bs = n" and "inv t" by simp_all
qed

text \<open>The loop adds no fault to those of a step: its fuel is always enough.\<close>

lemma fill_Fault_idle:
  assumes "\<And>s n q t. inv s \<Longrightarrow> pending s = 0 \<Longrightarrow> 0 < n \<Longrightarrow> step n s = (Fault q, t) \<Longrightarrow> E q t"
  shows "inv s \<Longrightarrow> pending s = 0 \<Longrightarrow> fill n s = (Fault q, t) \<Longrightarrow> E q t"
proof (induction n arbitrary: s rule: less_induct)
  case (less n)
  show ?case
  proof (cases "n = 0")
    case True
    with less.prems fill_0 show ?thesis by auto
  next
    case False
    then have n: "0 < n" by simp
    obtain r u where st: "step n s = (r, u)" by fastforce
    show ?thesis
    proof (cases r)
      case (Ok xs)
      with st have stO: "step n s = (Ok xs, u)" by simp
      from step_Ok [OF less.prems(1,2) n stO] have u: "inv u" "0 < length xs"
          "length xs < n \<Longrightarrow> pending u = 0" "length xs \<le> n"
        by auto
      have "fill (n - length xs) u = (Fault q, t)"
        using less.prems(3) unfolding fill_step [OF less.prems(1,2) n] bnd_Ok [of "step n", OF stO]
        by (auto simp: bnd_def ret_def split: prod.splits outcome.splits)
      moreover from this have "length xs < n" using fill_0 [OF u(1)] u(4) by (cases "length xs = n") auto
      ultimately show ?thesis using less.IH [of "n - length xs" u] u n by simp
    next
      case (Err e)
      with st less.prems(3) show ?thesis
        unfolding fill_step [OF less.prems(1,2) n] by (simp add: bnd_def)
    next
      case (Fault p)
      with st less.prems(3) have "step n s = (Fault q, t)"
        unfolding fill_step [OF less.prems(1,2) n] by (simp add: bnd_def)
      with less.prems n show ?thesis by (intro assms)
    qed
  qed
qed

lemma fill_Fault:
  assumes "\<And>s n q t. inv s \<Longrightarrow> pending s = 0 \<Longrightarrow> 0 < n \<Longrightarrow> step n s = (Fault q, t) \<Longrightarrow> E q t"
    and "inv s" and "fill n s = (Fault q, t)"
  shows "E q t"
proof -
  obtain xs u where u: "resume n s = (Ok xs, u)" "inv u" "length xs = min n (pending s)"
      "pending u = pending s - length xs"
    using resume_Ok [OF assms(2)] by blast
  from assms(3) have rest: "fill (n - length xs) u = (Fault q, t)"
    unfolding fill_resume [OF assms(2) u(1)] by (auto simp: bnd_def ret_def split: prod.splits outcome.splits)
  then have "length xs < n" using fill_0 [OF u(2)] u(3) by (cases "length xs = n") auto
  then have "pending u = 0" using u by simp
  from fill_Fault_idle [OF assms(1) u(2) this rest] show ?thesis .
qed

end

subsection \<open>Decoding a list of commands\<close>

text \<open>
  A decoder of LZ77 commands: \<open>ready s cs\<close> says that the input of the state \<open>s\<close> begins with the
  encoding of the commands \<open>cs\<close>. A step whose buffer has room for the whole command executes it
  on the history.
\<close>

locale command_decoder =
  decoder resume step pending inv + sliding_window winv win put copy adv
  for resume :: "nat \<Rightarrow> ('s, 'e, u8 list) act" and step :: "nat \<Rightarrow> ('s, 'e, u8 list) act"
    and pending :: "'s \<Rightarrow> nat" and inv :: "'s \<Rightarrow> bool"
    and winv :: "'w \<Rightarrow> bool" and win :: "'w \<Rightarrow> u8 list" and put :: "u8 \<Rightarrow> 'w \<Rightarrow> 'w"
    and copy :: "nat \<Rightarrow> nat \<Rightarrow> 'w \<Rightarrow> u8 list \<times> 'w" and adv :: "nat \<Rightarrow> nat \<Rightarrow> nat" +
  fixes hist :: "'s \<Rightarrow> 'w" and ready :: "'s \<Rightarrow> lz_command list \<Rightarrow> bool"
  assumes winv_hist: "inv s \<Longrightarrow> winv (hist s)"
    and ready_length: "ready s (c # cs) \<Longrightarrow> 0 < lz_length c"
    and step_command: "inv s \<Longrightarrow> pending s = 0 \<Longrightarrow> ready s (c # cs) \<Longrightarrow> lz_length c \<le> n \<Longrightarrow>
      lz_exec put copy c (hist s) = (bs, w) \<Longrightarrow>
      \<exists>t. step n s = (Ok bs, t) \<and> inv t \<and> pending t = 0 \<and> hist t = w \<and> ready t cs"

context command_decoder begin

lemma fill_commands:
  "inv s \<Longrightarrow> pending s = 0 \<Longrightarrow> ready s cs \<Longrightarrow> lz_run put copy cs (hist s) = (bs, w) \<Longrightarrow>
   \<exists>t. fill (length bs) s = (Ok bs, t) \<and> inv t \<and> pending t = 0 \<and> hist t = w \<and> ready t []"
proof (induction cs arbitrary: s bs)
  case Nil
  then show ?case by (simp add: fill_0)
next
  case (Cons c cs)
  from Cons.prems(4) obtain xs v ys where xs: "lz_exec put copy c (hist s) = (xs, v)"
      and ys: "lz_run put copy cs v = (ys, w)" and bs: "bs = xs @ ys"
    by (auto split: prod.splits)
  note len = lz_exec_step(2) [OF winv_hist [OF Cons.prems(1)] xs]
  then have pos: "0 < length bs" using ready_length [OF Cons.prems(3)] bs by simp
  have "lz_length c \<le> length bs" using bs len by simp
  from step_command [OF Cons.prems(1-3) this xs] obtain u where u: "step (length bs) s = (Ok xs, u)"
      "inv u" "pending u = 0" "hist u = v" "ready u cs"
    by blast
  from Cons.IH [OF u(2,3,5)] ys u(4) obtain t where t: "fill (length ys) u = (Ok ys, t)"
      "inv t" "pending t = 0" "hist t = w" "ready t []"
    by blast
  have "fill (length bs) s = (Ok bs, t)"
    unfolding fill_step [OF Cons.prems(1,2) pos] bnd_Ok [of "step (length bs)", OF u(1)]
    using t(1) bs by (simp add: bnd_Ok ret_apply)
  with t show ?case by blast
qed

end

end
