(* ===== verification/Lz_Decoder.thy ===== *)
theory Lz_Decoder
  imports Fill_Buffer
begin

text \<open>
  What the four LZ77 decoders share: \<open>copy_from_history\<close>, the continuation of an interrupted
  copy, and the execution of one command. A decoder supplies the ring addressing, the access to
  the fields \<open>copy_progress\<close> and \<open>ringbuf\<close> of its state, and the reader of its commands. The
  locale \<open>lz_decoder\<close> proves once that every such decoder keeps the contract of \<open>decoder\<close>.
\<close>

subsection \<open>The program\<close>

record 's copier =
  cp_copy :: "nat \<Rightarrow> nat \<Rightarrow> ring \<Rightarrow> u8 list \<times> ring"
  cp_adv :: "nat \<Rightarrow> nat \<Rightarrow> nat"
  cp_width :: nat
  cp_progress :: "'s \<Rightarrow> (nat \<times> nat) option"
  cp_ring :: "'s \<Rightarrow> ring"
  cp_set :: "(nat \<times> nat) option \<Rightarrow> ring \<Rightarrow> 's \<Rightarrow> 's"

definition copy_from_history :: "'s copier \<Rightarrow> nat \<Rightarrow> nat \<Rightarrow> nat \<Rightarrow> ('s, 'e, u8 list) act" where
  "copy_from_history cp n a count = (\<lambda>s.
     case history_copy (cp_copy cp) (cp_adv cp) (cp_width cp) n a count (cp_ring cp s) of
       (bs, progress, ring) \<Rightarrow> (Ok bs, cp_set cp progress ring s))"

definition continue_copy :: "'s copier \<Rightarrow> nat \<Rightarrow> ('s, 'e, u8 list) act" where
  "continue_copy cp n = (\<lambda>s. case cp_progress cp s of
       None \<Rightarrow> (Ok [], s)
     | Some (a, count) \<Rightarrow> copy_from_history cp n a count s)"

fun execute :: "'s copier \<Rightarrow> nat \<Rightarrow> lz_command \<Rightarrow> ('s, 'e, u8 list) act" where
  "execute cp n (Literal v) = (\<lambda>s. (Ok [v], cp_set cp (cp_progress cp s) (push v (cp_ring cp s)) s))"
| "execute cp n (History a count) = copy_from_history cp n a count"

definition decode_step :: "'s copier \<Rightarrow> ('s, 'e, lz_command) act \<Rightarrow> nat \<Rightarrow> ('s, 'e, u8 list) act" where
  "decode_step cp read_command n = bnd read_command (execute cp n)"

definition decode_fill :: "'s copier \<Rightarrow> ('s, 'e, lz_command) act \<Rightarrow> nat \<Rightarrow> ('s, 'e, u8 list) act" where
  "decode_fill cp read_command = fill_with (continue_copy cp) (decode_step cp read_command)"

definition pending_copy :: "'s copier \<Rightarrow> 's \<Rightarrow> nat" where
  "pending_copy cp s = progress_count (cp_progress cp s)"

subsection \<open>The interface of a decoder's state\<close>

locale copying =
  sliding_window "ring_inv k" window push "cp_copy cp" "cp_adv cp"
  for k :: nat and cp :: "'s copier" +
  fixes inv :: "'s \<Rightarrow> bool"
  assumes inv_fields: "inv s \<Longrightarrow> ring_inv k (cp_ring cp s) \<and> progress_ok (cp_adv cp) (cp_width cp) (cp_progress cp s)"
    and inv_set: "inv s \<Longrightarrow> ring_inv k r \<Longrightarrow> progress_ok (cp_adv cp) (cp_width cp) p \<Longrightarrow> inv (cp_set cp p r s)"
    and progress_set: "cp_progress cp (cp_set cp p r s) = p"
    and ring_set: "cp_ring cp (cp_set cp p r s) = r"
    and set_set: "cp_set cp p r (cp_set cp p' r' s) = cp_set cp p r s"
    and set_same: "cp_set cp (cp_progress cp s) (cp_ring cp s) s = s"

context copying begin

lemma continue_copy_eq:
  "continue_copy cp n s = (case resume_copy (cp_copy cp) (cp_adv cp) (cp_width cp) n (cp_progress cp s) (cp_ring cp s) of
      (bs, p, r) \<Rightarrow> (Ok bs, cp_set cp p r s))"
  using set_same [of s]
  by (cases "cp_progress cp s")
    (auto simp: continue_copy_def resume_copy_def copy_from_history_def)

lemma copy_from_history_Ok:
  assumes "inv s" and "count < 2 ^ cp_width cp" and "copy_from_history cp n a count s = (Ok bs, t)"
  shows "inv t \<and> length bs = min n count \<and> pending_copy cp t = count - length bs"
proof -
  obtain cs p r where h: "history_copy (cp_copy cp) (cp_adv cp) (cp_width cp) n a count (cp_ring cp s) = (cs, p, r)"
    by (metis prod.exhaust)
  with assms(3) have eqs: "bs = cs" "t = cp_set cp p r s" by (simp_all add: copy_from_history_def)
  from inv_fields [OF assms(1)] have "ring_inv k (cp_ring cp s)" by simp
  from history_copy_step [OF this assms(2) h] inv_set [OF assms(1)] show ?thesis
    by (simp add: eqs pending_copy_def progress_set)
qed

lemma copy_from_history_total: "\<exists>bs t. copy_from_history cp n a count s = (Ok bs, t)"
  by (auto simp: copy_from_history_def split: prod.splits)

lemma copy_from_history_add:
  assumes "inv s" and "count < 2 ^ cp_width cp"
  shows "copy_from_history cp (m + n) a count s = app (copy_from_history cp m a count) (continue_copy cp n) s"
proof -
  obtain bs p r where h: "history_copy (cp_copy cp) (cp_adv cp) (cp_width cp) m a count (cp_ring cp s) = (bs, p, r)"
    by (metis prod.exhaust)
  obtain cs p' r' where c: "resume_copy (cp_copy cp) (cp_adv cp) (cp_width cp) n p r = (cs, p', r')"
    by (metis prod.exhaust)
  from inv_fields [OF assms(1)] have "ring_inv k (cp_ring cp s)" by simp
  note add = history_copy_add [OF this assms(2), of m n a]
  show ?thesis
    by (simp add: add h c copy_from_history_def app_def bnd_def ret_def continue_copy_eq progress_set ring_set set_set)
qed

lemma continue_copy_add:
  assumes "inv s"
  shows "continue_copy cp (m + n) s = app (continue_copy cp m) (continue_copy cp n) s"
proof (cases "cp_progress cp s")
  case None
  then show ?thesis by (simp add: continue_copy_def app_def bnd_def ret_def)
next
  case (Some ac)
  then obtain a c where p: "cp_progress cp s = Some (a, c)" by (cases ac) auto
  with inv_fields [OF assms] have "c < 2 ^ cp_width cp" by (simp add: progress_ok_def)
  from copy_from_history_add [OF assms this, of m n a] p show ?thesis
    by (simp add: continue_copy_def app_def bnd_def)
qed

lemma continue_copy_Ok:
  assumes "inv s"
  shows "\<exists>bs t. continue_copy cp n s = (Ok bs, t) \<and> inv t \<and>
    length bs = min n (pending_copy cp s) \<and> pending_copy cp t = pending_copy cp s - length bs"
proof -
  obtain bs p r where c: "resume_copy (cp_copy cp) (cp_adv cp) (cp_width cp) n (cp_progress cp s) (cp_ring cp s) = (bs, p, r)"
    by (metis prod.exhaust)
  from inv_fields [OF assms] resume_copy_step [OF _ _ c] inv_set [OF assms] show ?thesis
    by (simp add: continue_copy_eq c pending_copy_def progress_set)
qed

lemma continue_copy_idle:
  assumes "inv s" and "pending_copy cp s = 0 \<or> n = 0"
  shows "continue_copy cp n s = (Ok [], s)"
  using inv_fields [OF assms(1)] assms(2) resume_copy_idle [of "cp_ring cp s" "cp_width cp" "cp_progress cp s" n]
  by (simp add: continue_copy_eq pending_copy_def set_same)

lemma execute_Ok:
  assumes "inv s" and "pending_copy cp s = 0" and "0 < n" and "0 < lz_length c" and "lz_length c < 2 ^ cp_width cp"
    and "execute cp n c s = (Ok bs, t)"
  shows "inv t \<and> 0 < length bs \<and> length bs \<le> n \<and> (length bs < n \<longrightarrow> pending_copy cp t = 0)"
proof (cases c)
  case (Literal v)
  with assms inv_fields [OF assms(1)] inv_set [OF assms(1) inv_put] show ?thesis
    by (auto simp: pending_copy_def progress_set)
next
  case (History a count)
  with copy_from_history_Ok [OF assms(1), of count n a bs t] assms(3-6) show ?thesis by auto
qed

lemma execute_add:
  assumes "inv s" and "pending_copy cp s = 0" and "0 < m" and "lz_length c < 2 ^ cp_width cp"
  shows "execute cp (m + n) c s = app (execute cp m c) (continue_copy cp n) s"
proof (cases c)
  case (Literal v)
  let ?t = "cp_set cp (cp_progress cp s) (push v (cp_ring cp s)) s"
  have "inv ?t" using inv_fields [OF assms(1)] inv_set [OF assms(1) inv_put] by simp
  moreover have "pending_copy cp ?t = 0" using assms(2) by (simp add: pending_copy_def progress_set)
  ultimately show ?thesis by (simp add: Literal app_def bnd_def ret_def continue_copy_idle)
next
  case (History a count)
  with assms copy_from_history_add [OF assms(1), of count m n a] show ?thesis by simp
qed

lemma execute_total: "\<exists>bs t. execute cp n c s = (Ok bs, t)"
  using copy_from_history_total by (cases c) auto

lemma execute_all:
  assumes "inv s" and "pending_copy cp s = 0" and "lz_length c \<le> n"
    and "lz_exec push (cp_copy cp) c (cp_ring cp s) = (bs, r)"
  shows "execute cp n c s = (Ok bs, cp_set cp None r s)"
proof (cases c)
  case (Literal v)
  moreover have "cp_progress cp s = None"
    using inv_fields [OF assms(1)] assms(2)
    by (auto simp: progress_ok_def pending_copy_def progress_count_def split: option.splits)
  ultimately show ?thesis using assms(4) by simp
next
  case (History a count)
  with assms(3,4) have "history_copy (cp_copy cp) (cp_adv cp) (cp_width cp) n a count (cp_ring cp s) = (bs, None, r)"
    by (intro history_copy_all) simp_all
  then show ?thesis by (simp add: History copy_from_history_def)
qed

end

subsection \<open>The decoder\<close>

text \<open>
  Reading a command leaves the ring and the interrupted copy alone; a command writes at least one
  byte and at most what the width of the count can hold.
\<close>

locale lz_decoder = copying k cp inv
  for k :: nat and cp :: "'s copier" and inv :: "'s \<Rightarrow> bool" +
  fixes read_command :: "('s, 'e, lz_command) act"
  assumes read_Ok: "inv s \<Longrightarrow> pending_copy cp s = 0 \<Longrightarrow> read_command s = (Ok c, t) \<Longrightarrow>
      inv t \<and> cp_progress cp t = cp_progress cp s \<and> cp_ring cp t = cp_ring cp s \<and>
      0 < lz_length c \<and> lz_length c < 2 ^ cp_width cp"

context lz_decoder begin

lemma read_pending:
  "inv s \<Longrightarrow> pending_copy cp s = 0 \<Longrightarrow> read_command s = (Ok c, t) \<Longrightarrow> pending_copy cp t = 0"
  using read_Ok [of s c t] by (simp add: pending_copy_def)

lemma decode_step_Ok:
  assumes "inv s" and "pending_copy cp s = 0" and "0 < n" and "decode_step cp read_command n s = (Ok bs, t)"
  shows "inv t \<and> 0 < length bs \<and> length bs \<le> n \<and> (length bs < n \<longrightarrow> pending_copy cp t = 0)"
proof -
  from assms(4) obtain c u where c: "read_command s = (Ok c, u)" and e: "(execute cp n c :: ('s, 'e, u8 list) act) u = (Ok bs, t)"
    by (auto simp: decode_step_def bnd_eq_Ok_iff)
  from read_Ok [OF assms(1,2) c] read_pending [OF assms(1,2) c] assms(3) e show ?thesis
    by (intro execute_Ok) simp_all
qed

lemma decode_step_add:
  assumes "inv s" and "pending_copy cp s = 0" and "0 < m"
  shows "decode_step cp read_command (m + n) s = app (decode_step cp read_command m) (continue_copy cp n) s"
proof -
  obtain r t where c: "read_command s = (r, t)" by fastforce
  show ?thesis
  proof (cases r)
    case (Ok cmd)
    with c have "read_command s = (Ok cmd, t)" by simp
    from read_Ok [OF assms(1,2) this] read_pending [OF assms(1,2) this] assms(3)
    have "(execute cp (m + n) cmd :: ('s, 'e, u8 list) act) t = app (execute cp m cmd) (continue_copy cp n) t" by (intro execute_add) simp_all
    with c Ok show ?thesis by (simp add: decode_step_def app_def bnd_def)
  qed (use c in \<open>simp_all add: decode_step_def app_def bnd_def\<close>)
qed

end

sublocale lz_decoder \<subseteq> dec: decoder "continue_copy cp" "decode_step cp read_command" "pending_copy cp" inv
proof (unfold_locales, goal_cases)
  case (1 s n)
  then show ?case by (rule continue_copy_Ok)
next
  case (2 s n)
  then show ?case by (rule continue_copy_idle)
next
  case (3 s m n)
  then show ?case by (rule continue_copy_add)
next
  case (4 s n bs t)
  then show ?case by (rule decode_step_Ok)
next
  case (5 s m n)
  then show ?case by (rule decode_step_add)
qed

context lz_decoder begin

text \<open>Decoding in two buffers is decoding in one, and a full buffer is full.\<close>

lemma decode_fill_add:
  "inv s \<Longrightarrow> decode_fill cp read_command (m + n) s = app (decode_fill cp read_command m) (decode_fill cp read_command n) s"
  unfolding decode_fill_def by (rule dec.fill_add)

lemma decode_fill_Ok:
  "inv s \<Longrightarrow> decode_fill cp read_command n s = (Ok bs, t) \<Longrightarrow> length bs = n \<and> inv t"
  unfolding decode_fill_def using dec.fill_Ok by blast

lemma decode_fill_Fault:
  assumes "\<And>s q t. inv s \<Longrightarrow> pending_copy cp s = 0 \<Longrightarrow> read_command s = (Fault q, t) \<Longrightarrow> E q t"
    and "inv s" and "decode_fill cp read_command n s = (Fault q, t)"
  shows "E q t"
proof (rule dec.fill_Fault [OF _ assms(2) assms(3) [unfolded decode_fill_def]])
  fix s n q t
  assume s: "inv s" "pending_copy cp s = 0" and step: "decode_step cp read_command n s = (Fault q, t)"
  obtain r u where c: "read_command s = (r, u)" by fastforce
  show "E q t"
  proof (cases r)
    case (Ok cmd)
    obtain bs v where "(execute cp n cmd :: ('s, 'e, u8 list) act) u = (Ok bs, v)" using execute_total by blast
    with c Ok step show ?thesis by (simp add: decode_step_def bnd_def)
  next
    case (Fault p)
    with c step show ?thesis using assms(1) [OF s, of q t] by (simp add: decode_step_def bnd_def)
  qed (use c step in \<open>simp add: decode_step_def bnd_def\<close>)
qed

end

subsection \<open>Decoding commands\<close>

locale lz_command_decoder = lz_decoder k cp inv read_command
  for k :: nat and cp :: "'s copier" and inv :: "'s \<Rightarrow> bool" and read_command :: "('s, 'e, lz_command) act" +
  fixes ready :: "'s \<Rightarrow> lz_command list \<Rightarrow> bool"
  assumes read_ready: "inv s \<Longrightarrow> pending_copy cp s = 0 \<Longrightarrow> ready s (c # cs) \<Longrightarrow>
      \<exists>t. read_command s = (Ok c, t) \<and> ready t cs"
    and ready_set: "ready (cp_set cp p r s) cs \<longleftrightarrow> ready s cs"
    and ready_pos: "ready s (c # cs) \<Longrightarrow> 0 < lz_length c"

sublocale lz_command_decoder \<subseteq> cmd: command_decoder "continue_copy cp" "decode_step cp read_command"
    "pending_copy cp" inv "ring_inv k" window push "cp_copy cp" "cp_adv cp" "cp_ring cp" ready
proof (unfold_locales, goal_cases)
  case (1 s)
  then show ?case using inv_fields by blast
next
  case (2 s c cs)
  then show ?case by (rule ready_pos)
next
  case (3 s c cs n bs w)
  from read_ready [OF 3(1-3)] obtain t where t: "read_command s = (Ok c, t)" "ready t cs" by blast
  note read = read_Ok [OF 3(1,2) t(1)]
  have "(execute cp n c :: ('s, 'e, u8 list) act) t = (Ok bs, cp_set cp None w t)"
    using read read_pending [OF 3(1,2) t(1)] 3(4,5) by (intro execute_all) simp_all
  then have step: "decode_step cp read_command n s = (Ok bs, cp_set cp None w t)"
    by (simp add: decode_step_def bnd_Ok [of read_command, OF t(1)])
  have "ring_inv k w" using lz_exec_step(1) [OF _ 3(5)] inv_fields [OF 3(1)] by blast
  with read have "inv (cp_set cp None w t)" by (intro inv_set) (simp_all add: progress_ok_def)
  with step t(2) show ?case
    by (auto simp: pending_copy_def progress_set ring_set ready_set progress_count_def)
qed

context lz_command_decoder begin

lemma decode_fill_commands:
  "inv s \<Longrightarrow> pending_copy cp s = 0 \<Longrightarrow> ready s cs \<Longrightarrow> lz_run push (cp_copy cp) cs (cp_ring cp s) = (bs, r) \<Longrightarrow>
   \<exists>t. decode_fill cp read_command (length bs) s = (Ok bs, t) \<and> inv t \<and> pending_copy cp t = 0 \<and>
     cp_ring cp t = r \<and> ready t []"
  unfolding decode_fill_def by (rule cmd.fill_commands)

end

end
