(* ===== verification/Bit_Stream.thy ===== *)
theory Bit_Stream
  imports Stub_Io
begin

text \<open>
  The bit reader of \<open>src/src/bitstream.rs\<close> on a 64-bit target. The buffer \<open>bits_buf\<close> holds the
  unread bits at its top, a sentinel bit \<open>1\<close> below them and zeros below the sentinel. The
  second half shows that the reader refines a list of bits: the buffered bits followed by the
  bits of the bytes the inner reader has left, each byte from its highest bit down.
\<close>

subsection \<open>The program\<close>

record 'r bit_stream =
  inner :: 'r
  bits_buf :: u64

definition bit_stream_new :: "'r \<Rightarrow> 'r bit_stream" where
  "bit_stream_new r = \<lparr>inner = r, bits_buf = push_bit 63 1\<rparr>"

definition trailing_zeros :: "u64 \<Rightarrow> nat" where
  "trailing_zeros w = length (takeWhile (\<lambda>i. \<not> bit w i) [0..<64])"

definition u64_from_be_bytes :: "u8 list \<Rightarrow> u64" where
  "u64_from_be_bytes bs = of_nat (be_bytes bs)"

definition next_bits :: "('r, 'e) read_impl \<Rightarrow> nat \<Rightarrow> ('r bit_stream, 'e lha_error, u64) act" where
  "next_bits rd n = (\<lambda>s.
     if n = 0 \<or> n > 64 then (Fault Panicked, s)
     else if bits_buf s = 0 then (Fault Overflow, s)
     else
       let have_bits = 64 - trailing_zeros (bits_buf s) - 1;
           res = drop_bit (64 - n) (bits_buf s)
       in if n \<le> have_bits then (Ok res, s\<lparr>bits_buf := push_bit n (bits_buf s)\<rparr>)
       else
         let missing_bits = n - have_bits
         in (case rd_all rd 8 (inner s) of
             (Err e, r) \<Rightarrow> (Err (Io e), s\<lparr>inner := r\<rparr>)
           | (Fault q, r) \<Rightarrow> (Fault q, s\<lparr>inner := r\<rparr>)
           | (Ok bs, r) \<Rightarrow>
               let bits_read = 8 * length bs
               in if bits_read < missing_bits then (Err (Io (rd_eof rd)), s\<lparr>inner := r\<rparr>)
               else
                 let new_bits = u64_from_be_bytes (bs @ replicate (8 - length bs) 0);
                     res = (res AND (res - 1)) OR drop_bit (64 - missing_bits) new_bits;
                     buf = (if missing_bits = 64 then 0 else push_bit missing_bits new_bits)
                             OR push_bit (64 - 1 - (bits_read - missing_bits)) 1
                 in (Ok res, \<lparr>inner = r, bits_buf = buf\<rparr>)))"

definition read_bit :: "('r, 'e) read_impl \<Rightarrow> ('r bit_stream, 'e lha_error, bool) act" where
  "read_bit rd = bnd (next_bits rd 1) (\<lambda>bits. ret (bits \<noteq> 0))"

text \<open>
  \<open>read_bits::<T>(n)\<close>: the type \<open>T\<close> is the type of the result, its capacity \<open>LENGTH('t)\<close> bits,
  and \<open>from_bits\<close> is the truncating cast.
\<close>

definition read_bits :: "('r, 'e) read_impl \<Rightarrow> nat \<Rightarrow>
    ('r bit_stream, 'e lha_error, 't::len word) act" where
  "read_bits rd n =
     (if n = 0 then ret 0
      else if n \<le> LENGTH('t) then bnd (next_bits rd n) (\<lambda>bits. ret (ucast bits))
      else fail (Decompress ''too many bits requested''))"

subsection \<open>Bit lists\<close>

definition byte_bits :: "u8 \<Rightarrow> bool list" where
  "byte_bits b = map (bit b) (rev [0..<8])"

definition bytes_bits :: "u8 list \<Rightarrow> bool list" where
  "bytes_bits bs = concat (map byte_bits bs)"

definition of_bits :: "bool list \<Rightarrow> 'a :: len word" where
  "of_bits bs = horner_sum of_bool 2 (rev bs)"

definition buf_bits :: "u64 \<Rightarrow> bool list" where
  "buf_bits w = map (bit w) (rev [trailing_zeros w + 1..<64])"

definition stream_bits :: "('r \<Rightarrow> u8 list) \<Rightarrow> 'r bit_stream \<Rightarrow> bool list" where
  "stream_bits contents s = buf_bits (bits_buf s) @ bytes_bits (contents (inner s))"

definition stream_ok :: "'r bit_stream \<Rightarrow> bool" where
  "stream_ok s \<longleftrightarrow> bits_buf s \<noteq> 0"

lemma length_byte_bits [simp]: "length (byte_bits b) = 8"
  by (simp add: byte_bits_def)

lemma nth_byte_bits: "i < 8 \<Longrightarrow> byte_bits b ! i = bit b (7 - i)"
  by (simp add: byte_bits_def rev_nth)

lemma length_bytes_bits [simp]: "length (bytes_bits bs) = 8 * length bs"
  by (simp add: bytes_bits_def length_concat_const)

lemma bytes_bits_simps [simp]:
  "bytes_bits [] = []"
  "bytes_bits (b # bs) = byte_bits b @ bytes_bits bs"
  "bytes_bits (bs @ cs) = bytes_bits bs @ bytes_bits cs"
  by (simp_all add: bytes_bits_def)

lemma bytes_bits_take: "bytes_bits (take n bs) = take (8 * n) (bytes_bits bs)"
  by (simp add: bytes_bits_def take_concat_const)

lemma bytes_bits_drop: "bytes_bits (drop n bs) = drop (8 * n) (bytes_bits bs)"
  by (simp add: bytes_bits_def drop_concat_const)

lemma of_bits_Nil [simp]: "of_bits [] = 0"
  by (simp add: of_bits_def)

lemma of_bits_snoc: "of_bits (bs @ [b]) = 2 * of_bits bs + of_bool b"
  by (simp add: of_bits_def add.commute)

lemma bit_of_bits:
  "bit (of_bits bs :: 'a :: len word) i \<longleftrightarrow> i < LENGTH('a) \<and> i < length bs \<and> bs ! (length bs - 1 - i)"
  by (auto simp: of_bits_def bit_horner_sum_bit_word_iff rev_nth)

lemma ucast_of_bits:
  "length bs \<le> LENGTH('b) \<Longrightarrow> ucast (of_bits bs :: 'b :: len word) = (of_bits bs :: 'a :: len word)"
  by (rule bit_word_eqI) (auto simp: bit_simps bit_of_bits)

lemma of_bits_append:
  "(of_bits (xs @ ys) :: 'a :: len word) = 2 ^ length ys * of_bits xs + of_bits ys"
proof (induction ys rule: rev_induct)
  case Nil
  show ?case by simp
next
  case (snoc y ys)
  have "of_bits (xs @ ys @ [y]) = 2 * of_bits (xs @ ys) + (of_bool y :: 'a word)"
    using of_bits_snoc [of "xs @ ys" y] by simp
  with snoc show ?case by (simp add: of_bits_snoc algebra_simps)
qed

lemma of_bits_byte_bits: "of_bits (byte_bits b) = (ucast b :: u64)"
proof (rule bit_word_eqI)
  fix i assume "i < LENGTH(64)"
  show "bit (of_bits (byte_bits b) :: u64) i = bit (ucast b :: u64) i"
    by (cases "i < 8") (simp_all add: bit_of_bits nth_byte_bits bit_simps)
qed

lemma u64_from_be_bytes_bits: "u64_from_be_bytes bs = of_bits (bytes_bits bs)"
proof (induction bs rule: rev_induct)
  case Nil
  show ?case by (simp add: u64_from_be_bytes_def be_bytes_def)
next
  case (snoc b bs)
  then show ?case
    by (simp add: u64_from_be_bytes_def be_bytes_def of_bits_append of_bits_byte_bits
        algebra_simps)
qed

subsection \<open>The shape of the buffer\<close>

text \<open>\<open>holds w bs\<close>: the buffer \<open>w\<close> consists of the bits \<open>bs\<close>, the sentinel and zeros.\<close>

definition holds :: "u64 \<Rightarrow> bool list \<Rightarrow> bool" where
  "holds w bs \<longleftrightarrow> length bs < 64 \<and>
     (\<forall>j<64. bit w j = (if 63 - j < length bs then bs ! (63 - j) else j = 63 - length bs))"

lemma holdsD: "holds w bs \<Longrightarrow> j < 64 \<Longrightarrow>
    bit w j = (if 63 - j < length bs then bs ! (63 - j) else j = 63 - length bs)"
  by (simp add: holds_def)

lemma holds_length: "holds w bs \<Longrightarrow> length bs < 64"
  by (simp add: holds_def)

lemma trailing_zeros_eq:
  assumes "t < 64" and "bit w t" and "\<And>i. i < t \<Longrightarrow> \<not> bit w i"
  shows "trailing_zeros w = t"
proof -
  have "[0..<64] = [0..<t] @ t # [Suc t..<64]"
    using assms(1) by (metis less_imp_le_nat upt_add_eq_append upt_conv_Cons le_add_diff_inverse zero_le)
  then have "takeWhile (\<lambda>i. \<not> bit w i) [0..<64] = [0..<t]"
    using assms(2,3) by (simp add: takeWhile_append)
  then show ?thesis by (simp add: trailing_zeros_def)
qed

lemma holds_trailing_zeros:
  assumes "holds w bs"
  shows "trailing_zeros w = 63 - length bs"
proof (rule trailing_zeros_eq)
  note len = holds_length [OF assms]
  show "63 - length bs < 64" by simp
  show "bit w (63 - length bs)" using holdsD [OF assms, of "63 - length bs"] len by simp
  show "\<not> bit w i" if "i < 63 - length bs" for i
    using holdsD [OF assms, of i] that by auto
qed

lemma holds_nonzero: "holds w bs \<Longrightarrow> w \<noteq> 0"
proof -
  assume h: "holds w bs"
  have "63 - length bs < 64" by arith
  with h holdsD [OF h this] holds_length [OF h] show "w \<noteq> 0" by auto
qed

lemma holds_buf_bits: "holds w bs \<Longrightarrow> buf_bits w = bs"
proof -
  assume h: "holds w bs"
  note len = holds_length [OF h]
  have l: "length (buf_bits w) = length bs"
    using len by (simp add: buf_bits_def holds_trailing_zeros [OF h])
  show ?thesis
  proof (rule nth_equalityI [OF l])
    fix i assume "i < length (buf_bits w)"
    with l len have i: "i < length bs" "i < 63" by simp_all
    have "buf_bits w ! i = bit w (63 - i)"
    proof -
      have "63 - i = Suc (62 - i)" using i by arith
      with i len show ?thesis by (simp add: buf_bits_def holds_trailing_zeros [OF h] rev_nth)
    qed
    with i holdsD [OF h, of "63 - i"] show "buf_bits w ! i = bs ! i" by simp
  qed
qed

lemma holds_exists:
  assumes "w \<noteq> 0"
  shows "holds w (buf_bits w)"
proof -
  from assms obtain t where t: "bit w t" by (auto simp: bit_eq_iff)
  define m where "m = (LEAST t. bit w t)"
  have m: "bit w m" "\<And>i. i < m \<Longrightarrow> \<not> bit w i"
    using t unfolding m_def by (auto intro: LeastI dest: not_less_Least)
  have "m < 64" using bit_imp_le_length [OF m(1)] by simp
  then have tz: "trailing_zeros w = m" using m by (intro trailing_zeros_eq)
  show ?thesis
    unfolding holds_def
  proof (intro conjI allI impI)
    show "length (buf_bits w) < 64" by (simp add: buf_bits_def)
    fix j :: nat assume j: "j < 64"
    show "bit w j = (if 63 - j < length (buf_bits w) then buf_bits w ! (63 - j)
        else j = 63 - length (buf_bits w))"
      using j \<open>m < 64\<close> m by (cases m j rule: linorder_cases) (auto simp: buf_bits_def tz rev_nth)
  qed
qed

lemma length_buf_bits: "w \<noteq> 0 \<Longrightarrow> length (buf_bits w) = 63 - trailing_zeros w"
  using holds_trailing_zeros [OF holds_exists] holds_length [OF holds_exists, of w] by simp

lemma bit_sentinel: "p < 64 \<Longrightarrow> bit (push_bit p 1 :: u64) j \<longleftrightarrow> j = p"
  by (auto simp only: bit_push_bit_iff bit_1_iff possible_bit_word) simp_all

lemma holds_new: "holds (push_bit 63 1) []"
  by (auto simp: holds_def bit_sentinel simp del: push_bit_of_1 push_bit_numeral)

lemma holds_shift:
  assumes "holds w bs" and "n \<le> length bs"
  shows "holds (push_bit n w) (drop n bs)"
  unfolding holds_def
proof (intro conjI allI impI)
  show "length (drop n bs) < 64" using holds_length [OF assms(1)] by simp
  fix j :: nat assume j: "j < 64"
  note len = holds_length [OF assms(1)]
  show "bit (push_bit n w) j = (if 63 - j < length (drop n bs) then drop n bs ! (63 - j)
      else j = 63 - length (drop n bs))"
  proof (cases "n \<le> j")
    case True
    then have eq: "63 - (j - n) = n + (63 - j)" using j by simp
    show ?thesis
      using holdsD [OF assms(1), of "j - n"] True j assms(2) len unfolding eq
      by (auto simp: bit_simps)
  next
    case False
    then show ?thesis using j assms(2) len by (auto simp: bit_simps)
  qed
qed

subsection \<open>Reading bits refines taking them from the list\<close>

lemma clear_lowest_bit:
  fixes w :: u64
  assumes "t < 64" and "bit w t" and "\<And>i. i < t \<Longrightarrow> \<not> bit w i"
  shows "bit (w AND (w - 1)) i \<longleftrightarrow> bit w i \<and> i \<noteq> t"
proof -
  have w: "w = unset_bit t w OR push_bit t 1"
    using assms(1,2) by (intro bit_word_eqI) (auto simp: bit_simps bit_sentinel)
  have "unset_bit t w AND push_bit t 1 = 0"
    using assms(1) by (intro bit_word_eqI) (auto simp: bit_simps bit_sentinel)
  then have "w = unset_bit t w + push_bit t 1"
    using w disjunctive_add_eq_or by metis
  then have "w - 1 = unset_bit t w + mask t"
    by (simp add: mask_eq_exp_minus_1 push_bit_eq_mult)
  also have "\<dots> = unset_bit t w OR mask t"
    using assms(3) by (intro disjunctive_add_eq_or bit_word_eqI) (auto simp: bit_simps)
  finally show ?thesis
    using assms by (auto simp: bit_simps)
qed

text \<open>Within the buffer: the top \<open>n\<close> bits are delivered and shifted out.\<close>

lemma holds_top:
  assumes "holds w bs" and "n \<le> length bs" and "0 < n"
  shows "drop_bit (64 - n) w = of_bits (take n bs)"
proof (rule bit_word_eqI)
  fix i assume i: "i < LENGTH(64)"
  note len = holds_length [OF assms(1)]
  show "bit (drop_bit (64 - n) w) i = bit (of_bits (take n bs) :: u64) i"
  proof (cases "i < n")
    case True
    then have j: "64 - n + i < 64" "63 - (64 - n + i) = n - 1 - i" "n - 1 - i < length bs"
      using assms(2) len by arith+
    with True assms(2) show ?thesis
      using holdsD [OF assms(1) j(1)] unfolding j(2) if_P [OF j(3)]
      by (simp add: bit_drop_bit_eq bit_of_bits min_def add.commute)
  next
    case False
    then show ?thesis using assms len i by (simp add: bit_drop_bit_eq bit_of_bits)
  qed
qed

text \<open>Across the buffer: the sentinel is cleared and the missing bits come from the new word.\<close>

lemma holds_clear:
  assumes "holds w bs" and "length bs < n" and "n \<le> 64"
  defines "res \<equiv> drop_bit (64 - n) w"
  shows "bit (res AND (res - 1)) i \<longleftrightarrow> n - length bs \<le> i \<and> i < n \<and> bs ! (n - 1 - i)"
proof -
  note len = holds_length [OF assms(1)]
  let ?m = "n - length bs"
  have res: "bit res i \<longleftrightarrow> i < n \<and> (if n - 1 - i < length bs then bs ! (n - 1 - i) else i = ?m - 1)" for i
  proof (cases "i < n")
    case True
    then have j: "64 - n + i < 64" "63 - (64 - n + i) = n - 1 - i"
        "64 - n + i = 63 - length bs \<longleftrightarrow> i = ?m - 1"
      using assms(2,3) len by arith+
    with True show ?thesis
      using holdsD [OF assms(1) j(1)] unfolding j(2,3)
      by (simp add: res_def bit_drop_bit_eq add.commute)
  next
    case False
    then show ?thesis using assms(3) by (simp add: res_def bit_drop_bit_eq)
  qed
  have "bit (res AND (res - 1)) i \<longleftrightarrow> bit res i \<and> i \<noteq> ?m - 1"
  proof (rule clear_lowest_bit)
    show "?m - 1 < 64" using assms(2,3) by arith
    have "\<not> n - 1 - (?m - 1) < length bs" "?m - 1 < n" using assms(2) by arith+
    then show "bit res (?m - 1)" unfolding res by simp
    fix j assume "j < ?m - 1"
    then have "\<not> n - 1 - j < length bs" "j \<noteq> ?m - 1" by arith+
    then show "\<not> bit res j" unfolding res by simp
  qed
  also have "\<dots> \<longleftrightarrow> ?m \<le> i \<and> i < n \<and> bs ! (n - 1 - i)"
  proof (cases "?m \<le> i \<and> i < n")
    case True
    then have "n - 1 - i < length bs" "i \<noteq> ?m - 1" using assms(2) by arith+
    with True show ?thesis by (simp add: res)
  next
    case False
    then have "i < n \<Longrightarrow> \<not> n - 1 - i < length bs" using assms(2) by arith
    with False show ?thesis by (auto simp: res)
  qed
  finally show ?thesis .
qed

lemma refill_result:
  assumes "holds w bs" and "length bs < n" and "n \<le> 64" and "length xs \<le> 64"
    and "n - length bs \<le> length xs"
  defines "res \<equiv> drop_bit (64 - n) w" and "new \<equiv> (of_bits (xs @ replicate (64 - length xs) False) :: u64)"
  shows "(res AND (res - 1)) OR drop_bit (64 - (n - length bs)) new = of_bits (take n (bs @ xs))"
proof (rule bit_word_eqI)
  fix i assume i: "i < LENGTH(64)"
  let ?m = "n - length bs"
  have take: "take n (bs @ xs) = bs @ take ?m xs" using assms(2) by simp
  have len: "length (bs @ take ?m xs) = n" using assms(2,5) by simp
  have new: "bit (drop_bit (64 - ?m) new) i \<longleftrightarrow> i < ?m \<and> xs ! (?m - 1 - i)"
  proof (cases "i < ?m")
    case True
    then have j: "64 - ?m + i < 64" "64 - 1 - (64 - ?m + i) = ?m - 1 - i" "?m - 1 - i < length xs"
      using assms(3,4,5) by arith+
    have bit: "bit new k \<longleftrightarrow> (xs @ replicate (64 - length xs) False) ! (64 - 1 - k)" if "k < 64" for k
      using that assms(4) by (simp add: new_def bit_of_bits)
    from True j(3) bit [OF j(1)] show ?thesis
      unfolding j(2) by (simp add: bit_drop_bit_eq nth_append add.commute)
  next
    case False
    then have "64 \<le> 64 - ?m + i" using assms(3) by arith
    with False show ?thesis by (simp add: bit_drop_bit_eq)
  qed
  show "bit ((res AND (res - 1)) OR drop_bit (64 - ?m) new) i = bit (of_bits (take n (bs @ xs)) :: u64) i"
  proof (cases "i < ?m")
    case True
    then have idx: "n - 1 - i = length bs + (?m - 1 - i)" "i < n" "?m - 1 - i < ?m" using assms(2) by arith+
    have "(bs @ take ?m xs) ! (n - 1 - i) = xs ! (?m - 1 - i)"
      unfolding idx(1) using idx(3) by (simp add: nth_append)
    with True i idx(2) show ?thesis
      unfolding take bit_of_bits len bit_or_iff new
      using holds_clear [OF assms(1-3), of i] by (simp add: res_def)
  next
    case False
    then have "i < n \<Longrightarrow> n - 1 - i < length bs" using assms(2) by arith
    with False i show ?thesis
      unfolding take bit_of_bits len bit_or_iff new
      using holds_clear [OF assms(1-3), of i] by (auto simp: res_def nth_append)
  qed
qed

lemma refill_buffer:
  fixes xs :: "bool list"
  assumes "0 < m" and "m \<le> length xs" and "length xs \<le> 64"
  defines "new \<equiv> (of_bits (xs @ replicate (64 - length xs) False) :: u64)"
  shows "holds ((if m = 64 then 0 else push_bit m new) OR push_bit (64 - 1 - (length xs - m)) 1)
    (drop m xs)"
  unfolding holds_def
proof (intro conjI allI impI)
  show "length (drop m xs) < 64" using assms(1,2,3) by simp
  fix j :: nat assume j: "j < 64"
  let ?p = "64 - 1 - (length xs - m)"
  have p: "?p < 64" "?p = 63 - length (drop m xs)" by simp_all
  have shifted: "bit (if m = 64 then 0 else push_bit m new) j \<longleftrightarrow> 63 - j < length (drop m xs) \<and> drop m xs ! (63 - j)"
  proof (cases "m \<le> j")
    case True
    then have "j - m < 64" "64 - Suc (j - m) = m + (63 - j)" "m \<noteq> 64" using j assms(2,3) by arith+
    moreover have "m + (63 - j) < length xs \<longleftrightarrow> 63 - j < length xs - m" using assms(2) by arith
    ultimately show ?thesis
      using True j assms(2,3) by (auto simp: bit_push_bit_iff new_def bit_of_bits nth_append)
  next
    case False
    then have "\<not> 63 - j < length xs - m" using assms(2,3) j by arith
    with False j show ?thesis by (simp add: bit_push_bit_iff)
  qed
  show "bit ((if m = 64 then 0 else push_bit m new) OR push_bit ?p 1) j =
      (if 63 - j < length (drop m xs) then drop m xs ! (63 - j) else j = 63 - length (drop m xs))"
    unfolding bit_or_iff shifted bit_sentinel [OF p(1)] using p(2) assms(1-3) j by auto
qed

lemma bytes_bits_pad:
  "bytes_bits (bs @ replicate k 0) = bytes_bits bs @ replicate (8 * k) False"
proof -
  have zero: "byte_bits 0 = replicate 8 False"
    by (rule nth_equalityI) (simp_all add: nth_byte_bits)
  have "bytes_bits (replicate k 0) = replicate (8 * k) False"
    by (induction k) (simp_all add: zero replicate_add)
  then show ?thesis by simp
qed

lemma stream_bits_eqs:
  "stream_bits contents (s\<lparr>inner := r\<rparr>) = buf_bits (bits_buf s) @ bytes_bits (contents r)"
  "stream_bits contents \<lparr>inner = r, bits_buf = w\<rparr> = buf_bits w @ bytes_bits (contents r)"
  "stream_bits contents (s\<lparr>bits_buf := w\<rparr>) = buf_bits w @ bytes_bits (contents (inner s))"
  by (simp_all add: stream_bits_def)

lemma stream_ok_new: "stream_ok (bit_stream_new r)"
  using holds_nonzero [OF holds_new] by (simp add: stream_ok_def bit_stream_new_def)

lemma stream_bits_new: "stream_bits contents (bit_stream_new r) = bytes_bits (contents r)"
  using holds_buf_bits [OF holds_new] by (simp add: stream_bits_def bit_stream_new_def)

text \<open>The step of \<open>next_bits\<close> that refills the buffer, on bit lists.\<close>

lemma next_bits_refill:
  assumes ok: "stream_ok s" and n: "n \<le> 64"
    and short: "length (buf_bits (bits_buf s)) < n"
    and read: "rd_all rd 8 (inner s) = (Ok bs, r)" and len: "length bs \<le> 8"
  shows "next_bits rd n s =
    (if 8 * length bs < n - length (buf_bits (bits_buf s)) then (Err (Io (rd_eof rd)), s\<lparr>inner := r\<rparr>)
     else (Ok (of_bits (take n (buf_bits (bits_buf s) @ bytes_bits bs))),
       \<lparr>inner = r, bits_buf = (let m = n - length (buf_bits (bits_buf s));
          new = of_bits (bytes_bits bs @ replicate (64 - length (bytes_bits bs)) False)
        in (if m = 64 then 0 else push_bit m new) OR push_bit (64 - 1 - (length (bytes_bits bs) - m)) 1)\<rparr>))"
proof -
  let ?w = "bits_buf s" and ?B = "buf_bits (bits_buf s)"
  have nz: "?w \<noteq> 0" using ok by (simp add: stream_ok_def)
  note holds = holds_exists [OF nz]
  have have_bits: "64 - trailing_zeros ?w - 1 = length ?B" "63 - trailing_zeros ?w = length ?B"
    unfolding length_buf_bits [OF nz] by arith+
  have pad: "u64_from_be_bytes (bs @ replicate (8 - length bs) 0) =
      of_bits (bytes_bits bs @ replicate (64 - length (bytes_bits bs)) False)"
    using len by (simp add: u64_from_be_bytes_bits bytes_bits_pad diff_mult_distrib2 del: bytes_bits_simps)
  show ?thesis
  proof (cases "8 * length bs < n - length ?B")
    case True
    with nz n short read show ?thesis
      by (simp add: next_bits_def Let_def have_bits)
  next
    case False
    have "n \<noteq> 0" "\<not> n > 64" "\<not> n \<le> length ?B" using n short by auto
    moreover have "length (bytes_bits bs) \<le> 64" "n - length ?B \<le> length (bytes_bits bs)"
      using len False by simp_all
    note refill_result [OF holds short n this]
    ultimately show ?thesis
      using nz False
      unfolding next_bits_def Let_def have_bits read prod.case outcome.case pad by simp
  qed
qed

context reader begin

lemma next_bits_cases:
  assumes ok: "stream_ok s" and n: "0 < n" "n \<le> 64"
  obtains (Ok) t where "next_bits rd n s = (Ok (of_bits (take n (stream_bits contents s))), t)"
      and "n \<le> length (stream_bits contents s)" and "stream_ok t"
      and "stream_bits contents t = drop n (stream_bits contents s)"
    | (Eof) t where "next_bits rd n s = (Err (Io (rd_eof rd)), t)" and "stream_ok t"
      and "length (stream_bits contents s) < n"
      and "length (stream_bits contents t) \<le> length (stream_bits contents s)"
    | (Err) e r where "next_bits rd n s = (Err (Io e), s\<lparr>inner := r\<rparr>)"
      and "rd_all rd 8 (inner s) = (Err e, r)"
      and "length (stream_bits contents (s\<lparr>inner := r\<rparr>)) \<le> length (stream_bits contents s)"
proof (cases "n \<le> length (buf_bits (bits_buf s))")
  case True
  let ?w = "bits_buf s" and ?B = "buf_bits (bits_buf s)"
  have nz: "?w \<noteq> 0" using ok by (simp add: stream_ok_def)
  note holds = holds_exists [OF nz]
  note shifted = holds_shift [OF holds True]
  have "next_bits rd n s = (Ok (of_bits (take n ?B)), s\<lparr>bits_buf := push_bit n ?w\<rparr>)"
    using True n nz holds_top [OF holds True n(1)] length_buf_bits [OF nz]
    by (simp add: next_bits_def Let_def)
  then have step: "next_bits rd n s = (Ok (of_bits (take n (stream_bits contents s))), s\<lparr>bits_buf := push_bit n ?w\<rparr>)"
    using True by (simp add: stream_bits_def)
  show thesis
    using True holds_nonzero [OF shifted] holds_buf_bits [OF shifted]
    by (intro that(1) [OF step]) (simp_all add: stream_ok_def stream_bits_def)
next
  case False
  let ?B = "buf_bits (bits_buf s)" and ?bytes = "take 8 (contents (inner s))"
  from False have short: "length ?B < n" by simp
  show thesis
  proof (cases rule: rd_all_cases [of 8 "inner s"])
    case (Err e r)
    have nz: "bits_buf s \<noteq> 0" using ok by (simp add: stream_ok_def)
    have "next_bits rd n s = (Err (Io e), s\<lparr>inner := r\<rparr>)"
      using Err(1) False n nz length_buf_bits [OF nz] by (simp add: next_bits_def Let_def)
    from that(3) [OF this Err(1)] Err(2) show thesis
      by (simp add: stream_bits_def)
  next
    case (Ok r)
    let ?m = "n - length ?B"
    have len: "length ?bytes \<le> 8" by simp
    note step = next_bits_refill [OF ok n(2) short Ok(1) len]
    have bytes: "bytes_bits (contents (inner s)) = bytes_bits ?bytes @ bytes_bits (contents r)"
      by (simp add: Ok(2) flip: bytes_bits_simps(3))
    show thesis
    proof (cases "8 * length ?bytes < ?m")
      case True
      then have "length ?bytes < 8" using n(2) by simp
      then have "?bytes = contents (inner s)" by simp
      with True have "length (stream_bits contents s) < n"
        using short by (simp add: stream_bits_def)
      moreover have "next_bits rd n s = (Err (Io (rd_eof rd)), s\<lparr>inner := r\<rparr>)"
        unfolding step if_P [OF True] ..
      ultimately show thesis
        using ok Ok(2) by (intro that(2) [of "s\<lparr>inner := r\<rparr>"]) (simp_all add: stream_bits_def stream_ok_def)
    next
      case enough: False
      let ?X = "bytes_bits ?bytes"
      have X: "0 < ?m" "?m \<le> length ?X" "length ?X \<le> 64" using enough short by simp_all
      note buf = refill_buffer [OF X]
      let ?w' = "(if ?m = 64 then 0 else push_bit ?m (of_bits (?X @ replicate (64 - length ?X) False)))
            OR push_bit (64 - 1 - (length ?X - ?m)) 1"
      have taken: "take n (stream_bits contents s) = take n (?B @ ?X)"
        using X(2) short by (simp add: stream_bits_def bytes)
      have rest: "drop n (stream_bits contents s) = drop ?m ?X @ bytes_bits (contents r)"
        using X(2) short by (simp add: stream_bits_def bytes)
      have enough': "n \<le> length (stream_bits contents s)"
        using X(2) by (simp add: stream_bits_def bytes)
      have step': "next_bits rd n s = (Ok (of_bits (take n (stream_bits contents s))),
          \<lparr>inner = r, bits_buf = ?w'\<rparr>)"
        unfolding step taken using enough by (simp add: Let_def)
      show thesis
        by (rule that(1) [OF step' enough'])
          (simp_all only: stream_bits_eqs stream_ok_def bit_stream.simps rest
            holds_nonzero [OF buf] holds_buf_bits [OF buf] not_False_eq_True)
    qed
  qed
qed

end

context reliable_reader begin

lemma next_bits_Ok:
  assumes "stream_ok s" and "0 < n" "n \<le> 64" and "n \<le> length (stream_bits contents s)"
  obtains t where "next_bits rd n s = (Ok (of_bits (take n (stream_bits contents s))), t)"
    and "stream_ok t" and "stream_bits contents t = drop n (stream_bits contents s)"
  using assms(1-3)
proof (cases rule: next_bits_cases)
  case (Ok t)
  then show ?thesis by (intro that)
next
  case (Eof t)
  with assms(4) show ?thesis by simp
next
  case (Err e r)
  with all_total [of 8 "inner s"] show ?thesis by auto
qed

lemma next_bits_eof:
  assumes "stream_ok s" and "0 < n" "n \<le> 64" and "length (stream_bits contents s) < n"
  obtains t where "next_bits rd n s = (Err (Io (rd_eof rd)), t)" and "stream_ok t"
  using assms(1-3)
proof (cases rule: next_bits_cases)
  case (Ok t)
  with assms(4) show ?thesis by simp
next
  case (Eof t)
  then show ?thesis by (intro that)
next
  case (Err e r)
  with all_total [of 8 "inner s"] show ?thesis by auto
qed

end

subsection \<open>The methods of BitRead\<close>

lemma of_bits_single: "(of_bits [b] :: 'a :: len word) = of_bool b"
  using of_bits_snoc [of "[]" b] by simp

lemma of_bits_single_nonzero: "(of_bits [b] :: 'a :: len word) \<noteq> 0 \<longleftrightarrow> b"
  by (simp add: of_bits_single)

lemma take_1_conv: "bs \<noteq> [] \<Longrightarrow> take (Suc 0) bs = [hd bs]"
  by (cases bs) auto

context reader begin

lemma read_bits_cases:
  assumes ok: "stream_ok s" and n: "n \<le> LENGTH('t)" "LENGTH('t) \<le> 64"
  obtains (Ok) t where "read_bits rd n s = (Ok (of_bits (take n (stream_bits contents s)) :: 't :: len word), t)"
      and "n \<le> length (stream_bits contents s)" and "stream_ok t"
      and "stream_bits contents t = drop n (stream_bits contents s)"
    | (Err) e t where "read_bits rd n s = ((Err (Io e), t) :: ('e lha_error, 't word) outcome \<times> 'r bit_stream)"
      and "stream_ok t" and "length (stream_bits contents t) \<le> length (stream_bits contents s)"
proof (cases "n = 0")
  case True
  then have "read_bits rd n s = (Ok (of_bits (take n (stream_bits contents s)) :: 't word), s)"
    by (simp add: read_bits_def act_simps)
  from that(1) [OF this] True ok show thesis by simp
next
  case False
  then have n': "0 < n" "n \<le> 64" using n by simp_all
  have eq: "read_bits rd n s = bnd (next_bits rd n) (\<lambda>bits. ret (ucast bits :: 't word)) s"
    using False n by (simp add: read_bits_def)
  from ok n' show thesis
  proof (cases rule: next_bits_cases)
    case (Ok t)
    have "read_bits rd n s = (Ok (of_bits (take n (stream_bits contents s)) :: 't word), t)"
      unfolding eq bnd_Ok [of "next_bits rd n", OF Ok(1)] ret_apply using n' by (simp add: ucast_of_bits)
    then show thesis using Ok(2-) by (rule that(1))
  next
    case (Eof t)
    then show thesis using eq that(2) by (simp add: bnd_Err)
  next
    case (Err e r)
    moreover have "stream_ok (s\<lparr>inner := r\<rparr>)" using ok by (simp add: stream_ok_def)
    ultimately show thesis using eq that(2) by (simp add: bnd_Err)
  qed
qed

lemma read_bit_cases:
  assumes ok: "stream_ok s"
  obtains (Ok) t where "read_bit rd s = (Ok (hd (stream_bits contents s)), t)"
      and "stream_bits contents s \<noteq> []" and "stream_ok t"
      and "stream_bits contents t = tl (stream_bits contents s)"
    | (Err) e t where "read_bit rd s = (Err (Io e), t)" and "stream_ok t"
      and "length (stream_bits contents t) \<le> length (stream_bits contents s)"
proof -
  have "0 < (1::nat)" "1 \<le> (64::nat)" by simp_all
  with ok show thesis
  proof (cases rule: next_bits_cases)
    case (Ok t)
    then have ne: "stream_bits contents s \<noteq> []" by auto
    have "read_bit rd s = (Ok (hd (stream_bits contents s)), t)"
      unfolding read_bit_def
      by (subst bnd_Ok [of "next_bits rd 1", OF Ok(1)])
        (simp add: ret_apply take_1_conv [OF ne] of_bits_single)
    then show thesis using ne Ok(3,4) by (intro that(1)) (simp_all add: drop_Suc)
  next
    case (Eof t)
    then show thesis using that(2) by (simp add: read_bit_def bnd_Err)
  next
    case (Err e r)
    moreover have "stream_ok (s\<lparr>inner := r\<rparr>)" using ok by (simp add: stream_ok_def)
    ultimately show thesis using that(2) by (simp add: read_bit_def bnd_Err)
  qed
qed

end

context reliable_reader begin

lemma read_bits_Ok:
  assumes "stream_ok s" and "n \<le> LENGTH('t)" "LENGTH('t) \<le> 64" and "n \<le> length (stream_bits contents s)"
  obtains t where "read_bits rd n s = (Ok (of_bits (take n (stream_bits contents s)) :: 't :: len word), t)"
    and "stream_ok t" and "stream_bits contents t = drop n (stream_bits contents s)"
proof (cases "n = 0")
  case True
  then have "read_bits rd n s = (Ok (of_bits (take n (stream_bits contents s)) :: 't word), s)"
    by (simp add: read_bits_def act_simps)
  from that [OF this] True assms(1) show thesis by simp
next
  case False
  then have n: "0 < n" "n \<le> 64" using assms(2,3) by simp_all
  obtain t where t: "next_bits rd n s = (Ok (of_bits (take n (stream_bits contents s))), t)"
      "stream_ok t" "stream_bits contents t = drop n (stream_bits contents s)"
    using assms(1) n assms(4) by (rule next_bits_Ok)
  have "read_bits rd n s = (Ok (of_bits (take n (stream_bits contents s)) :: 't word), t)"
    using False assms(2) n(2) bnd_Ok [of "next_bits rd n", OF t(1), of "\<lambda>bits. ret (ucast bits :: 't word)"]
    by (simp add: read_bits_def act_simps ucast_of_bits)
  then show thesis using t(2,3) by (rule that)
qed

lemma read_bit_Ok:
  assumes "stream_ok s" and "stream_bits contents s = b # bs"
  obtains t where "read_bit rd s = (Ok b, t)" and "stream_ok t" and "stream_bits contents t = bs"
proof -
  have "0 < (1::nat)" "1 \<le> (64::nat)" "1 \<le> length (stream_bits contents s)" using assms(2) by simp_all
  with assms(1) obtain t where t: "next_bits rd 1 s = (Ok (of_bits (take 1 (stream_bits contents s))), t)"
      "stream_ok t" "stream_bits contents t = drop 1 (stream_bits contents s)"
    by (rule next_bits_Ok)
  then show thesis
    using that assms(2) by (simp add: read_bit_def bnd_Ok act_simps of_bits_single)
qed

end

subsection \<open>Properties\<close>

text \<open>C25: The 64-bit bit buffer refines a plain list of bits: reading \<open>n\<close> bits, 1 to 64, returns the
  next \<open>n\<close> bits of the stream as a number and removes exactly them, whether or not the buffer
  has to be refilled; it fails with the end-of-file error exactly when fewer than \<open>n\<close> bits are
  left, and the invariant of the buffer is kept in both cases.\<close>

theorem next_bits_refines:
  assumes "reliable_reader rd contents" and "stream_ok s" and "0 < n" and "n \<le> 64"
  shows "\<exists>t. stream_ok t \<and> next_bits rd n s =
    (if n \<le> length (stream_bits contents s) then Ok (of_bits (take n (stream_bits contents s)))
     else Err (Io (rd_eof rd)), t) \<and>
    (n \<le> length (stream_bits contents s) \<longrightarrow> stream_bits contents t = drop n (stream_bits contents s))"
proof (cases "n \<le> length (stream_bits contents s)")
  case True
  with assms(2-4) obtain t where "next_bits rd n s = (Ok (of_bits (take n (stream_bits contents s))), t)"
      and "stream_ok t" "stream_bits contents t = drop n (stream_bits contents s)"
    by (rule reliable_reader.next_bits_Ok [OF assms(1)])
  with True show ?thesis by simp
next
  case False
  then have "length (stream_bits contents s) < n" by simp
  with assms(2-4) obtain t where "next_bits rd n s = (Err (Io (rd_eof rd)), t)" and "stream_ok t"
    by (rule reliable_reader.next_bits_eof [OF assms(1)])
  with False show ?thesis by simp
qed

lemma next_bits_refines_witness:
  "\<exists>t. next_bits slice_reader 3 (bit_stream_new [0xA5]) = (Ok 5, t) \<and>
    stream_bits (\<lambda>s. s) t = [False, False, True, False, True]"
  using next_bits_refines [OF slice.reliable_reader_axioms stream_ok_new, of 3 "[0xA5]"]
  by (auto simp: stream_bits_new bytes_bits_def byte_bits_def of_bits_def upt_rec)

end
