(* ===== verification/Code_Lengths.thy ===== *)
theory Code_Lengths
  imports Prelude
begin

text \<open>
  Arithmetic of prefix codes given by their code lengths, the specification of the static
  Huffman tree. A function \<open>c\<close> counts the codes of each length; \<open>slots c l\<close> are the nodes of
  depth \<open>l\<close> of the tree whose leaves are filled in from the left, \<open>starts c l\<close> the nodes above
  that depth, \<open>first_code c l\<close> the numeric value of the first code word of length \<open>l\<close>.
\<close>

subsection \<open>Slots, starts and first codes\<close>

fun slots :: "(nat \<Rightarrow> nat) \<Rightarrow> nat \<Rightarrow> nat" where
  "slots c 0 = 1"
| "slots c (Suc l) = 2 * (slots c l - c l)"

fun starts :: "(nat \<Rightarrow> nat) \<Rightarrow> nat \<Rightarrow> nat" where
  "starts c 0 = 0"
| "starts c (Suc l) = starts c l + slots c l"

fun first_code :: "(nat \<Rightarrow> nat) \<Rightarrow> nat \<Rightarrow> nat" where
  "first_code c 0 = 0"
| "first_code c (Suc l) = 2 * (first_code c l + c l)"

fun psum :: "(nat \<Rightarrow> nat) \<Rightarrow> nat \<Rightarrow> nat" where
  "psum c 0 = c 0"
| "psum c (Suc l) = 2 * psum c l + c (Suc l)"

fun leaf_total :: "(nat \<Rightarrow> nat) \<Rightarrow> nat \<Rightarrow> nat" where
  "leaf_total c 0 = c 0"
| "leaf_total c (Suc l) = leaf_total c l + c (Suc l)"

definition fits :: "(nat \<Rightarrow> nat) \<Rightarrow> nat \<Rightarrow> bool" where
  "fits c m \<longleftrightarrow> (\<forall>k\<le>m. c k \<le> slots c k)"

definition complete :: "(nat \<Rightarrow> nat) \<Rightarrow> nat \<Rightarrow> bool" where
  "complete c m \<longleftrightarrow> fits c m \<and> c m = slots c m \<and> (\<forall>k>m. c k = 0)"

lemma fits_mono: "fits c m \<Longrightarrow> k \<le> m \<Longrightarrow> fits c k"
  by (simp add: fits_def)

lemma fits_D: "fits c m \<Longrightarrow> k \<le> m \<Longrightarrow> c k \<le> slots c k"
  by (simp add: fits_def)

lemma fits_Suc: "fits c (Suc m) \<longleftrightarrow> fits c m \<and> c (Suc m) \<le> slots c (Suc m)"
  by (auto simp: fits_def le_Suc_eq)

lemma slots_psum: "fits c m \<Longrightarrow> slots c m - c m + psum c m = 2 ^ m"
proof (induction m)
  case 0
  then show ?case by (simp add: fits_def)
next
  case (Suc m)
  then have "slots c m - c m + psum c m = 2 ^ m" and "c (Suc m) \<le> 2 * (slots c m - c m)"
    by (simp_all add: fits_Suc)
  then show ?case by simp
qed

lemma first_code_slots: "fits c m \<Longrightarrow> first_code c m + slots c m = 2 ^ m"
proof (induction m)
  case 0
  then show ?case by simp
next
  case (Suc m)
  then have "first_code c m + slots c m = 2 ^ m" and "c m \<le> slots c m"
    using fits_D [of c m m] by (simp_all add: fits_Suc)
  then show ?case by simp
qed

lemma first_code_add: "2 ^ n * first_code c l \<le> first_code c (l + n)"
  by (induction n) simp_all

lemma starts_total: "fits c m \<Longrightarrow> starts c (Suc m) + 1 = 2 * (leaf_total c m + (slots c m - c m))"
proof (induction m)
  case 0
  then show ?case by (simp add: fits_def)
next
  case (Suc m)
  then have "starts c (Suc m) + 1 = 2 * (leaf_total c m + (slots c m - c m))"
    and "c (Suc m) \<le> 2 * (slots c m - c m)"
    by (simp_all add: fits_Suc)
  then show ?case by simp
qed

lemma total_mono: "k \<le> m \<Longrightarrow> leaf_total c k \<le> leaf_total c m"
  by (induction m) (auto simp: le_Suc_eq)

lemma starts_mono: "k \<le> m \<Longrightarrow> starts c k \<le> starts c m"
  by (induction m) (auto simp: le_Suc_eq)

lemma psum_beyond: "(\<And>k. m < k \<Longrightarrow> c k = 0) \<Longrightarrow> psum c (m + n) = 2 ^ n * psum c m"
  by (induction n) simp_all

lemma psum_le: "2 ^ n * psum c m \<le> psum c (m + n)"
  by (induction n) simp_all

subsection \<open>The Kraft sum decides completeness\<close>

lemma complete_psum: "complete c m \<Longrightarrow> m \<le> n \<Longrightarrow> psum c n = 2 ^ n"
proof -
  assume c: "complete c m" and "m \<le> n"
  have "psum c m = 2 ^ m" using c slots_psum [of c m] by (simp add: complete_def)
  moreover have "psum c (m + (n - m)) = 2 ^ (n - m) * psum c m"
    using c by (intro psum_beyond) (simp add: complete_def)
  ultimately show ?thesis using \<open>m \<le> n\<close> by (simp flip: power_add)
qed

lemma psum_fits:
  assumes sum: "psum c n = 2 ^ n" and c0: "c 0 = 0"
  shows "m \<le> n \<Longrightarrow> fits c m"
proof (induction m)
  case 0
  then show ?case using c0 by (simp add: fits_def)
next
  case (Suc m)
  then have fits: "fits c m" by simp
  have "2 ^ (n - Suc m) * psum c (Suc m) \<le> 2 ^ n"
    using psum_le [of "n - Suc m" c "Suc m"] Suc.prems sum by simp
  also have "\<dots> = 2 ^ (n - Suc m) * 2 ^ Suc m"
    using Suc.prems by (metis le_add_diff_inverse2 power_add)
  finally have "psum c (Suc m) \<le> 2 ^ Suc m" by (simp del: psum.simps)
  with slots_psum [OF fits] fits show ?case by (simp add: fits_Suc)
qed

lemma psum_complete:
  assumes sum: "psum c n = 2 ^ n" and c0: "c 0 = 0" and m: "m \<le> n" "\<And>k. m < k \<Longrightarrow> c k = 0"
  shows "complete c m"
proof -
  have fits: "fits c m" using sum c0 m(1) by (rule psum_fits)
  have "2 ^ (n - m) * psum c m = 2 ^ (n - m) * 2 ^ m"
    using psum_beyond [of m c "n - m"] m sum by (simp flip: power_add)
  then have "psum c m = 2 ^ m" by simp
  with slots_psum [OF fits] fits m(2) show ?thesis
    by (auto simp: complete_def dest: fits_D)
qed

subsection \<open>Code lengths\<close>

definition cnt :: "u8 list \<Rightarrow> nat \<Rightarrow> nat" where
  "cnt lens l = (if l = 0 then 0 else length (filter (\<lambda>x. unat x = l) lens))"

definition vals :: "u8 list \<Rightarrow> nat \<Rightarrow> nat list" where
  "vals lens l = (if l = 0 then [] else filter (\<lambda>i. unat (lens ! i) = l) [0..<length lens])"

definition kraft :: "u8 list \<Rightarrow> nat" where
  "kraft lens = (\<Sum>l\<leftarrow>lens. if l = 0 then 0 else 2 ^ (255 - unat l))"

lemma cnt_0 [simp]: "cnt lens 0 = 0"
  by (simp add: cnt_def)

lemma cnt_Nil [simp]: "cnt [] = (\<lambda>l. 0)"
  by (simp add: cnt_def fun_eq_iff)

lemma vals_0 [simp]: "vals lens 0 = []"
  by (simp add: vals_def)

lemma filter_upt_Suc: "filter P [0..<Suc n] = (if P 0 then [0] else []) @ map Suc (filter (P \<circ> Suc) [0..<n])"
  by (simp add: upt_conv_Cons map_Suc_upt [symmetric] filter_map comp_def del: upt_Suc)

lemma length_filter_nth: "length (filter (\<lambda>i. P (xs ! i)) [0..<length xs]) = length (filter P xs)"
proof (induction xs)
  case Nil
  show ?case by simp
next
  case (Cons x xs)
  then show ?case by (simp add: filter_upt_Suc comp_def del: upt_Suc)
qed

lemma length_vals [simp]: "length (vals lens l) = cnt lens l"
  using length_filter_nth [of "\<lambda>x. unat x = l" lens] by (simp add: vals_def cnt_def)

lemma vals_in: "j < cnt lens l \<Longrightarrow> vals lens l ! j < length lens \<and> unat (lens ! (vals lens l ! j)) = l"
proof -
  assume "j < cnt lens l"
  then have "vals lens l ! j \<in> set (vals lens l)" by simp
  then show ?thesis by (auto simp: vals_def split: if_splits)
qed

lemma cnt_beyond: "255 < l \<Longrightarrow> cnt lens l = 0"
proof -
  assume "255 < l"
  have "unat x \<noteq> l" for x :: u8 using unat_u8_less [of x] \<open>255 < l\<close> by simp
  then show ?thesis by (simp add: cnt_def)
qed

lemma cnt_pos_iff: "0 < cnt lens l \<longleftrightarrow> 0 < l \<and> (\<exists>x\<in>set lens. unat x = l)"
  by (auto simp: cnt_def filter_empty_conv)

lemma psum_add: "psum (\<lambda>l. c l + d l) n = psum c n + psum d n"
  by (induction n) simp_all

lemma psum_single: "psum (\<lambda>l. of_bool (l = k)) n = (if k \<le> n then 2 ^ (n - k) else 0)"
  by (induction n) (auto simp: le_Suc_eq Suc_diff_le)

lemma kraft_psum: "kraft lens = psum (cnt lens) 255"
proof (induction lens)
  case Nil
  have "psum (\<lambda>l. 0) n = 0" for n by (induction n) simp_all
  then show ?case by (simp add: kraft_def)
next
  case (Cons x lens)
  show ?case
  proof (cases "x = 0")
    case True
    then have "cnt (x # lens) = cnt lens" by (auto simp: cnt_def fun_eq_iff)
    with Cons True show ?thesis by (simp add: kraft_def)
  next
    case False
    have "unat x \<le> 255" using unat_u8_less [of x] by simp
    have "unat x \<noteq> 0" using False by (simp add: unat_eq_0)
    then have "cnt (x # lens) = (\<lambda>l. of_bool (l = unat x) + cnt lens l)"
      by (auto simp: cnt_def fun_eq_iff)
    then have "psum (cnt (x # lens)) 255 = 2 ^ (255 - unat x) + psum (cnt lens) 255"
      using \<open>unat x \<le> 255\<close> by (simp add: psum_add psum_single)
    with Cons False show ?thesis by (simp add: kraft_def)
  qed
qed

lemma total_le: "leaf_total (cnt lens) m \<le> length lens"
proof (induction lens)
  case Nil
  have "leaf_total (\<lambda>l. 0) m = 0" by (induction m) simp_all
  then show ?case by simp
next
  case (Cons x lens)
  have add: "leaf_total (\<lambda>l. c l + d l) m = leaf_total c m + leaf_total d m" for c d
    by (induction m) simp_all
  have single: "leaf_total (\<lambda>l. of_bool (l = k)) m \<le> 1" for k
  proof -
    have "leaf_total (\<lambda>l. of_bool (l = k)) m = of_bool (k \<le> m)" by (induction m) auto
    then show ?thesis by simp
  qed
  have le: "cnt (x # lens) l \<le> of_bool (l = unat x) + cnt lens l" for l
    by (auto simp: cnt_def)
  have mono: "leaf_total c m \<le> leaf_total d m" if "\<And>l. c l \<le> d l" for c d
    by (induction m) (auto intro: add_mono that)
  have "leaf_total (cnt (x # lens)) m \<le> leaf_total (\<lambda>l. of_bool (l = unat x) + cnt lens l) m"
    by (rule mono) (rule le)
  with Cons single [of "unat x"] show ?case by (simp add: add)
qed

subsection \<open>Canonical code words\<close>

text \<open>
  The code word of the symbol \<open>i\<close>: its length is \<open>lens ! i\<close>, its number the first code of that
  length plus the number of earlier symbols with the same length.
\<close>

definition rank :: "u8 list \<Rightarrow> nat \<Rightarrow> nat" where
  "rank lens i = length (filter (\<lambda>x. x = lens ! i) (take i lens))"

definition nat_bits :: "nat \<Rightarrow> nat \<Rightarrow> bool list" where
  "nat_bits l n = map (bit n) (rev [0..<l])"

definition canonical_code :: "u8 list \<Rightarrow> nat \<Rightarrow> bool list" where
  "canonical_code lens i =
     (let l = unat (lens ! i) in nat_bits l (first_code (cnt lens) l + rank lens i))"

fun bits_num :: "bool list \<Rightarrow> nat" where
  "bits_num [] = 0"
| "bits_num (b # bs) = of_bool b * 2 ^ length bs + bits_num bs"

lemma length_nat_bits [simp]: "length (nat_bits l n) = l"
  by (simp add: nat_bits_def)

lemma nat_bits_Suc: "nat_bits (Suc l) n = bit n l # nat_bits l n"
  by (simp add: nat_bits_def)

lemma bits_num_nat_bits: "n < 2 ^ l \<Longrightarrow> bits_num (nat_bits l n) = n"
proof -
  have "bits_num (nat_bits l n) = take_bit l n"
    by (induction l) (simp_all add: nat_bits_Suc take_bit_Suc_from_most nat_bits_def [of 0] mult.commute)
  then show "n < 2 ^ l \<Longrightarrow> ?thesis" by (simp add: take_bit_nat_eq_self)
qed

lemma bits_num_bound: "bits_num bs < 2 ^ length bs"
  by (induction bs) auto

lemma bits_num_inj: "length bs = length cs \<Longrightarrow> bits_num bs = bits_num cs \<Longrightarrow> bs = cs"
proof (induction bs cs rule: list_induct2)
  case Nil
  show ?case by simp
next
  case (Cons b bs c cs)
  have "b = c"
    using Cons.prems Cons.hyps bits_num_bound [of bs] bits_num_bound [of cs] by (cases b; cases c) simp_all
  with Cons show ?case by simp
qed

lemma nth_filter_upt:
  assumes "P i" and "i < n"
  shows "filter P [0..<n] ! length (filter P [0..<i]) = i"
proof -
  have "[0..<n] = [0..<i] @ i # [Suc i..<n]"
    using assms(2) by (metis less_imp_le_nat upt_add_eq_append upt_conv_Cons le_add_diff_inverse zero_le)
  with assms(1) show ?thesis by (simp add: nth_append)
qed

lemma rank_filter:
  assumes "i < length lens"
  shows "rank lens i = length (filter (\<lambda>j. unat (lens ! j) = unat (lens ! i)) [0..<i])"
proof -
  have "filter (\<lambda>j. unat (take i lens ! j) = unat (lens ! i)) [0..<i]
      = filter (\<lambda>j. unat (lens ! j) = unat (lens ! i)) [0..<i]"
    by (rule filter_cong) simp_all
  with length_filter_nth [of "\<lambda>x. unat x = unat (lens ! i)" "take i lens"] assms
  show ?thesis by (simp add: rank_def min_def word_unat_eq_iff)
qed

lemma vals_rank:
  assumes "i < length lens" and "lens ! i \<noteq> 0"
  shows "rank lens i < cnt lens (unat (lens ! i))" and "vals lens (unat (lens ! i)) ! rank lens i = i"
proof -
  have nz: "unat (lens ! i) \<noteq> 0" using assms(2) by (simp add: unat_eq_0)
  then show "vals lens (unat (lens ! i)) ! rank lens i = i"
    using assms(1) by (simp add: vals_def rank_filter nth_filter_upt)
  have "take (Suc i) lens @ drop (Suc i) lens = lens" by simp
  then have "length (filter (\<lambda>x. x = lens ! i) lens) =
      length (filter (\<lambda>x. x = lens ! i) (take (Suc i) lens)) + length (filter (\<lambda>x. x = lens ! i) (drop (Suc i) lens))"
    by (metis filter_append length_append)
  then show "rank lens i < cnt lens (unat (lens ! i))"
    using assms(1) nz by (simp add: cnt_def rank_def take_Suc_conv_app_nth word_unat_eq_iff)
qed

lemma rank_vals:
  assumes "j < cnt lens l"
  shows "rank lens (vals lens l ! j) = j"
proof -
  let ?i = "vals lens l ! j"
  note i = vals_in [OF assms]
  have "l \<noteq> 0" using assms by (cases l) auto
  then have "lens ! ?i \<noteq> 0" using i by auto
  note r = vals_rank [OF conjunct1 [OF i] this]
  have "distinct (vals lens l)" by (simp add: vals_def)
  with r i assms show ?thesis by (metis length_vals nth_eq_iff_index_eq)
qed

end
