(* ===== verification/Bit_Codes.thy ===== *)
theory Bit_Codes
  imports Bit_Stream Code_Lengths
begin

text \<open>
  Reading numbers from the bit stream: bounds of what is read, and the round trip with the
  fixed-width binary encoding of numbers and bytes.
\<close>

lemma of_bits_bits_num: "(of_bits bs :: 'a :: len word) = of_nat (bits_num bs)"
proof (induction bs)
  case Nil
  show ?case by simp
next
  case (Cons b bs)
  have "(of_bits ([b] @ bs) :: 'a word) = 2 ^ length bs * of_bits [b] + of_bits bs"
    by (rule of_bits_append)
  with Cons show ?case by (simp add: of_bits_single)
qed

lemma unat_of_bits_less: "unat (of_bits bs :: 'a :: len word) < 2 ^ length bs"
  using bits_num_bound [of bs] take_bit_nat_less_eq_self [of "LENGTH('a)" "bits_num bs"]
  unfolding of_bits_bits_num unsigned_of_nat of_nat_id by linarith

lemma of_bits_nat_bits: "n < 2 ^ l \<Longrightarrow> (of_bits (nat_bits l n) :: 'a :: len word) = of_nat n"
  by (simp add: of_bits_bits_num bits_num_nat_bits)

lemma unat_of_bits_nat_bits: "n < 2 ^ l \<Longrightarrow> l \<le> LENGTH('a) \<Longrightarrow> unat (of_bits (nat_bits l n) :: 'a :: len word) = n"
proof -
  assume "n < 2 ^ l" "l \<le> LENGTH('a)"
  moreover from this have "n < 2 ^ LENGTH('a)" by (meson order_less_le_trans one_le_numeral power_increasing)
  ultimately show ?thesis by (simp add: of_bits_nat_bits unat_of_nat)
qed

lemma byte_bits_nat_bits: "byte_bits b = nat_bits 8 (unat b)"
  by (rule nth_equalityI) (simp_all add: byte_bits_def nat_bits_def bit_simps)

lemma of_bits_byte_bits_u8: "of_bits (byte_bits b) = b"
  using unat_u8_less [of b] by (simp add: byte_bits_nat_bits of_bits_nat_bits)

context reader begin

lemma valid_read_bits:
  assumes "n \<le> LENGTH('t)" and "LENGTH('t) \<le> 64"
  shows "valid stream_ok (read_bits rd n :: ('r bit_stream, 'e lha_error, 't :: len word) act)
    (\<lambda>v s. stream_ok s \<and> unat v < 2 ^ n) (\<lambda>e. stream_ok)"
proof (rule validI)
  fix s :: "'r bit_stream" assume "stream_ok s"
  from this assms show "case (read_bits rd n :: ('r bit_stream, 'e lha_error, 't word) act) s of
      (Ok v, t) \<Rightarrow> stream_ok t \<and> unat v < 2 ^ n | (Err e, t) \<Rightarrow> stream_ok t | (Fault q, t) \<Rightarrow> False"
  proof (cases rule: read_bits_cases)
    case (Ok t)
    then show ?thesis
      using unat_of_bits_less [of "take n (stream_bits contents s)", where ?'a = 't] by simp
  next
    case (Err e t)
    then show ?thesis by simp
  qed
qed

lemma valid_read_bit: "valid stream_ok (read_bit rd) (\<lambda>v. stream_ok) (\<lambda>e. stream_ok)"
proof (rule validI)
  fix s :: "'r bit_stream" assume "stream_ok s"
  then show "case read_bit rd s of
      (Ok v, t) \<Rightarrow> stream_ok t | (Err e, t) \<Rightarrow> stream_ok t | (Fault q, t) \<Rightarrow> False"
    by (cases rule: read_bit_cases) simp_all
qed

end

context reliable_reader begin

lemma read_bits_nat:
  assumes "stream_ok s" and "stream_bits contents s = nat_bits l n @ rest" and "n < 2 ^ l"
    and "l \<le> LENGTH('t)" and "LENGTH('t) \<le> 64"
  obtains t where "read_bits rd l s = (Ok (of_nat n :: 't :: len word), t)" and "unat (of_nat n :: 't word) = n"
    and "stream_ok t" and "stream_bits contents t = rest"
proof -
  have "l \<le> length (stream_bits contents s)" using assms(2) by simp
  from read_bits_Ok [OF assms(1,4,5) this] obtain t where
      t: "read_bits rd l s = (Ok (of_bits (take l (stream_bits contents s)) :: 't word), t)"
        "stream_ok t" "stream_bits contents t = drop l (stream_bits contents s)"
    by blast
  have take: "take l (stream_bits contents s) = nat_bits l n" and drop: "drop l (stream_bits contents s) = rest"
    using assms(2) by simp_all
  have num: "of_bits (take l (stream_bits contents s)) = (of_nat n :: 't word)"
    unfolding take using assms(3) by (rule of_bits_nat_bits)
  have "unat (of_nat n :: 't word) = n"
    using unat_of_bits_nat_bits [OF assms(3,4)] unfolding of_bits_nat_bits [OF assms(3)] .
  with t show thesis unfolding num drop by (intro that)
qed

lemma read_bits_byte:
  assumes "stream_ok s" and "stream_bits contents s = byte_bits b @ rest"
  obtains t where "read_bits rd 8 s = (Ok b, t)" and "stream_ok t" and "stream_bits contents t = rest"
proof -
  have "8 \<le> LENGTH(8)" "LENGTH(8) \<le> 64" by simp_all
  from read_bits_nat [OF assms(1) assms(2) [unfolded byte_bits_nat_bits] _ this] unat_u8_less [of b] that
  show thesis by auto
qed

end

end
