(* ===== verification/Lzs.thy ===== *)
theory Lzs
  imports Lz_Decoder Bit_Codes
begin

text \<open>
  The \<open>-lzs-\<close> decoder of \<open>src/src/decode/lzs.rs\<close>: a flag bit tells a literal byte from a copy,
  which gives an absolute position of the ring and a length.
\<close>

subsection \<open>The program\<close>

record 'r lzs_decoder =
  lzs_bit_reader :: "'r bit_stream"
  lzs_copy_progress :: "(nat \<times> nat) option"
  lzs_ringbuf :: ring

definition lzs_new :: "'r \<Rightarrow> 'r lzs_decoder" where
  "lzs_new rd = \<lparr>lzs_bit_reader = bit_stream_new rd, lzs_copy_progress = None,
     lzs_ringbuf = set_cursor (- 17) (ring_new 2048)\<rparr>"

definition lzs_into_inner :: "'r lzs_decoder \<Rightarrow> 'r" where
  "lzs_into_inner s = inner (lzs_bit_reader s)"

definition lzs_copier :: "'r lzs_decoder copier" where
  "lzs_copier = \<lparr>cp_copy = copy_pos, cp_adv = (\<lambda>m a. (a + m) mod 2 ^ 16), cp_width = 16,
     cp_progress = lzs_copy_progress, cp_ring = lzs_ringbuf,
     cp_set = (\<lambda>p r s. s\<lparr>lzs_copy_progress := p, lzs_ringbuf := r\<rparr>)\<rparr>"

definition lzs_read :: "('r bit_stream, 'e, 'a) act \<Rightarrow> ('r lzs_decoder, 'e, 'a) act" where
  "lzs_read = zoom lzs_bit_reader (\<lambda>b s. s\<lparr>lzs_bit_reader := b\<rparr>)"

definition lzs_read_command :: "('r, 'e) read_impl \<Rightarrow> ('r lzs_decoder, 'e lha_error, lz_command) act" where
  "lzs_read_command rd = lzs_read
     (bnd (read_bit rd) (\<lambda>literal.
        if literal then bnd (read_bits rd 8) (\<lambda>value :: u8. ret (Literal value))
        else bnd (read_bits rd 11) (\<lambda>pos :: u64.
          bnd (read_bits rd 4) (\<lambda>count :: u64. ret (History (unat pos) (unat count + 2))))))"

definition lzs_fill_buffer :: "('r, 'e) read_impl \<Rightarrow> nat \<Rightarrow> ('r lzs_decoder, 'e lha_error, u8 list) act" where
  "lzs_fill_buffer rd = decode_fill lzs_copier (lzs_read_command rd)"

subsection \<open>The invariant\<close>

definition lzs_inv :: "'r lzs_decoder \<Rightarrow> bool" where
  "lzs_inv s \<longleftrightarrow> stream_ok (lzs_bit_reader s) \<and> ring_inv 11 (lzs_ringbuf s) \<and>
     progress_ok (\<lambda>m a. (a + m) mod 2 ^ 16) 16 (lzs_copy_progress s)"

lemma lzs_inv_new: "lzs_inv (lzs_new r)"
  using ring_inv_set_cursor [OF ring_inv_new, of 11 "- 17"]
  by (simp add: lzs_inv_def lzs_new_def stream_ok_new progress_ok_def)

lemma lzs_copier_sel [simp]:
  "cp_copy lzs_copier = copy_pos" "cp_adv lzs_copier = (\<lambda>m a. (a + m) mod 2 ^ 16)" "cp_width lzs_copier = 16"
  "cp_progress lzs_copier = lzs_copy_progress" "cp_ring lzs_copier = lzs_ringbuf"
  "cp_set lzs_copier = (\<lambda>p r s. s\<lparr>lzs_copy_progress := p, lzs_ringbuf := r\<rparr>)"
  by (simp_all add: lzs_copier_def)

interpretation lzs_copying: copying 11 lzs_copier lzs_inv
proof (rule copying.intro)
  show "sliding_window (ring_inv 11) window push (cp_copy lzs_copier) (cp_adv lzs_copier)"
    unfolding lzs_copier_sel by (rule win_lzs.sliding_window_axioms)
  show "copying_axioms 11 lzs_copier lzs_inv"
    by unfold_locales (simp_all add: lzs_inv_def)
qed

subsection \<open>Reading a command\<close>

lemma valid_lzs_read:
  assumes "valid stream_ok m (\<lambda>c t. stream_ok t \<and> Q c) (\<lambda>e. stream_ok)"
  shows "valid lzs_inv (lzs_read m) (\<lambda>c t. lzs_inv t \<and> Q c) (\<lambda>e. lzs_inv)"
  using assms by (fastforce simp: valid_def lzs_read_def zoom_def lzs_inv_def split: prod.splits outcome.splits)

lemma lzs_read_keeps:
  "lzs_read m s = (r, t) \<Longrightarrow> lzs_copy_progress t = lzs_copy_progress s \<and> lzs_ringbuf t = lzs_ringbuf s"
  by (auto simp: lzs_read_def zoom_def split: prod.splits)

lemma lzs_read_apply: "m (lzs_bit_reader s) = (r, t) \<Longrightarrow> lzs_read m s = (r, s\<lparr>lzs_bit_reader := t\<rparr>)"
  by (simp add: lzs_read_def zoom_def)

context reader begin

lemma valid_lzs_read_command:
  "valid lzs_inv (lzs_read_command rd) (\<lambda>c t. lzs_inv t \<and> 0 < lz_length c \<and> lz_length c < 2 ^ 16) (\<lambda>e. lzs_inv)"
  unfolding lzs_read_command_def
proof (intro valid_lzs_read valid_bnd [OF valid_read_bit] valid_if)
  have byte: "8 \<le> LENGTH(8)" "LENGTH(8) \<le> 64" and nums: "11 \<le> LENGTH(64)" "4 \<le> LENGTH(64)" "LENGTH(64) \<le> 64"
    by simp_all
  show "valid stream_ok (bnd (read_bits rd 8) (\<lambda>value :: u8. ret (Literal value)))
      (\<lambda>c t. stream_ok t \<and> 0 < lz_length c \<and> lz_length c < 2 ^ 16) (\<lambda>e. stream_ok)"
    by (rule valid_bnd [OF valid_read_bits [OF byte]]) (simp add: valid_def ret_def)
  show "valid stream_ok (bnd (read_bits rd 11) (\<lambda>pos :: u64.
          bnd (read_bits rd 4) (\<lambda>count :: u64. ret (History (unat pos) (unat count + 2)))))
      (\<lambda>c t. stream_ok t \<and> 0 < lz_length c \<and> lz_length c < 2 ^ 16) (\<lambda>e. stream_ok)"
  proof (rule valid_bnd [OF valid_read_bits [OF nums(1,3)]])
    fix pos :: u64
    show "valid (\<lambda>s. stream_ok s \<and> unat pos < 2 ^ 11)
       (bnd (read_bits rd 4) (\<lambda>count :: u64. ret (History (unat pos) (unat count + 2))))
       (\<lambda>c t. stream_ok t \<and> 0 < lz_length c \<and> lz_length c < 2 ^ 16) (\<lambda>e. stream_ok)"
      by (rule valid_bnd [OF valid_pre [OF valid_read_bits [OF nums(2,3)]]]) (simp_all add: valid_def ret_def)
  qed
qed

lemma lzs_lz_decoder: "lz_decoder 11 lzs_copier lzs_inv (lzs_read_command rd)"
proof (intro lz_decoder.intro lzs_copying.copying_axioms lz_decoder_axioms.intro)
  fix s c t
  assume inv: "lzs_inv s" and read: "lzs_read_command rd s = (Ok c, t)"
  from lzs_read_keeps [of _ s "Ok c" t] read
  have "lzs_copy_progress t = lzs_copy_progress s \<and> lzs_ringbuf t = lzs_ringbuf s"
    unfolding lzs_read_command_def by blast
  with valid_Ok [OF valid_lzs_read_command inv read]
  show "lzs_inv t \<and> cp_progress lzs_copier t = cp_progress lzs_copier s \<and>
      cp_ring lzs_copier t = cp_ring lzs_copier s \<and> 0 < lz_length c \<and> lz_length c < 2 ^ cp_width lzs_copier"
    by simp
qed

lemma lzs_read_command_no_Fault: "lzs_inv s \<Longrightarrow> lzs_read_command rd s \<noteq> (Fault q, t)"
  using valid_no_fault [OF valid_lzs_read_command, of s] by auto

end

subsection \<open>The encoding of commands\<close>

fun lzs_encode :: "lz_command \<Rightarrow> bool list" where
  "lzs_encode (Literal v) = True # byte_bits v"
| "lzs_encode (History pos n) = False # nat_bits 11 pos @ nat_bits 4 (n - 2)"

fun lzs_valid :: "lz_command \<Rightarrow> bool" where
  "lzs_valid (Literal v) \<longleftrightarrow> True"
| "lzs_valid (History pos n) \<longleftrightarrow> pos < 2048 \<and> 2 \<le> n \<and> n \<le> 17"

definition lzs_ready :: "('r \<Rightarrow> u8 list) \<Rightarrow> bool list \<Rightarrow> 'r lzs_decoder \<Rightarrow> lz_command list \<Rightarrow> bool" where
  "lzs_ready contents rest s cs \<longleftrightarrow> list_all lzs_valid cs \<and>
     stream_bits contents (lzs_bit_reader s) = concat (map lzs_encode cs) @ rest"

context reliable_reader begin

lemma lzs_read_encoded:
  assumes "stream_ok s" and "lzs_valid c" and "stream_bits contents s = lzs_encode c @ bs"
  obtains t where "bnd (read_bit rd) (\<lambda>literal.
        if literal then bnd (read_bits rd 8) (\<lambda>value :: u8. ret (Literal value))
        else bnd (read_bits rd 11) (\<lambda>pos :: u64.
          bnd (read_bits rd 4) (\<lambda>count :: u64. ret (History (unat pos) (unat count + 2))))) s = (Ok c, t)"
    and "stream_ok t" and "stream_bits contents t = bs"
proof (cases c)
  case (Literal v)
  with assms(3) have "stream_bits contents s = True # (byte_bits v @ bs)" by simp
  from read_bit_Ok [OF assms(1) this] obtain u where u: "read_bit rd s = (Ok True, u)" "stream_ok u"
      "stream_bits contents u = byte_bits v @ bs"
    by blast
  from read_bits_byte [OF u(2,3)] obtain t where "read_bits rd 8 u = (Ok v, t)" "stream_ok t" "stream_bits contents t = bs"
    by blast
  with u(1) Literal that show thesis by (simp add: bnd_Ok ret_apply)
next
  case (History pos n)
  with assms(3) have "stream_bits contents s = False # (nat_bits 11 pos @ nat_bits 4 (n - 2) @ bs)" by simp
  from read_bit_Ok [OF assms(1) this] obtain u where u: "read_bit rd s = (Ok False, u)" "stream_ok u"
      "stream_bits contents u = nat_bits 11 pos @ nat_bits 4 (n - 2) @ bs"
    by blast
  have v: "pos < 2 ^ 11" "n - 2 < 2 ^ 4" "2 \<le> n" using assms(2) History by auto
  have nums: "11 \<le> LENGTH(64)" "4 \<le> LENGTH(64)" "LENGTH(64) \<le> 64" by simp_all
  from read_bits_nat [OF u(2,3) v(1) nums(1,3)] obtain w where w: "read_bits rd 11 u = (Ok (of_nat pos :: u64), w)"
      "unat (of_nat pos :: u64) = pos" "stream_ok w" "stream_bits contents w = nat_bits 4 (n - 2) @ bs"
    by blast
  from read_bits_nat [OF w(3,4) v(2) nums(2,3)] obtain t where t: "read_bits rd 4 w = (Ok (of_nat (n - 2) :: u64), t)"
      "unat (of_nat (n - 2) :: u64) = n - 2" "stream_ok t" "stream_bits contents t = bs"
    by blast
  show thesis
  proof (rule that [OF _ t(3,4)])
    show "bnd (read_bit rd) (\<lambda>literal.
        if literal then bnd (read_bits rd 8) (\<lambda>value :: u8. ret (Literal value))
        else bnd (read_bits rd 11) (\<lambda>pos :: u64.
          bnd (read_bits rd 4) (\<lambda>count :: u64. ret (History (unat pos) (unat count + 2))))) s = (Ok c, t)"
      unfolding bnd_Ok [of "read_bit rd", OF u(1)] if_False bnd_Ok [of "read_bits rd 11", OF w(1)]
        bnd_Ok [of "read_bits rd 4", OF t(1)] w(2) t(2) ret_apply History
      using v(3) by simp
  qed
qed

lemma lzs_lz_command_decoder:
  "lz_command_decoder 11 lzs_copier lzs_inv (lzs_read_command rd) (lzs_ready contents rest)"
proof (intro lz_command_decoder.intro lzs_lz_decoder lz_command_decoder_axioms.intro)
  fix s c cs
  assume "lzs_inv s" and ready: "lzs_ready contents rest s (c # cs)"
  then have "stream_ok (lzs_bit_reader s)" "lzs_valid c" "list_all lzs_valid cs"
      "stream_bits contents (lzs_bit_reader s) = lzs_encode c @ (concat (map lzs_encode cs) @ rest)"
    by (simp_all add: lzs_inv_def lzs_ready_def)
  note facts = this
  from lzs_read_encoded [OF facts(1,2,4)] obtain t where read: "bnd (read_bit rd) (\<lambda>literal.
        if literal then bnd (read_bits rd 8) (\<lambda>value :: u8. ret (Literal value))
        else bnd (read_bits rd 11) (\<lambda>pos :: u64.
          bnd (read_bits rd 4) (\<lambda>count :: u64. ret (History (unat pos) (unat count + 2)))))
        (lzs_bit_reader s) = (Ok c, t)"
      and t: "stream_bits contents t = concat (map lzs_encode cs) @ rest"
    by blast
  have "lzs_read_command rd s = (Ok c, s\<lparr>lzs_bit_reader := t\<rparr>)"
    unfolding lzs_read_command_def using read by (rule lzs_read_apply)
  with t facts(3) show "\<exists>t. lzs_read_command rd s = (Ok c, t) \<and> lzs_ready contents rest t cs"
    by (simp add: lzs_ready_def)
next
  fix p r s cs
  show "lzs_ready contents rest (cp_set lzs_copier p r s) cs \<longleftrightarrow> lzs_ready contents rest s cs"
    by (simp add: lzs_ready_def)
next
  fix s c cs
  assume "lzs_ready contents rest s (c # cs)"
  then show "0 < lz_length c" by (cases c) (auto simp: lzs_ready_def)
qed

end

interpretation lzs_slice: lz_command_decoder 11 lzs_copier lzs_inv "lzs_read_command slice_reader"
    "lzs_ready (\<lambda>s. s) rest" for rest
  by (rule slice.lzs_lz_command_decoder)

subsection \<open>Properties\<close>

lemma lzs_decodes:
  assumes "reliable_reader rd contents" and "list_all lzs_valid cs"
    and "bytes_bits (contents r) = concat (map lzs_encode cs) @ rest"
  shows "case lz_run push copy_pos cs (lzs_ringbuf (lzs_new r)) of (bs, w) \<Rightarrow>
    \<exists>t. lzs_fill_buffer rd (length bs) (lzs_new r) = (Ok bs, t) \<and> lzs_ringbuf t = w \<and>
      lzs_copy_progress t = None \<and> stream_bits contents (lzs_bit_reader t) = rest"
proof -
  obtain bs w where run: "lz_run push copy_pos cs (lzs_ringbuf (lzs_new r)) = (bs, w)" by fastforce
  have "lzs_ready contents rest (lzs_new r) cs"
    using assms(2,3) by (simp add: lzs_ready_def lzs_new_def stream_bits_new)
  moreover have "pending_copy lzs_copier (lzs_new r) = 0"
    by (simp add: pending_copy_def lzs_new_def progress_count_def)
  ultimately obtain t where t: "lzs_fill_buffer rd (length bs) (lzs_new r) = (Ok bs, t)" "lzs_inv t"
      "pending_copy lzs_copier t = 0" "lzs_ringbuf t = w" "lzs_ready contents rest t []"
    using lz_command_decoder.decode_fill_commands [OF reliable_reader.lzs_lz_command_decoder [OF assms(1)] lzs_inv_new]
      run unfolding lzs_fill_buffer_def lzs_copier_sel by blast
  from t(2,3) have "lzs_copy_progress t = None"
    by (auto simp: lzs_inv_def progress_ok_def pending_copy_def progress_count_def split: option.splits)
  with t run show ?thesis by (auto simp: lzs_ready_def)
qed

text \<open>C23: Round trip of the LZS format: a stream that begins with the encoding of a list of valid
  commands is decoded to exactly what the commands write on the initial ring, the ring ends as
  they leave it, and what follows the encoding is left in the stream.\<close>

theorem lzs_round_trip:
  assumes "reliable_reader rd contents" and "list_all lzs_valid cs"
    and "bytes_bits (contents r) = concat (map lzs_encode cs) @ rest"
  shows "case lz_run push copy_pos cs (lzs_ringbuf (lzs_new r)) of (bs, w) \<Rightarrow>
    \<exists>t. lzs_fill_buffer rd (length bs) (lzs_new r) = (Ok bs, t) \<and> lzs_ringbuf t = w \<and>
      lzs_copy_progress t = None \<and> stream_bits contents (lzs_bit_reader t) = rest"
  using assms by (rule lzs_decodes)

lemma mask_2048: "i AND index_mask 2048 = i mod 2048"
  using and_mask_nat [of i 11] by (simp add: index_mask_def)

lemma lzs_example_run:
  "fst (lz_run push copy_pos [Literal 65, History 2031 3] (lzs_ringbuf (lzs_new r))) = [65, 65, 65, 65]"
proof -
  have "length (buffer (lzs_ringbuf (lzs_new r))) = 2048" "cursor (lzs_ringbuf (lzs_new r)) = 2031"
    by (simp_all add: lzs_new_def ring_new_def set_cursor_def mask_2048)
  then show ?thesis unfolding numeral_3_eq_3
    by (simp add: push_def copy_pos_def iter_from_pos_def hist_next_def ring_index_def mask_2048 Let_def)
qed

lemma lzs_round_trip_witness:
  "\<exists>t. lzs_fill_buffer slice_reader 4 (lzs_new [0xA0, 0xBF, 0x78, 0x80]) = (Ok [65, 65, 65, 65], t)"
proof -
  have bits: "bytes_bits [0xA0, 0xBF, 0x78, 0x80] = concat (map lzs_encode [Literal 65, History 2031 3]) @
      [False, False, False, False, False, False, False]"
    by (simp add: bytes_bits_def byte_bits_def nat_bits_def upt_rec bit_Suc_0_iff)
  have "list_all lzs_valid [Literal 65, History 2031 3]" by simp
  from lzs_round_trip [OF slice.reliable_reader_axioms this bits] show ?thesis
    using lzs_example_run [of "[0xA0, 0xBF, 0x78, 0x80] :: u8 list"] by (auto simp: eval_nat_numeral split: prod.splits)
qed

text \<open>The size of the buffers a LZS file is decoded in does not matter: from every state that can
  occur, filling a buffer of \<open>m + n\<close> bytes gives the same bytes, the same error and the same
  state as filling one of \<open>m\<close> bytes and then one of \<open>n\<close>, also where a copy is interrupted in
  between.\<close>

lemma lzs_fill_buffer_add:
  assumes "reader rd contents" and "lzs_inv s"
  shows "lzs_fill_buffer rd (m + n) s = app (lzs_fill_buffer rd m) (lzs_fill_buffer rd n) s"
  unfolding lzs_fill_buffer_def
  using lz_decoder.decode_fill_add [OF reader.lzs_lz_decoder [OF assms(1)] assms(2)] .

text \<open>The LZS decoder is safe on every input: whatever the bytes of the stream, filling a buffer
  never panics and always ends; it either fills the whole buffer and keeps the invariant or
  returns an error.\<close>

lemma lzs_fill_buffer_safe:
  assumes "reader rd contents" and "lzs_inv s"
  shows "case lzs_fill_buffer rd n s of
      (Ok bs, t) \<Rightarrow> length bs = n \<and> lzs_inv t
    | (Err e, t) \<Rightarrow> True
    | (Fault q, t) \<Rightarrow> False"
proof -
  note dec = reader.lzs_lz_decoder [OF assms(1)]
  obtain r t where fill: "lzs_fill_buffer rd n s = (r, t)" by fastforce
  show ?thesis
  proof (cases r)
    case (Ok bs)
    with fill lz_decoder.decode_fill_Ok [OF dec assms(2), of n bs t] show ?thesis
      unfolding lzs_fill_buffer_def by simp
  next
    case (Err e)
    with fill show ?thesis by simp
  next
    case (Fault q)
    with fill have "decode_fill lzs_copier (lzs_read_command rd) n s = (Fault q, t)"
      by (simp add: lzs_fill_buffer_def)
    then have False
      by (rule lz_decoder.decode_fill_Fault [where E = "\<lambda>_ _. False", OF dec _ assms(2), rotated])
        (simp add: reader.lzs_read_command_no_Fault [OF assms(1)])
    then show ?thesis by simp
  qed
qed

end
