(* ===== verification/Lz5.thy ===== *)
theory Lz5
  imports Lz_Decoder "HOL-Library.While_Combinator"
begin

text \<open>
  The \<open>-lz5-\<close> decoder of \<open>src/src/decode/lz5.rs\<close>: every group of eight commands is preceded by a
  byte of flags, which the decoder keeps in a bitmap with a sentinel bit above them.
\<close>

subsection \<open>The program\<close>

record 'r lz5_decoder =
  lz5_reader :: 'r
  lz5_bitmap :: u16
  lz5_copy_progress :: "(nat \<times> nat) option"
  lz5_ringbuf :: ring

definition ascending :: "u8 list" where
  "ascending = map of_nat [0..<256]"

text \<open>
  The initial history. The loop \<open>while ringbuf.cursor() != 0\<close> is a partial function of the model,
  its result \<open>None\<close> would be a loop that does not end.
\<close>

definition push_all :: "u8 list \<Rightarrow> ring \<Rightarrow> ring" where
  "push_all bs r = fold push bs r"

definition lz5_ring :: "ring option" where
  "lz5_ring =
     (let r = ring_new 4096;
          r = push_all (concat (map (replicate 13) ascending)) r;
          r = push_all ascending r;
          r = push_all (rev ascending) r;
          r = push_all (replicate 128 0) r;
          r = set_cursor (- 18) r
      in map_option (set_cursor (- 18)) (while_option (\<lambda>r. cursor r \<noteq> 0) (push 0) r))"

definition lz5_new :: "'r \<Rightarrow> 'r lz5_decoder option" where
  "lz5_new rd = map_option
     (\<lambda>r. \<lparr>lz5_reader = rd, lz5_bitmap = 1, lz5_copy_progress = None, lz5_ringbuf = r\<rparr>) lz5_ring"

definition lz5_into_inner :: "'r lz5_decoder \<Rightarrow> 'r" where
  "lz5_into_inner s = lz5_reader s"

definition lz5_copier :: "'r lz5_decoder copier" where
  "lz5_copier = \<lparr>cp_copy = copy_pos, cp_adv = (\<lambda>m a. (a + m) mod 2 ^ 16), cp_width = 16,
     cp_progress = lz5_copy_progress, cp_ring = lz5_ringbuf,
     cp_set = (\<lambda>p r s. s\<lparr>lz5_copy_progress := p, lz5_ringbuf := r\<rparr>)\<rparr>"

text \<open>\<open>read_exact\<close> into an array of one or two bytes.\<close>

definition lz5_read_byte :: "('r, 'e) read_impl \<Rightarrow> ('r lz5_decoder, 'e lha_error, u8) act" where
  "lz5_read_byte rd =
     bnd (zoom lz5_reader (\<lambda>r s. s\<lparr>lz5_reader := r\<rparr>) (map_err Io (rd_exact rd 1)))
       (\<lambda>bs. case bs of [b] \<Rightarrow> ret b | _ \<Rightarrow> crash Panicked)"

definition lz5_read_pair :: "('r, 'e) read_impl \<Rightarrow> ('r lz5_decoder, 'e lha_error, u8 \<times> u8) act" where
  "lz5_read_pair rd =
     bnd (zoom lz5_reader (\<lambda>r s. s\<lparr>lz5_reader := r\<rparr>) (map_err Io (rd_exact rd 2)))
       (\<lambda>bs. case bs of [lo, hi] \<Rightarrow> ret (lo, hi) | _ \<Rightarrow> crash Panicked)"

definition lz5_history :: "u8 \<times> u8 \<Rightarrow> lz_command" where
  "lz5_history cmd = (case cmd of (lo, hi) \<Rightarrow>
     let pos = push_bit 4 (unat (hi AND 0xf0)) OR unat lo;
         count = unat (hi AND 0x0f)
     in History pos (count + 3))"

text \<open>
  One iteration up to the execution of its command. The source shifts the bitmap after the
  command; as executing a command neither fails nor looks at the bitmap, the model does so before.
\<close>

definition lz5_read_command :: "('r, 'e) read_impl \<Rightarrow> ('r lz5_decoder, 'e lha_error, lz_command) act" where
  "lz5_read_command rd =
     bnd (bnd (get_state lz5_bitmap) (\<lambda>bitmap.
            if bitmap = 1 then bnd (lz5_read_byte rd) (\<lambda>byte. modify (\<lambda>s. s\<lparr>lz5_bitmap := ucast byte OR 0x0100\<rparr>))
            else ret ())) (\<lambda>_.
       bnd (get_state lz5_bitmap) (\<lambda>bitmap.
         bnd (if bitmap AND 1 = 1 then bnd (lz5_read_byte rd) (\<lambda>value. ret (Literal value))
              else bnd (lz5_read_pair rd) (\<lambda>cmd. ret (lz5_history cmd))) (\<lambda>c.
           bnd (modify (\<lambda>s. s\<lparr>lz5_bitmap := drop_bit 1 (lz5_bitmap s)\<rparr>)) (\<lambda>_. ret c))))"

text \<open>The bitmap is a local variable of the loop, written back only when the buffer is full.\<close>

definition lz5_fill_buffer :: "('r, 'e) read_impl \<Rightarrow> nat \<Rightarrow> ('r lz5_decoder, 'e lha_error, u8 list) act" where
  "lz5_fill_buffer rd n = (\<lambda>s. case decode_fill lz5_copier (lz5_read_command rd) n s of
       (Ok bs, t) \<Rightarrow> (Ok bs, t)
     | (Err e, t) \<Rightarrow> (Err e, t\<lparr>lz5_bitmap := lz5_bitmap s\<rparr>)
     | (Fault q, t) \<Rightarrow> (Fault q, t\<lparr>lz5_bitmap := lz5_bitmap s\<rparr>))"

subsection \<open>The invariant\<close>

definition lz5_inv :: "'r lz5_decoder \<Rightarrow> bool" where
  "lz5_inv s \<longleftrightarrow> ring_inv 12 (lz5_ringbuf s) \<and> progress_ok (\<lambda>m a. (a + m) mod 2 ^ 16) 16 (lz5_copy_progress s)"

lemma lz5_copier_sel [simp]:
  "cp_copy lz5_copier = copy_pos" "cp_adv lz5_copier = (\<lambda>m a. (a + m) mod 2 ^ 16)" "cp_width lz5_copier = 16"
  "cp_progress lz5_copier = lz5_copy_progress" "cp_ring lz5_copier = lz5_ringbuf"
  "cp_set lz5_copier = (\<lambda>p r s. s\<lparr>lz5_copy_progress := p, lz5_ringbuf := r\<rparr>)"
  by (simp_all add: lz5_copier_def)

interpretation lz5_copying: copying 12 lz5_copier lz5_inv
proof (rule copying.intro)
  show "sliding_window (ring_inv 12) window push (cp_copy lz5_copier) (cp_adv lz5_copier)"
    unfolding lz5_copier_sel by (rule win_lz5.sliding_window_axioms)
  show "copying_axioms 12 lz5_copier lz5_inv"
    by unfold_locales (simp_all add: lz5_inv_def)
qed

subsection \<open>The initial history\<close>

lemma push_all_buffer:
  assumes "ring_inv k r" and "cursor r + length bs \<le> 2 ^ k"
  shows "buffer (push_all bs r) = take (cursor r) (buffer r) @ bs @ drop (cursor r + length bs) (buffer r)"
    and "cursor (push_all bs r) = (cursor r + length bs) mod 2 ^ k"
    and "ring_inv k (push_all bs r)"
proof -
  have "buffer (push_all bs r) = take (cursor r) (buffer r) @ bs @ drop (cursor r + length bs) (buffer r) \<and>
      cursor (push_all bs r) = (cursor r + length bs) mod 2 ^ k \<and> ring_inv k (push_all bs r)"
    using assms
  proof (induction bs arbitrary: r)
    case Nil
    then show ?case by (simp add: push_all_def ring_inv_def)
  next
    case (Cons b bs)
    have size: "ring_size r = 2 ^ k" and cur: "cursor r < 2 ^ k" using Cons.prems by (simp_all add: ring_inv_def)
    have buf: "buffer (push b r) = (buffer r)[cursor r := b]"
      using ring_inv_mask [OF Cons.prems(1)] cur by (simp add: push_def Let_def)
    note inv' = ring_inv_push [OF Cons.prems(1), of b] and cur' = cursor_push [OF Cons.prems(1), of b]
    show ?case
    proof (cases "cursor r + 1 < 2 ^ k")
      case True
      then have c: "cursor (push b r) = cursor r + 1" using cur' by simp
      with Cons.IH [OF inv'] Cons.prems(2) show ?thesis
        using cur size by (simp add: push_all_def buf c take_Suc_conv_app_nth)
    next
      case False
      have "cursor r + 1 + length bs \<le> 2 ^ k" using Cons.prems(2) by simp
      with False have "length bs = 0" "cursor r + 1 = 2 ^ k" by linarith+
      then have bs: "bs = []" "cursor r + 1 = 2 ^ k" by simp_all
      have "take (cursor r) ((buffer r)[cursor r := b]) = take (cursor r) (buffer r)" by simp
      moreover have "(buffer r)[cursor r := b] = take (cursor r) (buffer r) @ [b] @ drop (cursor r + 1) (buffer r)"
        using cur size by (simp add: upd_conv_take_nth_drop)
      ultimately show ?thesis using inv' cur' bs size by (simp add: push_all_def buf)
    qed
  qed
  then show "buffer (push_all bs r) = take (cursor r) (buffer r) @ bs @ drop (cursor r + length bs) (buffer r)"
    and "cursor (push_all bs r) = (cursor r + length bs) mod 2 ^ k" and "ring_inv k (push_all bs r)"
    by simp_all
qed

lemma push_zeros:
  assumes "ring_inv k r" and "cursor r + n = 2 ^ k" and "0 < n" and "0 < cursor r"
  shows "while_option (\<lambda>r. cursor r \<noteq> 0) (push 0) r = Some (push_all (replicate n 0) r)"
  using assms
proof (induction n arbitrary: r)
  case 0
  then show ?case by simp
next
  case (Suc n)
  note inv' = ring_inv_push [OF Suc.prems(1), of 0] and cur' = cursor_push [OF Suc.prems(1), of 0]
  have step: "while_option (\<lambda>r. cursor r \<noteq> 0) (push 0) r = while_option (\<lambda>r. cursor r \<noteq> 0) (push 0) (push 0 r)"
    using Suc.prems(4) by (subst while_option_unfold) simp
  show ?case
  proof (cases "n = 0")
    case True
    then have "cursor (push 0 r) = 0" using cur' Suc.prems(2) by simp
    then show ?thesis unfolding step by (subst while_option_unfold) (simp add: True push_all_def)
  next
    case False
    then have "cursor (push 0 r) = cursor r + 1" using cur' Suc.prems(2) by simp
    with Suc.IH [OF inv'] Suc.prems False show ?thesis unfolding step by (simp add: push_all_def)
  qed
qed

definition lz5_initial :: "u8 list" where
  "lz5_initial = concat (map (replicate 13) ascending) @ ascending @ rev ascending @ replicate 128 0 @
     replicate 110 0x20 @ replicate 18 0"

lemma length_ascending [simp]: "length ascending = 256"
  by (simp add: ascending_def)

lemma length_thirteen: "length (concat (map (replicate 13) ascending)) = 3328"
  using length_concat_const [of "replicate 13" 13 ascending] by simp

lemma lz5_ring_eq: "lz5_ring = Some \<lparr>buffer = lz5_initial, cursor = 4078\<rparr>"
proof -
  define pre where "pre = concat (map (replicate 13) ascending) @ ascending @ rev ascending @ replicate 128 (0 :: u8)"
  have len: "length pre = 3968" by (simp add: pre_def length_thirteen)
  let ?r0 = "ring_new 4096"
  have inv0: "ring_inv 12 ?r0" using ring_inv_new [of 12] by simp
  have cur0: "cursor ?r0 = 0" and buf0: "buffer ?r0 = replicate 4096 0x20" by (simp_all add: ring_new_def)
  let ?r1 = "push_all pre ?r0"
  have fit: "cursor ?r0 + length pre \<le> 2 ^ 12" by (simp add: cur0 len)
  note r1 = push_all_buffer [OF inv0 fit]
  have buf1: "buffer ?r1 = pre @ replicate 128 0x20"
    unfolding r1(1) cur0 buf0 len take_0 append_Nil drop_replicate by simp
  let ?r2 = "set_cursor (- 18) ?r1"
  have inv2: "ring_inv 12 ?r2" using r1(3) by (rule ring_inv_set_cursor)
  have mask: "i AND index_mask 4096 = i mod 4096" for i :: nat
    using and_mask_nat [of i 12] by (simp add: index_mask_def)
  have "ring_size ?r1 = 4096" unfolding buf1 by (simp add: len)
  then have cur2: "cursor ?r2 = 4078" by (simp add: set_cursor_def mask)
  have buf2: "buffer ?r2 = pre @ replicate 128 0x20" using buf1 by (simp add: set_cursor_def)
  have "while_option (\<lambda>r. cursor r \<noteq> 0) (push 0) ?r2 = Some (push_all (replicate 18 0) ?r2)"
    by (rule push_zeros [OF inv2]) (simp_all add: cur2)
  moreover have fit2: "cursor ?r2 + length (replicate 18 (0 :: u8)) \<le> 2 ^ 12" by (simp add: cur2)
  note r3 = push_all_buffer [OF inv2 fit2]
  have buf3: "buffer (push_all (replicate 18 0) ?r2) = pre @ replicate 110 0x20 @ replicate 18 0"
    unfolding r3(1) cur2 buf2 by (simp add: len take_replicate drop_replicate)
  then have "ring_size (push_all (replicate 18 0) ?r2) = 4096" by (simp add: len)
  then have "set_cursor (- 18) (push_all (replicate 18 0) ?r2) = \<lparr>buffer = pre @ replicate 110 0x20 @ replicate 18 0, cursor = 4078\<rparr>"
    using buf3 by (simp add: set_cursor_def mask)
  moreover have "lz5_ring = map_option (set_cursor (- 18)) (while_option (\<lambda>r. cursor r \<noteq> 0) (push 0) ?r2)"
    by (simp add: lz5_ring_def push_all_def pre_def Let_def)
  ultimately show ?thesis by (simp add: lz5_initial_def pre_def)
qed

lemma length_lz5_initial: "length lz5_initial = 4096"
  by (simp add: lz5_initial_def length_thirteen)

lemma lz5_new_Some:
  obtains s where "lz5_new r = Some s" and "lz5_inv s" and "lz5_reader s = r" and "lz5_bitmap s = 1"
    and "lz5_copy_progress s = None" and "lz5_ringbuf s = \<lparr>buffer = lz5_initial, cursor = 4078\<rparr>"
  by (rule that [of "\<lparr>lz5_reader = r, lz5_bitmap = 1, lz5_copy_progress = None,
        lz5_ringbuf = \<lparr>buffer = lz5_initial, cursor = 4078\<rparr>\<rparr>"])
    (simp_all add: lz5_new_def lz5_ring_eq lz5_inv_def ring_inv_def length_lz5_initial progress_ok_def)

subsection \<open>Reading a command\<close>

lemma lz5_bitmap_inv: "lz5_inv (s\<lparr>lz5_bitmap := b\<rparr>) = lz5_inv s" "lz5_inv (s\<lparr>lz5_reader := r\<rparr>) = lz5_inv s"
  by (simp_all add: lz5_inv_def)

definition lz5_same :: "'r lz5_decoder \<Rightarrow> 'r lz5_decoder \<Rightarrow> bool" where
  "lz5_same s t \<longleftrightarrow> lz5_copy_progress t = lz5_copy_progress s \<and> lz5_ringbuf t = lz5_ringbuf s"

lemma lz5_same_inv: "lz5_same s t \<Longrightarrow> lz5_inv s \<Longrightarrow> lz5_inv t"
  by (simp add: lz5_same_def lz5_inv_def)

lemma lz5_history_length: "lz_length (lz5_history cmd) \<ge> 3" "lz_length (lz5_history cmd) < 2 ^ 16"
proof -
  obtain lo hi where cmd: "cmd = (lo, hi)" by (cases cmd)
  have "unat (hi AND 0x0f) < 256" by (rule unat_u8_less)
  then show "lz_length (lz5_history cmd) \<ge> 3" "lz_length (lz5_history cmd) < 2 ^ 16"
    unfolding lz5_history_def Let_def cmd by simp_all
qed

context reader begin

lemma lz5_exact:
  obtains (Ok) r where "zoom lz5_reader (\<lambda>r s. s\<lparr>lz5_reader := r\<rparr>) (map_err Io (rd_exact rd n)) s =
      (Ok (take n (contents (lz5_reader s))), s\<lparr>lz5_reader := r\<rparr>)" and "n \<le> length (contents (lz5_reader s))"
      and "contents r = drop n (contents (lz5_reader s))"
    | (Err) e r where "zoom lz5_reader (\<lambda>r s. s\<lparr>lz5_reader := r\<rparr>) (map_err Io (rd_exact rd n)) s =
      (Err (Io e), s\<lparr>lz5_reader := r\<rparr>)"
  by (cases rule: rd_exact_cases [of n "lz5_reader s"])
    (use that in \<open>simp_all add: zoom_def map_err_def\<close>)

lemma lz5_read_byte_cases:
  obtains (Ok) b r where "lz5_read_byte rd s = (Ok b, s\<lparr>lz5_reader := r\<rparr>)"
      and "contents (lz5_reader s) = b # contents r"
    | (Err) e r where "lz5_read_byte rd s = (Err (Io e), s\<lparr>lz5_reader := r\<rparr>)"
proof (cases rule: lz5_exact [of 1 s])
  case (Ok r)
  then obtain b bs where "contents (lz5_reader s) = b # bs" by (cases "contents (lz5_reader s)") auto
  with Ok show thesis
    by (intro that(1) [of b r]) (simp_all add: lz5_read_byte_def bnd_def ret_def)
next
  case (Err e r)
  then show thesis by (intro that(2)) (simp add: lz5_read_byte_def bnd_def)
qed

lemma lz5_read_pair_cases:
  obtains (Ok) lo hi r where "lz5_read_pair rd s = (Ok (lo, hi), s\<lparr>lz5_reader := r\<rparr>)"
      and "contents (lz5_reader s) = lo # hi # contents r"
    | (Err) e r where "lz5_read_pair rd s = (Err (Io e), s\<lparr>lz5_reader := r\<rparr>)"
proof (cases rule: lz5_exact [of 2 s])
  case (Ok r)
  then obtain lo hi bs where "contents (lz5_reader s) = lo # hi # bs"
    by (cases "contents (lz5_reader s)"; cases "tl (contents (lz5_reader s))") auto
  with Ok show thesis
    by (intro that(1) [of lo hi r]) (simp_all add: lz5_read_pair_def bnd_def ret_def)
next
  case (Err e r)
  then show thesis by (intro that(2)) (simp add: lz5_read_pair_def bnd_def)
qed

lemma valid_lz5_read_command:
  "valid (lz5_same s0) (lz5_read_command rd)
     (\<lambda>c t. lz5_same s0 t \<and> 0 < lz_length c \<and> lz_length c < 2 ^ 16) (\<lambda>e. lz5_same s0)"
  unfolding lz5_read_command_def
proof (rule valid_bnd)
  have byte: "valid (lz5_same s0) (lz5_read_byte rd) (\<lambda>b. lz5_same s0) (\<lambda>e. lz5_same s0)"
  proof (rule validI)
    fix s assume "lz5_same s0 s"
    then show "case lz5_read_byte rd s of (Ok b, t) \<Rightarrow> lz5_same s0 t | (Err e, t) \<Rightarrow> lz5_same s0 t | (Fault q, t) \<Rightarrow> False"
      by (cases rule: lz5_read_byte_cases [of s]) (simp_all add: lz5_same_def)
  qed
  have pair: "valid (lz5_same s0) (lz5_read_pair rd) (\<lambda>b. lz5_same s0) (\<lambda>e. lz5_same s0)"
  proof (rule validI)
    fix s assume "lz5_same s0 s"
    then show "case lz5_read_pair rd s of (Ok b, t) \<Rightarrow> lz5_same s0 t | (Err e, t) \<Rightarrow> lz5_same s0 t | (Fault q, t) \<Rightarrow> False"
      by (cases rule: lz5_read_pair_cases [of s]) (simp_all add: lz5_same_def)
  qed
  show "valid (lz5_same s0) (bnd (get_state lz5_bitmap) (\<lambda>bitmap.
            if bitmap = 1 then bnd (lz5_read_byte rd) (\<lambda>byte. modify (\<lambda>s. s\<lparr>lz5_bitmap := ucast byte OR 0x0100\<rparr>))
            else ret ())) (\<lambda>_. lz5_same s0) (\<lambda>e. lz5_same s0)"
    by (intro valid_bnd [where R = "\<lambda>_. lz5_same s0"] valid_if byte)
      (simp_all add: valid_def get_state_def modify_def ret_def lz5_same_def)
  have cmd: "valid (lz5_same s0)
      (if bitmap AND 1 = 1 then bnd (lz5_read_byte rd) (\<lambda>value. ret (Literal value))
       else bnd (lz5_read_pair rd) (\<lambda>cmd. ret (lz5_history cmd)))
      (\<lambda>c t. lz5_same s0 t \<and> 0 < lz_length c \<and> lz_length c < 2 ^ 16) (\<lambda>e. lz5_same s0)" for bitmap :: u16
  proof (intro valid_if valid_bnd [OF byte] valid_bnd [OF pair])
    fix val cmd
    show "valid (lz5_same s0) (ret (Literal val))
        (\<lambda>c t. lz5_same s0 t \<and> 0 < lz_length c \<and> lz_length c < 2 ^ 16) (\<lambda>e. lz5_same s0)"
      by (simp add: valid_def ret_def)
    show "valid (lz5_same s0) (ret (lz5_history cmd))
        (\<lambda>c t. lz5_same s0 t \<and> 0 < lz_length c \<and> lz_length c < 2 ^ 16) (\<lambda>e. lz5_same s0)"
      using lz5_history_length [of cmd] by (simp add: valid_def ret_def)
  qed
  fix u
  show "valid (lz5_same s0) (bnd (get_state lz5_bitmap) (\<lambda>bitmap.
         bnd (if bitmap AND 1 = 1 then bnd (lz5_read_byte rd) (\<lambda>value. ret (Literal value))
              else bnd (lz5_read_pair rd) (\<lambda>cmd. ret (lz5_history cmd))) (\<lambda>c.
           bnd (modify (\<lambda>s. s\<lparr>lz5_bitmap := drop_bit 1 (lz5_bitmap s)\<rparr>)) (\<lambda>_. ret c))))
     (\<lambda>c t. lz5_same s0 t \<and> 0 < lz_length c \<and> lz_length c < 2 ^ 16) (\<lambda>e. lz5_same s0)"
  proof (rule valid_bnd [where R = "\<lambda>_. lz5_same s0"], simp add: valid_def get_state_def)
    fix bitmap :: u16
    show "valid (lz5_same s0) (bnd (if bitmap AND 1 = 1 then bnd (lz5_read_byte rd) (\<lambda>value. ret (Literal value))
              else bnd (lz5_read_pair rd) (\<lambda>cmd. ret (lz5_history cmd))) (\<lambda>c.
           bnd (modify (\<lambda>s. s\<lparr>lz5_bitmap := drop_bit 1 (lz5_bitmap s)\<rparr>)) (\<lambda>_. ret c)))
       (\<lambda>c t. lz5_same s0 t \<and> 0 < lz_length c \<and> lz_length c < 2 ^ 16) (\<lambda>e. lz5_same s0)"
      by (rule valid_bnd [OF cmd]) (simp add: valid_def modify_def bnd_def ret_def lz5_same_def)
  qed
qed

lemma lz5_lz_decoder: "lz_decoder 12 lz5_copier lz5_inv (lz5_read_command rd)"
proof (intro lz_decoder.intro lz5_copying.copying_axioms lz_decoder_axioms.intro)
  fix s c t
  assume inv: "lz5_inv s" and read: "lz5_read_command rd s = (Ok c, t)"
  have "lz5_same s s" by (simp add: lz5_same_def)
  from valid_Ok [OF valid_lz5_read_command this read] lz5_same_inv [OF _ inv]
  show "lz5_inv t \<and> cp_progress lz5_copier t = cp_progress lz5_copier s \<and>
      cp_ring lz5_copier t = cp_ring lz5_copier s \<and> 0 < lz_length c \<and> lz_length c < 2 ^ cp_width lz5_copier"
    by (simp add: lz5_same_def)
qed

lemma lz5_read_command_no_Fault: "lz5_read_command rd s \<noteq> (Fault q, t)"
  using valid_no_fault [OF valid_lz5_read_command [of s], of s] by (auto simp: lz5_same_def)

end

subsection \<open>The encoding of commands\<close>

fun lz5_flag :: "lz_command \<Rightarrow> bool" where
  "lz5_flag (Literal v) = True"
| "lz5_flag (History pos n) = False"

fun lz5_payload :: "lz_command \<Rightarrow> u8 list" where
  "lz5_payload (Literal v) = [v]"
| "lz5_payload (History pos n) = [of_nat (pos mod 256), of_nat (16 * (pos div 256) + (n - 3))]"

fun lz5_valid :: "lz_command \<Rightarrow> bool" where
  "lz5_valid (Literal v) \<longleftrightarrow> True"
| "lz5_valid (History pos n) \<longleftrightarrow> pos < 4096 \<and> 3 \<le> n \<and> n \<le> 18"

text \<open>The flags of a group, the first in the lowest bit; missing ones are zero.\<close>

definition flags :: "lz_command list \<Rightarrow> bool list" where
  "flags cs = take 8 (map lz5_flag cs @ replicate 8 False)"

definition flag_byte :: "bool list \<Rightarrow> u8" where
  "flag_byte fl = horner_sum of_bool 2 fl"

definition bitmap_of :: "bool list \<Rightarrow> u16" where
  "bitmap_of fl = horner_sum of_bool 2 (fl @ [True])"

function lz5_encode :: "lz_command list \<Rightarrow> u8 list" where
  "lz5_encode cs = (if cs = [] then [] else
     flag_byte (flags cs) # concat (map lz5_payload (take 8 cs)) @ lz5_encode (drop 8 cs))"
  by pat_completeness auto
termination by (relation "measure length") auto

declare lz5_encode.simps [simp del]

lemma length_flags [simp]: "length (flags cs) = 8"
  by (simp add: flags_def)

lemma bit_bitmap_of: "length fl \<le> 8 \<Longrightarrow> bit (bitmap_of fl) i \<longleftrightarrow> (if i < length fl then fl ! i else i = length fl)"
  by (auto simp: bitmap_of_def bit_horner_sum_bit_word_iff nth_append)

lemma bitmap_of_eq_1: "length fl \<le> 8 \<Longrightarrow> bitmap_of fl = 1 \<longleftrightarrow> fl = []"
proof
  assume len: "length fl \<le> 8" and "bitmap_of fl = 1"
  then have "bit (1 :: u16) (length fl)" using bit_bitmap_of [OF len, of "length fl"] by simp
  then show "fl = []" by (simp add: bit_1_iff)
qed (simp add: bitmap_of_def)

lemma bitmap_of_low: "length fl \<le> 7 \<Longrightarrow> bitmap_of (b # fl) AND 1 = 1 \<longleftrightarrow> b"
proof -
  assume "length fl \<le> 7"
  then have "bit (bitmap_of (b # fl)) 0 = b" by (simp add: bit_bitmap_of)
  then have "odd (bitmap_of (b # fl)) = b" by (simp add: bit_0)
  then show ?thesis by (simp add: and_one_eq odd_iff_mod_2_eq_one)
qed

lemma bitmap_of_drop: "length fl \<le> 7 \<Longrightarrow> drop_bit 1 (bitmap_of (b # fl)) = bitmap_of fl"
  by (rule bit_word_eqI) (auto simp: bit_drop_bit_eq bit_bitmap_of)

lemma bitmap_of_byte: "length fl = 8 \<Longrightarrow> ucast (flag_byte fl) OR 0x0100 = bitmap_of fl"
proof (rule bit_word_eqI)
  fix i assume len: "length fl = 8" and "i < LENGTH(16)"
  have "(0x0100 :: u16) = push_bit 8 1" by simp
  then have "bit (0x0100 :: u16) i \<longleftrightarrow> i = 8" using \<open>i < LENGTH(16)\<close>
    by (simp only: bit_push_bit_iff bit_1_iff possible_bit_word) auto
  then show "bit (ucast (flag_byte fl) OR 0x0100 :: u16) i = bit (bitmap_of fl) i"
    using len \<open>i < LENGTH(16)\<close>
    by (auto simp: bit_or_iff bit_ucast_iff flag_byte_def bit_horner_sum_bit_word_iff bit_bitmap_of)
qed

lemma high_nibble: "unat ((hi :: u8) AND 0xf0) = 16 * (unat hi div 16)"
proof -
  have "hi AND 0xf0 = push_bit 4 (drop_bit 4 hi)"
  proof (rule bit_word_eqI)
    fix i assume i: "i < LENGTH(8)"
    then consider "i = 0" | "i = 1" | "i = 2" | "i = 3" | "i = 4" | "i = 5" | "i = 6" | "i = 7" by fastforce
    then show "bit (hi AND 0xf0) i = bit (push_bit 4 (drop_bit 4 hi)) i"
      by cases (simp_all add: bit_simps)
  qed
  then have "unat (hi AND 0xf0) = take_bit 8 (push_bit 4 (drop_bit 4 (unat hi)))"
    using unat_u8_less [of hi] by (simp add: unsigned_push_bit_eq unsigned_drop_bit_eq take_bit_nat_eq_self)
  also have "\<dots> = 16 * (unat hi div 16)"
    using unat_u8_less [of hi] by (simp add: take_bit_eq_mod push_bit_eq_mult drop_bit_eq_div)
  finally show ?thesis .
qed

lemma low_nibble: "unat ((hi :: u8) AND 0x0f) = unat hi mod 16"
  using and_mask_nat [of "unat hi" 4] by (simp add: unsigned_and_eq)

lemma or_byte: "(lo::nat) < 256 \<Longrightarrow> push_bit 8 a OR lo = 256 * a + lo"
proof -
  assume "lo < 256"
  then have "take_bit 8 lo = lo" by (simp add: take_bit_eq_mod)
  then have lo: "bit lo n \<longleftrightarrow> n < 8 \<and> bit lo n" for n by (metis bit_take_bit_iff)
  have "push_bit 8 a AND lo = 0"
  proof (rule bit_eqI)
    fix n
    show "bit (push_bit 8 a AND lo) n \<longleftrightarrow> bit (0 :: nat) n"
      using lo [of n] by (auto simp: bit_and_iff bit_push_bit_iff)
  qed
  then have "push_bit 8 a OR lo = push_bit 8 a + lo" by (simp add: disjunctive_add_eq_or)
  then show ?thesis by (simp add: push_bit_eq_mult)
qed

lemma lz5_history_payload:
  assumes "lz5_valid (History pos n)"
  shows "lz5_history (of_nat (pos mod 256), of_nat (16 * (pos div 256) + (n - 3))) = History pos n"
proof -
  let ?hi = "of_nat (16 * (pos div 256) + (n - 3)) :: u8"
  have n: "n - 3 < 16" "3 \<le> n" and pos: "pos div 256 < 16" using assms by auto
  then have "16 * (pos div 256) + (n - 3) < 256" by linarith
  then have hi: "unat ?hi = 16 * (pos div 256) + (n - 3)" unfolding unat_of_nat by simp
  have "unat ?hi div 16 = pos div 256" "unat ?hi mod 16 = n - 3" unfolding hi using n(1) by simp_all
  then have h: "unat (?hi AND 0xf0) = 16 * (pos div 256)" "unat (?hi AND 0x0f) = n - 3"
    by (simp_all only: high_nibble low_nibble)
  have lo: "unat (of_nat (pos mod 256) :: u8) = pos mod 256" by (simp add: unat_of_nat)
  have "push_bit 4 (16 * (pos div 256)) OR (pos mod 256) = pos"
  proof -
    have "push_bit 4 (16 * (pos div 256)) = push_bit 8 (pos div 256)" by (simp add: push_bit_eq_mult)
    then show ?thesis using or_byte [of "pos mod 256" "pos div 256"] by simp
  qed
  then show ?thesis unfolding lz5_history_def Let_def prod.case h lo using n(2) by simp
qed

definition lz5_ready :: "('r \<Rightarrow> u8 list) \<Rightarrow> u8 list \<Rightarrow> 'r lz5_decoder \<Rightarrow> lz_command list \<Rightarrow> bool" where
  "lz5_ready contents rest s cs \<longleftrightarrow> list_all lz5_valid cs \<and>
     (\<exists>fl. length fl \<le> 8 \<and> lz5_bitmap s = bitmap_of fl \<and>
        take (length cs) fl = map lz5_flag (take (length fl) cs) \<and>
        contents (lz5_reader s) =
          concat (map lz5_payload (take (length fl) cs)) @ lz5_encode (drop (length fl) cs) @ rest)"

lemma take_flags: "take (length cs) (flags cs) = map lz5_flag (take 8 cs)"
  by (cases "length cs \<le> 8") (simp_all add: flags_def take_map)

lemma lz5_encode_Nil [simp]: "lz5_encode [] = []"
  by (simp add: lz5_encode.simps)

context reliable_reader begin

lemma lz5_exact_Ok:
  assumes "contents (lz5_reader s) = bs @ xs"
  obtains r where "zoom lz5_reader (\<lambda>r s. s\<lparr>lz5_reader := r\<rparr>) (map_err Io (rd_exact rd (length bs))) s =
      (Ok bs, s\<lparr>lz5_reader := r\<rparr>)" and "contents r = xs"
proof -
  have "length bs \<le> length (contents (lz5_reader s))" using assms by simp
  then obtain r where "rd_exact rd (length bs) (lz5_reader s) = (Ok (take (length bs) (contents (lz5_reader s))), r)"
      "contents r = drop (length bs) (contents (lz5_reader s))"
    by (rule rd_exact_reliable)
  with assms show thesis by (intro that) (simp_all add: zoom_def map_err_def)
qed

lemma lz5_read_byte_Ok:
  assumes "contents (lz5_reader s) = b # xs"
  obtains r where "lz5_read_byte rd s = (Ok b, s\<lparr>lz5_reader := r\<rparr>)" and "contents r = xs"
proof -
  from assms obtain r where "zoom lz5_reader (\<lambda>r s. s\<lparr>lz5_reader := r\<rparr>) (map_err Io (rd_exact rd (length [b]))) s =
      (Ok [b], s\<lparr>lz5_reader := r\<rparr>)" and r: "contents r = xs"
    using lz5_exact_Ok [of s "[b]" xs] by auto
  then show thesis by (intro that) (simp_all add: lz5_read_byte_def bnd_def ret_def)
qed

lemma lz5_read_pair_Ok:
  assumes "contents (lz5_reader s) = lo # hi # xs"
  obtains r where "lz5_read_pair rd s = (Ok (lo, hi), s\<lparr>lz5_reader := r\<rparr>)" and "contents r = xs"
proof -
  from assms obtain r where "zoom lz5_reader (\<lambda>r s. s\<lparr>lz5_reader := r\<rparr>) (map_err Io (rd_exact rd (length [lo, hi]))) s =
      (Ok [lo, hi], s\<lparr>lz5_reader := r\<rparr>)" and r: "contents r = xs"
    using lz5_exact_Ok [of s "[lo, hi]" xs] by auto
  then show thesis by (intro that) (simp_all add: lz5_read_pair_def bnd_def ret_def numeral_2_eq_2)
qed

lemma lz5_read_command_bit:
  assumes "length fl \<le> 7" and "lz5_bitmap s = bitmap_of (lz5_flag c # fl)" and "lz5_valid c"
    and "contents (lz5_reader s) = lz5_payload c @ xs"
  obtains r where "lz5_read_command rd s = (Ok c, s\<lparr>lz5_reader := r, lz5_bitmap := bitmap_of fl\<rparr>)" and "contents r = xs"
proof -
  have ne: "lz5_bitmap s \<noteq> 1" using assms(1,2) bitmap_of_eq_1 [of "lz5_flag c # fl"] by simp
  have low: "lz5_bitmap s AND 1 = 1 \<longleftrightarrow> lz5_flag c" using assms(1,2) bitmap_of_low [of fl] by simp
  have shift: "drop_bit 1 (lz5_bitmap s) = bitmap_of fl" using assms(1,2) bitmap_of_drop [of fl] by simp
  show thesis
  proof (cases c)
    case (Literal v)
    with assms(4) obtain r where "lz5_read_byte rd s = (Ok v, s\<lparr>lz5_reader := r\<rparr>)" "contents r = xs"
      using lz5_read_byte_Ok [of s v xs] by auto
    with Literal show thesis
      by (intro that) (simp_all add: lz5_read_command_def bnd_def get_state_def ret_def modify_def ne low shift del: One_nat_def)
  next
    case (History pos n)
    define lo hi where "lo = (of_nat (pos mod 256) :: u8)" and "hi = (of_nat (16 * (pos div 256) + (n - 3)) :: u8)"
    have "contents (lz5_reader s) = lo # hi # xs" using assms(4) History by (simp add: lo_def hi_def)
    then obtain r where r: "lz5_read_pair rd s = (Ok (lo, hi), s\<lparr>lz5_reader := r\<rparr>)" "contents r = xs"
      by (rule lz5_read_pair_Ok)
    have h: "lz5_history (lo, hi) = c"
      using lz5_history_payload [of pos n] assms(3) History unfolding lo_def hi_def by simp
    have low': "lz5_bitmap s AND 1 \<noteq> 1" using low History by simp
    have "lz5_read_command rd s = (Ok c, s\<lparr>lz5_reader := r, lz5_bitmap := bitmap_of fl\<rparr>)"
      by (simp add: lz5_read_command_def bnd_def get_state_def ret_def modify_def ne low' shift r(1) h del: One_nat_def)
    with r(2) show thesis by (intro that)
  qed
qed

lemma lz5_read_command_group:
  assumes "length fl = 8" and "lz5_bitmap s = 1" and "contents (lz5_reader s) = flag_byte fl # xs"
  obtains r where "lz5_read_command rd s = lz5_read_command rd (s\<lparr>lz5_reader := r, lz5_bitmap := bitmap_of fl\<rparr>)"
    and "contents r = xs"
proof -
  from assms(3) obtain r where r: "lz5_read_byte rd s = (Ok (flag_byte fl), s\<lparr>lz5_reader := r\<rparr>)" "contents r = xs"
    by (rule lz5_read_byte_Ok)
  have ne: "bitmap_of fl \<noteq> 1" using assms(1) bitmap_of_eq_1 [of fl] by auto
  have "lz5_read_command rd s = lz5_read_command rd (s\<lparr>lz5_reader := r, lz5_bitmap := bitmap_of fl\<rparr>)"
    using assms(2) r(1) ne bitmap_of_byte [OF assms(1)]
    by (simp add: lz5_read_command_def bnd_def get_state_def ret_def modify_def)
  with r(2) show thesis by (intro that)
qed

lemma lz5_read_ready_bit:
  assumes "list_all lz5_valid (c # cs)" and "length fl \<le> 7" and "lz5_bitmap s = bitmap_of (b # fl)"
    and "take (length (c # cs)) (b # fl) = map lz5_flag (take (length (b # fl)) (c # cs))"
    and "contents (lz5_reader s) =
      concat (map lz5_payload (take (length (b # fl)) (c # cs))) @ lz5_encode (drop (length (b # fl)) (c # cs)) @ rest"
  shows "\<exists>t. lz5_read_command rd s = (Ok c, t) \<and> lz5_ready contents rest t cs"
proof -
  have bitmap: "lz5_bitmap s = bitmap_of (lz5_flag c # fl)" using assms(3,4) by simp
  have valid: "lz5_valid c" using assms(1) by simp
  from assms(5) have "contents (lz5_reader s) = lz5_payload c @
      (concat (map lz5_payload (take (length fl) cs)) @ lz5_encode (drop (length fl) cs) @ rest)"
    by simp
  from lz5_read_command_bit [OF assms(2) bitmap valid this] obtain r where
      r: "lz5_read_command rd s = (Ok c, s\<lparr>lz5_reader := r, lz5_bitmap := bitmap_of fl\<rparr>)"
        "contents r = concat (map lz5_payload (take (length fl) cs)) @ lz5_encode (drop (length fl) cs) @ rest"
    by blast
  have "lz5_ready contents rest (s\<lparr>lz5_reader := r, lz5_bitmap := bitmap_of fl\<rparr>) cs"
    using assms(1,2,4) r(2) by (auto simp: lz5_ready_def intro!: exI [of _ fl])
  with r(1) show ?thesis by blast
qed

lemma lz5_read_ready:
  assumes "lz5_ready contents rest s (c # cs)"
  shows "\<exists>t. lz5_read_command rd s = (Ok c, t) \<and> lz5_ready contents rest t cs"
proof -
  let ?cs = "c # cs"
  from assms obtain fl where valid: "list_all lz5_valid ?cs" and fl: "length fl \<le> 8" "lz5_bitmap s = bitmap_of fl"
      "take (length ?cs) fl = map lz5_flag (take (length fl) ?cs)"
      "contents (lz5_reader s) = concat (map lz5_payload (take (length fl) ?cs)) @ lz5_encode (drop (length fl) ?cs) @ rest"
    unfolding lz5_ready_def by blast
  show ?thesis
  proof (cases fl)
    case (Cons b fl')
    then show ?thesis using fl valid by (intro lz5_read_ready_bit [of c cs fl' s b]) simp_all
  next
    case Nil
    with fl have "lz5_bitmap s = 1" by (simp add: bitmap_of_eq_1)
    moreover have "contents (lz5_reader s) = flag_byte (flags ?cs) #
        (concat (map lz5_payload (take 8 ?cs)) @ lz5_encode (drop 8 ?cs) @ rest)"
      using fl(4) Nil by (subst (asm) lz5_encode.simps) simp
    ultimately obtain r where r: "lz5_read_command rd s = lz5_read_command rd (s\<lparr>lz5_reader := r, lz5_bitmap := bitmap_of (flags ?cs)\<rparr>)"
        "contents r = concat (map lz5_payload (take 8 ?cs)) @ lz5_encode (drop 8 ?cs) @ rest"
      by (rule lz5_read_command_group [OF length_flags])
    obtain b fl' where f: "flags ?cs = b # fl'" "length fl' = 7"
      using length_flags [of ?cs] by (cases "flags ?cs") auto
    let ?s = "s\<lparr>lz5_reader := r, lz5_bitmap := bitmap_of (flags ?cs)\<rparr>"
    have "\<exists>t. lz5_read_command rd ?s = (Ok c, t) \<and> lz5_ready contents rest t cs"
    proof (rule lz5_read_ready_bit [OF valid])
      have eight: "length (b # fl') = 8" using f(2) by simp
      show "length fl' \<le> 7" using f(2) by simp
      show "lz5_bitmap ?s = bitmap_of (b # fl')" by (simp add: f(1))
      show "take (length ?cs) (b # fl') = map lz5_flag (take (length (b # fl')) ?cs)"
        using take_flags [of ?cs] unfolding f(1) eight .
      show "contents (lz5_reader ?s) = concat (map lz5_payload (take (length (b # fl')) ?cs)) @
          lz5_encode (drop (length (b # fl')) ?cs) @ rest"
        unfolding eight using r(2) by simp
    qed
    then show ?thesis unfolding r(1) .
  qed
qed

lemma lz5_lz_command_decoder:
  "lz_command_decoder 12 lz5_copier lz5_inv (lz5_read_command rd) (lz5_ready contents rest)"
proof (intro lz_command_decoder.intro lz5_lz_decoder lz_command_decoder_axioms.intro)
  fix s c cs
  assume "lz5_ready contents rest s (c # cs)"
  then show "\<exists>t. lz5_read_command rd s = (Ok c, t) \<and> lz5_ready contents rest t cs" by (rule lz5_read_ready)
next
  fix p r s cs
  show "lz5_ready contents rest (cp_set lz5_copier p r s) cs \<longleftrightarrow> lz5_ready contents rest s cs"
    by (simp add: lz5_ready_def)
next
  fix s c cs
  assume "lz5_ready contents rest s (c # cs)"
  then show "0 < lz_length c" by (cases c) (auto simp: lz5_ready_def)
qed

end

interpretation lz5_slice: lz_command_decoder 12 lz5_copier lz5_inv "lz5_read_command slice_reader"
    "lz5_ready (\<lambda>s. s) rest" for rest
  by (rule slice.lz5_lz_command_decoder)

subsection \<open>Properties\<close>

text \<open>The LZ5 decoder starts, its initialisation loop ends, and its ring holds the documented
  initial history: thirteen of every byte value, all values ascending and descending, 128 zeroes,
  110 spaces and a margin of 18 zeroes, with the cursor 18 bytes before the end.\<close>

lemma lz5_new_history:
  "lz5_new rd = Some \<lparr>lz5_reader = rd, lz5_bitmap = 1, lz5_copy_progress = None,
     lz5_ringbuf = \<lparr>buffer = concat (map (replicate 13) ascending) @ ascending @ rev ascending @ replicate 128 0 @
       replicate 110 0x20 @ replicate 18 0, cursor = 4096 - 18\<rparr>\<rparr>"
  by (simp add: lz5_new_def lz5_ring_eq lz5_initial_def)

lemma lz5_decodes:
  assumes "reliable_reader rd contents" and "list_all lz5_valid cs" and "contents r = lz5_encode cs @ rest"
  shows "\<exists>s t bs. lz5_new r = Some s \<and> lz5_fill_buffer rd (length bs) s = (Ok bs, t) \<and>
    lz_run push copy_pos cs (lz5_ringbuf s) = (bs, lz5_ringbuf t) \<and>
    lz5_copy_progress t = None \<and> contents (lz5_reader t) = rest"
proof -
  obtain s where s: "lz5_new r = Some s" "lz5_inv s" "lz5_reader s = r" "lz5_bitmap s = 1" "lz5_copy_progress s = None"
    by (rule lz5_new_Some)
  obtain bs w where run: "lz_run push copy_pos cs (lz5_ringbuf s) = (bs, w)" by fastforce
  have "lz5_ready contents rest s cs"
    using assms(2,3) s(3,4) by (auto simp: lz5_ready_def bitmap_of_def intro!: exI [of _ "[]"])
  moreover have "pending_copy lz5_copier s = 0" using s(5) by (simp add: pending_copy_def progress_count_def)
  ultimately obtain t where t: "decode_fill lz5_copier (lz5_read_command rd) (length bs) s = (Ok bs, t)" "lz5_inv t"
      "pending_copy lz5_copier t = 0" "lz5_ringbuf t = w" "lz5_ready contents rest t []"
    using lz_command_decoder.decode_fill_commands [OF reliable_reader.lz5_lz_command_decoder [OF assms(1)] s(2)]
      run unfolding lz5_copier_sel by blast
  from t(2,3) have "lz5_copy_progress t = None"
    by (auto simp: lz5_inv_def progress_ok_def pending_copy_def progress_count_def split: option.splits)
  moreover have "contents (lz5_reader t) = rest" using t(5) by (auto simp: lz5_ready_def)
  moreover have "lz5_fill_buffer rd (length bs) s = (Ok bs, t)" using t(1) by (simp add: lz5_fill_buffer_def)
  ultimately show ?thesis using s(1) run t(4) by blast
qed

text \<open>C22: Round trip of the LZ5 format: a stream that begins with the encoding of a list of valid
  commands, a byte of flags before every group of eight, is decoded to exactly what the commands
  write on the initial history, and what follows the encoding is left in the stream.\<close>

theorem lz5_round_trip:
  assumes "reliable_reader rd contents" and "list_all lz5_valid cs" and "contents r = lz5_encode cs @ rest"
  shows "\<exists>s t bs. lz5_new r = Some s \<and> lz5_fill_buffer rd (length bs) s = (Ok bs, t) \<and>
    lz_run push copy_pos cs (lz5_ringbuf s) = (bs, lz5_ringbuf t) \<and>
    lz5_copy_progress t = None \<and> contents (lz5_reader t) = rest"
  using assms by (rule lz5_decodes)

lemma lz5_round_trip_witness:
  "\<exists>s t. lz5_new [0x01, 65, 0xee, 0xf0] = Some s \<and> lz5_fill_buffer slice_reader 4 s = (Ok [65, 65, 65, 65], t)"
proof -
  let ?cs = "[Literal 65, History 4078 3]"
  have "list_all lz5_valid ?cs" by simp
  moreover have "[0x01, 65, 0xee, 0xf0] = lz5_encode ?cs @ []"
  proof -
    have "flags ?cs = [True, False, False, False, False, False, False, False]"
      by (simp add: flags_def numeral_eq_Suc)
    then have "flag_byte (flags ?cs) = 1" by (simp add: flag_byte_def)
    then show ?thesis by (simp add: lz5_encode.simps)
  qed
  ultimately obtain s t bs where s: "lz5_new [0x01, 65, 0xee, 0xf0] = Some s"
      "lz5_fill_buffer slice_reader (length bs) s = (Ok bs, t)" "lz_run push copy_pos ?cs (lz5_ringbuf s) = (bs, lz5_ringbuf t)"
    using lz5_round_trip [OF slice.reliable_reader_axioms, of ?cs "[0x01, 65, 0xee, 0xf0]" "[]"] by auto
  have mask: "i AND index_mask 4096 = i mod 4096" for i :: nat
    using and_mask_nat [of i 12] by (simp add: index_mask_def)
  have "lz5_ringbuf s = \<lparr>buffer = lz5_initial, cursor = 4078\<rparr>" using s(1) by (auto simp: lz5_new_def lz5_ring_eq)
  then have "length (buffer (lz5_ringbuf s)) = 4096" "cursor (lz5_ringbuf s) = 4078"
    by (simp_all add: length_lz5_initial)
  then have "fst (lz_run push copy_pos ?cs (lz5_ringbuf s)) = [65, 65, 65, 65]" unfolding numeral_3_eq_3
    by (simp add: push_def copy_pos_def iter_from_pos_def hist_next_def ring_index_def mask Let_def)
  then have "bs = [65, 65, 65, 65]" using s(3) by simp
  with s(1,2) show ?thesis by (auto simp: eval_nat_numeral)
qed

text \<open>The size of the buffers a LZ5 file is decoded in does not matter: filling a buffer of
  \<open>m + n\<close> bytes succeeds exactly when filling one of \<open>m\<close> bytes and then one of \<open>n\<close> does, with the
  same bytes and the same state, and otherwise gives the same error.\<close>

lemma lz5_fill_buffer_add:
  assumes "reader rd contents" and "lz5_inv s"
  shows "fst (lz5_fill_buffer rd (m + n) s) = fst (app (lz5_fill_buffer rd m) (lz5_fill_buffer rd n) s) \<and>
    (lz5_fill_buffer rd (m + n) s = (Ok bs, t) \<longleftrightarrow> app (lz5_fill_buffer rd m) (lz5_fill_buffer rd n) s = (Ok bs, t))"
proof -
  let ?f = "decode_fill lz5_copier (lz5_read_command rd)"
  have add: "?f (m + n) s = app (?f m) (?f n) s"
    using lz_decoder.decode_fill_add [OF reader.lz5_lz_decoder [OF assms(1)] assms(2)] .
  have "fst (lz5_fill_buffer rd (m + n) s) = fst (app (lz5_fill_buffer rd m) (lz5_fill_buffer rd n) s)"
    using add by (auto simp: lz5_fill_buffer_def app_def bnd_def ret_def split: prod.splits outcome.splits)
  moreover have "lz5_fill_buffer rd (m + n) s = (Ok bs, t) \<longleftrightarrow> app (lz5_fill_buffer rd m) (lz5_fill_buffer rd n) s = (Ok bs, t)"
    using add by (auto simp: lz5_fill_buffer_def app_def bnd_def ret_def split: prod.splits outcome.splits)
  ultimately show ?thesis by simp
qed

text \<open>The LZ5 decoder is safe on every input: filling a buffer never panics and always ends; it
  fills the whole buffer and keeps the invariant, or returns an error.\<close>

lemma lz5_fill_buffer_safe:
  assumes "reader rd contents" and "lz5_inv s"
  shows "case lz5_fill_buffer rd n s of
      (Ok bs, t) \<Rightarrow> length bs = n \<and> lz5_inv t
    | (Err e, t) \<Rightarrow> True
    | (Fault q, t) \<Rightarrow> False"
proof -
  note dec = reader.lz5_lz_decoder [OF assms(1)]
  obtain r t where fill: "decode_fill lz5_copier (lz5_read_command rd) n s = (r, t)" by fastforce
  show ?thesis
  proof (cases r)
    case (Ok bs)
    with fill lz_decoder.decode_fill_Ok [OF dec assms(2), of n bs t] show ?thesis
      by (simp add: lz5_fill_buffer_def)
  next
    case (Err e)
    with fill show ?thesis by (simp add: lz5_fill_buffer_def)
  next
    case (Fault q)
    with fill have "decode_fill lz5_copier (lz5_read_command rd) n s = (Fault q, t)" by simp
    then have False
      by (rule lz_decoder.decode_fill_Fault [where E = "\<lambda>_ _. False", OF dec _ assms(2), rotated])
        (simp add: reader.lz5_read_command_no_Fault [OF assms(1)])
    then show ?thesis by simp
  qed
qed

end
