(* ===== verification/Tree_Entry.thy ===== *)
theory Tree_Entry
  imports Prelude
begin

text \<open>
  The packed tree nodes of \<open>src/src/statictree/entry.rs\<close>: sixteen bits, the highest of which
  tells a leaf from a branch.
\<close>

datatype tree_entry = TreeEntry u16

datatype node_type = Leaf u16 | Branch u16

definition leaf_bit :: u16 where
  "leaf_bit = word_rotr 1 1"

definition max_index :: nat where
  "max_index = unat leaf_bit - 1"

definition leaf :: "u16 \<Rightarrow> tree_entry" where
  "leaf v = TreeEntry (v OR leaf_bit)"

definition branch :: "nat \<Rightarrow> (string, tree_entry) outcome" where
  "branch child_index =
     (if child_index > max_index then Err ''tree index out of range''
      else Ok (TreeEntry (of_nat child_index)))"

fun as_type :: "tree_entry \<Rightarrow> node_type" where
  "as_type (TreeEntry e) =
     (let v = e AND NOT leaf_bit in if v = e then Branch v else Leaf v)"

fun set_as_branch :: "nat \<Rightarrow> tree_entry \<Rightarrow> tree_entry" where
  "set_as_branch child_index (TreeEntry e) = TreeEntry (of_nat child_index AND NOT leaf_bit)"

fun is_leaf :: "tree_entry \<Rightarrow> bool" where
  "is_leaf (TreeEntry e) \<longleftrightarrow> e AND leaf_bit = leaf_bit"

fun as_value :: "tree_entry \<Rightarrow> u16" where
  "as_value (TreeEntry e) = e AND NOT leaf_bit"

subsection \<open>Packing and unpacking\<close>

lemma bit_leaf_bit: "bit leaf_bit i \<longleftrightarrow> i = 15"
proof (cases "i < 16")
  case True
  then have "bit leaf_bit i \<longleftrightarrow> (i + 1) mod 16 = 0"
    by (simp add: leaf_bit_def bit_word_rotr_iff bit_1_iff)
  also have "\<dots> \<longleftrightarrow> i = 15" using True by presburger
  finally show ?thesis .
qed auto

lemma leaf_bit_eq: "leaf_bit = 0x8000"
proof (rule bit_word_eqI)
  fix i assume "i < LENGTH(16)"
  have "bit (push_bit 15 1 :: u16) i \<longleftrightarrow> i = 15"
    by (auto simp only: bit_push_bit_iff bit_1_iff possible_bit_word) simp_all
  then show "bit leaf_bit i = bit (0x8000 :: u16) i" by (simp add: bit_leaf_bit)
qed

lemma max_index_eq: "max_index = 32767"
  by (simp add: max_index_def leaf_bit_eq)

lemma value_mask: "(w :: u16) AND NOT leaf_bit = take_bit 15 w"
proof (rule bit_word_eqI)
  fix i assume "i < LENGTH(16)"
  then show "bit (w AND NOT leaf_bit) i = bit (take_bit 15 w) i"
    by (cases "i < 15") (auto simp: bit_simps bit_leaf_bit)
qed

lemma take_bit_15: "unat w < 2 ^ 15 \<Longrightarrow> take_bit 15 w = (w :: u16)"
  unfolding word_unat_eq_iff unsigned_take_bit_eq by (simp add: take_bit_eq_mod)

lemma as_type_leaf: "as_type (leaf v) = Leaf (take_bit 15 v)"
proof -
  have "(v OR leaf_bit) AND NOT leaf_bit = take_bit 15 v"
    by (rule bit_word_eqI) (auto simp: bit_simps bit_leaf_bit)
  moreover have "bit (v OR leaf_bit) 15 \<noteq> bit (take_bit 15 v) 15"
    by (simp add: bit_simps bit_leaf_bit)
  then have "take_bit 15 v \<noteq> v OR leaf_bit" by metis
  ultimately show ?thesis by (simp add: leaf_def Let_def)
qed

lemma as_type_branch:
  assumes "i < 2 ^ 15"
  shows "as_type (TreeEntry (of_nat i)) = Branch (of_nat i)"
proof -
  have "unat (of_nat i :: u16) < 2 ^ 15" using assms by (simp add: unat_of_nat)
  then show ?thesis by (simp add: value_mask take_bit_15 Let_def)
qed

lemma branch_Ok: "branch i = Ok e \<Longrightarrow> i \<le> max_index \<and> e = TreeEntry (of_nat i) \<and> as_type e = Branch (of_nat i)"
  using as_type_branch [of i] by (auto simp: branch_def max_index_eq split: if_splits)

lemma branch_eq: "i \<le> 32767 \<Longrightarrow> branch i = Ok (TreeEntry (of_nat i))"
  by (simp add: branch_def max_index_eq)

lemma as_type_is_leaf: "is_leaf e \<longleftrightarrow> (\<exists>v. as_type e = Leaf v)"
proof (cases e)
  case (TreeEntry w)
  have "bit (w AND leaf_bit) 15 = bit w 15" "bit (w AND NOT leaf_bit) 15 = False"
    by (simp_all add: bit_simps bit_leaf_bit)
  moreover have "w AND leaf_bit = leaf_bit" if "bit w 15"
    by (rule bit_word_eqI) (use that in \<open>auto simp: bit_simps bit_leaf_bit\<close>)
  moreover have "w AND NOT leaf_bit = w" if "\<not> bit w 15"
    by (rule bit_word_eqI) (use that in \<open>auto simp: bit_simps bit_leaf_bit\<close>)
  ultimately have "w AND leaf_bit = leaf_bit \<longleftrightarrow> bit w 15" "w AND NOT leaf_bit = w \<longleftrightarrow> \<not> bit w 15"
    by (metis bit_leaf_bit)+
  then show ?thesis using TreeEntry by (simp add: Let_def)
qed

lemma as_type_as_value: "as_type e = Leaf v \<or> as_type e = Branch v \<Longrightarrow> as_value e = v"
  by (cases e) (auto simp: Let_def split: if_splits)

lemma as_type_set_as_branch: "as_type (set_as_branch i e) = Branch (take_bit 15 (of_nat i))"
  by (cases e) (simp add: value_mask Let_def)

end
