(* ===== verification/Huff_Canonical.thy ===== *)
theory Huff_Canonical
  imports Huff_Tree Code_Lengths
begin

text \<open>
  Correctness of building the static Huffman tree: the vector is the concatenation of its
  levels, building succeeds exactly for complete prefix codes, every built tree is safe to
  read, and its code words are the canonical ones.
\<close>

subsection \<open>The vector level by level\<close>

definition leaves_at :: "u8 list \<Rightarrow> nat \<Rightarrow> tree_entry list" where
  "leaves_at lens l = map (\<lambda>i. leaf (of_nat i)) (vals lens l)"

definition branches_at :: "u8 list \<Rightarrow> nat \<Rightarrow> tree_entry list" where
  "branches_at lens l =
     map (\<lambda>j. TreeEntry (of_nat (starts (cnt lens) (Suc l) + 2 * j))) [0..<slots (cnt lens) l - cnt lens l]"

definition level :: "u8 list \<Rightarrow> nat \<Rightarrow> tree_entry list" where
  "level lens l = leaves_at lens l @ branches_at lens l"

fun levels :: "u8 list \<Rightarrow> nat \<Rightarrow> tree_entry list" where
  "levels lens 0 = []"
| "levels lens (Suc l) = levels lens l @ level lens l"

lemma length_leaves_at [simp]: "length (leaves_at lens l) = cnt lens l"
  by (simp add: leaves_at_def)

lemma length_branches_at [simp]: "length (branches_at lens l) = slots (cnt lens) l - cnt lens l"
  by (simp add: branches_at_def)

lemma length_level: "cnt lens l \<le> slots (cnt lens) l \<Longrightarrow> length (level lens l) = slots (cnt lens) l"
  by (simp add: level_def)

lemma length_levels: "fits (cnt lens) m \<Longrightarrow> l \<le> Suc m \<Longrightarrow> length (levels lens l) = starts (cnt lens) l"
  by (induction l) (auto simp: length_level fits_D)

lemma levels_nth:
  assumes "fits (cnt lens) m" and "l \<le> m" and "o' < slots (cnt lens) l"
  shows "levels lens (Suc m) ! (starts (cnt lens) l + o') = level lens l ! o'"
  using assms
proof (induction m)
  case 0
  then show ?case by simp
next
  case (Suc m)
  then have fits: "fits (cnt lens) m" by (simp add: fits_Suc)
  show ?case
  proof (cases "l = Suc m")
    case True
    have len: "length (levels lens (Suc m)) = starts (cnt lens) (Suc m)"
      by (rule length_levels [OF fits]) simp
    show ?thesis
      unfolding True levels.simps(2) [of lens "Suc m"] len [symmetric] by (rule nth_append_length_plus)
  next
    case False
    then have l: "l \<le> m" using Suc.prems by simp
    have "starts (cnt lens) l + o' < starts (cnt lens) (Suc l)" using Suc.prems by simp
    also have "\<dots> \<le> starts (cnt lens) (Suc m)" using l by (intro starts_mono) simp
    finally have "starts (cnt lens) l + o' < length (levels lens (Suc m))"
      unfolding length_levels [OF fits order_refl] .
    then show ?thesis
      using Suc.IH [OF fits l Suc.prems(3)] unfolding levels.simps(2) [of lens "Suc m"]
      by (simp only: nth_append if_True)
  qed
qed

subsection \<open>What the loops build\<close>

lemma add_branches_eq:
  "add_branches k m t =
    (if k = 0 \<or> m + 2 * (k - 1) \<le> 32767
     then (Ok (m + 2 * k), t @ map (\<lambda>j. TreeEntry (of_nat (m + 2 * j))) [0..<k])
     else (Err ''tree index out of range'', []))"
proof (induction k arbitrary: m t)
  case 0
  show ?case by simp
next
  case (Suc k)
  have upt: "[0..<Suc k] = 0 # map Suc [0..<k]" by (simp add: upt_conv_Cons map_Suc_upt del: upt_Suc)
  show ?case
  proof (cases "m \<le> 32767")
    case True
    then have "add_branches (Suc k) m t = add_branches k (m + 2) (t @ [TreeEntry (of_nat m)])"
      by (simp add: branch_eq)
    also have "\<dots> = (if m + 2 * k \<le> 32767
        then (Ok (m + 2 * Suc k), t @ map (\<lambda>j. TreeEntry (of_nat (m + 2 * j))) [0..<Suc k])
        else (Err ''tree index out of range'', []))"
      unfolding Suc.IH upt using True by (cases k) (simp_all add: comp_def)
    finally show ?thesis by simp
  next
    case False
    then show ?thesis by (simp add: branch_def max_index_eq)
  qed
qed

lemma add_leaves_eq:
  "add_leaves cur lens v more_leaves t =
    (more_leaves \<or> (\<exists>x\<in>set lens. unat x > cur),
     t @ map (\<lambda>i. leaf (of_nat (v + i))) (filter (\<lambda>i. unat (lens ! i) = cur) [0..<length lens]))"
proof (induction lens arbitrary: v more_leaves t)
  case Nil
  show ?case by simp
next
  case (Cons x lens)
  then show ?case by (auto simp: filter_upt_Suc comp_def ac_simps simp del: upt_Suc)
qed

lemma add_leaves_level:
  "0 < cur \<Longrightarrow> add_leaves cur lens 0 False t = ((\<exists>x\<in>set lens. unat x > cur), t @ leaves_at lens cur)"
  by (simp add: add_leaves_eq leaves_at_def vals_def)

text \<open>The state of the loop when a level is entered, and one iteration from it.\<close>

definition level_run :: "u8 list \<Rightarrow> nat \<Rightarrow> (string, unit) outcome \<times> tree_entry list" where
  "level_run lens cur =
     build_levels cur lens (starts (cnt lens) cur) (levels lens (cur - 1) @ leaves_at lens (cur - 1))"

definition branch_overflow :: "u8 list \<Rightarrow> nat \<Rightarrow> bool" where
  "branch_overflow lens l \<longleftrightarrow> cnt lens l < slots (cnt lens) l \<and>
     starts (cnt lens) (Suc l) + 2 * (slots (cnt lens) l - cnt lens l - 1) > 32767"

lemma level_run_start: "level_run lens 1 = build_levels 1 lens 1 []"
  by (simp add: level_run_def leaves_at_def)

lemma level_run_step:
  assumes fits: "fits (cnt lens) l"
  shows "level_run lens (Suc l) =
    (if Suc l \<ge> 255 then (Fault Overflow, levels lens l @ leaves_at lens l)
     else if branch_overflow lens l then (Err ''tree index out of range'', [])
     else if cnt lens (Suc l) > slots (cnt lens) (Suc l)
     then (Err ''too many leaves'', levels lens (Suc l) @ leaves_at lens (Suc l))
     else if \<exists>x\<in>set lens. unat x > Suc l then level_run lens (Suc (Suc l))
     else if cnt lens (Suc l) \<noteq> slots (cnt lens) (Suc l)
     then (Err ''missing some leaves'', levels lens (Suc l) @ leaves_at lens (Suc l))
     else (Ok (), levels lens (Suc (Suc l))))"
proof (cases "Suc l \<ge> 255")
  case True
  then show ?thesis by (simp add: level_run_def build_levels.simps)
next
  case False
  let ?c = "cnt lens" and ?t = "levels lens l @ leaves_at lens l"
  have le: "?c l \<le> slots ?c l" using fits by (simp add: fits_D)
  have len: "length ?t = starts ?c l + ?c l" using length_levels [OF fits, of l] by simp
  have k: "starts ?c (Suc l) - length ?t = slots ?c l - ?c l" using len by simp
  have branches: "add_branches (starts ?c (Suc l) - length ?t) (starts ?c (Suc l)) ?t =
      (if branch_overflow lens l then (Err ''tree index out of range'', [])
       else (Ok (starts ?c (Suc (Suc l))), levels lens (Suc l)))"
    unfolding add_branches_eq k using le
    by (auto simp: branch_overflow_def branches_at_def level_def not_le)
  have len': "length (levels lens (Suc l) @ leaves_at lens (Suc l)) = starts ?c (Suc l) + ?c (Suc l)"
    using length_levels [OF fits, of "Suc l"] by simp
  have last: "branches_at lens (Suc l) = []" if "?c (Suc l) = slots ?c (Suc l)"
    using that by (simp add: branches_at_def)
  show ?thesis
  proof (cases "branch_overflow lens l")
    case True
    with False show ?thesis
      by (simp only: level_run_def build_levels.simps [of "Suc l"] diff_Suc_1 branches) simp
  next
    case noov: False
    note run = branches [unfolded if_not_P [OF noov]] add_leaves_level [of "Suc l" lens, OF zero_less_Suc] len'
    show ?thesis
      unfolding level_run_def build_levels.simps [of "Suc l"] diff_Suc_1 run
        prod.case outcome.case if_not_P [OF noov] if_not_P [OF False]
      using last by (auto simp: level_def)
  qed
qed

subsection \<open>Building succeeds exactly for complete codes\<close>

lemma branch_overflow_complete:
  assumes "complete (cnt lens) m" and "l < m" and "length lens \<le> 16383"
  shows "\<not> branch_overflow lens l"
proof -
  let ?c = "cnt lens"
  have fits: "fits ?c m" using assms(1) by (simp add: complete_def)
  have "starts ?c (Suc m) + 1 = 2 * leaf_total ?c m"
    using starts_total [OF fits] assms(1) by (simp add: complete_def)
  moreover have "leaf_total ?c m \<le> 16383" using total_le [of lens m] assms(3) by simp
  moreover have "starts ?c (Suc (Suc l)) \<le> starts ?c (Suc m)" using assms(2) by (intro starts_mono) simp
  ultimately have "starts ?c (Suc l) + 2 * (slots ?c l - ?c l) \<le> 32765" by simp
  then show ?thesis unfolding branch_overflow_def by linarith
qed

lemma level_run_sound:
  "fits (cnt lens) l \<Longrightarrow> level_run lens (Suc l) = (Ok (), t) \<Longrightarrow>
   \<exists>m>l. m < 255 \<and> complete (cnt lens) m \<and> t = levels lens (Suc m)"
proof (induction "255 - l" arbitrary: l rule: less_induct)
  case less
  let ?c = "cnt lens"
  note step = less.prems(2) [unfolded level_run_step [OF less.prems(1)]]
  from step have l: "Suc l < 255" and fits: "fits ?c (Suc l)"
    using less.prems(1) by (auto simp: fits_Suc split: if_splits)
  show ?case
  proof (cases "\<exists>x\<in>set lens. unat x > Suc l")
    case True
    with step have run: "level_run lens (Suc (Suc l)) = (Ok (), t)" by (auto split: if_splits)
    have "255 - Suc l < 255 - l" using l by simp
    from less.hyps [OF this fits run] obtain m where "Suc l < m \<and> m < 255 \<and> complete ?c m \<and> t = levels lens (Suc m)"
      by blast
    then have "l < m \<and> m < 255 \<and> complete ?c m \<and> t = levels lens (Suc m)" by (simp only: Suc_lessD simp_thms)
    then show ?thesis by blast
  next
    case False
    then have "?c k = 0" if "k > Suc l" for k
      using that cnt_pos_iff [of lens k] by (auto simp flip: neq0_conv)
    moreover have "?c (Suc l) = slots ?c (Suc l)" "t = levels lens (Suc (Suc l))"
      using step False by (auto split: if_splits)
    ultimately show ?thesis using l fits by (auto simp: complete_def intro!: exI [of _ "Suc l"])
  qed
qed

lemma level_run_complete:
  assumes "complete (cnt lens) m" and "0 < cnt lens m" and "m < 255" and "length lens \<le> 16383"
  shows "l < m \<Longrightarrow> level_run lens (Suc l) = (Ok (), levels lens (Suc m))"
proof (induction "m - l" arbitrary: l rule: less_induct)
  case less
  let ?c = "cnt lens"
  have fits: "fits ?c m" and eq: "?c m = slots ?c m" and beyond: "\<And>k. m < k \<Longrightarrow> ?c k = 0"
    using assms(1) by (simp_all add: complete_def)
  have longer: "(\<exists>x\<in>set lens. unat x > Suc l) \<longleftrightarrow> Suc l < m"
  proof
    assume "\<exists>x\<in>set lens. unat x > Suc l"
    then obtain x where "x \<in> set lens" "unat x > Suc l" by blast
    then have "0 < ?c (unat x)" unfolding cnt_pos_iff by auto
    then have "unat x \<le> m" using beyond [of "unat x"] by (cases "m < unat x") simp_all
    with \<open>unat x > Suc l\<close> show "Suc l < m" by (rule less_le_trans)
  next
    assume "Suc l < m"
    then show "\<exists>x\<in>set lens. unat x > Suc l" using assms(2) cnt_pos_iff [of lens m] by auto
  qed
  have conds: "\<not> 255 \<le> Suc l" "\<not> branch_overflow lens l" "\<not> slots ?c (Suc l) < ?c (Suc l)"
  proof -
    show "\<not> 255 \<le> Suc l" using less.prems assms(3) by simp
    show "\<not> branch_overflow lens l" using assms(1) less.prems assms(4) by (rule branch_overflow_complete)
    show "\<not> slots ?c (Suc l) < ?c (Suc l)"
      unfolding not_less using fits less.prems by (intro fits_D [of _ m]) simp_all
  qed
  note step = level_run_step [OF fits_mono [OF fits less_imp_le [OF less.prems]],
      unfolded if_not_P [OF conds(1)] if_not_P [OF conds(2)] if_not_P [OF conds(3)] longer]
  show ?case
  proof (cases "Suc l < m")
    case True
    have "m - Suc l < m - l" using True by simp
    from less.hyps [OF this True] show ?thesis unfolding step if_P [OF True] .
  next
    case False
    with less.prems have "Suc l = m" by simp
    then show ?thesis unfolding step if_not_P [OF False] using eq by simp
  qed
qed

lemma build_tree_eq:
  "length lens \<le> 16383 \<Longrightarrow> build_tree lens h = (case level_run lens 1 of (r, t) \<Rightarrow> (r, h\<lparr>tree := t\<rparr>))"
  unfolding level_run_start by (simp add: build_tree_def max_index_eq)

lemma fits_0: "fits (cnt lens) 0"
  by (simp add: fits_def)

lemma build_tree_sound:
  assumes "build_tree lens h = (Ok (), h')"
  obtains m where "0 < m" "m < 255" and "complete (cnt lens) m" and "tree h' = levels lens (Suc m)"
    and "length lens \<le> 16383"
proof -
  from assms have len: "length lens \<le> 16383"
    by (auto simp: build_tree_def max_index_eq split: if_splits)
  with assms obtain t where "level_run lens (Suc 0) = (Ok (), t)" and h': "h' = h\<lparr>tree := t\<rparr>"
    by (auto simp: build_tree_eq split: prod.splits)
  from level_run_sound [OF fits_0 this(1)] len h' show thesis by (auto intro: that)
qed

lemma kraft_complete:
  assumes "kraft lens = 2 ^ 255"
  obtains m where "0 < m" "m \<le> 255" and "complete (cnt lens) m" and "0 < cnt lens m"
proof -
  let ?S = "{k. 0 < cnt lens k}"
  have sub: "?S \<subseteq> {..255}" using cnt_beyond [of _ lens] by (auto simp: not_less [symmetric])
  then have fin: "finite ?S" by (rule finite_subset) simp
  have zero: "psum (\<lambda>l. 0) n = 0" for n by (induction n) simp_all
  have "?S \<noteq> {}"
  proof
    assume "?S = {}"
    then have "cnt lens = (\<lambda>l. 0)" by (auto simp: fun_eq_iff)
    with assms zero show False by (simp add: kraft_psum)
  qed
  define m where "m = Max ?S"
  have m: "0 < cnt lens m" using Max_in [OF fin \<open>?S \<noteq> {}\<close>] by (simp add: m_def)
  have beyond: "cnt lens k = 0" if "m < k" for k
    using that Max_ge [OF fin, of k] unfolding m_def by (metis leD mem_Collect_eq neq0_conv)
  have "m \<le> 255" using m sub by auto
  moreover have "0 < m" using m by (cases m) auto
  moreover have "complete (cnt lens) m"
    using assms \<open>m \<le> 255\<close> beyond unfolding kraft_psum by (intro psum_complete) auto
  ultimately show thesis using m by (intro that)
qed

lemma build_tree_Ok_iff:
  assumes "length lens \<le> 16383" and "255 \<notin> set lens"
  shows "(\<exists>h'. build_tree lens h = (Ok (), h')) \<longleftrightarrow> kraft lens = 2 ^ 255"
proof
  assume "\<exists>h'. build_tree lens h = (Ok (), h')"
  then obtain h' where "build_tree lens h = (Ok (), h')" by blast
  then obtain m where "m < 255" and "complete (cnt lens) m" by (rule build_tree_sound)
  then show "kraft lens = 2 ^ 255" using complete_psum [of "cnt lens" m 255] by (simp add: kraft_psum)
next
  assume "kraft lens = 2 ^ 255"
  then obtain m where m: "0 < m" "m \<le> 255" "complete (cnt lens) m" "0 < cnt lens m"
    by (rule kraft_complete)
  have "m \<noteq> 255"
  proof
    assume "m = 255"
    with m(4) obtain x where "x \<in> set lens" "unat x = 255" unfolding cnt_pos_iff by blast
    then have "x = 255" by (simp add: word_unat_eq_iff)
    with \<open>x \<in> set lens\<close> assms(2) show False by simp
  qed
  then have "level_run lens (Suc 0) = (Ok (), levels lens (Suc m))"
    using m assms(1) by (intro level_run_complete) auto
  then show "\<exists>h'. build_tree lens h = (Ok (), h')" using assms(1) by (simp add: build_tree_eq)
qed

subsection \<open>The nodes of a built tree\<close>

lemma starts_bound:
  assumes "complete (cnt lens) m" and "length lens \<le> 16383" and "l \<le> Suc m"
  shows "starts (cnt lens) l \<le> 32765"
proof -
  let ?c = "cnt lens"
  have "starts ?c (Suc m) + 1 = 2 * leaf_total ?c m"
    using starts_total [of ?c m] assms(1) by (simp add: complete_def)
  moreover have "leaf_total ?c m \<le> 16383" using total_le [of lens m] assms(2) by simp
  moreover have "starts ?c l \<le> starts ?c (Suc m)" using assms(3) by (rule starts_mono)
  ultimately show ?thesis by linarith
qed

lemma node_leaf:
  assumes "complete (cnt lens) m" and "length lens \<le> 16383" and "l \<le> m" and "q < cnt lens l"
  shows "as_type (levels lens (Suc m) ! (starts (cnt lens) l + q)) = Leaf (of_nat (vals lens l ! q))"
proof -
  have fits: "fits (cnt lens) m" using assms(1) by (simp add: complete_def)
  have "q < slots (cnt lens) l" using fits_D [OF fits assms(3)] assms(4) by simp
  then have "levels lens (Suc m) ! (starts (cnt lens) l + q) = leaf (of_nat (vals lens l ! q))"
    using levels_nth [OF fits assms(3)] assms(4) by (simp add: level_def nth_append leaves_at_def del: levels.simps)
  moreover have "vals lens l ! q < 2 ^ 15" using vals_in [OF assms(4)] assms(2) by simp
  then have "take_bit 15 (of_nat (vals lens l ! q) :: u16) = of_nat (vals lens l ! q)"
    by (intro take_bit_15) (simp add: unat_of_nat)
  ultimately show ?thesis by (simp only: as_type_leaf)
qed

lemma node_branch:
  assumes "complete (cnt lens) m" and "length lens \<le> 16383" and "l \<le> m"
    and "cnt lens l \<le> q" and "q < slots (cnt lens) l"
  defines "child \<equiv> starts (cnt lens) (Suc l) + 2 * (q - cnt lens l)"
  shows "as_type (levels lens (Suc m) ! (starts (cnt lens) l + q)) = Branch (of_nat child)"
    and "l < m" and "unat (of_nat child :: u16) = child" and "child + 1 < starts (cnt lens) (Suc m)"
proof -
  let ?c = "cnt lens"
  have fits: "fits ?c m" and eq: "?c m = slots ?c m" using assms(1) by (simp_all add: complete_def)
  show lm: "l < m" using assms(3-5) eq by (cases "l = m") auto
  have q: "2 * (q - ?c l) + 1 < slots ?c (Suc l)" using assms(4,5) by simp
  have "starts ?c (Suc (Suc l)) \<le> starts ?c (Suc m)" using lm by (intro starts_mono) simp
  with q show child: "child + 1 < starts ?c (Suc m)" unfolding child_def starts.simps(2) [of ?c "Suc l"] by linarith
  with starts_bound [OF assms(1,2), of "Suc m"] have small: "child < 2 ^ 15" by simp
  then show "unat (of_nat child :: u16) = child" by (simp add: unat_of_nat)
  have "levels lens (Suc m) ! (starts ?c l + q) = level lens l ! q"
    using fits assms(3,5) by (rule levels_nth)
  also have "\<dots> = TreeEntry (of_nat child)"
    using assms(4) diff_less_mono [OF assms(5,4)] by (simp add: level_def nth_append branches_at_def child_def)
  finally show "as_type (levels lens (Suc m) ! (starts ?c l + q)) = Branch (of_nat child)"
    using as_type_branch [OF small] by (simp only:)
qed

lemma starts_locate:
  assumes "i < starts c (Suc m)"
  obtains l q where "l \<le> m" and "q < slots c l" and "i = starts c l + q"
  using assms
proof (induction m arbitrary: thesis)
  case 0
  then show ?case by auto
next
  case (Suc m)
  show ?case
  proof (cases "i < starts c (Suc m)")
    case True
    then show ?thesis using Suc.IH Suc.prems(1) le_SucI by metis
  next
    case False
    with Suc.prems(2) show ?thesis by (intro Suc.prems(1) [of "Suc m" "i - starts c (Suc m)"]) auto
  qed
qed

lemma wf_levels:
  assumes "complete (cnt lens) m" and "length lens \<le> 16383"
  shows "wf_tree (levels lens (Suc m))"
proof -
  let ?c = "cnt lens" and ?t = "levels lens (Suc m)"
  have fits: "fits ?c m" using assms(1) by (simp add: complete_def)
  have len: "length ?t = starts ?c (Suc m)" using fits by (rule length_levels) simp
  have "node_ok ?t i" if below: "i < length ?t" for i
  proof -
    obtain l q where l: "l \<le> m" "q < slots ?c l" "i = starts ?c l + q"
      using below unfolding len by (rule starts_locate)
    show ?thesis
    proof (cases "q < ?c l")
      case True
      then show ?thesis using node_leaf [OF assms l(1)] by (simp add: node_ok_def l(3) del: levels.simps)
    next
      case False
      then have q: "?c l \<le> q" by simp
      note b = node_branch [OF assms l(1) q l(2)]
      have "starts ?c l + q < starts ?c (Suc l) + 2 * (q - ?c l)" using l(2) by simp
      then show ?thesis using b(3,4)
        unfolding node_ok_def l(3) b(1) node_type.case len by simp
    qed
  qed
  moreover have "1 \<le> starts ?c (Suc m)" using starts_mono [of 1 "Suc m" ?c] by simp
  then have "?t \<noteq> []" using len by (metis length_0_conv not_one_le_zero)
  ultimately show ?thesis by (simp add: wf_tree_def del: levels.simps)
qed

subsection \<open>Its code words are the canonical ones\<close>

lemma follow_levels:
  assumes "complete (cnt lens) m" and "length lens \<le> 16383"
  shows "l \<le> m \<Longrightarrow> q < slots (cnt lens) l \<Longrightarrow>
    follow (levels lens (Suc m)) (starts (cnt lens) l + q) bs = Some v \<longleftrightarrow>
    (\<exists>j<cnt lens (l + length bs). v = of_nat (vals lens (l + length bs) ! j) \<and>
       2 ^ length bs * (first_code (cnt lens) l + q) + bits_num bs = first_code (cnt lens) (l + length bs) + j)"
proof (induction bs arbitrary: l q)
  case Nil
  let ?c = "cnt lens"
  show ?case
  proof (cases "q < ?c l")
    case True
    then show ?thesis using node_leaf [OF assms Nil.prems(1)] by (auto simp del: levels.simps)
  next
    case False
    then have q: "?c l \<le> q" by simp
    then show ?thesis using node_branch(1) [OF assms Nil.prems(1) q Nil.prems(2)] False
      by (auto simp del: levels.simps)
  qed
next
  case (Cons b bs)
  let ?c = "cnt lens" and ?n = "length bs"
  show ?case
  proof (cases "q < ?c l")
    case True
    have "2 ^ length (b # bs) * (first_code ?c l + q) + bits_num (b # bs) < 2 ^ length (b # bs) * (first_code ?c l + ?c l)"
    proof -
      have "bits_num (b # bs) < 2 ^ length (b # bs)" by (rule bits_num_bound)
      moreover have "2 ^ length (b # bs) * (first_code ?c l + q + 1) \<le> 2 ^ length (b # bs) * (first_code ?c l + ?c l)"
        using True by (intro mult_le_mono2) simp
      ultimately show ?thesis by (simp only: distrib_left)
    qed
    also have "\<dots> = 2 ^ ?n * first_code ?c (Suc l)" by simp
    also have "\<dots> \<le> first_code ?c (Suc l + ?n)" by (rule first_code_add)
    also have "Suc l + ?n = l + length (b # bs)" by simp
    finally show ?thesis using node_leaf [OF assms Cons.prems(1) True]
      by (auto simp del: levels.simps first_code.simps bits_num.simps)
  next
    case False
    then have q: "?c l \<le> q" by simp
    note br = node_branch [OF assms Cons.prems(1) q Cons.prems(2)]
    let ?q = "2 * (q - ?c l) + of_bool b"
    have q': "?q < slots ?c (Suc l)" using q Cons.prems(2) by (cases b) auto
    have lm: "Suc l \<le> m" using br(2) by simp
    have "follow (levels lens (Suc m)) (starts ?c l + q) (b # bs) =
        follow (levels lens (Suc m)) (starts ?c (Suc l) + ?q) bs"
      unfolding follow.simps br(1) node_type.case br(3) by (simp only: add.assoc)
    moreover have num: "first_code ?c (Suc l) + ?q = 2 * (first_code ?c l + q) + of_bool b" using q by simp
    have "2 ^ ?n * (first_code ?c (Suc l) + ?q) + bits_num bs =
        2 ^ length (b # bs) * (first_code ?c l + q) + bits_num (b # bs)"
      unfolding num by (simp add: distrib_left)
    ultimately show ?thesis using Cons.IH [OF lm q'] by (simp only: length_Cons add_Suc add_Suc_right)
  qed
qed

lemma canonical_num:
  assumes "complete (cnt lens) m" and "i < length lens" and "lens ! i \<noteq> 0"
  shows "bits_num (canonical_code lens i) = first_code (cnt lens) (unat (lens ! i)) + rank lens i"
proof -
  let ?l = "unat (lens ! i)"
  have r: "rank lens i < cnt lens ?l" using vals_rank [OF assms(2,3)] by simp
  then have "?l \<le> m" using assms(1) by (metis complete_def less_zeroE not_le)
  moreover have "fits (cnt lens) m" using assms(1) by (simp add: complete_def)
  ultimately have "fits (cnt lens) ?l" by (metis fits_mono)
  then have "first_code (cnt lens) ?l + slots (cnt lens) ?l = 2 ^ ?l" and "cnt lens ?l \<le> slots (cnt lens) ?l"
    by (rule first_code_slots) (rule fits_D [OF \<open>fits (cnt lens) ?l\<close> order_refl])
  with r show ?thesis by (simp add: canonical_code_def Let_def bits_num_nat_bits)
qed

lemma follow_canonical:
  assumes "complete (cnt lens) m" and "length lens \<le> 16383"
  shows "follow (levels lens (Suc m)) 0 bs = Some v \<longleftrightarrow>
    (\<exists>i<length lens. lens ! i \<noteq> 0 \<and> v = of_nat i \<and> bs = canonical_code lens i)"
proof -
  let ?c = "cnt lens" and ?n = "length bs"
  have "follow (levels lens (Suc m)) 0 bs = Some v \<longleftrightarrow>
      (\<exists>j<?c ?n. v = of_nat (vals lens ?n ! j) \<and> bits_num bs = first_code ?c ?n + j)"
    using follow_levels [OF assms, of 0 0 bs v] by (simp del: levels.simps)
  also have "\<dots> \<longleftrightarrow> (\<exists>i<length lens. lens ! i \<noteq> 0 \<and> v = of_nat i \<and> bs = canonical_code lens i)"
  proof
    assume "\<exists>j<?c ?n. v = of_nat (vals lens ?n ! j) \<and> bits_num bs = first_code ?c ?n + j"
    then obtain j where j: "j < ?c ?n" "v = of_nat (vals lens ?n ! j)" "bits_num bs = first_code ?c ?n + j" by blast
    let ?i = "vals lens ?n ! j"
    note i = vals_in [OF j(1)]
    have "?n \<noteq> 0" using j(1) by (metis cnt_0 less_zeroE)
    then have nz: "lens ! ?i \<noteq> 0" using i by (auto simp: unat_eq_0)
    have "bits_num (canonical_code lens ?i) = bits_num bs"
      using canonical_num [OF assms(1) conjunct1 [OF i] nz] j(3) i rank_vals [OF j(1)] by simp
    moreover have "length (canonical_code lens ?i) = ?n" using i by (simp add: canonical_code_def Let_def)
    ultimately have "bs = canonical_code lens ?i" by (metis bits_num_inj)
    with i nz j(2) show "\<exists>i<length lens. lens ! i \<noteq> 0 \<and> v = of_nat i \<and> bs = canonical_code lens i" by blast
  next
    assume "\<exists>i<length lens. lens ! i \<noteq> 0 \<and> v = of_nat i \<and> bs = canonical_code lens i"
    then obtain i where i: "i < length lens" "lens ! i \<noteq> 0" "v = of_nat i" "bs = canonical_code lens i" by blast
    have n: "?n = unat (lens ! i)" using i(4) by (simp add: canonical_code_def Let_def)
    show "\<exists>j<?c ?n. v = of_nat (vals lens ?n ! j) \<and> bits_num bs = first_code ?c ?n + j"
      unfolding n using vals_rank [OF i(1,2)] canonical_num [OF assms(1) i(1,2)] i(3,4)
      by (intro exI [of _ "rank lens i"]) simp
  qed
  finally show ?thesis .
qed

lemma built_tree:
  assumes "build_tree lens h = (Ok (), h')"
  shows "wf_tree (tree h')"
    and "follow (tree h') 0 bs = Some v \<longleftrightarrow>
      (\<exists>i<length lens. lens ! i \<noteq> 0 \<and> v = of_nat i \<and> bs = canonical_code lens i)"
proof -
  obtain m where "complete (cnt lens) m" "tree h' = levels lens (Suc m)" "length lens \<le> 16383"
    using assms by (rule build_tree_sound)
  then show "wf_tree (tree h')" and "follow (tree h') 0 bs = Some v \<longleftrightarrow>
      (\<exists>i<length lens. lens ! i \<noteq> 0 \<and> v = of_nat i \<and> bs = canonical_code lens i)"
    by (simp_all only: wf_levels follow_canonical)
qed

lemma tree_values_follow: "wf_tree t \<Longrightarrow> follow t i bs = Some v \<Longrightarrow> i < length t \<Longrightarrow> v \<in> tree_values t"
proof (induction bs arbitrary: i)
  case Nil
  then show ?case by (auto simp: tree_values_def split: node_type.splits intro: nth_mem)
next
  case (Cons b bs)
  then obtain c where c: "as_type (t ! i) = Branch c" "follow t (unat c + of_bool b) bs = Some v"
    by (auto split: node_type.splits)
  have "unat c + of_bool b < length t" using Cons.prems(1,3) c(1) by (cases b) (auto simp: wf_tree_def node_ok_def)
  with Cons.IH [OF Cons.prems(1) c(2)] show ?case by blast
qed

text \<open>The values of a built tree are the symbols with a code.\<close>

lemma built_tree_values:
  assumes "build_tree lens h = (Ok (), h')"
  shows "tree_values (tree h') = {of_nat i | i. i < length lens \<and> lens ! i \<noteq> 0}"
proof -
  obtain m where m: "complete (cnt lens) m" "tree h' = levels lens (Suc m)" "length lens \<le> 16383"
    using assms by (rule build_tree_sound)
  let ?t = "levels lens (Suc m)" and ?c = "cnt lens"
  have fits: "fits ?c m" using m(1) by (simp add: complete_def)
  have len: "length ?t = starts ?c (Suc m)" using fits by (rule length_levels) simp
  have wf: "wf_tree ?t" using m(1,3) by (rule wf_levels)
  show ?thesis
  proof (intro equalityI subsetI)
    fix v assume "v \<in> tree_values (tree h')"
    then obtain k where k: "k < length ?t" "as_type (?t ! k) = Leaf v"
      unfolding m(2) tree_values_def by (auto simp: in_set_conv_nth simp del: levels.simps)
    obtain l q where l: "l \<le> m" "q < slots ?c l" "k = starts ?c l + q"
      using k(1) unfolding len by (rule starts_locate)
    have q: "q < ?c l"
    proof (rule ccontr)
      assume "\<not> q < ?c l"
      then have "?c l \<le> q" by simp
      from node_branch(1) [OF m(1,3) l(1) this l(2)] k(2) l(3) show False by (simp del: levels.simps)
    qed
    have "v = of_nat (vals lens l ! q)"
      using node_leaf [OF m(1,3) l(1) q] k(2) l(3) by (simp del: levels.simps)
    moreover have "l \<noteq> 0" using q by (metis cnt_0 less_zeroE)
    then have "lens ! (vals lens l ! q) \<noteq> 0" using vals_in [OF q] by (auto simp: unat_eq_0)
    ultimately show "v \<in> {of_nat i | i. i < length lens \<and> lens ! i \<noteq> 0}" using vals_in [OF q] by blast
  next
    fix v :: u16 assume "v \<in> {of_nat i | i. i < length lens \<and> lens ! i \<noteq> 0}"
    then obtain i where "i < length lens" "lens ! i \<noteq> 0" "v = of_nat i" by blast
    then have "follow ?t 0 (canonical_code lens i) = Some v"
      using follow_canonical [OF m(1,3)] by blast
    moreover have "0 < length ?t" using wf by (simp add: wf_tree_def del: levels.simps)
    ultimately show "v \<in> tree_values (tree h')" unfolding m(2) by (rule tree_values_follow [OF wf])
  qed
qed

subsection \<open>Reading a code word\<close>

context reliable_reader begin

lemma read_entry_from_follow:
  assumes "wf_tree t" and "i < length t" and "length t - i \<le> fuel" and "stream_ok s"
    and "follow t i bs = Some v" and "stream_bits contents s = bs @ rest"
  shows "\<exists>s'. read_entry_from fuel rd t (t ! i) s = (Ok v, s') \<and> stream_ok s' \<and> stream_bits contents s' = rest"
  using assms(2-)
proof (induction fuel arbitrary: i s bs)
  case 0
  then show ?case by simp
next
  case (Suc fuel)
  show ?case
  proof (cases "as_type (t ! i)")
    case (Leaf w)
    with Suc.prems(4) have "bs = [] \<and> w = v" by (cases bs) simp_all
    with Suc.prems Leaf show ?thesis by (simp add: act_simps)
  next
    case (Branch c)
    with Suc.prems(4) obtain b bs' where bs: "bs = b # bs'" "follow t (unat c + of_bool b) bs' = Some v"
      by (cases bs) simp_all
    have c: "i < unat c" "unat c + 1 < length t"
      using assms(1) Suc.prems(1) Branch by (auto simp: wf_tree_def node_ok_def)
    let ?j = "unat c + of_bool b"
    have j: "?j < length t" "length t - ?j \<le> fuel" using c Suc.prems(2) by (auto split: if_splits)
    have "1 \<le> LENGTH(64)" "LENGTH(64) \<le> 64" "1 \<le> length (stream_bits contents s)"
      using Suc.prems(5) bs(1) by simp_all
    with Suc.prems(3) obtain u where u: "read_bits rd 1 s = (Ok (of_bits (take 1 (stream_bits contents s)) :: u64), u)"
        "stream_ok u" "stream_bits contents u = drop 1 (stream_bits contents s)"
      by (rule read_bits_Ok)
    have rest: "stream_bits contents u = bs' @ rest" using u(3) Suc.prems(5) bs(1) by simp
    have "of_bits (take 1 (stream_bits contents s)) = (of_bool b :: u64)"
      using Suc.prems(5) bs(1) by (simp add: of_bits_single)
    then have "read_entry_from (Suc fuel) rd t (t ! i) s = read_entry_from fuel rd t (t ! ?j) u"
      using Branch j(1) by (simp add: bnd_Ok [of "read_bits rd 1", OF u(1)] Let_def unat_of_bool_word
          del: One_nat_def)
    with Suc.IH [OF j u(2) bs(2) rest] show ?thesis by simp
  qed
qed

lemma read_entry_follow:
  assumes "wf_tree (tree h)" and "stream_ok s" and "follow (tree h) 0 bs = Some v"
    and "stream_bits contents s = bs @ rest"
  obtains s' where "read_entry rd h s = (Ok v, s')" and "stream_ok s'" and "stream_bits contents s' = rest"
proof -
  have ne: "tree h \<noteq> []" using assms(1) by (simp add: wf_tree_def)
  then have "0 < length (tree h)" "length (tree h) - 0 \<le> length (tree h)" by simp_all
  from read_entry_from_follow [OF assms(1) this assms(2-4)] ne that show thesis
    by (auto simp: read_entry_def)
qed

end

subsection \<open>The only fault of building a tree\<close>

lemma level_run_Fault:
  "fits (cnt lens) l \<Longrightarrow> l = 0 \<or> (\<exists>x\<in>set lens. l < unat x) \<Longrightarrow> level_run lens (Suc l) = (Fault q, t) \<Longrightarrow>
    q = Overflow \<and> 255 \<in> set lens"
proof (induction "255 - l" arbitrary: l rule: less_induct)
  case less
  note step = less.prems(3) [unfolded level_run_step [OF less.prems(1)]]
  show ?case
  proof (cases "Suc l \<ge> 255")
    case True
    with less.prems(2) obtain x where x: "x \<in> set lens" "254 < unat x" by auto
    with unat_u8_less [of x] have "x = 255" by (simp add: word_unat_eq_iff)
    with x True step show ?thesis by simp
  next
    case False
    with step have fits: "fits (cnt lens) (Suc l)" and longer: "\<exists>x\<in>set lens. Suc l < unat x"
      and run: "level_run lens (Suc (Suc l)) = (Fault q, t)"
      using less.prems(1) by (auto simp: fits_Suc split: if_splits)
    have "255 - Suc l < 255 - l" using False by simp
    from less.hyps [OF this fits disjI2 [OF longer] run] show ?thesis .
  qed
qed

lemma build_tree_Fault:
  assumes "build_tree lens h = (Fault q, h')"
  shows "q = Overflow \<and> 255 \<in> set lens"
proof -
  have "length lens \<le> 16383" using assms by (auto simp: build_tree_def max_index_eq split: if_splits)
  with assms obtain t where "level_run lens (Suc 0) = (Fault q, t)" by (auto simp: build_tree_eq split: prod.splits)
  then show ?thesis by (rule level_run_Fault [OF fits_0 disjI1 [OF refl]])
qed

subsection \<open>The tree that is left when leaves are missing\<close>

text \<open>
  The build ends with missing leaves at the level \<open>Suc m\<close> of the longest code: every level before has a
  branch in its last slot, and the last slot of this level, below the last branch, was not filled.
\<close>

definition leaves_missing :: "u8 list \<Rightarrow> nat \<Rightarrow> bool" where
  "leaves_missing lens m \<longleftrightarrow> fits (cnt lens) m \<and> cnt lens (Suc m) < slots (cnt lens) (Suc m) \<and>
     Suc m = Max (insert 1 (unat ` set lens))"

lemma leaves_missingD:
  "leaves_missing lens m \<Longrightarrow> fits (cnt lens) m"
  "leaves_missing lens m \<Longrightarrow> cnt lens (Suc m) < slots (cnt lens) (Suc m)"
  "leaves_missing lens m \<Longrightarrow> Max (insert 1 (unat ` set lens)) = Suc m"
  by (unfold leaves_missing_def, elim conjE, assumption, elim conjE, assumption, elim conjE, erule sym)

lemma Max_level:
  assumes "\<forall>x\<in>set lens. unat x \<le> Suc m" and "m = 0 \<or> (\<exists>x\<in>set lens. m < unat x)"
  shows "Suc m = Max (insert 1 (unat ` set lens))"
proof (rule Max_eqI [symmetric])
  show "Suc m \<in> insert 1 (unat ` set lens)"
    using assms by (auto simp: le_less_Suc_eq not_less_eq_eq) (metis Suc_leI image_eqI le_antisym)
qed (use assms(1) in auto)

lemma level_run_missing:
  "fits (cnt lens) l \<Longrightarrow> l = 0 \<or> (\<exists>x\<in>set lens. l < unat x) \<Longrightarrow> \<forall>k<l. \<not> branch_overflow lens k \<Longrightarrow>
    level_run lens (Suc l) = (Err ''missing some leaves'', t) \<Longrightarrow>
    \<exists>m. leaves_missing lens m \<and> (\<forall>k\<le>m. \<not> branch_overflow lens k) \<and> t = levels lens (Suc m) @ leaves_at lens (Suc m)"
proof (induction "255 - l" arbitrary: l rule: less_induct)
  case less
  note step = less.prems(4) [unfolded level_run_step [OF less.prems(1)]]
  from step have l: "Suc l < 255" and fits: "fits (cnt lens) (Suc l)" and ov: "\<forall>k<Suc l. \<not> branch_overflow lens k"
    using less.prems(1,3) by (auto simp: fits_Suc less_Suc_eq split: if_splits)
  show ?case
  proof (cases "\<exists>x\<in>set lens. Suc l < unat x")
    case True
    with step have run: "level_run lens (Suc (Suc l)) = (Err ''missing some leaves'', t)" by (auto split: if_splits)
    have "255 - Suc l < 255 - l" using l by simp
    from less.hyps [OF this fits disjI2 [OF True] ov run] show ?thesis .
  next
    case False
    with step have "cnt lens (Suc l) < slots (cnt lens) (Suc l)" and t: "t = levels lens (Suc l) @ leaves_at lens (Suc l)"
      by (auto split: if_splits)
    moreover have "Suc l = Max (insert 1 (unat ` set lens))"
      using False less.prems(2) by (intro Max_level) (auto simp: not_less)
    ultimately have "leaves_missing lens l" using less.prems(1) by (simp add: leaves_missing_def)
    with ov t show ?thesis by (intro exI [of _ l]) (simp add: less_Suc_eq_le)
  qed
qed

lemma slots_before:
  assumes "0 < slots c (Suc m)" and "d \<le> m"
  shows "c d < slots c d"
proof -
  have "0 < slots c (Suc d)" using assms(2,1) by (induction rule: inc_induct) simp_all
  then show ?thesis by simp
qed

lemma starts_ge: "(\<And>d. d < l \<Longrightarrow> 0 < slots c d) \<Longrightarrow> l \<le> starts c l"
proof (induction l)
  case (Suc l)
  then have "l \<le> starts c l" and "0 < slots c l" by simp_all
  then show ?case by simp
qed simp

lemma level_branch:
  assumes "cnt lens d \<le> q" and "q < slots (cnt lens) d"
  shows "level lens d ! q = TreeEntry (of_nat (starts (cnt lens) (Suc d) + 2 * (q - cnt lens d)))"
  using assms(1) diff_less_mono [OF assms(2,1)] by (simp add: level_def nth_append branches_at_def)

lemma branch_node: "n \<le> 32767 \<Longrightarrow> as_type (TreeEntry (of_nat n)) = Branch (of_nat n) \<and> unat (of_nat n :: u16) = n"
  using as_type_branch [of n] by (simp add: unat_of_nat del: as_type.simps)

lemma last_branch:
  assumes "leaves_missing lens m" and "\<forall>k\<le>m. \<not> branch_overflow lens k" and "d \<le> m"
  shows "\<exists>c. as_type ((levels lens (Suc m) @ leaves_at lens (Suc m)) ! (starts (cnt lens) d + slots (cnt lens) d - 1)) = Branch c \<and>
    unat c + 1 = starts (cnt lens) (Suc d) + slots (cnt lens) (Suc d) - 1"
proof -
  let ?c = "cnt lens" and ?o = "slots (cnt lens) d - 1"
  have fits: "fits ?c m" using assms(1) by (simp add: leaves_missing_def)
  have d: "?c d < slots ?c d"
    using leaves_missingD(2) [OF assms(1)] assms(3) by (intro slots_before [of _ m]) linarith+
  let ?child = "starts ?c (Suc d) + 2 * (slots ?c d - ?c d - 1)"
  have "?child \<le> 32767" using assms(2,3) d by (auto simp: branch_overflow_def not_less)
  then have child: "as_type (TreeEntry (of_nat ?child)) = Branch (of_nat ?child)" "unat (of_nat ?child :: u16) = ?child"
    using branch_node [of ?child] by blast+
  have "starts ?c d + ?o < starts ?c (Suc d)" using d by simp
  also have "\<dots> \<le> starts ?c (Suc m)" using assms(3) by (intro starts_mono) simp
  also have "\<dots> = length (levels lens (Suc m))" using length_levels [OF fits order_refl] ..
  finally have node: "(levels lens (Suc m) @ leaves_at lens (Suc m)) ! (starts ?c d + ?o) = level lens d ! ?o"
    using levels_nth [OF fits assms(3), of ?o] d by (simp add: nth_append del: levels.simps)
  have "?o - ?c d = slots ?c d - ?c d - 1" by simp
  moreover have "?c d \<le> ?o" "?o < slots ?c d" "starts ?c d + ?o = starts ?c d + slots ?c d - 1" using d by simp_all
  ultimately have "(levels lens (Suc m) @ leaves_at lens (Suc m)) ! (starts ?c d + slots ?c d - 1) = TreeEntry (of_nat ?child)"
    using level_branch [of lens d ?o] node by (simp only:)
  with child d show ?thesis by (intro exI [of _ "of_nat ?child"]) simp
qed

context reliable_reader begin

lemma read_missing:
  assumes missing: "leaves_missing lens m" and ov: "\<forall>k\<le>m. \<not> branch_overflow lens k"
  defines "t \<equiv> levels lens (Suc m) @ leaves_at lens (Suc m)"
  shows "d \<le> m \<Longrightarrow> Suc m - d \<le> fuel \<Longrightarrow> stream_ok s \<Longrightarrow> stream_bits contents s = replicate (Suc m - d) True @ rest \<Longrightarrow>
    \<exists>s'. read_entry_from fuel rd t (t ! (starts (cnt lens) d + slots (cnt lens) d - 1)) s = (Fault OutOfBounds, s')"
proof (induction fuel arbitrary: d s)
  case 0
  then show ?case by simp
next
  case (Suc fuel)
  let ?c = "cnt lens" and ?node = "t ! (starts (cnt lens) d + slots (cnt lens) d - 1)"
  obtain c where c: "as_type ?node = Branch c" "unat c + 1 = starts ?c (Suc d) + slots ?c (Suc d) - 1"
    using last_branch [OF missing ov Suc.prems(1)] unfolding t_def by blast
  have bits: "stream_bits contents s = True # replicate (m - d) True @ rest"
    using Suc.prems(1,4) by (simp add: Suc_diff_le)
  have "1 \<le> LENGTH(64)" "LENGTH(64) \<le> 64" "1 \<le> length (stream_bits contents s)" using bits by simp_all
  with Suc.prems(3) obtain u where u: "read_bits rd 1 s = (Ok (of_bits (take 1 (stream_bits contents s)) :: u64), u)"
      "stream_ok u" "stream_bits contents u = drop 1 (stream_bits contents s)"
    by (rule read_bits_Ok)
  have "of_bits (take 1 (stream_bits contents s)) = (1 :: u64)" using bits by (simp add: of_bits_single)
  note read = bnd_Ok [of "read_bits rd 1", OF u(1) [unfolded this]]
  have fits: "fits ?c m" and short: "?c (Suc m) < slots ?c (Suc m)" by (rule leaves_missingD [OF missing])+
  have len: "length t = starts ?c (Suc m) + ?c (Suc m)"
    using length_levels [OF fits order_refl] by (simp add: t_def del: levels.simps starts.simps)
  let ?j = "starts ?c (Suc d) + slots ?c (Suc d) - 1"
  have step: "read_entry_from (Suc fuel) rd t ?node s =
      (if ?j < length t then read_entry_from fuel rd t (t ! ?j) else crash OutOfBounds) u"
    unfolding read_entry_from.simps c(1) node_type.case read Let_def c(2) [symmetric] by simp
  show ?case
  proof (cases "d = m")
    case True
    then have "\<not> ?j < length t" using short len by simp
    then show ?thesis unfolding step by (simp add: act_simps)
  next
    case False
    then have d: "Suc d \<le> m" using Suc.prems(1) by simp
    have "?c (Suc d) < slots ?c (Suc d)" using short d by (intro slots_before [of _ m]) simp_all
    then have "?j < starts ?c (Suc (Suc d))" by simp
    also have "\<dots> \<le> length t" unfolding len using starts_mono [of "Suc (Suc d)" "Suc m" ?c] d by linarith
    finally have j: "?j < length t" .
    have "stream_bits contents u = replicate (Suc m - Suc d) True @ rest" using u(3) bits by simp
    from Suc.IH [OF d _ u(2) this] Suc.prems(2) j show ?thesis unfolding step by simp
  qed
qed

lemma read_entry_missing:
  assumes "build_tree lens h = (Err ''missing some leaves'', h')"
    and "stream_ok s" and "stream_bits contents s = replicate (Max (insert 1 (unat ` set lens))) True @ rest"
  shows "\<exists>s'. read_entry rd h' s = (Fault OutOfBounds, s')"
proof -
  have "length lens \<le> 16383" using assms(1) by (auto simp: build_tree_def max_index_eq split: if_splits)
  with assms(1) obtain t where run: "level_run lens (Suc 0) = (Err ''missing some leaves'', t)" and h': "h' = h\<lparr>tree := t\<rparr>"
    by (auto simp: build_tree_eq split: prod.splits)
  obtain m where m: "leaves_missing lens m" "\<forall>k\<le>m. \<not> branch_overflow lens k" "t = levels lens (Suc m) @ leaves_at lens (Suc m)"
    using level_run_missing [OF fits_0 _ _ run] by auto
  let ?c = "cnt lens"
  have fits: "fits ?c m" and short: "?c (Suc m) < slots ?c (Suc m)" and max: "Max (insert 1 (unat ` set lens)) = Suc m"
    by (rule leaves_missingD [OF m(1)])+
  have "Suc m \<le> starts ?c (Suc m)"
    by (rule starts_ge) (use slots_before [of ?c m] short in \<open>fastforce simp: less_Suc_eq_le\<close>)
  also have "\<dots> \<le> length t" using length_levels [OF fits order_refl] m(3) by simp
  finally have fuel: "Suc m - 0 \<le> length t" by simp
  have "\<exists>s'. read_entry_from (length t) rd t (t ! 0) s = (Fault OutOfBounds, s')"
    using read_missing [OF m(1,2), of 0 "length t" s rest] fuel assms(2,3) max unfolding m(3) by simp
  moreover have "t \<noteq> []" using fuel by auto
  ultimately show ?thesis by (simp add: h' read_entry_def)
qed

end

subsection \<open>Properties\<close>

text \<open>C21: When no code length is 255, building a tree succeeds exactly when there are at most 16383 code lengths
  and their Kraft sum is one: no code that is over-subscribed or incomplete is accepted, and no complete code
  is rejected. More code lengths are an error that leaves the tree as it was. The bound is that of the code,
  which accepts 16383 lengths, \<open>MAX_INDEX / 2\<close>; the documentation of the method says that a size equal to
  \<open>MAX_INDEX / 2\<close> is an error as well.\<close>

theorem build_tree_accepts:
  assumes "255 \<notin> set lens"
  shows "((\<exists>h'. build_tree lens h = (Ok (), h')) \<longleftrightarrow> length lens \<le> 16383 \<and> kraft lens = 2 ^ 255) \<and>
    (16383 < length lens \<longrightarrow> build_tree lens h = (Err ''too many code lengths'', h))"
proof (cases "length lens \<le> 16383")
  case True
  with build_tree_Ok_iff [OF True assms, of h] show ?thesis by simp
next
  case False
  then show ?thesis by (simp add: build_tree_def max_index_eq)
qed

lemma build_tree_accepts_witness:
  "(\<exists>h'. build_tree [1, 2, 0, 2] (with_capacity 8) = (Ok (), h')) \<and>
   \<not> (\<exists>h'. build_tree [1, 2] (with_capacity 8) = (Ok (), h')) \<and>
   \<not> (\<exists>h'. build_tree [1, 1, 1] (with_capacity 8) = (Ok (), h'))"
  using build_tree_accepts [of "[1, 2, 0, 2]" "with_capacity 8"]
    build_tree_accepts [of "[1, 2]" "with_capacity 8"] build_tree_accepts [of "[1, 1, 1]" "with_capacity 8"]
  by (simp add: kraft_def)

text \<open>C20: Round trip of the static Huffman code: when a tree has been built from code lengths, reading
  an entry from a stream that starts with the canonical code word of a symbol returns that symbol
  and consumes exactly its code word.\<close>

theorem read_entry_canonical:
  assumes "build_tree lens h = (Ok (), h')" and "reliable_reader rd contents"
    and "i < length lens" and "lens ! i \<noteq> 0"
    and "stream_ok s" and "stream_bits contents s = canonical_code lens i @ rest"
  shows "\<exists>s'. read_entry rd h' s = (Ok (of_nat i), s') \<and> stream_ok s' \<and> stream_bits contents s' = rest"
proof -
  have "follow (tree h') 0 (canonical_code lens i) = Some (of_nat i)"
    using built_tree(2) [OF assms(1)] assms(3,4) by blast
  from reliable_reader.read_entry_follow [OF assms(2) built_tree(1) [OF assms(1)] assms(5) this assms(6)]
  show ?thesis by blast
qed

lemma build_example: "\<exists>h'. build_tree [1, 2, 0, 2] (with_capacity 8) = (Ok (), h')"
  by (simp add: build_tree_Ok_iff kraft_def)

lemma read_entry_canonical_witness:
  "\<exists>h' s'. build_tree [1, 2, 0, 2] (with_capacity 8) = (Ok (), h') \<and>
    read_entry slice_reader h' (bit_stream_new [0xC0]) = (Ok 3, s') \<and>
    stream_bits (\<lambda>s. s) s' = replicate 6 False"
proof -
  obtain h' where h: "build_tree [1, 2, 0, 2] (with_capacity 8) = (Ok (), h')" using build_example by blast
  have code: "stream_bits (\<lambda>s. s) (bit_stream_new [0xC0]) = canonical_code [1, 2, 0, 2] 3 @ replicate 6 False"
    unfolding stream_bits_new by code_simp
  show ?thesis
    using read_entry_canonical [OF h slice.reliable_reader_axioms _ _ stream_ok_new code] h by auto
qed

text \<open>C30: Reading an entry from a built tree is safe with every reader that keeps the contract of
  \<open>Read\<close>, reliable or not: the unchecked vector access is never out of bounds and nothing panics;
  a value returned is a symbol with a code, and the bits consumed are its canonical code word,
  so the code is decoded unambiguously.\<close>

theorem read_entry_built:
  assumes "build_tree lens h = (Ok (), h')" and "reader rd contents" and "stream_ok s"
  shows "case read_entry rd h' s of
      (Ok v, s') \<Rightarrow> stream_ok s' \<and> (\<exists>i<length lens. v = of_nat i \<and> lens ! i \<noteq> 0 \<and>
        stream_bits contents s = canonical_code lens i @ stream_bits contents s')
    | (Err e, s') \<Rightarrow> stream_ok s'
    | (Fault q, s') \<Rightarrow> False"
proof -
  note wf = built_tree(1) [OF assms(1)] and follow = built_tree(2) [OF assms(1)]
  have ne: "tree h' \<noteq> []" using wf by (simp add: wf_tree_def)
  have "case read_entry rd h' s of
      (Ok v, s') \<Rightarrow> stream_ok s' \<and> v \<in> tree_values (tree h') \<and>
        (\<exists>bs. stream_bits contents s = bs @ stream_bits contents s' \<and> follow (tree h') 0 bs = Some v)
    | (Err e, s') \<Rightarrow> stream_ok s' \<and> length (stream_bits contents s') \<le> length (stream_bits contents s)
    | (Fault q, s') \<Rightarrow> False"
    using reader.read_entry_from_safe [OF assms(2) wf, of 0 "length (tree h')" s] ne assms(3)
    by (simp add: read_entry_def)
  then show ?thesis unfolding follow by (auto split: prod.splits outcome.splits)
qed

lemma read_entry_built_witness:
  "\<exists>h'. build_tree [1, 2, 0, 2] (with_capacity 8) = (Ok (), h') \<and>
    \<not> is_fault (fst (read_entry slice_reader h' (bit_stream_new [0xC0])))"
proof -
  obtain h' where h: "build_tree [1, 2, 0, 2] (with_capacity 8) = (Ok (), h')" using build_example by blast
  show ?thesis
    using read_entry_built [OF h slice.reader_axioms stream_ok_new, of "[0xC0]"] h
    by (auto split: prod.splits outcome.splits)
qed

text \<open>C40: A failed build is not safe to read from. Whenever \<open>build_tree\<close> reports missing leaves, the incomplete
  tree stays in place, and an entry read from it while the stream delivers only ones goes past the end of
  the vector after as many bits as the longest code has: the \<open>debug_assert!\<close> fails, and without debug
  assertions the unchecked access is out of bounds, although the comment there says that no outstanding child
  index has been used.\<close>

theorem incomplete_tree_out_of_bounds:
  assumes "build_tree lens h = (Err ''missing some leaves'', h')" and "reliable_reader rd contents"
    and "stream_ok s" and "stream_bits contents s = replicate (Max (insert 1 (unat ` set lens))) True @ rest"
  shows "\<exists>s'. read_entry rd h' s = (Fault OutOfBounds, s')"
  using assms(2,1,3,4) by (rule reliable_reader.read_entry_missing)

lemma incomplete_tree_out_of_bounds_witness:
  "\<exists>h' s'. build_tree [1, 3] (with_capacity 8) = (Err ''missing some leaves'', h') \<and>
    read_entry slice_reader h' (bit_stream_new [0xE0]) = (Fault OutOfBounds, s')"
proof -
  obtain h' where build: "build_tree [1, 3] (with_capacity 8) = (Err ''missing some leaves'', h')"
    by (simp add: build_tree_def max_index_eq build_levels.simps branch_eq with_capacity_def)
  have "stream_bits (\<lambda>s. s) (bit_stream_new [0xE0]) = replicate (Max (insert 1 (unat ` set [1, 3 :: u8]))) True @ replicate 5 False"
    unfolding stream_bits_new by code_simp
  from incomplete_tree_out_of_bounds [OF build slice.reliable_reader_axioms stream_ok_new this] build show ?thesis by blast
qed

text \<open>A code length of 255 makes the build overflow its level counter instead of returning an
  error or a tree, although the code lengths 1, 1, 255 are rejected without it.\<close>

lemma build_tree_length_255: "fst (build_tree [1, 1, 255] h) = Fault Overflow"
proof -
  have loop: "build_levels (Suc (Suc l)) [1, 1, 255] 3 t = (Fault Overflow, t)"
    if "length t = 3" "l \<le> 253" for l t
    using that(2)
  proof (induction "253 - l" arbitrary: l)
    case 0
    then show ?case by (simp add: build_levels.simps)
  next
    case (Suc k)
    then have "l < 253" "k = 253 - Suc l" by simp_all
    with Suc.hyps(1) [of "Suc l"] that(1) show ?case
      by (subst build_levels.simps) simp
  qed
  have "build_levels 1 [1, 1, 255] 1 [] = build_levels (Suc (Suc 0)) [1, 1, 255] 3 [TreeEntry 1, leaf 0, leaf 1]"
    by (subst build_levels.simps) (simp add: branch_eq numeral_3_eq_3)
  also have "\<dots> = (Fault Overflow, [TreeEntry 1, leaf 0, leaf 1])" by (rule loop) simp_all
  finally show ?thesis by (simp add: build_tree_def max_index_eq)
qed

end
