(* ===== verification/Lhv2.thy ===== *)
theory Lhv2
  imports Lz_Decoder Bit_Codes Huff_Canonical
begin

text \<open>
  The decoder of the methods \<open>-lh4-\<close> to \<open>-lh7-\<close> and \<open>-lhx-\<close> of \<open>src/src/decode/lhv2.rs\<close>: blocks
  of commands, each with its own static Huffman codes for the commands and for the offsets.
\<close>

subsection \<open>The program\<close>

record lhv2_config =
  history_bits :: nat
  offset_bits :: nat

definition lh5_config :: lhv2_config where
  "lh5_config = \<lparr>history_bits = 14, offset_bits = 4\<rparr>"

definition lh7_config :: lhv2_config where
  "lh7_config = \<lparr>history_bits = 17, offset_bits = 5\<rparr>"

definition lhx_config :: lhv2_config where
  "lhx_config = \<lparr>history_bits = 20, offset_bits = 5\<rparr>"

definition num_commands :: nat where
  "num_commands = 510"

definition num_temp_codelen :: nat where
  "num_temp_codelen = 20"

record 'r lhv2_decoder =
  lhv2_bit_reader :: "'r bit_stream"
  command_tree :: huff_tree
  offset_tree :: huff_tree
  remaining_commands :: u16
  lhv2_copy_progress :: "(nat \<times> nat) option"
  lhv2_ringbuf :: ring

definition lhv2_new :: "lhv2_config \<Rightarrow> 'r \<Rightarrow> 'r lhv2_decoder" where
  "lhv2_new cfg rd = \<lparr>lhv2_bit_reader = bit_stream_new rd,
     command_tree = with_capacity (num_commands * 2), offset_tree = with_capacity (num_temp_codelen * 2),
     remaining_commands = 0, lhv2_copy_progress = None,
     lhv2_ringbuf = ring_new (2 ^ (history_bits cfg - 1))\<rparr>"

definition lhv2_into_inner :: "'r lhv2_decoder \<Rightarrow> 'r" where
  "lhv2_into_inner s = inner (lhv2_bit_reader s)"

text \<open>\<open>read_code_length\<close> and \<open>read_code_skip\<close> only use the bit reader.\<close>

function code_length_loop :: "('r, 'e) read_impl \<Rightarrow> u8 \<Rightarrow> ('r bit_stream, 'e lha_error, u8) act" where
  "code_length_loop rd len =
     bnd (read_bit rd) (\<lambda>one.
       if one then
         if len = 255 then fail (Decompress ''code length overflow'')
         else code_length_loop rd (len + 1)
       else ret len)"
  by pat_completeness auto
termination
proof (relation "measure (\<lambda>(rd, len). 255 - unat len)")
  fix rd :: "('r, 'e) read_impl" and len :: u8
  assume ne: "len \<noteq> 255"
  have "unat len < 256" by (rule unat_u8_less)
  moreover have "unat len \<noteq> 255" using ne by (simp add: word_unat_eq_iff)
  ultimately have "unat len < 255" by simp
  then have "unat (len + 1) = unat len + 1" by (simp add: unat_word_ariths)
  with \<open>unat len < 255\<close> show "((rd, len + 1), (rd, len)) \<in> measure (\<lambda>(rd, len). 255 - unat len)" by simp
qed simp

declare code_length_loop.simps [simp del]

definition read_code_length :: "('r, 'e) read_impl \<Rightarrow> ('r bit_stream, 'e lha_error, u8) act" where
  "read_code_length rd = bnd (read_bits rd 3) (\<lambda>len. if len = 7 then code_length_loop rd len else ret len)"

definition read_code_skip :: "('r, 'e) read_impl \<Rightarrow> u16 \<Rightarrow> ('r bit_stream, 'e lha_error, nat) act" where
  "read_code_skip rd skip_range =
     (if skip_range = 0 then ret 1
      else let (bits, increment) = (if skip_range = 1 then (4, 3) else (9, 20))
           in bnd (read_bits rd bits) (\<lambda>skip :: u64. ret (unat skip + increment)))"

fun read_code_lengths :: "('r, 'e) read_impl \<Rightarrow> nat \<Rightarrow> ('r bit_stream, 'e lha_error, u8 list) act" where
  "read_code_lengths rd 0 = ret []"
| "read_code_lengths rd (Suc n) =
     bnd (read_code_length rd) (\<lambda>p. bnd (read_code_lengths rd n) (\<lambda>ps. ret (p # ps)))"

definition on_bits :: "('r bit_stream, 'e, 'a) act \<Rightarrow> ('r lhv2_decoder, 'e, 'a) act" where
  "on_bits = zoom lhv2_bit_reader (\<lambda>b s. s\<lparr>lhv2_bit_reader := b\<rparr>)"

definition build_offset_tree :: "u8 list \<Rightarrow> ('r lhv2_decoder, 'e lha_error, unit) act" where
  "build_offset_tree lens =
     zoom offset_tree (\<lambda>h s. s\<lparr>offset_tree := h\<rparr>) (map_err Decompress (build_tree lens))"

definition build_command_tree :: "u8 list \<Rightarrow> ('r lhv2_decoder, 'e lha_error, unit) act" where
  "build_command_tree lens =
     zoom command_tree (\<lambda>h s. s\<lparr>command_tree := h\<rparr>) (map_err Decompress (build_tree lens))"

definition read_temp_tree :: "('r, 'e) read_impl \<Rightarrow> ('r lhv2_decoder, 'e lha_error, unit) act" where
  "read_temp_tree rd =
     bnd (on_bits (read_bits rd 5)) (\<lambda>n :: u64. let num_codes = unat n in
       if num_codes = 0 then
         bnd (on_bits (read_bits rd 5)) (\<lambda>code :: u16.
           modify (\<lambda>s. s\<lparr>offset_tree := set_single code (offset_tree s)\<rparr>))
       else if num_codes > num_temp_codelen then
         fail (Decompress ''temporary codelen table has invalid size'')
       else
         bnd (on_bits (read_code_lengths rd (min num_codes 3))) (\<lambda>first.
           bnd (on_bits (read_bits rd 2)) (\<lambda>k :: u64. let skip = unat k in
             if 3 + skip > num_codes then
               fail (Decompress ''temporary codelen table has invalid size'')
             else
               bnd (on_bits (read_code_lengths rd (num_codes - (3 + skip)))) (\<lambda>rest.
                 build_offset_tree (first @ replicate skip 0 @ rest)))))"

text \<open>
  The nested loops of \<open>read_command_tree\<close>: \<open>index\<close> is the next position of the table. The first
  argument bounds the number of entries read.
\<close>

fun read_command_lengths :: "nat \<Rightarrow> ('r, 'e) read_impl \<Rightarrow> nat \<Rightarrow> nat \<Rightarrow> u8 list \<Rightarrow>
    ('r lhv2_decoder, 'e lha_error, u8 list) act" where
  "read_command_lengths 0 rd num_codes index lens =
     (if index < num_codes then crash OutOfFuel else ret lens)"
| "read_command_lengths (Suc fuel) rd num_codes index lens =
     (if index < num_codes then
        bnd (get_state offset_tree) (\<lambda>t.
          bnd (on_bits (read_entry rd t)) (\<lambda>code.
            if code \<le> 2 then
              bnd (on_bits (read_code_skip rd code)) (\<lambda>skip_count.
                read_command_lengths fuel rd num_codes (index + skip_count) lens)
            else read_command_lengths fuel rd num_codes (index + 1) (lens[index := ucast (code - 2)])))
      else ret lens)"

definition read_command_tree :: "('r, 'e) read_impl \<Rightarrow> ('r lhv2_decoder, 'e lha_error, unit) act" where
  "read_command_tree rd =
     bnd (on_bits (read_bits rd 9)) (\<lambda>n :: u64. let num_codes = unat n in
       if num_codes = 0 then
         bnd (on_bits (read_bits rd 9)) (\<lambda>code :: u16.
           modify (\<lambda>s. s\<lparr>command_tree := set_single code (command_tree s)\<rparr>))
       else if num_codes > num_commands then
         fail (Decompress ''commands codelen table has invalid size'')
       else
         bnd (read_command_lengths num_codes rd num_codes 0 (replicate num_commands 0)) (\<lambda>lens.
           build_command_tree (take num_codes lens)))"

definition read_offset_tree :: "lhv2_config \<Rightarrow> ('r, 'e) read_impl \<Rightarrow> ('r lhv2_decoder, 'e lha_error, unit) act" where
  "read_offset_tree cfg rd =
     bnd (on_bits (read_bits rd (offset_bits cfg))) (\<lambda>n :: u64. let num_codes = unat n in
       if num_codes = 0 then
         bnd (on_bits (read_bits rd (offset_bits cfg))) (\<lambda>code :: u16.
           modify (\<lambda>s. s\<lparr>offset_tree := set_single code (offset_tree s)\<rparr>))
       else if num_codes > history_bits cfg then
         fail (Decompress ''offset codelen table has invalid size'')
       else
         bnd (on_bits (read_code_lengths rd num_codes)) build_offset_tree)"

definition begin_new_block :: "lhv2_config \<Rightarrow> ('r, 'e) read_impl \<Rightarrow> ('r lhv2_decoder, 'e lha_error, unit) act" where
  "begin_new_block cfg rd =
     bnd (on_bits (read_bits rd 16)) (\<lambda>n.
       bnd (modify (\<lambda>s. s\<lparr>remaining_commands := n\<rparr>)) (\<lambda>_.
         bnd (read_temp_tree rd) (\<lambda>_.
           bnd (read_command_tree rd) (\<lambda>_. read_offset_tree cfg rd))))"

text \<open>\<open>while self.remaining_commands == 0\<close>; the first argument bounds the number of iterations.\<close>

fun begin_blocks :: "nat \<Rightarrow> lhv2_config \<Rightarrow> ('r, 'e) read_impl \<Rightarrow> ('r lhv2_decoder, 'e lha_error, unit) act" where
  "begin_blocks 0 cfg rd = bnd (get_state remaining_commands) (\<lambda>n. if n = 0 then crash OutOfFuel else ret ())"
| "begin_blocks (Suc fuel) cfg rd =
     bnd (get_state remaining_commands) (\<lambda>n.
       if n = 0 then bnd (begin_new_block cfg rd) (\<lambda>_. begin_blocks fuel cfg rd) else ret ())"

definition read_offset :: "('r, 'e) read_impl \<Rightarrow> ('r lhv2_decoder, 'e lha_error, nat) act" where
  "read_offset rd =
     bnd (get_state offset_tree) (\<lambda>t.
       bnd (on_bits (read_entry rd t)) (\<lambda>bits.
         if unat bits \<le> 1 then ret (unat bits)
         else bnd (on_bits (read_bits rd (unat bits - 1))) (\<lambda>res :: u32.
           if unat bits - 1 < 32 then ret (unat (res OR push_bit (unat bits - 1) 1))
           else crash Overflow)))"

definition lhv2_read_command :: "nat \<Rightarrow> lhv2_config \<Rightarrow> ('r, 'e) read_impl \<Rightarrow>
    ('r lhv2_decoder, 'e lha_error, lz_command) act" where
  "lhv2_read_command fuel cfg rd =
     bnd (begin_blocks fuel cfg rd) (\<lambda>_.
       bnd (modify (\<lambda>s. s\<lparr>remaining_commands := remaining_commands s - 1\<rparr>)) (\<lambda>_.
         bnd (get_state command_tree) (\<lambda>t.
           bnd (on_bits (read_entry rd t)) (\<lambda>code.
             if code \<le> 0xff then ret (Literal (ucast code))
             else bnd (read_offset rd) (\<lambda>offset. ret (History offset (unat (code - 0x100 + 3))))))))"

definition lhv2_copier :: "'r lhv2_decoder copier" where
  "lhv2_copier = \<lparr>cp_copy = copy_offset, cp_adv = (\<lambda>m a. a mod 2 ^ 32), cp_width = 32,
     cp_progress = lhv2_copy_progress, cp_ring = lhv2_ringbuf,
     cp_set = (\<lambda>p r s. s\<lparr>lhv2_copy_progress := p, lhv2_ringbuf := r\<rparr>)\<rparr>"

definition lhv2_fill_buffer :: "nat \<Rightarrow> lhv2_config \<Rightarrow> ('r, 'e) read_impl \<Rightarrow> nat \<Rightarrow>
    ('r lhv2_decoder, 'e lha_error, u8 list) act" where
  "lhv2_fill_buffer fuel cfg rd = decode_fill lhv2_copier (lhv2_read_command fuel cfg rd)"

subsection \<open>Bounds on the stream\<close>

definition within :: "('r \<Rightarrow> u8 list) \<Rightarrow> nat \<Rightarrow> 'r bit_stream \<Rightarrow> bool" where
  "within contents B s \<longleftrightarrow> stream_ok s \<and> length (stream_bits contents s) \<le> B"

lemma within_mono: "within contents B s \<Longrightarrow> B \<le> B' \<Longrightarrow> within contents B' s"
  by (simp add: within_def)

context reader begin

lemma safe_read_bits:
  assumes "n \<le> LENGTH('t)" and "LENGTH('t) \<le> 64"
  shows "safe F (within contents B) (read_bits rd n :: ('r bit_stream, 'e lha_error, 't :: len word) act)
    (\<lambda>v s. unat v < 2 ^ n \<and> n \<le> B \<and> within contents (B - n) s)"
proof (rule safeI)
  fix s :: "'r bit_stream" assume s: "within contents B s"
  then have "stream_ok s" by (simp add: within_def)
  from this assms show "case (read_bits rd n :: ('r bit_stream, 'e lha_error, 't word) act) s of
      (Ok v, t) \<Rightarrow> unat v < 2 ^ n \<and> n \<le> B \<and> within contents (B - n) t | (Err e, t) \<Rightarrow> True | (Fault q, t) \<Rightarrow> q \<in> F"
  proof (cases rule: read_bits_cases)
    case (Ok t)
    have "unat (of_bits (take n (stream_bits contents s)) :: 't word) < 2 ^ n"
      using unat_of_bits_less [of "take n (stream_bits contents s)", where ?'a = 't] Ok(2) by (simp add: min_absorb2)
    with Ok s show ?thesis by (simp add: within_def diff_le_mono)
  next
    case (Err e t)
    then show ?thesis by simp
  qed
qed

lemma safe_read_bits_le:
  assumes "n \<le> LENGTH('t)" and "LENGTH('t) \<le> 64"
  shows "safe F (within contents B) (read_bits rd n :: ('r bit_stream, 'e lha_error, 't :: len word) act)
    (\<lambda>v s. unat v < 2 ^ n \<and> within contents B s)"
  by (rule safe_conseq [OF safe_read_bits [OF assms]]) (auto simp: within_def)

lemma safe_read_bit: "safe F (within contents B) (read_bit rd) (\<lambda>v s. within contents B s)"
proof (rule safeI)
  fix s :: "'r bit_stream" assume s: "within contents B s"
  then have "stream_ok s" by (simp add: within_def)
  then show "case read_bit rd s of (Ok v, t) \<Rightarrow> within contents B t | (Err e, t) \<Rightarrow> True | (Fault q, t) \<Rightarrow> q \<in> F"
    by (cases rule: read_bit_cases) (use s in \<open>auto simp: within_def\<close>)
qed

lemma u8_not_max: "(len :: u8) \<noteq> 255 \<Longrightarrow> unat (len + 1) = unat len + 1 \<and> unat len < 255"
proof -
  assume "len \<noteq> 255"
  then have "unat len \<noteq> 255" by (simp add: word_unat_eq_iff)
  with unat_u8_less [of len] have "unat len < 255" by simp
  then show ?thesis by (simp add: unat_word_ariths)
qed

lemma safe_code_length_loop:
  "safe F (within contents B) (code_length_loop rd len) (\<lambda>v s. within contents B s)"
proof (induction "255 - unat len" arbitrary: len rule: less_induct)
  case less
  show ?case
    unfolding code_length_loop.simps [of rd len]
  proof (rule safe_bnd [OF safe_read_bit])
    fix one
    have "safe F (within contents B) (code_length_loop rd (len + 1)) (\<lambda>v s. within contents B s)" if "len \<noteq> 255"
      using u8_not_max [OF that] by (intro less) linarith
    then show "safe F (within contents B) (if one then if len = 255 then fail (Decompress ''code length overflow'')
         else code_length_loop rd (len + 1) else ret len) (\<lambda>v s. within contents B s)"
      by (intro safe_if safe_fail safe_ret)
  qed
qed

lemma safe_read_code_length: "safe F (within contents B) (read_code_length rd) (\<lambda>v s. within contents B s)"
  unfolding read_code_length_def
proof (rule safe_bnd [OF safe_read_bits_le])
  fix len
  show "safe F (\<lambda>s. unat len < 2 ^ 3 \<and> within contents B s)
      (if len = 7 then code_length_loop rd len else ret len) (\<lambda>v s. within contents B s)"
    by (intro safe_if safe_ret) (auto intro: safe_conseq [OF safe_code_length_loop])
qed simp_all

lemma safe_read_code_skip:
  "safe F (within contents B) (read_code_skip rd k) (\<lambda>v s. 0 < v \<and> within contents B s)"
proof -
  have nums: "4 \<le> LENGTH(64)" "9 \<le> LENGTH(64)" "LENGTH(64) \<le> 64" by simp_all
  show ?thesis
    unfolding read_code_skip_def Let_def
    by (cases "k = 1")
      (auto intro!: safe_if safe_ret safe_bnd [OF safe_read_bits_le] simp: nums)
qed

lemma safe_read_code_lengths:
  "safe F (within contents B) (read_code_lengths rd n) (\<lambda>v s. length v = n \<and> within contents B s)"
proof (induction n)
  case 0
  show ?case by (simp add: safe_ret)
next
  case (Suc n)
  have "safe F (within contents B) (bnd (read_code_lengths rd n) (\<lambda>ps. ret (p # ps)))
      (\<lambda>v s. length v = Suc n \<and> within contents B s)" for p
    by (rule safe_bnd [OF Suc]) (simp add: safe_ret)
  then show ?case by (simp add: safe_bnd [OF safe_read_code_length])
qed

lemma safe_read_entry:
  assumes "wf_tree (tree h)"
  shows "safe F (within contents B) (read_entry rd h) (\<lambda>v s. v \<in> tree_values (tree h) \<and> within contents B s)"
proof (rule safeI)
  fix s :: "'r bit_stream" assume s: "within contents B s"
  then have "stream_ok s" by (simp add: within_def)
  moreover have "tree h \<noteq> []" using assms by (simp add: wf_tree_def)
  moreover have "length xs \<le> B" if "stream_bits contents s = bs @ xs" for bs xs
    using that s by (auto simp: within_def)
  ultimately show "case read_entry rd h s of
      (Ok v, t) \<Rightarrow> v \<in> tree_values (tree h) \<and> within contents B t | (Err e, t) \<Rightarrow> True | (Fault q, t) \<Rightarrow> q \<in> F"
    using read_entry_from_safe [OF assms, of 0 "length (tree h)" s]
    by (auto simp: read_entry_def within_def split: prod.splits outcome.splits)
qed

end

subsection \<open>The parts of the state\<close>

text \<open>Everything but the bit reader: the copy in progress and the ring, and facts on the trees.\<close>

definition frame :: "'r lhv2_decoder \<Rightarrow> 'r lhv2_decoder \<Rightarrow> bool" where
  "frame s0 s \<longleftrightarrow> lhv2_copy_progress s = lhv2_copy_progress s0 \<and> lhv2_ringbuf s = lhv2_ringbuf s0"

definition tree_ok :: "nat \<Rightarrow> huff_tree \<Rightarrow> bool" where
  "tree_ok m h \<longleftrightarrow> wf_tree (tree h) \<and> (\<forall>v\<in>tree_values (tree h). unat v < m)"

definition state_in :: "('r \<Rightarrow> u8 list) \<Rightarrow> nat \<Rightarrow> ('r lhv2_decoder \<Rightarrow> bool) \<Rightarrow> 'r lhv2_decoder \<Rightarrow> bool" where
  "state_in contents B R s \<longleftrightarrow> R s \<and> within contents B (lhv2_bit_reader s)"

definition bits_free :: "('r lhv2_decoder \<Rightarrow> bool) \<Rightarrow> bool" where
  "bits_free R \<longleftrightarrow> (\<forall>s b. R (s\<lparr>lhv2_bit_reader := b\<rparr>) = R s)"

lemma bits_free_intros [intro]:
  "bits_free (frame s0)" "bits_free (\<lambda>s. tree_ok m (offset_tree s))" "bits_free (\<lambda>s. tree_ok m (command_tree s))"
  "bits_free (\<lambda>s. remaining_commands s = n)" "bits_free (\<lambda>s. offset_tree s = t)" "bits_free (\<lambda>s. command_tree s = t)"
  "bits_free (\<lambda>s. c)"
  by (simp_all add: bits_free_def frame_def)

lemma bits_free_conj [intro]: "bits_free R \<Longrightarrow> bits_free R' \<Longrightarrow> bits_free (\<lambda>s. R s \<and> R' s)"
  by (simp add: bits_free_def)

lemma traced_on_bits:
  assumes "safe {} (within contents B) m (\<lambda>x s. Q x \<and> within contents B' s)" and "bits_free R"
  shows "traced E (state_in contents B R) (on_bits m) (\<lambda>x s. Q x \<and> state_in contents B' R s)"
  unfolding on_bits_def
proof (rule traced_zoom)
  fix s assume "state_in contents B R s"
  then have s: "R s" "within contents B (lhv2_bit_reader s)" by (simp_all add: state_in_def)
  show "traced (\<lambda>q t. E q (s\<lparr>lhv2_bit_reader := t\<rparr>)) (\<lambda>t. t = lhv2_bit_reader s) m
      (\<lambda>x t. Q x \<and> state_in contents B' R (s\<lparr>lhv2_bit_reader := t\<rparr>))"
    by (rule traced_safe, rule safe_conseq [OF assms(1)]) (use s assms(2) in \<open>auto simp: state_in_def bits_free_def\<close>)
qed

lemma tree_ok_single: "unat v < m \<Longrightarrow> m \<le> 2 ^ 15 \<Longrightarrow> tree_ok m (set_single v h)"
  by (simp add: tree_ok_def set_single_def wf_tree_single tree_values_single take_bit_15)

lemma tree_ok_build:
  assumes "build_tree lens h = (Ok (), h')" and "length lens \<le> m" and "m \<le> 2 ^ 15"
  shows "tree_ok m h'"
proof -
  have "unat v < m" if "v \<in> tree_values (tree h')" for v
  proof -
    from that built_tree_values [OF assms(1)] obtain i where "i < length lens" "v = of_nat i" by auto
    with assms(2,3) show ?thesis by (simp add: unat_of_nat)
  qed
  with built_tree(1) [OF assms(1)] show ?thesis by (simp add: tree_ok_def)
qed

text \<open>
  The only fault is the overflow of the level counter while one of the two trees is built, from code lengths
  one of which is 255. It shows in the decoder that is left: one of its trees is what the failed build left.
\<close>

definition level_overflow :: "huff_tree \<Rightarrow> bool" where
  "level_overflow h \<longleftrightarrow> (\<exists>lens h0. 255 \<in> set lens \<and> build_tree lens h0 = (Fault Overflow, h))"

definition tree_fault :: "fault \<Rightarrow> 'r lhv2_decoder \<Rightarrow> bool" where
  "tree_fault q s \<longleftrightarrow> q = Overflow \<and> (level_overflow (command_tree s) \<or> level_overflow (offset_tree s))"

lemma build_tree_overflow: "build_tree lens h0 = (Fault q, h) \<Longrightarrow> q = Overflow \<and> level_overflow h"
  using build_tree_Fault [of lens h0 q h] unfolding level_overflow_def by blast

lemma traced_build_offset:
  assumes "length lens \<le> m" and "m \<le> 2 ^ 15" and "\<And>s h. R s \<Longrightarrow> R (s\<lparr>offset_tree := h\<rparr>)"
  shows "traced tree_fault (state_in contents B R) (build_offset_tree lens)
    (\<lambda>u. state_in contents B (\<lambda>s. R s \<and> tree_ok m (offset_tree s)))"
  unfolding build_offset_tree_def
proof (intro traced_zoom traced_map_err)
  fix s assume s: "state_in contents B R s"
  show "traced (\<lambda>q h. tree_fault q (s\<lparr>offset_tree := h\<rparr>)) (\<lambda>t. t = offset_tree s) (build_tree lens)
      (\<lambda>x t. state_in contents B (\<lambda>s. R s \<and> tree_ok m (offset_tree s)) (s\<lparr>offset_tree := t\<rparr>))"
    using s assms tree_ok_build [OF _ assms(1,2)] build_tree_overflow
    by (auto simp: traced_def state_in_def tree_fault_def split: prod.splits outcome.splits)
qed

lemma traced_build_command:
  assumes "length lens \<le> m" and "m \<le> 2 ^ 15" and "\<And>s h. R s \<Longrightarrow> R (s\<lparr>command_tree := h\<rparr>)"
  shows "traced tree_fault (state_in contents B R) (build_command_tree lens)
    (\<lambda>u. state_in contents B (\<lambda>s. R s \<and> tree_ok m (command_tree s)))"
  unfolding build_command_tree_def
proof (intro traced_zoom traced_map_err)
  fix s assume s: "state_in contents B R s"
  show "traced (\<lambda>q h. tree_fault q (s\<lparr>command_tree := h\<rparr>)) (\<lambda>t. t = command_tree s) (build_tree lens)
      (\<lambda>x t. state_in contents B (\<lambda>s. R s \<and> tree_ok m (command_tree s)) (s\<lparr>command_tree := t\<rparr>))"
    using s assms tree_ok_build [OF _ assms(1,2)] build_tree_overflow
    by (auto simp: traced_def state_in_def tree_fault_def split: prod.splits outcome.splits)
qed

subsection \<open>Reading the trees of a block\<close>

context reader begin

lemmas on_read_bits = traced_on_bits [OF safe_read_bits_le]
  and on_read_lengths = traced_on_bits [OF safe_read_code_lengths]
  and on_read_skip = traced_on_bits [OF safe_read_code_skip]
  and on_read_entry = traced_on_bits [OF safe_read_entry]

lemma traced_read_temp_tree:
  "traced tree_fault (state_in contents B (frame s0)) (read_temp_tree rd)
    (\<lambda>u. state_in contents B (\<lambda>s. frame s0 s \<and> tree_ok 32 (offset_tree s)))"
  unfolding read_temp_tree_def Let_def
  apply (rule traced_step [OF on_read_bits], simp, simp, rule bits_free_intros)
  subgoal for n
    apply (intro traced_if traced_fail)
     apply (rule traced_step [OF on_read_bits], simp, simp, rule bits_free_intros)
     apply (rule traced_modify)
     apply (simp add: state_in_def frame_def tree_ok_single)
    apply (rule traced_step [OF on_read_lengths], rule bits_free_intros)
    apply (rule traced_step [OF on_read_bits], simp, simp, rule bits_free_intros)
    apply (intro traced_if traced_fail)
    apply (rule traced_step [OF on_read_lengths], rule bits_free_intros)
    apply (rule traced_build_offset)
      apply (auto simp: frame_def)
    done
  done

lemma traced_read_command_lengths:
  "n - i \<le> fuel \<Longrightarrow> traced tree_fault (state_in contents B (\<lambda>s. frame s0 s \<and> tree_ok 32 (offset_tree s)))
     (read_command_lengths fuel rd n i lens)
     (\<lambda>ls s. length ls = length lens \<and> state_in contents B (\<lambda>s. frame s0 s \<and> tree_ok 32 (offset_tree s)) s)"
proof (induction fuel arbitrary: i lens)
  case 0
  then show ?case by (auto intro!: traced_ret simp: not_less)
next
  case (Suc fuel)
  show ?case
    unfolding read_command_lengths.simps
    apply (rule traced_if)
     apply (rule traced_get_fact [where A = "tree_ok 32"], simp add: state_in_def)
    subgoal for t
      apply (rule traced_step [OF on_read_entry], simp add: tree_ok_def, intro bits_free_conj bits_free_intros)
      apply (rule traced_if)
       apply (rule traced_step [OF on_read_skip], intro bits_free_conj bits_free_intros)
       apply (rule Suc.IH)
      using Suc.prems apply simp
      apply (rule traced_conseq [OF Suc.IH])
      using Suc.prems apply simp_all
      done
    apply (rule traced_ret, simp)
    done
qed

lemma traced_read_command_tree:
  "traced tree_fault (state_in contents B (\<lambda>s. frame s0 s \<and> tree_ok 32 (offset_tree s))) (read_command_tree rd)
    (\<lambda>u. state_in contents B (\<lambda>s. frame s0 s \<and> tree_ok 512 (command_tree s)))"
  unfolding read_command_tree_def Let_def
  apply (rule traced_step [OF on_read_bits], simp, simp, intro bits_free_conj bits_free_intros)
  subgoal for n
    apply (intro traced_if traced_fail)
     apply (rule traced_step [OF on_read_bits], simp, simp, intro bits_free_conj bits_free_intros)
     apply (rule traced_modify)
     apply (simp add: state_in_def frame_def tree_ok_single)
    apply (rule traced_step [OF traced_read_command_lengths], simp)
    apply (rule traced_conseq [OF traced_build_command [where m = 512 and R = "frame s0"]])
        apply (auto simp: frame_def state_in_def num_commands_def)
    done
  done

lemma traced_read_offset_tree:
  assumes "offset_bits cfg \<le> 5" and "history_bits cfg \<le> 32"
  shows "traced tree_fault (state_in contents B (\<lambda>s. frame s0 s \<and> tree_ok 512 (command_tree s))) (read_offset_tree cfg rd)
    (\<lambda>u. state_in contents B (\<lambda>s. (frame s0 s \<and> tree_ok 512 (command_tree s)) \<and> tree_ok 32 (offset_tree s)))"
  unfolding read_offset_tree_def Let_def
  apply (rule traced_step [OF on_read_bits])
     apply (use assms in simp, simp, intro bits_free_conj bits_free_intros)
  subgoal for n
    apply (intro traced_if traced_fail)
     apply (rule traced_step [OF on_read_bits])
        apply (use assms in simp, simp, intro bits_free_conj bits_free_intros)
     apply (rule traced_modify)
    subgoal for code s
      using power_increasing [OF assms(1), of "2::nat"] by (auto simp: state_in_def frame_def intro!: tree_ok_single)
    apply (rule traced_step [OF on_read_lengths], intro bits_free_conj bits_free_intros)
    apply (rule traced_build_offset)
      apply (use assms in \<open>auto simp: frame_def\<close>)
    done
  done

lemma traced_begin_new_block:
  assumes "offset_bits cfg \<le> 5" and "history_bits cfg \<le> 32"
  shows "traced tree_fault (state_in contents B (frame s0)) (begin_new_block cfg rd)
    (\<lambda>u s. 16 \<le> B \<and> state_in contents (B - 16)
      (\<lambda>s. (frame s0 s \<and> tree_ok 512 (command_tree s)) \<and> tree_ok 32 (offset_tree s)) s)"
proof -
  have read: "safe {} (within contents B) (read_bits rd 16)
      (\<lambda>n :: u16. \<lambda>s. (unat n < 2 ^ 16 \<and> 16 \<le> B) \<and> within contents (B - 16) s)"
    by (rule safe_conseq [OF safe_read_bits]) simp_all
  let ?P = "state_in contents (B - 16) (frame s0)"
  have set: "traced tree_fault ?P (modify (\<lambda>s. s\<lparr>remaining_commands := n\<rparr>)) (\<lambda>u. ?P)" for n
    by (rule traced_modify) (simp add: state_in_def frame_def)
  show ?thesis
    unfolding begin_new_block_def
    apply (rule traced_step [OF traced_on_bits [OF read]], rule bits_free_intros)
    apply (rule traced_bnd [OF set])
    apply (rule traced_bnd [OF traced_read_temp_tree])
    apply (rule traced_bnd [OF traced_read_command_tree])
    apply (rule traced_conseq [OF traced_read_offset_tree [OF assms]])
     apply simp_all
    done
qed

end

text \<open>The trees of the current block, which are only looked at while it has commands left.\<close>

definition trees_ok :: "'r lhv2_decoder \<Rightarrow> bool" where
  "trees_ok s \<longleftrightarrow> tree_ok 512 (command_tree s) \<and> tree_ok 32 (offset_tree s)"

definition block_ok :: "'r lhv2_decoder \<Rightarrow> 'r lhv2_decoder \<Rightarrow> bool" where
  "block_ok s0 s \<longleftrightarrow> frame s0 s \<and> (remaining_commands s \<noteq> 0 \<longrightarrow> trees_ok s)"

lemma bits_free_block [intro]: "bits_free (block_ok s0)" "bits_free (\<lambda>s. frame s0 s \<and> trees_ok s)"
  by (simp_all add: bits_free_def block_ok_def frame_def trees_ok_def)

context reader begin

lemma traced_begin_blocks:
  assumes cfg: "offset_bits cfg \<le> 5" "history_bits cfg \<le> 32"
  shows "B < fuel \<Longrightarrow> traced tree_fault (state_in contents B (block_ok s0)) (begin_blocks fuel cfg rd)
    (\<lambda>u s. remaining_commands s \<noteq> 0 \<and> state_in contents B (\<lambda>s. frame s0 s \<and> trees_ok s) s)"
proof (induction fuel arbitrary: B)
  case 0
  then show ?case by simp
next
  case (Suc fuel)
  let ?Q = "\<lambda>u s. remaining_commands s \<noteq> 0 \<and> state_in contents B (\<lambda>s. frame s0 s \<and> trees_ok s) s"
  show ?case
    unfolding begin_blocks.simps
  proof (rule traced_get)
    fix n
    let ?P = "\<lambda>s. state_in contents B (block_ok s0) s \<and> remaining_commands s = n"
    have block: "traced tree_fault ?P (begin_new_block cfg rd)
        (\<lambda>u s. 16 \<le> B \<and> state_in contents (B - 16) (block_ok s0) s)"
      by (rule traced_conseq [OF traced_begin_new_block [OF cfg]])
        (auto simp: state_in_def block_ok_def trees_ok_def)
    have rest: "traced tree_fault (state_in contents (B - 16) (block_ok s0)) (begin_blocks fuel cfg rd) ?Q" if "16 \<le> B"
      by (rule traced_conseq [OF Suc.IH [of "B - 16"]])
        (use Suc.prems that in \<open>auto simp: state_in_def intro: within_mono\<close>)
    show "traced tree_fault ?P (if n = 0 then bnd (begin_new_block cfg rd) (\<lambda>_. begin_blocks fuel cfg rd) else ret ()) ?Q"
      by (intro traced_if traced_step [OF block] rest traced_ret)
        (auto simp: state_in_def block_ok_def)
  qed
qed

lemma traced_read_offset:
  "traced tree_fault (state_in contents B (\<lambda>s. frame s0 s \<and> trees_ok s)) (read_offset rd)
    (\<lambda>v s. v < 2 ^ 32 \<and> state_in contents B (\<lambda>s. frame s0 s \<and> trees_ok s) s)"
  unfolding read_offset_def
  apply (rule traced_get_fact [where A = "tree_ok 32"], simp add: state_in_def trees_ok_def)
  subgoal for t
    apply (rule traced_step [OF on_read_entry], simp add: tree_ok_def, rule bits_free_block)
    subgoal for code
      apply (subgoal_tac "unat code < 32")
       apply (rule traced_if)
        apply (rule traced_ret, simp)
       apply (rule traced_step [OF on_read_bits], simp, simp, rule bits_free_block)
       apply (rule traced_if)
        apply (rule traced_ret)
      subgoal for res s using unsigned_less [of "res OR push_bit (unat code - 1) 1", where ?'a = nat] by simp
       apply simp
      apply (simp add: tree_ok_def)
      done
    done
  done

lemma copy_count:
  assumes "\<not> code \<le> (0xff :: u16)" and "unat code < 512"
  shows "3 \<le> unat (code - 0x100 + 3)" and "unat (code - 0x100 + 3) = unat code - 253" and "unat code - 253 < 2 ^ 32"
proof -
  have c: "256 \<le> unat code" using assms(1) by (simp add: word_le_nat_alt not_le)
  then have "unat (code - 253) = unat code - 253" by (simp add: unat_sub word_le_nat_alt)
  moreover have "code - 0x100 + 3 = code - 253" by simp
  ultimately have "unat (code - 0x100 + 3) = unat code - 253" by (simp only:)
  then show "3 \<le> unat (code - 0x100 + 3)" and "unat (code - 0x100 + 3) = unat code - 253" and "unat code - 253 < 2 ^ 32"
    using c assms(2) by simp_all
qed

lemma traced_lhv2_read_command:
  assumes cfg: "offset_bits cfg \<le> 5" "history_bits cfg \<le> 32" and "B < fuel"
  shows "traced tree_fault (state_in contents B (block_ok s0)) (lhv2_read_command fuel cfg rd)
    (\<lambda>c s. (0 < lz_length c \<and> lz_length c < 2 ^ 32) \<and> state_in contents B (block_ok s0) s)"
proof -
  let ?P = "state_in contents B (\<lambda>s. frame s0 s \<and> trees_ok s)"
  have blocks: "traced tree_fault (state_in contents B (block_ok s0)) (begin_blocks fuel cfg rd) (\<lambda>u. ?P)"
    by (rule traced_conseq [OF traced_begin_blocks [OF assms]]) (assumption, erule conjunct2)
  have count: "traced tree_fault ?P (modify (\<lambda>s. s\<lparr>remaining_commands := remaining_commands s - 1\<rparr>)) (\<lambda>u. ?P)"
    by (rule traced_modify) (simp add: state_in_def frame_def trees_ok_def)
  have fin: "?P s \<Longrightarrow> state_in contents B (block_ok s0) s" for s
    by (simp add: state_in_def block_ok_def)
  show ?thesis
    unfolding lhv2_read_command_def
    apply (rule traced_bnd [OF blocks])
    apply (rule traced_bnd [OF count])
    apply (rule traced_get_fact [where A = "tree_ok 512"], simp add: state_in_def trees_ok_def)
    subgoal for t
      apply (rule traced_step [OF on_read_entry], simp add: tree_ok_def, rule bits_free_block)
      subgoal for code
        apply (rule traced_if)
         apply (rule traced_ret, simp add: fin)
        apply (rule traced_step [OF traced_read_offset])
        apply (rule traced_ret)
        apply (subgoal_tac "unat code < 512")
        subgoal for x st using copy_count [of code] by (simp add: fin)
        apply (simp add: tree_ok_def)
        done
      done
    done
qed

end

subsection \<open>The decoder contract\<close>

definition lhv2_inv :: "('r \<Rightarrow> u8 list) \<Rightarrow> nat \<Rightarrow> lhv2_config \<Rightarrow> 'r lhv2_decoder \<Rightarrow> bool" where
  "lhv2_inv contents fuel cfg s \<longleftrightarrow>
     stream_ok (lhv2_bit_reader s) \<and> length (stream_bits contents (lhv2_bit_reader s)) < fuel \<and>
     (remaining_commands s \<noteq> 0 \<longrightarrow> trees_ok s) \<and>
     ring_inv (history_bits cfg - 1) (lhv2_ringbuf s) \<and> progress_ok (\<lambda>m a. a mod 2 ^ 32) 32 (lhv2_copy_progress s)"

lemma lhv2_copier_sel [simp]:
  "cp_copy lhv2_copier = copy_offset" "cp_adv lhv2_copier = (\<lambda>m a. a mod 2 ^ 32)" "cp_width lhv2_copier = 32"
  "cp_progress lhv2_copier = lhv2_copy_progress" "cp_ring lhv2_copier = lhv2_ringbuf"
  "cp_set lhv2_copier = (\<lambda>p r s. s\<lparr>lhv2_copy_progress := p, lhv2_ringbuf := r\<rparr>)"
  by (simp_all add: lhv2_copier_def)

definition config_ok :: "lhv2_config \<Rightarrow> bool" where
  "config_ok cfg \<longleftrightarrow> offset_bits cfg \<le> 5 \<and> 0 < history_bits cfg \<and> history_bits cfg \<le> 20"

lemma configs_ok: "config_ok lh5_config" "config_ok lh7_config" "config_ok lhx_config"
  by (simp_all add: config_ok_def lh5_config_def lh7_config_def lhx_config_def)

lemma config_width: "config_ok cfg \<Longrightarrow> history_bits cfg - 1 \<le> 32"
  unfolding config_ok_def by linarith

lemma lhv2_copying:
  assumes "config_ok cfg"
  shows "copying (history_bits cfg - 1) lhv2_copier (lhv2_inv contents fuel cfg)"
proof (rule copying.intro)
  show "sliding_window (ring_inv (history_bits cfg - 1)) window push (cp_copy lhv2_copier) (cp_adv lhv2_copier)"
    unfolding lhv2_copier_sel by (rule offset_window [OF config_width [OF assms]])
  show "copying_axioms (history_bits cfg - 1) lhv2_copier (lhv2_inv contents fuel cfg)"
    by unfold_locales (simp_all add: lhv2_inv_def trees_ok_def)
qed

lemma lhv2_inv_new:
  assumes "config_ok cfg" and "8 * length (contents r) < fuel"
  shows "lhv2_inv contents fuel cfg (lhv2_new cfg r)"
  using assms ring_inv_new [OF order_trans [OF config_width [OF assms(1)]]]
  by (simp add: lhv2_inv_def lhv2_new_def config_ok_def stream_ok_new stream_bits_new progress_ok_def)

context reader begin

lemma lhv2_read_safe:
  assumes "config_ok cfg" and "lhv2_inv contents fuel cfg s"
  shows "case lhv2_read_command fuel cfg rd s of
      (Ok c, t) \<Rightarrow> (0 < lz_length c \<and> lz_length c < 2 ^ 32) \<and> frame s t \<and> lhv2_inv contents fuel cfg t
    | (Err e, t) \<Rightarrow> True
    | (Fault q, t) \<Rightarrow> tree_fault q t"
proof -
  let ?B = "fuel - 1"
  have B: "?B < fuel" "length (stream_bits contents (lhv2_bit_reader s)) \<le> ?B"
    using assms(2) by (auto simp: lhv2_inv_def)
  have cfg: "offset_bits cfg \<le> 5" "history_bits cfg \<le> 32" using assms(1) by (simp_all add: config_ok_def)
  have pre: "state_in contents ?B (block_ok s) s"
    using assms(2) B(2) by (simp add: lhv2_inv_def state_in_def within_def block_ok_def frame_def)
  have inv: "lhv2_inv contents fuel cfg t" if "state_in contents ?B (block_ok s) t" for t
    using that assms(2) B(1) by (auto simp: lhv2_inv_def state_in_def within_def block_ok_def frame_def)
  from tracedD [OF traced_lhv2_read_command [OF cfg B(1)] pre] inv show ?thesis
    by (auto simp: state_in_def block_ok_def split: prod.splits outcome.splits)
qed

lemma lhv2_lz_decoder:
  assumes "config_ok cfg"
  shows "lz_decoder (history_bits cfg - 1) lhv2_copier (lhv2_inv contents fuel cfg) (lhv2_read_command fuel cfg rd)"
proof (intro lz_decoder.intro lhv2_copying [OF assms] lz_decoder_axioms.intro)
  fix s c t
  assume inv: "lhv2_inv contents fuel cfg s" and read: "lhv2_read_command fuel cfg rd s = (Ok c, t)"
  from lhv2_read_safe [OF assms inv] read
  show "lhv2_inv contents fuel cfg t \<and> cp_progress lhv2_copier t = cp_progress lhv2_copier s \<and>
      cp_ring lhv2_copier t = cp_ring lhv2_copier s \<and> 0 < lz_length c \<and> lz_length c < 2 ^ cp_width lhv2_copier"
    by (simp add: frame_def)
qed

lemma lhv2_read_Fault:
  "config_ok cfg \<Longrightarrow> lhv2_inv contents fuel cfg s \<Longrightarrow> lhv2_read_command fuel cfg rd s = (Fault q, t) \<Longrightarrow> tree_fault q t"
  using lhv2_read_safe [of cfg fuel s] by simp

end

interpretation lh5_slice: lz_decoder "history_bits lh5_config - 1" lhv2_copier "lhv2_inv (\<lambda>s. s) fuel lh5_config"
    "lhv2_read_command fuel lh5_config slice_reader" for fuel
  by (rule slice.lhv2_lz_decoder) (rule configs_ok)

interpretation lh7_slice: lz_decoder "history_bits lh7_config - 1" lhv2_copier "lhv2_inv (\<lambda>s. s) fuel lh7_config"
    "lhv2_read_command fuel lh7_config slice_reader" for fuel
  by (rule slice.lhv2_lz_decoder) (rule configs_ok)

interpretation lhx_slice: lz_decoder "history_bits lhx_config - 1" lhv2_copier "lhv2_inv (\<lambda>s. s) fuel lhx_config"
    "lhv2_read_command fuel lhx_config slice_reader" for fuel
  by (rule slice.lhv2_lz_decoder) (rule configs_ok)

end
