(* ===== verification/Lhv2_Format.thy ===== *)
theory Lhv2_Format
  imports Lhv2
begin

text \<open>
  The LHA v2 bit format: an encoder for blocks of commands, and the proof that the decoder reads
  back what it writes. The encoder stores every code length on its own; the decoder accepts
  runs of zeroes as well.
\<close>

subsection \<open>Reading back a fixed list of bits\<close>

text \<open>
  \<open>decodes contents m bits x\<close>: from a stream that begins with \<open>bits\<close> the action \<open>m\<close> returns \<open>x\<close>
  and leaves the rest. \<open>block_reads\<close> says the same of an action on the decoder, which takes the
  state \<open>s\<close> to \<open>s'\<close> up to the bit reader.
\<close>

definition decodes :: "('r \<Rightarrow> u8 list) \<Rightarrow> ('r bit_stream, 'e, 'a) act \<Rightarrow> bool list \<Rightarrow> 'a \<Rightarrow> bool" where
  "decodes contents m bits x \<longleftrightarrow> (\<forall>s rest. stream_ok s \<and> stream_bits contents s = bits @ rest \<longrightarrow>
     (\<exists>t. m s = (Ok x, t) \<and> stream_ok t \<and> stream_bits contents t = rest))"

definition block_reads :: "('r \<Rightarrow> u8 list) \<Rightarrow> ('r lhv2_decoder, 'e, 'a) act \<Rightarrow> 'r lhv2_decoder \<Rightarrow>
    bool list \<Rightarrow> 'a \<Rightarrow> 'r lhv2_decoder \<Rightarrow> bool" where
  "block_reads contents m s bits x s' \<longleftrightarrow> (\<forall>b rest. stream_ok b \<and> stream_bits contents b = bits @ rest \<longrightarrow>
     (\<exists>b'. m (s\<lparr>lhv2_bit_reader := b\<rparr>) = (Ok x, s'\<lparr>lhv2_bit_reader := b'\<rparr>) \<and> stream_ok b' \<and>
        stream_bits contents b' = rest))"

lemma decodes_ret: "decodes contents (ret x) [] x"
  by (simp add: decodes_def ret_def)

lemma decodes_bnd:
  assumes "decodes contents m bs x" and "decodes contents (f x) cs y"
  shows "decodes contents (bnd m f) (bs @ cs) y"
  unfolding decodes_def
proof (intro allI impI, elim conjE)
  fix s rest
  assume "stream_ok s" and "stream_bits contents s = (bs @ cs) @ rest"
  with assms(1) obtain t where t: "m s = (Ok x, t)" "stream_ok t" "stream_bits contents t = cs @ rest"
    unfolding decodes_def by (metis append.assoc)
  with assms(2) obtain u where "f x t = (Ok y, u)" "stream_ok u" "stream_bits contents u = rest"
    unfolding decodes_def by blast
  with t(1) show "\<exists>u. bnd m f s = (Ok y, u) \<and> stream_ok u \<and> stream_bits contents u = rest"
    by (simp add: bnd_Ok)
qed

lemma decodes_bnd_last: "decodes contents m bs x \<Longrightarrow> decodes contents (f x) [] y \<Longrightarrow> decodes contents (bnd m f) bs y"
  using decodes_bnd [of contents m bs x f "[]" y] by simp

lemma block_reads_bnd:
  assumes "block_reads contents m s bs x s1" and "block_reads contents (f x) s1 cs y s2"
  shows "block_reads contents (bnd m f) s (bs @ cs) y s2"
  unfolding block_reads_def
proof (intro allI impI, elim conjE)
  fix b rest
  assume "stream_ok b" and "stream_bits contents b = (bs @ cs) @ rest"
  with assms(1) obtain b1 where b1: "m (s\<lparr>lhv2_bit_reader := b\<rparr>) = (Ok x, s1\<lparr>lhv2_bit_reader := b1\<rparr>)"
      "stream_ok b1" "stream_bits contents b1 = cs @ rest"
    unfolding block_reads_def by (metis append.assoc)
  with assms(2) obtain b2 where "f x (s1\<lparr>lhv2_bit_reader := b1\<rparr>) = (Ok y, s2\<lparr>lhv2_bit_reader := b2\<rparr>)"
      "stream_ok b2" "stream_bits contents b2 = rest"
    unfolding block_reads_def by blast
  with b1(1) show "\<exists>b'. bnd m f (s\<lparr>lhv2_bit_reader := b\<rparr>) = (Ok y, s2\<lparr>lhv2_bit_reader := b'\<rparr>) \<and>
      stream_ok b' \<and> stream_bits contents b' = rest"
    by (intro exI [of _ b2]) (simp add: bnd_Ok)
qed

lemma block_reads_bnd_first:
  "block_reads contents m s [] x s1 \<Longrightarrow> block_reads contents (f x) s1 cs y s2 \<Longrightarrow> block_reads contents (bnd m f) s cs y s2"
  using block_reads_bnd [of contents m s "[]" x s1 f cs y s2] by simp

lemma block_reads_bnd_last:
  "block_reads contents m s bs x s1 \<Longrightarrow> block_reads contents (f x) s1 [] y s2 \<Longrightarrow> block_reads contents (bnd m f) s bs y s2"
  using block_reads_bnd [of contents m s bs x s1 f "[]" y s2] by simp

lemma block_reads_bits: "decodes contents m bits x \<Longrightarrow> block_reads contents (on_bits m) s bits x s"
  by (fastforce simp: decodes_def block_reads_def on_bits_def zoom_def)

lemma block_reads_ret: "block_reads contents (ret x) s [] x s"
  by (auto simp: block_reads_def ret_def)

lemma block_reads_modify:
  "(\<And>b. g (s\<lparr>lhv2_bit_reader := b\<rparr>) = (g s)\<lparr>lhv2_bit_reader := b\<rparr>) \<Longrightarrow> block_reads contents (modify g) s [] () (g s)"
  by (auto simp: block_reads_def modify_def)

lemma block_reads_get:
  "(\<And>b. g (s\<lparr>lhv2_bit_reader := b\<rparr>) = g s) \<Longrightarrow> block_reads contents (get_state g) s [] (g s) s"
  by (auto simp: block_reads_def get_state_def)

lemma block_reads_offset_tree:
  assumes "build_tree lens (offset_tree s) = (Ok (), h)"
  shows "block_reads contents (build_offset_tree lens) s [] () (s\<lparr>offset_tree := h\<rparr>)"
  unfolding block_reads_def
proof (intro allI impI, elim conjE)
  fix b rest
  assume "stream_ok b" and "stream_bits contents b = [] @ rest"
  with assms show "\<exists>b'. build_offset_tree lens (s\<lparr>lhv2_bit_reader := b\<rparr>) =
      (Ok (), (s\<lparr>offset_tree := h\<rparr>)\<lparr>lhv2_bit_reader := b'\<rparr>) \<and> stream_ok b' \<and> stream_bits contents b' = rest"
    by (intro exI [of _ b]) (simp add: build_offset_tree_def zoom_def map_err_def)
qed

lemma block_reads_command_tree:
  assumes "build_tree lens (command_tree s) = (Ok (), h)"
  shows "block_reads contents (build_command_tree lens) s [] () (s\<lparr>command_tree := h\<rparr>)"
  unfolding block_reads_def
proof (intro allI impI, elim conjE)
  fix b rest
  assume "stream_ok b" and "stream_bits contents b = [] @ rest"
  with assms show "\<exists>b'. build_command_tree lens (s\<lparr>lhv2_bit_reader := b\<rparr>) =
      (Ok (), (s\<lparr>command_tree := h\<rparr>)\<lparr>lhv2_bit_reader := b'\<rparr>) \<and> stream_ok b' \<and> stream_bits contents b' = rest"
    by (intro exI [of _ b]) (simp add: build_command_tree_def zoom_def map_err_def)
qed

subsection \<open>The encoder\<close>

definition encode_length :: "u8 \<Rightarrow> bool list" where
  "encode_length len =
     (if len < 7 then nat_bits 3 (unat len) else nat_bits 3 7 @ replicate (unat len - 7) True @ [False])"

fun bit_len :: "nat \<Rightarrow> nat" where
  "bit_len n = (if n = 0 then 0 else Suc (bit_len (n div 2)))"

declare bit_len.simps [simp del]

record lhv2_block =
  temp_lens :: "u8 list"
  command_lens :: "u8 list"
  offset_lens :: "u8 list"
  commands :: "lz_command list"

definition encode_temp_tree :: "u8 list \<Rightarrow> bool list" where
  "encode_temp_tree lens = nat_bits 5 (length lens) @ concat (map encode_length (take 3 lens)) @
     nat_bits 2 0 @ concat (map encode_length (drop 3 lens))"

definition encode_command_tree :: "u8 list \<Rightarrow> u8 list \<Rightarrow> bool list" where
  "encode_command_tree tlens lens = nat_bits 9 (length lens) @
     concat (map (\<lambda>l. canonical_code tlens (if l = 0 then 0 else unat l + 2)) lens)"

definition encode_offset_tree :: "lhv2_config \<Rightarrow> u8 list \<Rightarrow> bool list" where
  "encode_offset_tree cfg lens = nat_bits (offset_bits cfg) (length lens) @ concat (map encode_length lens)"

fun encode_command :: "u8 list \<Rightarrow> u8 list \<Rightarrow> lz_command \<Rightarrow> bool list" where
  "encode_command clens olens (Literal v) = canonical_code clens (unat v)"
| "encode_command clens olens (History off n) = canonical_code clens (n + 253) @
     canonical_code olens (bit_len off) @ nat_bits (bit_len off - 1) off"

definition encode_block :: "lhv2_config \<Rightarrow> lhv2_block \<Rightarrow> bool list" where
  "encode_block cfg b = nat_bits 16 (length (commands b)) @ encode_temp_tree (temp_lens b) @
     encode_command_tree (temp_lens b) (command_lens b) @ encode_offset_tree cfg (offset_lens b) @
     concat (map (encode_command (command_lens b) (offset_lens b)) (commands b))"

subsection \<open>Valid blocks\<close>

definition has_code :: "u8 list \<Rightarrow> nat \<Rightarrow> bool" where
  "has_code lens i \<longleftrightarrow> i < length lens \<and> lens ! i \<noteq> 0"

definition complete_code :: "u8 list \<Rightarrow> bool" where
  "complete_code lens \<longleftrightarrow> 255 \<notin> set lens \<and> kraft lens = 2 ^ 255"

fun valid_command :: "u8 list \<Rightarrow> u8 list \<Rightarrow> lz_command \<Rightarrow> bool" where
  "valid_command clens olens (Literal v) \<longleftrightarrow> has_code clens (unat v)"
| "valid_command clens olens (History off n) \<longleftrightarrow> 3 \<le> n \<and> has_code clens (n + 253) \<and> has_code olens (bit_len off)"

definition valid_block :: "lhv2_config \<Rightarrow> lhv2_block \<Rightarrow> bool" where
  "valid_block cfg b \<longleftrightarrow>
     complete_code (temp_lens b) \<and> 3 \<le> length (temp_lens b) \<and> length (temp_lens b) \<le> num_temp_codelen \<and>
     complete_code (command_lens b) \<and> length (command_lens b) \<le> num_commands \<and>
     (\<forall>l\<in>set (command_lens b). has_code (temp_lens b) (if l = 0 then 0 else unat l + 2)) \<and>
     complete_code (offset_lens b) \<and> length (offset_lens b) \<le> history_bits cfg \<and>
     length (offset_lens b) < 2 ^ offset_bits cfg \<and>
     commands b \<noteq> [] \<and> length (commands b) < 2 ^ 16 \<and>
     list_all (valid_command (command_lens b) (offset_lens b)) (commands b)"

lemma complete_code_build:
  assumes "complete_code lens" and "length lens \<le> 16383"
  obtains h' where "build_tree lens h = (Ok (), h')"
  using build_tree_Ok_iff [of lens h] assms by (auto simp: complete_code_def)

lemma complete_code_ne: "complete_code lens \<Longrightarrow> 0 < length lens"
  by (cases lens) (auto simp: complete_code_def kraft_def)

lemma bit_len_bounds: "0 < off \<Longrightarrow> 2 ^ (bit_len off - 1) \<le> off \<and> off < 2 ^ bit_len off"
proof (induction off rule: bit_len.induct)
  case (1 n)
  show ?case
  proof (cases "n div 2 = 0")
    case True
    then have "n = 1" using 1(2) by simp
    then show ?thesis by (simp add: bit_len.simps)
  next
    case False
    then have pos: "0 < n div 2" by simp
    with 1 have IH: "2 ^ (bit_len (n div 2) - 1) \<le> n div 2" "n div 2 < 2 ^ bit_len (n div 2)" by simp_all
    obtain k where k: "bit_len (n div 2) = Suc k" using pos by (subst (asm) bit_len.simps [of "n div 2"]) (metis bit_len.simps neq0_conv)
    have "bit_len n = Suc (Suc k)" using 1(2) k by (simp add: bit_len.simps [of n])
    moreover have "n = 2 * (n div 2) + n mod 2" "n mod 2 < 2" by simp_all
    ultimately show ?thesis using IH unfolding k by simp linarith
  qed
qed

subsection \<open>The decoder reads back what is encoded\<close>

context reliable_reader begin

lemma decodes_read_bits:
  assumes "n < 2 ^ l" and "l \<le> LENGTH('t)" and "LENGTH('t) \<le> 64"
  shows "decodes contents (read_bits rd l) (nat_bits l n) (of_nat n :: 't :: len word)"
  unfolding decodes_def
proof (intro allI impI, elim conjE)
  fix s rest
  assume "stream_ok s" and "stream_bits contents s = nat_bits l n @ rest"
  then show "\<exists>t. read_bits rd l s = (Ok (of_nat n :: 't word), t) \<and> stream_ok t \<and> stream_bits contents t = rest"
    using assms by (rule read_bits_nat) blast
qed

lemma decodes_read_bit: "decodes contents (read_bit rd) [b] b"
  unfolding decodes_def
proof (intro allI impI, elim conjE)
  fix s rest
  assume "stream_ok s" and "stream_bits contents s = [b] @ rest"
  then have "stream_ok s" "stream_bits contents s = b # rest" by simp_all
  then show "\<exists>t. read_bit rd s = (Ok b, t) \<and> stream_ok t \<and> stream_bits contents t = rest"
    by (rule read_bit_Ok) blast
qed

lemma decodes_entry:
  assumes "wf_tree (tree h)" and "follow (tree h) 0 bs = Some v"
  shows "decodes contents (read_entry rd h) bs v"
  unfolding decodes_def
proof (intro allI impI, elim conjE)
  fix s rest
  assume "stream_ok s" and "stream_bits contents s = bs @ rest"
  from read_entry_follow [OF assms(1) this(1) assms(2) this(2)]
  show "\<exists>t. read_entry rd h s = (Ok v, t) \<and> stream_ok t \<and> stream_bits contents t = rest" by blast
qed

lemma decodes_canonical:
  assumes "build_tree lens h = (Ok (), h')" and "has_code lens i"
  shows "decodes contents (read_entry rd h') (canonical_code lens i) (of_nat i)"
proof (rule decodes_entry)
  show "wf_tree (tree h')" using assms(1) by (rule built_tree)
  show "follow (tree h') 0 (canonical_code lens i) = Some (of_nat i)"
    using built_tree(2) [OF assms(1)] assms(2) by (auto simp: has_code_def)
qed

lemma decodes_length_loop:
  "unat len + k \<le> 255 \<Longrightarrow> decodes contents (code_length_loop rd len) (replicate k True @ [False]) (len + of_nat k)"
proof (induction k arbitrary: len)
  case 0
  show ?case
    unfolding code_length_loop.simps [of rd len] replicate_0 append_Nil
    by (rule decodes_bnd_last [OF decodes_read_bit]) (simp add: decodes_ret)
next
  case (Suc k)
  have "len \<noteq> 255" using Suc.prems by auto
  from u8_not_max [OF this] Suc.prems have "unat (len + 1) + k \<le> 255" by simp
  note IH = Suc.IH [OF this]
  have body: "decodes contents (if True then if len = 255 then fail (Decompress ''code length overflow'')
         else code_length_loop rd (len + 1) else ret len) (replicate k True @ [False]) (len + of_nat (Suc k))"
  proof -
    have eq: "len + of_nat (Suc k) = len + 1 + of_nat k" by (simp only: of_nat_Suc add.assoc)
    show ?thesis unfolding if_P [OF TrueI] if_not_P [OF \<open>len \<noteq> 255\<close>] eq by (rule IH)
  qed
  have "decodes contents (code_length_loop rd len) ([True] @ replicate k True @ [False]) (len + of_nat (Suc k))"
    unfolding code_length_loop.simps [of rd len]
    by (rule decodes_bnd [OF decodes_read_bit]) (rule body)
  then show ?case by simp
qed

lemma decodes_code_length: "decodes contents (read_code_length rd) (encode_length len) len"
proof (cases "len < 7")
  case True
  then have lt: "unat len < 7" by (simp add: word_less_nat_alt)
  then have "decodes contents (read_bits rd 3) (nat_bits 3 (unat len)) (of_nat (unat len) :: u8)"
    by (intro decodes_read_bits) simp_all
  then have first: "decodes contents (read_bits rd 3) (nat_bits 3 (unat len)) len" by simp
  have "len \<noteq> 7" using lt by auto
  then have "decodes contents (if len = 7 then code_length_loop rd len else ret len) [] len"
    by (simp add: decodes_ret)
  with first show ?thesis
    unfolding read_code_length_def encode_length_def if_P [OF True] by (rule decodes_bnd_last)
next
  case False
  then have ge: "7 \<le> unat len" by (simp add: word_less_nat_alt)
  have "unat len \<le> 255" using unat_u8_less [of len] by simp
  with ge have k: "unat (7 :: u8) + (unat len - 7) \<le> 255" by simp
  have "(7 :: u8) + of_nat (unat len - 7) = of_nat (7 + (unat len - 7))" by simp
  also have "\<dots> = len" using ge by simp
  finally have len: "(7 :: u8) + of_nat (unat len - 7) = len" .
  have "decodes contents (read_bits rd 3) (nat_bits 3 7) (of_nat 7 :: u8)"
    by (rule decodes_read_bits) simp_all
  then have first: "decodes contents (read_bits rd 3) (nat_bits 3 7) (7 :: u8)" by simp
  have "decodes contents (if (7 :: u8) = 7 then code_length_loop rd 7 else ret 7)
      (replicate (unat len - 7) True @ [False]) len"
    using decodes_length_loop [OF k] unfolding len by simp
  then show ?thesis
    unfolding read_code_length_def encode_length_def if_not_P [OF False] by (rule decodes_bnd [OF first])
qed

lemma decodes_code_lengths:
  "decodes contents (read_code_lengths rd (length ls)) (concat (map encode_length ls)) ls"
proof (induction ls)
  case Nil
  show ?case by (simp add: decodes_ret)
next
  case (Cons l ls)
  have "decodes contents (bnd (read_code_lengths rd (length ls)) (\<lambda>ps. ret (l # ps)))
      (concat (map encode_length ls)) (l # ls)"
    by (rule decodes_bnd_last [OF Cons decodes_ret])
  then show ?case
    unfolding list.map concat.simps length_Cons read_code_lengths.simps by (rule decodes_bnd [OF decodes_code_length])
qed

lemma block_reads_number:
  assumes "n < 2 ^ l" and "l \<le> LENGTH('t)" and "LENGTH('t) \<le> 64"
    and "block_reads contents (f (of_nat n)) s cs y s'"
  shows "block_reads contents (bnd (on_bits (read_bits rd l)) (f :: 't :: len word \<Rightarrow> _)) s (nat_bits l n @ cs) y s'"
  using block_reads_bits [OF decodes_read_bits [OF assms(1-3)]] assms(4) by (rule block_reads_bnd)

lemma block_reads_lengths:
  assumes "length ls = n" and "block_reads contents (f ls) s cs y s'"
  shows "block_reads contents (bnd (on_bits (read_code_lengths rd n)) f) s (concat (map encode_length ls) @ cs) y s'"
  unfolding assms(1) [symmetric] using block_reads_bits [OF decodes_code_lengths] assms(2) by (rule block_reads_bnd)

lemma block_reads_temp_tree:
  assumes "build_tree lens (offset_tree s) = (Ok (), h)" and "3 \<le> length lens" and "length lens \<le> num_temp_codelen"
  shows "block_reads contents (read_temp_tree rd) s (encode_temp_tree lens) () (s\<lparr>offset_tree := h\<rparr>)"
proof -
  have len: "length lens < 2 ^ 5" using assms(3) by (simp add: num_temp_codelen_def)
  then have num: "unat (of_nat (length lens) :: u64) = length lens" by (simp add: unat_of_nat)
  have parts: "take 3 lens @ replicate 0 0 @ drop 3 lens = lens" by simp
  have "block_reads contents (build_offset_tree (take 3 lens @ replicate 0 0 @ drop 3 lens)) s [] () (s\<lparr>offset_tree := h\<rparr>)"
    unfolding parts using assms(1) by (rule block_reads_offset_tree)
  then have rest: "block_reads contents (bnd (on_bits (read_code_lengths rd (length lens - (3 + 0))))
      (\<lambda>rest. build_offset_tree (take 3 lens @ replicate 0 0 @ rest))) s (concat (map encode_length (drop 3 lens))) ()
      (s\<lparr>offset_tree := h\<rparr>)"
    using block_reads_lengths [of "drop 3 lens" "length lens - (3 + 0)"] assms(2) by fastforce
  have skip: "block_reads contents (bnd (on_bits (read_bits rd 2)) (\<lambda>k :: u64.
         if 3 + unat k > length lens then fail (Decompress ''temporary codelen table has invalid size'')
         else bnd (on_bits (read_code_lengths rd (length lens - (3 + unat k)))) (\<lambda>rest.
           build_offset_tree (take 3 lens @ replicate (unat k) 0 @ rest)))) s
      (nat_bits 2 0 @ concat (map encode_length (drop 3 lens))) () (s\<lparr>offset_tree := h\<rparr>)"
    by (rule block_reads_number) (use rest assms(2) in simp_all)
  have "block_reads contents (bnd (on_bits (read_code_lengths rd (min (length lens) 3))) (\<lambda>first.
       bnd (on_bits (read_bits rd 2)) (\<lambda>k :: u64.
         if 3 + unat k > length lens then fail (Decompress ''temporary codelen table has invalid size'')
         else bnd (on_bits (read_code_lengths rd (length lens - (3 + unat k)))) (\<lambda>rest.
           build_offset_tree (first @ replicate (unat k) 0 @ rest))))) s
      (concat (map encode_length (take 3 lens)) @ nat_bits 2 0 @ concat (map encode_length (drop 3 lens))) ()
      (s\<lparr>offset_tree := h\<rparr>)"
  proof (rule block_reads_lengths)
    show "length (take 3 lens) = min (length lens) 3" by simp
  qed (rule skip)
  then show ?thesis
    unfolding read_temp_tree_def encode_temp_tree_def Let_def
    by (intro block_reads_number len) (unfold num, use assms(2,3) in auto)
qed

text \<open>The table of command code lengths, entry by entry.\<close>

lemma table_step:
  fixes lens :: "u8 list"
  assumes "i < length lens" and "length lens \<le> m"
  shows "(take i lens @ replicate (m - i) 0)[i := lens ! i] = take (Suc i) lens @ replicate (m - Suc i) 0"
proof -
  have "replicate (m - i) 0 = 0 # replicate (m - Suc i) (0 :: u8)" using assms by (simp add: Suc_diff_Suc flip: replicate_Suc)
  then show ?thesis using assms by (simp add: list_update_append take_Suc_conv_app_nth)
qed

lemma table_same:
  assumes "i < length lens" and "length lens \<le> m" and "lens ! i = 0"
  shows "take i lens @ replicate (m - i) 0 = take (Suc i) lens @ replicate (m - Suc i) (0 :: u8)"
proof -
  have "replicate (m - i) 0 = 0 # replicate (m - Suc i) (0 :: u8)"
    using assms by (simp add: Suc_diff_Suc flip: replicate_Suc)
  then show ?thesis using assms by (simp add: take_Suc_conv_app_nth)
qed

lemma block_reads_entry:
  assumes "build_tree lens g = (Ok (), h)" and "has_code lens i" and "block_reads contents (f (of_nat i)) s cs y s'"
  shows "block_reads contents (bnd (on_bits (read_entry rd h)) f) s (canonical_code lens i @ cs) y s'"
  using block_reads_bits [OF decodes_canonical [OF assms(1,2)]] assms(3) by (rule block_reads_bnd)

lemma block_reads_command_lengths:
  assumes build: "build_tree tlens g = (Ok (), offset_tree s)"
    and code: "\<And>l. l \<in> set lens \<Longrightarrow> has_code tlens (if l = 0 then 0 else unat l + 2)"
    and m: "length lens \<le> m"
  shows "i \<le> length lens \<Longrightarrow> length lens - i \<le> fuel \<Longrightarrow>
    block_reads contents (read_command_lengths fuel rd (length lens) i (take i lens @ replicate (m - i) 0)) s
      (concat (map (\<lambda>l. canonical_code tlens (if l = 0 then 0 else unat l + 2)) (drop i lens)))
      (lens @ replicate (m - length lens) 0) s"
proof (induction fuel arbitrary: i)
  case 0
  then show ?case by (simp add: block_reads_ret)
next
  case (Suc fuel)
  show ?case
  proof (cases "i < length lens")
    case False
    with Suc.prems show ?thesis by (simp add: block_reads_ret)
  next
    case True
    let ?l = "lens ! i"
    let ?acc = "take i lens @ replicate (m - i) 0"
    have drop: "drop i lens = ?l # drop (Suc i) lens" using True by (simp add: Cons_nth_drop_Suc)
    have mem: "?l \<in> set lens" using True by simp
    have IH: "block_reads contents (read_command_lengths fuel rd (length lens) (Suc i) (take (Suc i) lens @ replicate (m - Suc i) 0)) s
      (concat (map (\<lambda>l. canonical_code tlens (if l = 0 then 0 else unat l + 2)) (drop (Suc i) lens)))
      (lens @ replicate (m - length lens) 0) s"
      using Suc.IH [of "Suc i"] Suc.prems True by simp
    let ?f = "\<lambda>code :: u16. if code \<le> 2 then
              bnd (on_bits (read_code_skip rd code)) (\<lambda>skip_count.
                read_command_lengths fuel rd (length lens) (i + skip_count) ?acc)
            else read_command_lengths fuel rd (length lens) (i + 1) (?acc[i := ucast (code - 2)])"
    have rest: "block_reads contents (?f (of_nat (if ?l = 0 then 0 else unat ?l + 2))) s
      (concat (map (\<lambda>l. canonical_code tlens (if l = 0 then 0 else unat l + 2)) (drop (Suc i) lens)))
      (lens @ replicate (m - length lens) 0) s"
    proof (cases "?l = 0")
      case True
      have "block_reads contents (on_bits (read_code_skip rd 0)) s [] 1 s"
        by (rule block_reads_bits) (simp add: read_code_skip_def decodes_ret)
      then have "block_reads contents (bnd (on_bits (read_code_skip rd 0)) (\<lambda>skip_count.
          read_command_lengths fuel rd (length lens) (i + skip_count) ?acc)) s
        (concat (map (\<lambda>l. canonical_code tlens (if l = 0 then 0 else unat l + 2)) (drop (Suc i) lens)))
        (lens @ replicate (m - length lens) 0) s"
        by (rule block_reads_bnd_first)
          (use IH table_same [OF \<open>i < length lens\<close> m True] in simp)
      then show ?thesis using True by simp
    next
      case False
      then have "unat ?l \<noteq> 0" by (simp add: unat_eq_0)
      have small: "unat ?l + 2 < 65536" using unat_u8_less [of ?l] by simp
      let ?code = "of_nat (unat ?l + 2) :: u16"
      have c: "unat ?code = unat ?l + 2" using small unfolding unat_of_nat by simp
      have big: "\<not> ?code \<le> 2" unfolding word_le_nat_alt c using \<open>unat ?l \<noteq> 0\<close> by simp
      have "?code - 2 = ucast ?l" by simp
      then have "ucast (?code - 2) = (ucast (ucast ?l :: u16) :: u8)" by (simp only:)
      also have "\<dots> = ?l" by (rule bit_word_eqI) (simp add: bit_simps)
      finally have "ucast (?code - 2) = ?l" .
      then have "?acc[i := ucast (?code - 2)] = take (Suc i) lens @ replicate (m - Suc i) 0"
        using table_step [OF True m] by simp
      with IH False big show ?thesis by (simp del: of_nat_add)
    qed
    have "block_reads contents (bnd (get_state offset_tree) (\<lambda>t. bnd (on_bits (read_entry rd t)) ?f)) s
      (concat (map (\<lambda>l. canonical_code tlens (if l = 0 then 0 else unat l + 2)) (drop i lens)))
      (lens @ replicate (m - length lens) 0) s"
      unfolding drop list.map concat.simps
    proof (rule block_reads_bnd_first [OF block_reads_get])
      show "block_reads contents (bnd (on_bits (read_entry rd (offset_tree s))) ?f) s
         (canonical_code tlens (if ?l = 0 then 0 else unat ?l + 2) @
          concat (map (\<lambda>l. canonical_code tlens (if l = 0 then 0 else unat l + 2)) (drop (Suc i) lens)))
         (lens @ replicate (m - length lens) 0) s"
        using build code [OF mem] rest by (rule block_reads_entry)
    qed simp
    then show ?thesis using True by simp
  qed
qed

lemma block_reads_command_table:
  assumes "build_tree tlens g = (Ok (), offset_tree s)"
    and "\<And>l. l \<in> set lens \<Longrightarrow> has_code tlens (if l = 0 then 0 else unat l + 2)"
    and "0 < length lens" and "length lens \<le> num_commands"
    and "build_tree lens (command_tree s) = (Ok (), h)"
  shows "block_reads contents (read_command_tree rd) s (encode_command_tree tlens lens) () (s\<lparr>command_tree := h\<rparr>)"
proof -
  have len: "length lens < 2 ^ 9" using assms(4) by (simp add: num_commands_def)
  then have num: "unat (of_nat (length lens) :: u64) = length lens" by (simp add: unat_of_nat)
  have "block_reads contents (read_command_lengths (length lens) rd (length lens) 0 (take 0 lens @ replicate (num_commands - 0) 0)) s
      (concat (map (\<lambda>l. canonical_code tlens (if l = 0 then 0 else unat l + 2)) (drop 0 lens)))
      (lens @ replicate (num_commands - length lens) 0) s"
    by (rule block_reads_command_lengths [OF assms(1,2,4)]) simp_all
  then have table: "block_reads contents (read_command_lengths (length lens) rd (length lens) 0 (replicate num_commands 0)) s
      (concat (map (\<lambda>l. canonical_code tlens (if l = 0 then 0 else unat l + 2)) lens))
      (lens @ replicate (num_commands - length lens) 0) s"
    by simp
  have "block_reads contents (bnd (read_command_lengths (length lens) rd (length lens) 0 (replicate num_commands 0))
      (\<lambda>lens'. build_command_tree (take (length lens) lens'))) s
      (concat (map (\<lambda>l. canonical_code tlens (if l = 0 then 0 else unat l + 2)) lens)) () (s\<lparr>command_tree := h\<rparr>)"
    by (rule block_reads_bnd_last [OF table]) (simp add: block_reads_command_tree [OF assms(5)])
  then show ?thesis
    unfolding read_command_tree_def encode_command_tree_def Let_def
    by (intro block_reads_number len) (unfold num, use assms(3,4) in auto)
qed

lemma block_reads_offset_table:
  assumes "build_tree lens (offset_tree s) = (Ok (), h)" and "0 < length lens" and "length lens \<le> history_bits cfg"
    and "length lens < 2 ^ offset_bits cfg" and "offset_bits cfg \<le> 5"
  shows "block_reads contents (read_offset_tree cfg rd) s (encode_offset_tree cfg lens) () (s\<lparr>offset_tree := h\<rparr>)"
proof -
  have "length lens < 2 ^ 5" using assms(4) power_increasing [OF assms(5), of "2::nat"] by simp
  then have num: "unat (of_nat (length lens) :: u64) = length lens" by (simp add: unat_of_nat)
  have "block_reads contents (bnd (on_bits (read_code_lengths rd (length lens))) build_offset_tree) s
      (concat (map encode_length lens) @ []) () (s\<lparr>offset_tree := h\<rparr>)"
    using block_reads_offset_tree [OF assms(1)] by (intro block_reads_lengths) simp_all
  then have table: "block_reads contents (bnd (on_bits (read_code_lengths rd (length lens))) build_offset_tree) s
      (concat (map encode_length lens)) () (s\<lparr>offset_tree := h\<rparr>)"
    by simp
  show ?thesis
    unfolding read_offset_tree_def encode_offset_tree_def Let_def
    by (intro block_reads_number assms(4)) (unfold num, use table assms(2,3,5) in auto)
qed

text \<open>A whole block header, and one command of the block.\<close>

lemma block_reads_header:
  assumes cfg: "config_ok cfg" and block: "valid_block cfg b"
  obtains s' where "block_reads contents (begin_new_block cfg rd) s
      (nat_bits 16 (length (commands b)) @ encode_temp_tree (temp_lens b) @
       encode_command_tree (temp_lens b) (command_lens b) @ encode_offset_tree cfg (offset_lens b)) () s'"
    and "\<exists>g. build_tree (command_lens b) g = (Ok (), command_tree s')"
    and "\<exists>g. build_tree (offset_lens b) g = (Ok (), offset_tree s')"
    and "remaining_commands s' = of_nat (length (commands b))" and "frame s s'"
proof -
  have v: "complete_code (temp_lens b)" "3 \<le> length (temp_lens b)" "length (temp_lens b) \<le> num_temp_codelen"
      "complete_code (command_lens b)" "length (command_lens b) \<le> num_commands"
      "complete_code (offset_lens b)" "length (offset_lens b) \<le> history_bits cfg"
      "length (offset_lens b) < 2 ^ offset_bits cfg" "length (commands b) < 2 ^ 16"
    and codes: "\<And>l. l \<in> set (command_lens b) \<Longrightarrow> has_code (temp_lens b) (if l = 0 then 0 else unat l + 2)"
    using block unfolding valid_block_def by blast+
  have c: "offset_bits cfg \<le> 5" "history_bits cfg \<le> 20" using cfg by (simp_all add: config_ok_def)
  have short: "length (temp_lens b) \<le> 16383" "length (command_lens b) \<le> 16383" "length (offset_lens b) \<le> 16383"
    using v(3,5,7) c(2) by (simp_all add: num_temp_codelen_def num_commands_def)
  let ?s1 = "s\<lparr>remaining_commands := of_nat (length (commands b))\<rparr>"
  obtain t where t: "build_tree (temp_lens b) (offset_tree ?s1) = (Ok (), t)"
    using v(1) short(1) by (rule complete_code_build)
  let ?s2 = "?s1\<lparr>offset_tree := t\<rparr>"
  obtain g where g: "build_tree (command_lens b) (command_tree ?s2) = (Ok (), g)"
    using v(4) short(2) by (rule complete_code_build)
  let ?s3 = "?s2\<lparr>command_tree := g\<rparr>"
  obtain d where d: "build_tree (offset_lens b) (offset_tree ?s3) = (Ok (), d)"
    using v(6) short(3) by (rule complete_code_build)
  let ?s4 = "?s3\<lparr>offset_tree := d\<rparr>"
  have temp: "block_reads contents (read_temp_tree rd) ?s1 (encode_temp_tree (temp_lens b)) () ?s2"
    by (rule block_reads_temp_tree [OF t v(2,3)])
  have t': "build_tree (temp_lens b) (offset_tree ?s1) = (Ok (), offset_tree ?s2)" using t by simp
  have comm: "block_reads contents (read_command_tree rd) ?s2
      (encode_command_tree (temp_lens b) (command_lens b)) () ?s3"
    by (rule block_reads_command_table [OF t' codes complete_code_ne [OF v(4)] v(5) g])
  have offs: "block_reads contents (read_offset_tree cfg rd) ?s3 (encode_offset_tree cfg (offset_lens b)) () ?s4"
    by (rule block_reads_offset_table [OF d complete_code_ne [OF v(6)] v(7,8) c(1)])
  have set: "block_reads contents (modify (\<lambda>s. s\<lparr>remaining_commands := of_nat (length (commands b))\<rparr>)) s [] () ?s1"
    by (rule block_reads_modify) simp
  have "block_reads contents (begin_new_block cfg rd) s
      (nat_bits 16 (length (commands b)) @ encode_temp_tree (temp_lens b) @
       encode_command_tree (temp_lens b) (command_lens b) @ encode_offset_tree cfg (offset_lens b)) () ?s4"
    unfolding begin_new_block_def
  proof (rule block_reads_number)
    show "length (commands b) < 2 ^ 16" by (rule v(9))
    show "block_reads contents (bnd (modify (\<lambda>s. s\<lparr>remaining_commands := of_nat (length (commands b))\<rparr>)) (\<lambda>_.
         bnd (read_temp_tree rd) (\<lambda>_. bnd (read_command_tree rd) (\<lambda>_. read_offset_tree cfg rd)))) s
       (encode_temp_tree (temp_lens b) @ encode_command_tree (temp_lens b) (command_lens b) @
        encode_offset_tree cfg (offset_lens b)) () ?s4"
      by (rule block_reads_bnd_first [OF set], rule block_reads_bnd [OF temp],
          rule block_reads_bnd [OF comm], rule offs)
  qed simp_all
  moreover have "frame s ?s4" by (simp add: frame_def)
  ultimately show thesis using g d by (intro that [of ?s4]) (auto intro: exI)
qed

lemma bit_len_pos: "0 < off \<Longrightarrow> 0 < bit_len off"
  by (simp add: bit_len.simps [of off])

lemma bit_len_small: "bit_len off \<le> 1 \<Longrightarrow> bit_len off = off"
proof (cases "off = 0")
  case True
  then show ?thesis by (simp add: bit_len.simps)
next
  case False
  assume "bit_len off \<le> 1"
  with bit_len_pos [of off] False have "bit_len off = 1" by simp
  with bit_len_bounds [of off] False show ?thesis by simp
qed

text \<open>The low bits and the leading one of an offset make the offset.\<close>

lemma offset_value:
  assumes "1 < bit_len off" and "bit_len off \<le> 32"
  shows "unat ((of_bits (nat_bits (bit_len off - 1) off) :: u32) OR push_bit (bit_len off - 1) 1) = off"
proof -
  define k where "k = bit_len off - 1"
  have off: "0 < off" using assms(1) by (cases "off = 0") (simp_all add: bit_len.simps)
  have "2 ^ k \<le> off" "off < 2 ^ Suc k" using bit_len_bounds [OF off] assms(1) by (simp_all add: k_def)
  have k: "k < 32" using assms by (simp add: k_def)
  have small: "off < 2 ^ 32"
    using \<open>off < 2 ^ Suc k\<close> power_increasing [of "Suc k" 32 "2::nat"] k by simp
  have top: "bit off k"
  proof -
    have "off div 2 ^ k = 1"
      using \<open>2 ^ k \<le> off\<close> \<open>off < 2 ^ Suc k\<close> by (intro div_nat_eqI) simp_all
    then show ?thesis by (simp add: bit_iff_odd)
  qed
  have above: "\<not> bit off i" if "k < i" for i
  proof -
    have "off < 2 ^ i" using \<open>off < 2 ^ Suc k\<close> power_increasing [of "Suc k" i "2::nat"] that by simp
    then show ?thesis by (simp add: bit_iff_odd)
  qed
  have "(of_bits (nat_bits k off) :: u32) OR push_bit k 1 = of_nat off"
  proof (rule bit_word_eqI)
    fix i assume "i < LENGTH(32)"
    have low: "bit (of_bits (nat_bits k off) :: u32) i \<longleftrightarrow> i < k \<and> bit off i"
    proof (cases "i < k")
      case True
      then have "nat_bits k off ! (k - 1 - i) = bit off i" by (simp add: nat_bits_def rev_nth)
      with True \<open>i < LENGTH(32)\<close> show ?thesis by (simp add: bit_of_bits)
    next
      case False
      then show ?thesis by (simp add: bit_of_bits)
    qed
    have "bit (push_bit k 1 :: u32) i \<longleftrightarrow> i = k"
      using \<open>i < LENGTH(32)\<close> k by (auto simp only: bit_push_bit_iff bit_1_iff possible_bit_word)
    moreover have of_nat: "bit (of_nat off :: u32) i \<longleftrightarrow> bit off i"
      using \<open>i < LENGTH(32)\<close> by (simp add: bit_of_nat_iff)
    ultimately show "bit ((of_bits (nat_bits k off) :: u32) OR push_bit k 1) i = bit (of_nat off :: u32) i"
      unfolding bit_or_iff low of_nat top
      using top above [of i] \<open>i < LENGTH(32)\<close> by (cases "i < k"; cases "i = k") auto
  qed
  then show ?thesis unfolding k_def [symmetric] using small by (simp add: unat_of_nat)
qed

lemma block_reads_offset:
  assumes "build_tree olens g = (Ok (), offset_tree s)" and "has_code olens (bit_len off)" and "length olens \<le> 20"
  shows "block_reads contents (read_offset rd) s (canonical_code olens (bit_len off) @ nat_bits (bit_len off - 1) off) off s"
proof -
  let ?L = "bit_len off"
  have L: "?L < 20" using assms(2,3) by (simp add: has_code_def)
  then have num: "unat (of_nat ?L :: u16) = ?L" by (simp add: unat_of_nat)
  have "block_reads contents (if ?L \<le> 1 then ret ?L
         else bnd (on_bits (read_bits rd (?L - 1))) (\<lambda>res :: u32.
           if ?L - 1 < 32 then ret (unat (res OR push_bit (?L - 1) 1)) else crash Overflow)) s
      (nat_bits (?L - 1) off) off s"
  proof (cases "?L \<le> 1")
    case True
    then have "nat_bits (?L - 1) off = []" by (simp add: nat_bits_def)
    with True bit_len_small [OF True] show ?thesis by (simp add: block_reads_ret)
  next
    case False
    let ?r = "of_bits (nat_bits (?L - 1) off) :: u32"
    have "decodes contents (read_bits rd (?L - 1)) (nat_bits (?L - 1) off) ?r"
      unfolding decodes_def
    proof (intro allI impI, elim conjE)
      fix b rest
      assume b: "stream_ok b" "stream_bits contents b = nat_bits (?L - 1) off @ rest"
      have "?L - 1 \<le> LENGTH(32)" "LENGTH(32) \<le> 64" "?L - 1 \<le> length (stream_bits contents b)" using L b(2) by simp_all
      from read_bits_Ok [OF b(1) this] b(2)
      show "\<exists>t. read_bits rd (?L - 1) b = (Ok ?r, t) \<and> stream_ok t \<and> stream_bits contents t = rest" by auto
    qed
    then have read: "block_reads contents (on_bits (read_bits rd (?L - 1))) s (nat_bits (?L - 1) off) ?r s"
      by (rule block_reads_bits)
    have val: "unat (?r OR push_bit (?L - 1) 1) = off" using False L by (intro offset_value) simp_all
    have "block_reads contents (if ?L - 1 < 32 then ret (unat (?r OR push_bit (?L - 1) 1)) else crash Overflow) s [] off s"
    proof -
      have "?L - 1 < 32" using L by simp
      then show ?thesis unfolding val by (simp only: if_True block_reads_ret)
    qed
    then show ?thesis unfolding if_not_P [OF False]
      using block_reads_bnd_last [OF read, of "\<lambda>res. if ?L - 1 < 32 then ret (unat (res OR push_bit (?L - 1) 1)) else crash Overflow"]
      by blast
  qed
  then have rest: "block_reads contents ((\<lambda>bits :: u16. if unat bits \<le> 1 then ret (unat bits)
         else bnd (on_bits (read_bits rd (unat bits - 1))) (\<lambda>res :: u32.
           if unat bits - 1 < 32 then ret (unat (res OR push_bit (unat bits - 1) 1))
           else crash Overflow)) (of_nat ?L)) s (nat_bits (?L - 1) off) off s"
    by (simp only: num)
  show ?thesis
    unfolding read_offset_def
  proof (rule block_reads_bnd_first [OF block_reads_get])
    show "block_reads contents (bnd (on_bits (read_entry rd (offset_tree s))) (\<lambda>bits :: u16.
         if unat bits \<le> 1 then ret (unat bits)
         else bnd (on_bits (read_bits rd (unat bits - 1))) (\<lambda>res :: u32.
           if unat bits - 1 < 32 then ret (unat (res OR push_bit (unat bits - 1) 1))
           else crash Overflow))) s (canonical_code olens ?L @ nat_bits (?L - 1) off) off s"
      using assms(1,2) rest by (rule block_reads_entry)
  qed simp
qed

end

text \<open>The trees of the decoder are those of the given code lengths.\<close>

definition block_trees :: "u8 list \<Rightarrow> u8 list \<Rightarrow> 'r lhv2_decoder \<Rightarrow> bool" where
  "block_trees clens olens s \<longleftrightarrow> length clens \<le> num_commands \<and> length olens \<le> 20 \<and>
     (\<exists>g. build_tree clens g = (Ok (), command_tree s)) \<and> (\<exists>g. build_tree olens g = (Ok (), offset_tree s))"

definition decoder_ready :: "('r \<Rightarrow> u8 list) \<Rightarrow> lhv2_config \<Rightarrow> bool list \<Rightarrow> 'r lhv2_decoder \<Rightarrow>
    u8 list \<Rightarrow> u8 list \<Rightarrow> lz_command list \<Rightarrow> lhv2_block list \<Rightarrow> bool" where
  "decoder_ready contents cfg rest s clens olens cur blocks \<longleftrightarrow>
     list_all (valid_block cfg) blocks \<and> list_all (valid_command clens olens) cur \<and>
     length cur < 2 ^ 16 \<and> remaining_commands s = of_nat (length cur) \<and>
     (cur \<noteq> [] \<longrightarrow> block_trees clens olens s) \<and>
     stream_bits contents (lhv2_bit_reader s) =
       concat (map (encode_command clens olens) cur) @ concat (map (encode_block cfg) blocks) @ rest"

definition lhv2_ready :: "('r \<Rightarrow> u8 list) \<Rightarrow> lhv2_config \<Rightarrow> bool list \<Rightarrow> 'r lhv2_decoder \<Rightarrow> lz_command list \<Rightarrow> bool" where
  "lhv2_ready contents cfg rest s cs \<longleftrightarrow> (\<exists>clens olens cur blocks.
     cs = cur @ concat (map commands blocks) \<and> decoder_ready contents cfg rest s clens olens cur blocks)"

context reliable_reader begin

lemma block_reads_one:
  assumes trees: "block_trees clens olens s" and valid: "valid_command clens olens c"
  shows "block_reads contents (bnd (modify (\<lambda>s. s\<lparr>remaining_commands := remaining_commands s - 1\<rparr>)) (\<lambda>_.
         bnd (get_state command_tree) (\<lambda>t.
           bnd (on_bits (read_entry rd t)) (\<lambda>code.
             if code \<le> 0xff then ret (Literal (ucast code))
             else bnd (read_offset rd) (\<lambda>offset. ret (History offset (unat (code - 0x100 + 3)))))))) s
     (encode_command clens olens c) c (s\<lparr>remaining_commands := remaining_commands s - 1\<rparr>)"
proof -
  let ?s = "s\<lparr>remaining_commands := remaining_commands s - 1\<rparr>"
  obtain g g' where ct: "build_tree clens g = (Ok (), command_tree s)" and ot: "build_tree olens g' = (Ok (), offset_tree ?s)"
    using trees by (auto simp: block_trees_def)
  have lens: "length clens \<le> 510" "length olens \<le> 20" using trees by (simp_all add: block_trees_def num_commands_def)
  let ?f = "\<lambda>code :: u16. if code \<le> 0xff then ret (Literal (ucast code))
             else bnd (read_offset rd) (\<lambda>offset. ret (History offset (unat (code - 0x100 + 3))))"
  have entry: "block_reads contents (bnd (on_bits (read_entry rd (command_tree s))) ?f) ?s (encode_command clens olens c) c ?s"
  proof (cases c)
    case (Literal v)
    have "unat v < 256" by (rule unat_u8_less)
    then have "unat (of_nat (unat v) :: u16) = unat v" unfolding unat_of_nat by simp
    with \<open>unat v < 256\<close> have "(of_nat (unat v) :: u16) \<le> 0xff" unfolding word_le_nat_alt by simp
    moreover have "ucast (of_nat (unat v) :: u16) = v"
      by (rule bit_word_eqI) (simp add: bit_simps)
    ultimately have f: "block_reads contents (?f (of_nat (unat v))) ?s [] c ?s"
      by (simp only: if_True Literal block_reads_ret)
    have "has_code clens (unat v)" using valid Literal by simp
    from block_reads_entry [OF ct this, of ?f, OF f] show ?thesis by (simp add: Literal)
  next
    case (History off n)
    with valid have n: "3 \<le> n" "has_code clens (n + 253)" "has_code olens (bit_len off)" by simp_all
    then have small: "n + 253 < 510" using lens(1) by (simp add: has_code_def)
    let ?code = "of_nat (n + 253) :: u16"
    have c: "unat ?code = n + 253" using small unfolding unat_of_nat by simp
    have big: "\<not> ?code \<le> 0xff" unfolding word_le_nat_alt c using n(1) by simp
    have "unat ?code < 512" unfolding c using small by simp
    from copy_count(2) [OF big this] have cnt: "unat (?code - 0x100 + 3) = n" unfolding c by simp
    have "block_reads contents (bnd (read_offset rd) (\<lambda>offset. ret (History offset n))) ?s
        (canonical_code olens (bit_len off) @ nat_bits (bit_len off - 1) off) (History off n) ?s"
      by (rule block_reads_bnd_last [OF block_reads_offset [OF ot n(3) lens(2)] block_reads_ret])
    then have f: "block_reads contents (?f ?code) ?s
        (canonical_code olens (bit_len off) @ nat_bits (bit_len off - 1) off) c ?s"
      unfolding if_not_P [OF big] cnt History .
    from block_reads_entry [OF ct n(2), of ?f, OF f] show ?thesis by (simp add: History)
  qed
  have m: "block_reads contents (modify (\<lambda>s. s\<lparr>remaining_commands := remaining_commands s - 1\<rparr>)) s [] () ?s"
    by (rule block_reads_modify) simp
  have get: "block_reads contents (get_state command_tree) ?s [] (command_tree s) ?s"
    using block_reads_get [of command_tree ?s contents] by simp
  show ?thesis
    by (rule block_reads_bnd_first [OF m], rule block_reads_bnd_first [OF get], rule entry)
qed

lemma block_reads_at:
  assumes "block_reads contents m s bits x s'" and "stream_ok (lhv2_bit_reader s)"
    and "stream_bits contents (lhv2_bit_reader s) = bits @ rest"
  obtains b where "m s = (Ok x, s'\<lparr>lhv2_bit_reader := b\<rparr>)" and "stream_ok b" and "stream_bits contents b = rest"
  using assms unfolding block_reads_def by (metis lhv2_decoder.surjective lhv2_decoder.update_convs(1))

lemma begin_blocks_idle: "remaining_commands s \<noteq> 0 \<Longrightarrow> begin_blocks fuel cfg rd s = (Ok (), s)"
  by (cases fuel) (simp_all add: bnd_def get_state_def ret_def)

lemma lhv2_read_current:
  assumes "decoder_ready contents cfg rest s clens olens (c # cur) blocks" and "stream_ok (lhv2_bit_reader s)"
  shows "\<exists>t. lhv2_read_command fuel cfg rd s = (Ok c, t) \<and> decoder_ready contents cfg rest t clens olens cur blocks"
proof -
  note ready = assms(1) [unfolded decoder_ready_def]
  have rem: "remaining_commands s = of_nat (Suc (length cur))" and len: "Suc (length cur) < 2 ^ 16"
    using ready by simp_all
  then have "unat (remaining_commands s) = Suc (length cur)" unfolding rem unat_of_nat by simp
  then have ne: "remaining_commands s \<noteq> 0" by auto
  have trees: "block_trees clens olens s" and valid: "valid_command clens olens c" using ready by simp_all
  have "stream_bits contents (lhv2_bit_reader s) = encode_command clens olens c @
      (concat (map (encode_command clens olens) cur) @ concat (map (encode_block cfg) blocks) @ rest)"
    using ready by simp
  from block_reads_at [OF block_reads_one [OF trees valid] assms(2) this] obtain b where
    b: "bnd (modify (\<lambda>s. s\<lparr>remaining_commands := remaining_commands s - 1\<rparr>)) (\<lambda>_.
         bnd (get_state command_tree) (\<lambda>t.
           bnd (on_bits (read_entry rd t)) (\<lambda>code.
             if code \<le> 0xff then ret (Literal (ucast code))
             else bnd (read_offset rd) (\<lambda>offset. ret (History offset (unat (code - 0x100 + 3))))))) s =
        (Ok c, s\<lparr>remaining_commands := remaining_commands s - 1, lhv2_bit_reader := b\<rparr>)"
      "stream_bits contents b = concat (map (encode_command clens olens) cur) @ concat (map (encode_block cfg) blocks) @ rest"
    by blast
  let ?t = "s\<lparr>remaining_commands := remaining_commands s - 1, lhv2_bit_reader := b\<rparr>"
  have "lhv2_read_command fuel cfg rd s = (Ok c, ?t)"
    unfolding lhv2_read_command_def bnd_Ok [of "begin_blocks fuel cfg rd", OF begin_blocks_idle [OF ne]] by (rule b(1))
  moreover have "decoder_ready contents cfg rest ?t clens olens cur blocks"
    using ready b(2) rem by (simp add: decoder_ready_def block_trees_def)
  ultimately show ?thesis by blast
qed

lemma lhv2_read_ready:
  assumes cfg: "config_ok cfg" and inv: "lhv2_inv contents fuel cfg s" and ready: "lhv2_ready contents cfg rest s (c # cs)"
  shows "\<exists>t. lhv2_read_command fuel cfg rd s = (Ok c, t) \<and> lhv2_ready contents cfg rest t cs"
proof -
  have ok: "stream_ok (lhv2_bit_reader s)" using inv by (simp add: lhv2_inv_def)
  from ready obtain clens olens cur blocks where cs: "c # cs = cur @ concat (map commands blocks)"
      and r: "decoder_ready contents cfg rest s clens olens cur blocks"
    unfolding lhv2_ready_def by blast
  show ?thesis
  proof (cases cur)
    case (Cons d cur')
    with cs r have "decoder_ready contents cfg rest s clens olens (c # cur') blocks" "cs = cur' @ concat (map commands blocks)"
      by simp_all
    with lhv2_read_current [OF this(1) ok, of fuel] show ?thesis unfolding lhv2_ready_def by blast
  next
    case Nil
    with cs obtain b blocks' where blocks: "blocks = b # blocks'" by (cases blocks) auto
    with r have valid: "valid_block cfg b" by (simp add: decoder_ready_def)
    then obtain c' cur' where cur': "commands b = c' # cur'" by (cases "commands b") (auto simp: valid_block_def)
    with cs Nil blocks have c: "c' = c" "cs = cur' @ concat (map commands blocks')" by simp_all
    from block_reads_header [OF cfg valid, of s] obtain s' where
      head: "block_reads contents (begin_new_block cfg rd) s
        (nat_bits 16 (length (commands b)) @ encode_temp_tree (temp_lens b) @
         encode_command_tree (temp_lens b) (command_lens b) @ encode_offset_tree cfg (offset_lens b)) () s'"
      and trees: "\<exists>g. build_tree (command_lens b) g = (Ok (), command_tree s')"
        "\<exists>g. build_tree (offset_lens b) g = (Ok (), offset_tree s')"
      and rem: "remaining_commands s' = of_nat (length (commands b))"
      by blast
    have bits: "stream_bits contents (lhv2_bit_reader s) =
        (nat_bits 16 (length (commands b)) @ encode_temp_tree (temp_lens b) @
         encode_command_tree (temp_lens b) (command_lens b) @ encode_offset_tree cfg (offset_lens b)) @
        (concat (map (encode_command (command_lens b) (offset_lens b)) (commands b)) @
         concat (map (encode_block cfg) blocks') @ rest)"
      using r Nil blocks by (simp add: decoder_ready_def encode_block_def)
    from block_reads_at [OF head ok bits] obtain br where
      br: "begin_new_block cfg rd s = (Ok (), s'\<lparr>lhv2_bit_reader := br\<rparr>)" "stream_ok br"
        "stream_bits contents br = concat (map (encode_command (command_lens b) (offset_lens b)) (commands b)) @
         concat (map (encode_block cfg) blocks') @ rest"
      by blast
    let ?s = "s'\<lparr>lhv2_bit_reader := br\<rparr>"
    have lens: "length (commands b) < 2 ^ 16" "length (command_lens b) \<le> num_commands" "length (offset_lens b) \<le> 20"
      using valid cfg by (auto simp: valid_block_def config_ok_def)
    have cmds: "list_all (valid_command (command_lens b) (offset_lens b)) (commands b)"
      using valid by (simp add: valid_block_def)
    have ready': "decoder_ready contents cfg rest ?s (command_lens b) (offset_lens b) (c # cur') blocks'"
      using r blocks br(3) trees rem lens cmds cur' c(1) by (simp add: decoder_ready_def block_trees_def)
    have "unat (of_nat (length (commands b)) :: u16) = length (commands b)"
      using lens(1) unfolding unat_of_nat by simp
    then have "of_nat (length (commands b)) \<noteq> (0 :: u16)" using cur' by (metis length_0_conv list.distinct(1) unat_0)
    then have ne: "remaining_commands ?s \<noteq> 0" using rem by simp
    obtain f where f: "fuel = Suc f" using inv by (cases fuel) (simp_all add: lhv2_inv_def)
    have "remaining_commands s = 0" using r Nil by (simp add: decoder_ready_def)
    then have "begin_blocks fuel cfg rd s = (Ok (), ?s)"
      unfolding f using br(1) begin_blocks_idle [OF ne, of f cfg] by (simp add: bnd_def get_state_def)
    moreover have "begin_blocks fuel cfg rd ?s = (Ok (), ?s)" using ne by (rule begin_blocks_idle)
    ultimately have "lhv2_read_command fuel cfg rd s = lhv2_read_command fuel cfg rd ?s"
      unfolding lhv2_read_command_def by (simp add: bnd_def)
    moreover have "stream_ok (lhv2_bit_reader ?s)" using br(2) by simp
    ultimately show ?thesis
      using lhv2_read_current [OF ready', of fuel] c(2) unfolding lhv2_ready_def by fastforce
  qed
qed

lemma lhv2_lz_command_decoder:
  assumes "config_ok cfg"
  shows "lz_command_decoder (history_bits cfg - 1) lhv2_copier (lhv2_inv contents fuel cfg)
    (lhv2_read_command fuel cfg rd) (lhv2_ready contents cfg rest)"
proof (intro lz_command_decoder.intro lhv2_lz_decoder [OF assms] lz_command_decoder_axioms.intro)
  fix s c cs
  assume "lhv2_inv contents fuel cfg s" and "lhv2_ready contents cfg rest s (c # cs)"
  then show "\<exists>t. lhv2_read_command fuel cfg rd s = (Ok c, t) \<and> lhv2_ready contents cfg rest t cs"
    by (rule lhv2_read_ready [OF assms])
next
  fix p r s cs
  show "lhv2_ready contents cfg rest (cp_set lhv2_copier p r s) cs \<longleftrightarrow> lhv2_ready contents cfg rest s cs"
    by (simp add: lhv2_ready_def decoder_ready_def block_trees_def)
next
  fix s c cs
  assume "lhv2_ready contents cfg rest s (c # cs)"
  then obtain clens olens cur blocks where cs: "c # cs = cur @ concat (map commands blocks)"
      and r: "decoder_ready contents cfg rest s clens olens cur blocks"
    unfolding lhv2_ready_def by blast
  have "c \<in> set cur \<or> c \<in> set (concat (map commands blocks))" using cs by (metis list.set_intros(1) set_append Un_iff)
  then have "\<exists>cl ol. valid_command cl ol c"
  proof
    assume "c \<in> set cur"
    then have "valid_command clens olens c" using r by (simp add: decoder_ready_def list_all_iff)
    then show ?thesis by blast
  next
    assume "c \<in> set (concat (map commands blocks))"
    then obtain b where b: "b \<in> set blocks" "c \<in> set (commands b)" by auto
    then have "valid_block cfg b" using r by (simp add: decoder_ready_def list_all_iff)
    then have "list_all (valid_command (command_lens b) (offset_lens b)) (commands b)" by (simp add: valid_block_def)
    with b(2) show ?thesis by (auto simp: list_all_iff)
  qed
  then show "0 < lz_length c" by (cases c) auto
qed

end

interpretation lh5_format: lz_command_decoder "history_bits lh5_config - 1" lhv2_copier "lhv2_inv (\<lambda>s. s) fuel lh5_config"
    "lhv2_read_command fuel lh5_config slice_reader" "lhv2_ready (\<lambda>s. s) lh5_config rest" for fuel rest
  by (rule slice.lhv2_lz_command_decoder) (rule configs_ok)

subsection \<open>Packing bits into bytes\<close>

function pack_bits :: "bool list \<Rightarrow> u8 list" where
  "pack_bits bs = (if bs = [] then [] else of_bits (take 8 (bs @ replicate 8 False)) # pack_bits (drop 8 bs))"
  by pat_completeness auto
termination by (relation "measure length") auto

declare pack_bits.simps [simp del]

lemma byte_bits_of_bits: "length bs = 8 \<Longrightarrow> byte_bits (of_bits bs) = bs"
  by (rule nth_equalityI) (auto simp: nth_byte_bits bit_of_bits)

lemma bytes_bits_pack: "\<exists>pad. bytes_bits (pack_bits bs) = bs @ pad"
proof (induction bs rule: pack_bits.induct)
  case (1 bs)
  show ?case
  proof (cases "bs = []")
    case True
    then show ?thesis by (simp add: pack_bits.simps)
  next
    case False
    with 1 obtain pad where pad: "bytes_bits (pack_bits (drop 8 bs)) = drop 8 bs @ pad" by blast
    have "bytes_bits (pack_bits bs) = take 8 (bs @ replicate 8 False) @ drop 8 bs @ pad"
      using False by (subst pack_bits.simps) (simp add: byte_bits_of_bits pad)
    also have "\<dots> = bs @ take (8 - length bs) (replicate 8 False) @ pad"
    proof (cases "length bs \<le> 8")
      case True
      then show ?thesis by simp
    next
      case False
      then have "take 8 (bs @ replicate 8 False) @ drop 8 bs = bs" by simp
      with False show ?thesis by (metis append.assoc append_Nil diff_is_0_eq nat_le_linear take_0)
    qed
    finally show ?thesis by blast
  qed
qed

subsection \<open>Properties\<close>

lemma lhv2_decodes:
  assumes "reliable_reader rd contents" and "cfg \<in> {lh5_config, lh7_config, lhx_config}"
    and "list_all (valid_block cfg) blocks"
    and "bytes_bits (contents r) = concat (map (encode_block cfg) blocks) @ rest"
    and "8 * length (contents r) < fuel"
  shows "case lz_run push copy_offset (concat (map commands blocks)) (lhv2_ringbuf (lhv2_new cfg r)) of (bs, w) \<Rightarrow>
    \<exists>t. lhv2_fill_buffer fuel cfg rd (length bs) (lhv2_new cfg r) = (Ok bs, t) \<and> lhv2_ringbuf t = w \<and>
      lhv2_copy_progress t = None \<and> stream_bits contents (lhv2_bit_reader t) = rest"
proof -
  have cfg: "config_ok cfg" using assms(2) configs_ok by blast
  let ?cs = "concat (map commands blocks)"
  obtain bs w where run: "lz_run push copy_offset ?cs (lhv2_ringbuf (lhv2_new cfg r)) = (bs, w)" by fastforce
  have "decoder_ready contents cfg rest (lhv2_new cfg r) [] [] [] blocks"
    using assms(3,4) by (simp add: decoder_ready_def lhv2_new_def stream_bits_new)
  then have ready: "lhv2_ready contents cfg rest (lhv2_new cfg r) ?cs" unfolding lhv2_ready_def by fastforce
  have "pending_copy lhv2_copier (lhv2_new cfg r) = 0"
    by (simp add: pending_copy_def lhv2_new_def progress_count_def)
  with ready obtain t where t: "lhv2_fill_buffer fuel cfg rd (length bs) (lhv2_new cfg r) = (Ok bs, t)"
      "lhv2_inv contents fuel cfg t" "pending_copy lhv2_copier t = 0" "lhv2_ringbuf t = w"
      "lhv2_ready contents cfg rest t []"
    using lz_command_decoder.decode_fill_commands
      [OF reliable_reader.lhv2_lz_command_decoder [OF assms(1) cfg] lhv2_inv_new [where contents = contents, OF cfg assms(5)]]
      run unfolding lhv2_fill_buffer_def lhv2_copier_sel by blast
  from t(2,3) have "lhv2_copy_progress t = None"
    by (auto simp: lhv2_inv_def progress_ok_def pending_copy_def progress_count_def split: option.splits)
  moreover have "stream_bits contents (lhv2_bit_reader t) = rest"
  proof -
    obtain clens olens cur blocks' where "[] = cur @ concat (map commands blocks')"
        "decoder_ready contents cfg rest t clens olens cur blocks'"
      using t(5) unfolding lhv2_ready_def by blast
    moreover from this have "blocks' = []" by (cases blocks') (auto simp: decoder_ready_def valid_block_def)
    ultimately show ?thesis by (simp add: decoder_ready_def)
  qed
  ultimately show ?thesis using t run by simp
qed

text \<open>C9: Round trip of the LHA v2 format, for all three configurations: a stream that begins with the
  encoding of a list of valid blocks, each with the code lengths of its three prefix codes and
  its commands, is decoded to exactly what the commands write on the initial history, and what
  follows the encoding is left in the stream. One iteration more than the stream has bits is
  fuel enough for the loop over empty blocks.\<close>

theorem lhv2_round_trip:
  assumes "reliable_reader rd contents" and "cfg \<in> {lh5_config, lh7_config, lhx_config}"
    and "list_all (valid_block cfg) blocks"
    and "bytes_bits (contents r) = concat (map (encode_block cfg) blocks) @ rest"
    and "8 * length (contents r) < fuel"
  shows "case lz_run push copy_offset (concat (map commands blocks)) (lhv2_ringbuf (lhv2_new cfg r)) of (bs, w) \<Rightarrow>
    \<exists>t. lhv2_fill_buffer fuel cfg rd (length bs) (lhv2_new cfg r) = (Ok bs, t) \<and> lhv2_ringbuf t = w \<and>
      lhv2_copy_progress t = None \<and> stream_bits contents (lhv2_bit_reader t) = rest"
  using assms by (rule lhv2_decodes)

definition example_block :: lhv2_block where
  "example_block = \<lparr>temp_lens = [1, 0, 0, 1], command_lens = replicate 65 0 @ [1] @ replicate 190 0 @ [1],
     offset_lens = [1, 1], commands = [Literal 65, History 0 3]\<rparr>"

lemma example_valid: "valid_block lh5_config example_block"
proof -
  have kraft_app: "kraft (xs @ ys) = kraft xs + kraft ys" for xs ys by (simp add: kraft_def)
  have kraft_zero: "kraft (replicate n 0) = 0" for n by (induction n) (simp_all add: kraft_def)
  have "complete_code (command_lens example_block)"
    by (auto simp: complete_code_def example_block_def kraft_app kraft_zero) (simp add: kraft_def)
  moreover have "complete_code (temp_lens example_block)" "complete_code (offset_lens example_block)"
    by (simp_all add: complete_code_def example_block_def kraft_def)
  moreover have "has_code (command_lens example_block) 65" "has_code (command_lens example_block) 256"
    by (simp_all add: has_code_def example_block_def nth_append)
  moreover have "\<forall>l\<in>set (command_lens example_block). has_code (temp_lens example_block) (if l = 0 then 0 else unat l + 2)"
    by (auto simp: example_block_def has_code_def)
  moreover have "has_code (offset_lens example_block) (bit_len 0)"
    by (simp add: has_code_def example_block_def bit_len.simps)
  ultimately show ?thesis
    unfolding valid_block_def
    by (simp add: example_block_def num_temp_codelen_def num_commands_def lh5_config_def)
qed

lemma lhv2_round_trip_witness:
  "let bytes = pack_bits (encode_block lh5_config example_block) in
   \<exists>t. lhv2_fill_buffer (8 * length bytes + 1) lh5_config slice_reader 4 (lhv2_new lh5_config bytes) = (Ok [65, 65, 65, 65], t)"
proof -
  let ?bytes = "pack_bits (encode_block lh5_config example_block)"
  obtain pad where pad: "bytes_bits ?bytes = encode_block lh5_config example_block @ pad" using bytes_bits_pack by blast
  let ?r = "lhv2_ringbuf (lhv2_new lh5_config ?bytes)"
  have mask: "i AND index_mask 8192 = i mod 8192" for i :: nat
    using and_mask_nat [of i 13] by (simp add: index_mask_def)
  have "length (buffer ?r) = 8192" "cursor ?r = 0" by (simp_all add: lhv2_new_def ring_new_def lh5_config_def)
  then have run: "fst (lz_run push copy_offset [Literal 65, History 0 3] ?r) = [65, 65, 65, 65]"
    unfolding numeral_3_eq_3
    by (simp add: push_def copy_offset_def iter_from_offset_def hist_next_def ring_index_def mask Let_def,
      simp add: nth_list_update eval_nat_numeral)
  have "list_all (valid_block lh5_config) [example_block]" using example_valid by simp
  from lhv2_round_trip [OF slice.reliable_reader_axioms _ this, of ?bytes pad "8 * length ?bytes + 1"] pad run
  show ?thesis by (auto simp: example_block_def eval_nat_numeral Let_def split: prod.splits)
qed

text \<open>The size of the buffers an LHA v2 file is decoded in does not matter: from every state that
  can occur, filling a buffer of \<open>m + n\<close> bytes gives the same bytes, the same error and the same
  state as filling one of \<open>m\<close> bytes and then one of \<open>n\<close>.\<close>

lemma lhv2_fill_buffer_add:
  assumes "reader rd contents" and "cfg \<in> {lh5_config, lh7_config, lhx_config}" and "lhv2_inv contents fuel cfg s"
  shows "lhv2_fill_buffer fuel cfg rd (m + n) s = app (lhv2_fill_buffer fuel cfg rd m) (lhv2_fill_buffer fuel cfg rd n) s"
proof -
  have cfg: "config_ok cfg" using assms(2) configs_ok by blast
  show ?thesis
    unfolding lhv2_fill_buffer_def
    using lz_decoder.decode_fill_add [OF reader.lhv2_lz_decoder [OF assms(1) cfg] assms(3)] .
qed

text \<open>The LHA v2 decoder is safe on every input: from every state that can occur, filling a buffer
  always ends, no unchecked vector access is out of bounds and nothing panics, but for the overflow of the level counter of the tree builder; a buffer that is filled
  is filled completely and keeps the invariant.\<close>

lemma lhv2_fill_buffer_safe:
  assumes "reader rd contents" and "cfg \<in> {lh5_config, lh7_config, lhx_config}" and "lhv2_inv contents fuel cfg s"
  shows "case lhv2_fill_buffer fuel cfg rd n s of
      (Ok bs, t) \<Rightarrow> length bs = n \<and> lhv2_inv contents fuel cfg t
    | (Err e, t) \<Rightarrow> True
    | (Fault q, t) \<Rightarrow> tree_fault q t"
proof -
  have cfg: "config_ok cfg" using assms(2) configs_ok by blast
  note dec = reader.lhv2_lz_decoder [OF assms(1) cfg]
  obtain r t where fill: "decode_fill lhv2_copier (lhv2_read_command fuel cfg rd) n s = (r, t)" by fastforce
  show ?thesis
  proof (cases r)
    case (Ok bs)
    with fill lz_decoder.decode_fill_Ok [OF dec assms(3), of n bs t] show ?thesis
      by (simp add: lhv2_fill_buffer_def)
  next
    case (Err e)
    with fill show ?thesis by (simp add: lhv2_fill_buffer_def)
  next
    case (Fault q)
    with fill have "decode_fill lhv2_copier (lhv2_read_command fuel cfg rd) n s = (Fault q, t)" by simp
    then have "tree_fault q t"
      by (rule lz_decoder.decode_fill_Fault [where E = tree_fault, OF dec _ assms(3), rotated])
        (rule reader.lhv2_read_Fault [OF assms(1) cfg])
    with fill Fault show ?thesis by (simp add: lhv2_fill_buffer_def)
  qed
qed

end
