(* ===== verification/Dyn_Tree.thy ===== *)
theory Dyn_Tree
  imports Tree_Entry Bit_Stream
begin

text \<open>
  The adaptive Huffman tree of \<open>src/src/decode/lhv1/dyntree.rs\<close>. The nodes are kept in an array by
  decreasing frequency, the nodes of equal frequency form a group with a leader (the first of
  them), and a value that is decoded moves its node, and those above it, to the front of their
  groups before their frequencies grow.

  A failed \<open>debug_assert!\<close> in front of an unchecked access, which is out of bounds in a release build, is the
  fault \<open>OutOfBounds\<close>; any other failed one is a panic.
\<close>

subsection \<open>Data\<close>

definition reorder_limit :: nat where "reorder_limit = 32768"
definition num_leaves :: nat where "num_leaves = 314"
definition num_nodes :: nat where "num_nodes = num_leaves * 2 - 1"

lemma num_nodes_eq: "num_nodes = 627"
  by (simp add: num_nodes_def num_leaves_def)

record groups =
  gr_ngroups :: u16
  gr_groups :: "u16 list"
  gr_leaders :: "u16 list"

record tree_node =
  nd_entry :: tree_entry
  nd_freq :: u16
  nd_parent :: u16
  nd_group :: u16

record dyn_tree =
  dt_nodes :: "tree_node list"
  dt_leaves :: "u16 list"
  dt_groups :: groups

definition check :: "bool \<Rightarrow> fault \<Rightarrow> ('s, 'e, unit) act" where
  "check b f = (if b then ret () else crash f)"

text \<open>\<open>a + b\<close> on \<open>u16\<close>\<close>

definition add16 :: "u16 \<Rightarrow> u16 \<Rightarrow> ('s, 'e, u16) act" where
  "add16 a b = (if unat a + unat b < 2 ^ 16 then ret (a + b) else crash Overflow)"

subsection \<open>Groups\<close>

definition groups_reset :: "groups \<Rightarrow> groups" where
  "groups_reset g = g\<lparr>gr_ngroups := 0, gr_groups := map of_nat [0..<length (gr_groups g)]\<rparr>"

definition groups_new :: groups where
  "groups_new = groups_reset \<lparr>gr_ngroups = 0, gr_groups = replicate num_nodes 0, gr_leaders = replicate num_nodes 0\<rparr>"

definition allocate :: "(groups, 'e, u16) act" where
  "allocate = (\<lambda>g. let n = unat (gr_ngroups g) in
     if length (gr_groups g) \<le> n then (Fault OutOfBounds, g)
     else if 2 ^ 16 \<le> n + 1 then (Fault Overflow, g)
     else (Ok (gr_groups g ! n), g\<lparr>gr_ngroups := gr_ngroups g + 1\<rparr>))"

definition free :: "u16 \<Rightarrow> (groups, 'e, unit) act" where
  "free grp = (\<lambda>g.
     if gr_ngroups g = 0 then (Fault Overflow, g)
     else (let n = unat (gr_ngroups g - 1) in
       if length (gr_groups g) \<le> n then (Fault OutOfBounds, g)
       else (Ok (), g\<lparr>gr_groups := (gr_groups g)[n := grp], gr_ngroups := gr_ngroups g - 1\<rparr>)))"

definition set_leader_index :: "u16 \<Rightarrow> nat \<Rightarrow> (groups, 'e, unit) act" where
  "set_leader_index grp node_index = (\<lambda>g.
     if num_nodes \<le> node_index then (Fault Panicked, g)
     else if length (gr_leaders g) \<le> unat grp then (Fault OutOfBounds, g)
     else (Ok (), g\<lparr>gr_leaders := (gr_leaders g)[unat grp := of_nat node_index]\<rparr>))"

definition get_leader_index :: "u16 \<Rightarrow> (groups, 'e, nat) act" where
  "get_leader_index grp = (\<lambda>g.
     if length (gr_leaders g) \<le> unat grp then (Fault OutOfBounds, g)
     else (Ok (unat (gr_leaders g ! unat grp)), g))"

definition set_next_node_as_leader :: "u16 \<Rightarrow> (groups, 'e, unit) act" where
  "set_next_node_as_leader grp = (\<lambda>g.
     if length (gr_leaders g) \<le> unat grp then (Fault OutOfBounds, g)
     else if num_nodes - 1 \<le> unat (gr_leaders g ! unat grp) then (Fault Panicked, g)
     else (Ok (), g\<lparr>gr_leaders := (gr_leaders g)[unat grp := gr_leaders g ! unat grp + 1]\<rparr>))"

subsection \<open>Access to the tree\<close>

definition on_groups :: "(groups, 'e, 'a) act \<Rightarrow> (dyn_tree, 'e, 'a) act" where
  "on_groups = zoom dt_groups (\<lambda>g t. t\<lparr>dt_groups := g\<rparr>)"

text \<open>Indexing the array of nodes, which panics out of range.\<close>

definition get_node :: "nat \<Rightarrow> (dyn_tree, 'e, tree_node) act" where
  "get_node i = (\<lambda>t. if i < length (dt_nodes t) then (Ok (dt_nodes t ! i), t) else (Fault Panicked, t))"

definition update_node :: "nat \<Rightarrow> (tree_node \<Rightarrow> tree_node) \<Rightarrow> (dyn_tree, 'e, unit) act" where
  "update_node i f = (\<lambda>t.
     if i < length (dt_nodes t) then (Ok (), t\<lparr>dt_nodes := (dt_nodes t)[i := f (dt_nodes t ! i)]\<rparr>)
     else (Fault Panicked, t))"

definition set_leaf_node_index :: "u16 \<Rightarrow> nat \<Rightarrow> (dyn_tree, 'e, unit) act" where
  "set_leaf_node_index v node_index = (\<lambda>t.
     if num_nodes \<le> node_index then (Fault Panicked, t)
     else if length (dt_leaves t) \<le> unat v then (Fault OutOfBounds, t)
     else (Ok (), t\<lparr>dt_leaves := (dt_leaves t)[unat v := of_nat node_index]\<rparr>))"

definition get_leaf_node_index :: "u16 \<Rightarrow> (dyn_tree, 'e, nat) act" where
  "get_leaf_node_index v = (\<lambda>t.
     if length (dt_leaves t) \<le> unat v then (Fault OutOfBounds, t)
     else (Ok (unat (dt_leaves t ! unat v)), t))"

definition node_default :: tree_node where
  "node_default = \<lparr>nd_entry = TreeEntry 0, nd_freq = 0, nd_parent = 0, nd_group = 0\<rparr>"

definition new_leaf :: "u16 \<Rightarrow> u16 \<Rightarrow> tree_node" where
  "new_leaf v grp = \<lparr>nd_entry = leaf v, nd_freq = 1, nd_parent = 0, nd_group = grp\<rparr>"

definition new_branch :: "nat \<Rightarrow> u16 \<Rightarrow> u16 \<Rightarrow> ('s, 'e, tree_node) act" where
  "new_branch child_index fr grp =
     (if num_nodes \<le> child_index then crash Panicked
      else case branch child_index of
        Ok e \<Rightarrow> ret \<lparr>nd_entry = e, nd_freq = fr, nd_parent = 0, nd_group = grp\<rparr>
      | Err msg \<Rightarrow> crash Panicked
      | Fault q \<Rightarrow> crash q)"

subsection \<open>Reading and updating\<close>

definition set_as_parent :: "u16 \<Rightarrow> nat \<Rightarrow> (dyn_tree, 'e, unit) act" where
  "set_as_parent child_index parent_index = (\<lambda>t. let c = unat child_index in
     if num_nodes \<le> parent_index then (Fault Panicked, t)
     else if c = 0 then (Fault Overflow, t)
     else if length (dt_nodes t) \<le> c then (Fault OutOfBounds, t)
     else bnd (update_node (c - 1) (\<lambda>n. n\<lparr>nd_parent := of_nat parent_index\<rparr>)) (\<lambda>_.
            update_node c (\<lambda>n. n\<lparr>nd_parent := of_nat parent_index\<rparr>)) t)"

definition update_entry_owner :: "tree_entry \<Rightarrow> nat \<Rightarrow> (dyn_tree, 'e, unit) act" where
  "update_entry_owner e node_index = (case as_type e of
       Leaf v \<Rightarrow> set_leaf_node_index v node_index
     | Branch child_index \<Rightarrow> set_as_parent child_index node_index)"

definition promote_to_leader :: "nat \<Rightarrow> (dyn_tree, 'e, nat) act" where
  "promote_to_leader node_index =
     bnd (get_node node_index) (\<lambda>node.
     bnd (on_groups (get_leader_index (nd_group node))) (\<lambda>leader_index.
       if leader_index = node_index then ret node_index
       else if node_index \<le> leader_index then crash Panicked
       else bnd (get_node leader_index) (\<lambda>prev_leader.
         let entry = nd_entry node; old = nd_entry prev_leader in
         bnd (update_node node_index (\<lambda>n. n\<lparr>nd_entry := old\<rparr>)) (\<lambda>_.
         bnd (update_node leader_index (\<lambda>n. n\<lparr>nd_entry := entry\<rparr>)) (\<lambda>_.
         bnd (update_entry_owner old node_index) (\<lambda>_.
         bnd (update_entry_owner entry leader_index) (\<lambda>_.
           ret leader_index)))))))"

text \<open>The result is the parent of the node, the only field the caller reads.\<close>

definition increment_frequency :: "nat \<Rightarrow> (dyn_tree, 'e, nat) act" where
  "increment_frequency node_index =
     bnd (check (0 < node_index) Overflow) (\<lambda>_.
     bnd (get_node (node_index - 1)) (\<lambda>prev.
     bnd (get_node node_index) (\<lambda>node.
     bnd (add16 (nd_freq node) 1) (\<lambda>fr.
     bnd (update_node node_index (\<lambda>n. n\<lparr>nd_freq := fr\<rparr>)) (\<lambda>_.
     bnd (get_state (\<lambda>t. node_index + 1 < length (dt_nodes t) \<and> nd_group node = nd_group (dt_nodes t ! (node_index + 1))))
       (\<lambda>shared.
         bnd (if shared then
                bnd (on_groups (set_next_node_as_leader (nd_group node))) (\<lambda>_.
                  if fr = nd_freq prev then update_node node_index (\<lambda>n. n\<lparr>nd_group := nd_group prev\<rparr>)
                  else bnd (on_groups allocate) (\<lambda>grp.
                    bnd (update_node node_index (\<lambda>n. n\<lparr>nd_group := grp\<rparr>)) (\<lambda>_.
                      on_groups (set_leader_index grp node_index))))
              else if fr = nd_freq prev then
                bnd (on_groups (free (nd_group node))) (\<lambda>_.
                  update_node node_index (\<lambda>n. n\<lparr>nd_group := nd_group prev\<rparr>))
              else ret ())
           (\<lambda>_. ret (unat (nd_parent node)))))))))"

text \<open>The walk from a leaf to the root; the first argument bounds the number of its iterations.\<close>

fun increment_path :: "nat \<Rightarrow> nat \<Rightarrow> (dyn_tree, 'e, unit) act" where
  "increment_path fuel 0 = ret ()"
| "increment_path 0 (Suc k) = crash OutOfFuel"
| "increment_path (Suc fuel) (Suc k) =
     bnd (promote_to_leader (Suc k)) (\<lambda>leader.
     bnd (increment_frequency leader) (\<lambda>p. increment_path fuel p))"

subsection \<open>The first tree\<close>

text \<open>
  One pass of the outer loop of \<open>new\<close> over pairs of a child index and the index of the parent; the
  frequency and the group of the previous branch are passed along.
\<close>

fun new_branches :: "(nat \<times> nat) list \<Rightarrow> u16 \<times> u16 \<Rightarrow> (dyn_tree, 'e, u16 \<times> u16) act" where
  "new_branches [] prev = ret prev"
| "new_branches ((child_index, index) # pairs) (last_freq, last_group) =
     bnd (get_node (child_index - 1)) (\<lambda>c1.
     bnd (get_node child_index) (\<lambda>c2.
     bnd (add16 (nd_freq c1) (nd_freq c2)) (\<lambda>fr.
     bnd (update_node (child_index - 1) (\<lambda>n. n\<lparr>nd_parent := of_nat index\<rparr>)) (\<lambda>_.
     bnd (update_node child_index (\<lambda>n. n\<lparr>nd_parent := of_nat index\<rparr>)) (\<lambda>_.
     bnd (if fr \<noteq> last_freq then bnd (on_groups (set_leader_index last_group (index + 1))) (\<lambda>_. on_groups allocate)
          else ret last_group) (\<lambda>grp.
     bnd (new_branch child_index fr grp) (\<lambda>node.
     bnd (update_node index (\<lambda>n. node)) (\<lambda>_.
       new_branches pairs (fr, grp)))))))))"

function new_levels :: "nat \<Rightarrow> nat \<Rightarrow> u16 \<times> u16 \<Rightarrow> (dyn_tree, 'e, unit) act" where
  "new_levels tail_len rest_len prev =
     (if tail_len > 1 then
        (let parent_len = tail_len div 2 in
         if rest_len < parent_len * 2 then crash Overflow
         else (let head_len = rest_len - parent_len * 2;
                   head_end = head_len - tail_len mod 2;
                   children = map (\<lambda>k. rest_len - 1 - 2 * k) [0..<parent_len]
               in if head_len < tail_len mod 2 then crash Overflow
                  else bnd (new_branches (zip children (rev [0..<head_end])) prev)
                    (\<lambda>prev. new_levels (tail_len - parent_len) head_len prev)))
      else ret ())"
  by pat_completeness auto
termination
  by (relation "measure fst") auto

declare new_levels.simps [simp del]

definition leaf_nodes :: "u16 \<Rightarrow> tree_node list" where
  "leaf_nodes grp = rev (map (\<lambda>v. new_leaf (of_nat v) grp) [0..<num_leaves])"

definition dyn_tree_new :: "('e, dyn_tree) outcome" where
  "dyn_tree_new =
     (let t = \<lparr>dt_nodes = replicate num_nodes node_default,
                dt_leaves = map (\<lambda>v. of_nat (num_nodes - 1) - of_nat v) [0..<num_leaves],
                dt_groups = groups_new\<rparr>
      in case bnd (on_groups allocate) (\<lambda>grp.
           bnd (modify (\<lambda>t. t\<lparr>dt_nodes := take (num_nodes - num_leaves) (dt_nodes t) @ leaf_nodes grp\<rparr>)) (\<lambda>_.
             new_levels num_leaves num_nodes (0, grp))) t of
         (Ok _, t') \<Rightarrow> Ok t' | (Err e, t') \<Rightarrow> Err e | (Fault q, t') \<Rightarrow> Fault q)"

subsection \<open>Rebuilding the tree\<close>

text \<open>The leaves in the order of the nodes, with their frequencies halved.\<close>

definition halve :: "tree_node \<Rightarrow> (dyn_tree, 'e, tree_entry \<times> u16) act" where
  "halve n = bnd (add16 (nd_freq n) 1) (\<lambda>fr. ret (nd_entry n, fr div 2))"

fun halve_all :: "tree_node list \<Rightarrow> (dyn_tree, 'e, (tree_entry \<times> u16) list) act" where
  "halve_all [] = ret []"
| "halve_all (n # ns) = bnd (halve n) (\<lambda>l. bnd (halve_all ns) (\<lambda>ls. ret (l # ls)))"

definition leave_nodes :: "(dyn_tree, 'e, (tree_entry \<times> u16) list) act" where
  "leave_nodes = bnd (get_state (\<lambda>t. filter (\<lambda>n. is_leaf (nd_entry n)) (dt_nodes t))) (\<lambda>ns.
     if length ns < num_leaves then crash Panicked else halve_all (take num_leaves ns))"

definition place_leaf :: "tree_entry \<times> u16 \<Rightarrow> nat \<Rightarrow> (dyn_tree, 'e, unit) act" where
  "place_leaf l i = bnd (set_leaf_node_index (as_value (fst l)) i) (\<lambda>_.
     update_node i (\<lambda>n. n\<lparr>nd_entry := fst l, nd_freq := snd l\<rparr>))"

text \<open>
  The leaves that are left and the number of nodes not yet written are threaded through the
  steps; the nodes are written from the last to the first.
\<close>

fun take_leaves :: "nat \<Rightarrow> (tree_entry \<times> u16) list \<times> nat \<Rightarrow> (dyn_tree, 'e, (tree_entry \<times> u16) list \<times> nat) act" where
  "take_leaves 0 (ls, target_len) = ret (ls, target_len)"
| "take_leaves (Suc k) (ls, target_len) =
     (if target_len = 0 then ret (ls, target_len)
      else case ls of [] \<Rightarrow> crash Panicked
      | l # ls' \<Rightarrow> bnd (place_leaf l (target_len - 1)) (\<lambda>_. take_leaves k (ls', target_len - 1)))"

fun copy_leaves :: "u16 \<Rightarrow> (tree_entry \<times> u16) list \<times> nat \<Rightarrow> (dyn_tree, 'e, (tree_entry \<times> u16) list \<times> nat) act" where
  "copy_leaves branch_freq ([], target_len) = ret ([], target_len)"
| "copy_leaves branch_freq (l # ls, target_len) =
     (if branch_freq < snd l then ret (l # ls, target_len)
      else if target_len = 0 then crash Panicked
      else bnd (place_leaf l (target_len - 1)) (\<lambda>_. copy_leaves branch_freq (ls, target_len - 1)))"

definition make_branch :: "nat \<Rightarrow> u16 \<Rightarrow> nat \<Rightarrow> (dyn_tree, 'e, unit) act" where
  "make_branch child_index branch_freq i =
     (if num_nodes \<le> child_index then crash Panicked
      else update_node i (\<lambda>n. n\<lparr>nd_entry := set_as_branch child_index (nd_entry n), nd_freq := branch_freq\<rparr>))"

definition rebuild_step :: "nat \<Rightarrow> (tree_entry \<times> u16) list \<times> nat \<Rightarrow> (dyn_tree, 'e, (tree_entry \<times> u16) list \<times> nat) act" where
  "rebuild_step child_index rest =
     (if child_index + 1 < snd rest then crash Overflow
      else bnd (take_leaves (2 - (child_index + 1 - snd rest)) rest) (\<lambda>rest.
        bnd (get_node child_index) (\<lambda>c2.
        bnd (get_node (child_index - 1)) (\<lambda>c1.
        bnd (add16 (nd_freq c2) (nd_freq c1)) (\<lambda>branch_freq.
        bnd (copy_leaves branch_freq rest) (\<lambda>(ls, target_len).
          if target_len = 0 then crash Panicked
          else bnd (make_branch child_index branch_freq (target_len - 1)) (\<lambda>_.
            bnd (update_node child_index (\<lambda>n. n\<lparr>nd_parent := of_nat (target_len - 1)\<rparr>)) (\<lambda>_.
            bnd (update_node (child_index - 1) (\<lambda>n. n\<lparr>nd_parent := of_nat (target_len - 1)\<rparr>)) (\<lambda>_.
              ret (ls, target_len - 1))))))))))"

function rebuild_nodes :: "nat \<Rightarrow> (tree_entry \<times> u16) list \<times> nat \<Rightarrow> (dyn_tree, 'e, unit) act" where
  "rebuild_nodes nodes_len rest =
     (if nodes_len > 2 then bnd (rebuild_step (nodes_len - 1) rest) (\<lambda>rest. rebuild_nodes (nodes_len - 2) rest)
      else ret ())"
  by pat_completeness auto
termination
  by (relation "measure fst") auto

declare rebuild_nodes.simps [simp del]

text \<open>The groups of equal frequency, from the first node on.\<close>

fun regroup :: "nat list \<Rightarrow> u16 \<Rightarrow> u16 \<Rightarrow> (dyn_tree, 'e, unit) act" where
  "regroup [] fr grp = ret ()"
| "regroup (i # is) fr grp =
     bnd (get_node i) (\<lambda>node.
       if nd_freq node = fr then bnd (update_node i (\<lambda>n. n\<lparr>nd_group := grp\<rparr>)) (\<lambda>_. regroup is fr grp)
       else bnd (on_groups allocate) (\<lambda>grp.
         bnd (update_node i (\<lambda>n. n\<lparr>nd_group := grp\<rparr>)) (\<lambda>_.
         bnd (on_groups (set_leader_index grp i)) (\<lambda>_. regroup is (nd_freq node) grp))))"

definition rebuild_groups :: "(dyn_tree, 'e, unit) act" where
  "rebuild_groups =
     bnd (on_groups (modify groups_reset)) (\<lambda>_.
     bnd (on_groups allocate) (\<lambda>grp.
     bnd (get_node 0) (\<lambda>root.
     bnd (update_node 0 (\<lambda>n. n\<lparr>nd_group := grp\<rparr>)) (\<lambda>_.
     bnd (on_groups (set_leader_index grp 0)) (\<lambda>_.
       regroup [1..<num_nodes] (nd_freq root) grp)))))"

definition rebuild_tree :: "(dyn_tree, 'e, unit) act" where
  "rebuild_tree =
     bnd leave_nodes (\<lambda>leaves.
     bnd (rebuild_nodes num_nodes (rev leaves, num_nodes)) (\<lambda>_. rebuild_groups))"

subsection \<open>Reading a value\<close>

definition increment_root :: "(dyn_tree, 'e, unit) act" where
  "increment_root =
     bnd (get_node 0) (\<lambda>root.
     bnd (add16 (nd_freq root) 1) (\<lambda>fr. update_node 0 (\<lambda>n. n\<lparr>nd_freq := fr\<rparr>)))"

definition increment_for_value :: "u16 \<Rightarrow> (dyn_tree, 'e, unit) act" where
  "increment_for_value v =
     bnd (get_node 0) (\<lambda>root.
     bnd (if reorder_limit \<le> unat (nd_freq root) then rebuild_tree else ret ()) (\<lambda>_.
     bnd increment_root (\<lambda>_.
     bnd (get_leaf_node_index v) (\<lambda>node_index. increment_path num_nodes node_index))))"

text \<open>
  The walk from the root to a leaf; the first argument bounds the number of its iterations. The fault
  \<open>OutOfBounds\<close> is the failure of \<open>debug_assert!(index < nodes.len())\<close> in front of the unchecked access.
\<close>

fun dyn_walk :: "nat \<Rightarrow> ('r, 'e) read_impl \<Rightarrow> tree_node list \<Rightarrow> tree_entry \<Rightarrow> ('r bit_stream, 'e lha_error, u16) act" where
  "dyn_walk 0 rd nodes entry = crash OutOfFuel"
| "dyn_walk (Suc fuel) rd nodes entry =
     (case as_type entry of
        Leaf v \<Rightarrow> ret v
      | Branch c \<Rightarrow> bnd (read_bits rd 1) (\<lambda>b :: u64.
          if unat c < unat b then crash Overflow
          else (let i = unat c - unat b in
            if i < length nodes then dyn_walk fuel rd nodes (nd_entry (nodes ! i)) else crash OutOfBounds)))"

definition dyn_read_entry :: "('r, 'e) read_impl \<Rightarrow> (dyn_tree \<times> 'r bit_stream, 'e lha_error, u16) act" where
  "dyn_read_entry rd =
     bnd (get_state fst) (\<lambda>t.
       if dt_nodes t = [] then crash Panicked
       else bnd (zoom snd (\<lambda>b (t, _). (t, b)) (dyn_walk num_nodes rd (dt_nodes t) (nd_entry (dt_nodes t ! 0)))) (\<lambda>v.
         bnd (zoom fst (\<lambda>t (_, b). (t, b)) (increment_for_value v)) (\<lambda>_. ret v)))"

end
