(* ===== verification/Dyn_Model.thy ===== *)
theory Dyn_Model
  imports Dyn_Tree
begin

text \<open>
  The invariant of the adaptive Huffman tree, stated on functions of the node index: the kinds of
  the nodes, their frequencies, parents and groups, the index of every leaf and the leader of every
  group. It has three parts: the links between the nodes, the frequencies, and the groups; every
  step of the walk that counts a value is shown to keep them.
\<close>

subsection \<open>Links\<close>

datatype node_kind = KLeaf nat | KBranch nat

definition all_kinds :: "node_kind set" where
  "all_kinds = KLeaf ` {..<314} \<union> (\<lambda>k. KBranch (2 * k)) ` {1..313}"

fun owner_ok :: "(nat \<Rightarrow> nat) \<times> (nat \<Rightarrow> nat) \<Rightarrow> nat \<Rightarrow> node_kind \<Rightarrow> bool" where
  "owner_ok (P, V) i (KLeaf v) \<longleftrightarrow> V v = i"
| "owner_ok (P, V) i (KBranch c) \<longleftrightarrow> P c = i \<and> P (c - 1) = i"

fun own :: "node_kind \<Rightarrow> nat \<Rightarrow> (nat \<Rightarrow> nat) \<times> (nat \<Rightarrow> nat) \<Rightarrow> (nat \<Rightarrow> nat) \<times> (nat \<Rightarrow> nat)" where
  "own (KLeaf v) i (P, V) = (P, V(v := i))"
| "own (KBranch c) i (P, V) = (P(c - 1 := i, c := i), V)"

fun below :: "nat \<Rightarrow> node_kind \<Rightarrow> bool" where
  "below i (KLeaf v) \<longleftrightarrow> True"
| "below i (KBranch c) \<longleftrightarrow> i + 1 < c"

definition links :: "(nat \<Rightarrow> node_kind) \<Rightarrow> (nat \<Rightarrow> nat) \<times> (nat \<Rightarrow> nat) \<Rightarrow> bool" where
  "links K PV \<longleftrightarrow> K ` {..<627} = all_kinds \<and> (\<forall>i<627. owner_ok PV i (K i) \<and> below i (K i))"

lemma branch_in_all: "KBranch c \<in> all_kinds \<longleftrightarrow> even c \<and> 2 \<le> c \<and> c \<le> 626"
  by (auto simp: all_kinds_def image_iff elim!: evenE)

lemma leaf_in_all: "KLeaf v \<in> all_kinds \<longleftrightarrow> v < 314"
  by (auto simp: all_kinds_def)

lemma owner_own: "k \<in> all_kinds \<Longrightarrow> owner_ok (own k x PV) y k \<longleftrightarrow> y = x"
  by (cases k; cases PV) (auto simp: branch_in_all)

lemma owner_own_other:
  assumes "k \<in> all_kinds" "k' \<in> all_kinds" "k \<noteq> k'"
  shows "owner_ok (own k x PV) y k' \<longleftrightarrow> owner_ok PV y k'"
proof -
  have "c \<noteq> c' - 1" "c - 1 \<noteq> c'" "c - 1 \<noteq> c' - 1" if "k = KBranch c" "k' = KBranch c'" for c c'
  proof -
    have c: "even c" "even c'" "2 \<le> c" "2 \<le> c'" "c \<noteq> c'" using assms that by (auto simp: branch_in_all)
    then show "c - 1 \<noteq> c' - 1" by linarith
    show "c \<noteq> c' - 1" "c - 1 \<noteq> c'" using c by (auto elim!: evenE) presburger+
  qed
  with assms show ?thesis by (cases k; cases k'; cases PV) (auto simp: branch_in_all)
qed

lemma links_kind: "links K PV \<Longrightarrow> i < 627 \<Longrightarrow> K i \<in> all_kinds"
  by (auto simp: links_def)

lemma links_inj:
  assumes "links K (P, V)" and "i < 627" "j < 627" and "K i = K j"
  shows "i = j"
proof -
  have "owner_ok (P, V) i (K j)" "owner_ok (P, V) j (K j)"
    using assms by (auto simp: links_def dest: spec [of _ i])
  then show ?thesis by (cases "K j") auto
qed

lemma links_leaf: "links K (P, V) \<Longrightarrow> v < 314 \<Longrightarrow> V v < 627 \<and> K (V v) = KLeaf v"
proof -
  assume l: "links K (P, V)" and "v < 314"
  then have "KLeaf v \<in> K ` {..<627}" by (simp add: links_def leaf_in_all)
  then obtain i where "i < 627" "K i = KLeaf v" by auto
  moreover from this l have "V v = i" by (auto simp: links_def dest!: spec [of _ i])
  ultimately show ?thesis by simp
qed

definition pair_of :: "nat \<Rightarrow> nat" where
  "pair_of j = j + j mod 2"

lemma pair_of_cases: "pair_of j = c \<Longrightarrow> 0 < j \<Longrightarrow> j = c \<or> j = c - 1"
  unfolding pair_of_def by (cases "even j") (auto simp: odd_iff_mod_2_eq_one)

lemma links_parent:
  assumes "links K (P, V)" and "0 < j" "j < 627"
  shows "P j < j" and "K (P j) = KBranch (pair_of j)"
proof -
  have "KBranch (pair_of j) \<in> all_kinds"
    using assms(2,3) unfolding branch_in_all pair_of_def by presburger
  then have "KBranch (pair_of j) \<in> K ` {..<627}" using assms(1) by (simp add: links_def)
  then obtain i where i: "i < 627" "K i = KBranch (pair_of j)" by auto
  with assms(1) have "owner_ok (P, V) i (KBranch (pair_of j)) \<and> below i (KBranch (pair_of j))"
    unfolding links_def by metis
  moreover have "j = pair_of j \<or> j = pair_of j - 1" using pair_of_cases assms(2) by blast
  ultimately have "P j = i" "i < j" by auto
  with i show "P j < j" "K (P j) = KBranch (pair_of j)" by simp_all
qed

lemma links_swap:
  assumes "links K PV" and "i < 627" "l < i" and "below i (K l)"
  shows "links (K(i := K l, l := K i)) (own (K i) l (own (K l) i PV))"
proof -
  obtain P V where PV: "PV = (P, V)" by fastforce
  have l: "l < 627" using assms(2,3) by simp
  have ki: "K i \<in> all_kinds" "K l \<in> all_kinds" using links_kind [OF assms(1)] assms(2) l by blast+
  have ne: "K i \<noteq> K l" using links_inj [of K P V i l] assms l PV by auto
  have "(K(i := K l, l := K i)) ` {..<627} = K ` {..<627}"
    using assms(2) l by (auto simp: image_iff)
  moreover have "owner_ok (own (K i) l (own (K l) i PV)) j ((K(i := K l, l := K i)) j) \<and>
      below j ((K(i := K l, l := K i)) j)" if j: "j < 627" for j
  proof -
    consider "j = l" | "j = i" "j \<noteq> l" | "j \<noteq> i" "j \<noteq> l" by blast
    then show ?thesis
    proof cases
      case 1
      have "below i (K i)" using assms(1,2) by (simp add: links_def)
      then have "below l (K i)" using assms(3) by (cases "K i") auto
      with 1 ki ne show ?thesis by (simp add: owner_own)
    next
      case 2
      with ki ne assms(4) show ?thesis by (simp add: owner_own owner_own_other)
    next
      case 3
      then have "K j \<noteq> K i" "K j \<noteq> K l" using links_inj [of K P V] assms(1,2) j l PV by metis+
      with 3 ki links_kind [OF assms(1) j] assms(1) j show ?thesis
        by (simp add: owner_own_other links_def)
    qed
  qed
  ultimately show ?thesis using assms(1) unfolding links_def by simp
qed

subsection \<open>Frequencies\<close>

definition descending :: "(nat \<Rightarrow> nat) \<Rightarrow> bool" where
  "descending F \<longleftrightarrow> (\<forall>j<627. 1 \<le> F j \<and> (\<forall>i\<le>j. F j \<le> F i))"

text \<open>
  The frequency of a branch is the sum of those of its children, but that the root is one ahead
  while a value is counted, until the walk, which is at node \<open>d\<close>, arrives there.
\<close>

definition sums :: "(nat \<Rightarrow> node_kind) \<Rightarrow> (nat \<Rightarrow> nat) \<Rightarrow> nat \<Rightarrow> bool" where
  "sums K F d \<longleftrightarrow> (\<forall>j<627. \<forall>c. K j = KBranch c \<longrightarrow>
     F j + of_bool (j = d) = F c + F (c - 1) + of_bool (j = 0))"

definition freqs :: "(nat \<Rightarrow> node_kind) \<Rightarrow> (nat \<Rightarrow> nat) \<Rightarrow> nat \<Rightarrow> bool" where
  "freqs K F d \<longleftrightarrow> descending F \<and> sums K F d"

lemma descendingD: "descending F \<Longrightarrow> i \<le> j \<Longrightarrow> j < 627 \<Longrightarrow> F j \<le> F i"
  by (simp add: descending_def)

lemma descending_pos: "descending F \<Longrightarrow> j < 627 \<Longrightarrow> 1 \<le> F j"
  by (simp add: descending_def)

lemma child_less:
  assumes "links K (P, V)" and "freqs K F d" and "j < 627" "j \<noteq> d" and "K j = KBranch c"
  shows "F c < F j" "F (c - 1) < F j"
proof -
  have "KBranch c \<in> all_kinds" using links_kind [OF assms(1,3)] assms(5) by simp
  then have c: "c < 627" "c - 1 < 627" by (auto simp: branch_in_all)
  have "F j = F c + F (c - 1) + of_bool (j = 0)" using assms(2-5) by (auto simp: freqs_def sums_def)
  moreover have "1 \<le> F c" "1 \<le> F (c - 1)" using assms(2) c descending_pos by (auto simp: freqs_def)
  ultimately show "F c < F j" "F (c - 1) < F j" by linarith+
qed

lemma root_max:
  assumes "links K (P, V)" and "freqs K F d" and "0 < j" "j < 627"
  shows "F j < F 0"
proof -
  have d: "descending F" using assms(2) by (simp add: freqs_def)
  have "P 1 < 1" and k: "K (P 1) = KBranch 2"
    using links_parent [OF assms(1), of 1] by (simp_all add: pair_of_def)
  then have k: "K 0 = KBranch 2" by simp
  have "\<forall>j<627. \<forall>c. K j = KBranch c \<longrightarrow> F j + of_bool (j = d) = F c + F (c - 1) + of_bool (j = 0)"
    using assms(2) by (simp add: freqs_def sums_def)
  from this [rule_format, OF _ k] have "F 0 + of_bool (0 = d) = F 2 + F 1 + 1" by simp
  moreover have "1 \<le> F 2" "F j \<le> F 1" using descending_pos [OF d, of 2] descendingD [OF d, of 1 j] assms(3,4) by simp_all
  moreover have "of_bool (0 = d) \<le> (1::nat)" by simp
  ultimately show ?thesis by linarith
qed

lemma freqs_swap:
  assumes "freqs K F i" and "i < 627" "l < i" "0 < l" and "F l = F i"
  shows "freqs (K(i := K l, l := K i)) F l"
proof -
  have "F j + of_bool (j = l) = F c + F (c - 1) + of_bool (j = 0)"
    if j: "j < 627" "(K(i := K l, l := K i)) j = KBranch c" for j c
  proof -
    from assms(1) have s: "\<And>j c. j < 627 \<Longrightarrow> K j = KBranch c \<Longrightarrow> F j + of_bool (j = i) = F c + F (c - 1) + of_bool (j = 0)"
      by (auto simp: freqs_def sums_def)
    consider "j = l" | "j = i" "j \<noteq> l" | "j \<noteq> i" "j \<noteq> l" by blast
    then show ?thesis
    proof cases
      case 1
      with s [of i c] j(2) assms(2-5) show ?thesis by simp
    next
      case 2
      with s [of l c] j(2) assms(2-5) show ?thesis by simp
    next
      case 3
      with s [of j c] j show ?thesis by simp
    qed
  qed
  then show ?thesis using assms(1) by (simp add: freqs_def sums_def)
qed

text \<open>The first node of its frequency is counted; the walk goes on at its parent.\<close>

lemma freqs_increment:
  assumes "links K (P, V)" and "freqs K F l" and "0 < l" "l < 627" and "\<And>j. j < l \<Longrightarrow> F j \<noteq> F l"
  shows "freqs K (F(l := F l + 1)) (P l)"
proof -
  let ?F = "F(l := F l + 1)"
  have d: "descending F" and s: "sums K F l" using assms(2) by (simp_all add: freqs_def)
  have ahead: "F l + 1 \<le> F j" if "j < l" for j
    using assms(5) [OF that] descendingD [OF d, of j l] that assms(4) by simp
  have "descending ?F"
    unfolding descending_def
  proof (intro allI impI conjI)
    fix j i :: nat assume "j < 627"
    then show "1 \<le> ?F j" using d by (simp add: descending_def)
    assume "i \<le> j"
    with \<open>j < 627\<close> ahead descendingD [OF d, of i j] show "?F j \<le> ?F i" by auto
  qed
  moreover have "?F j + of_bool (j = P l) = ?F c + ?F (c - 1) + of_bool (j = 0)"
    if j: "j < 627" "K j = KBranch c" for j c
  proof -
    have old: "F j + of_bool (j = l) = F c + F (c - 1) + of_bool (j = 0)"
      using s j by (simp add: sums_def)
    have c: "KBranch c \<in> all_kinds" using links_kind [OF assms(1) j(1)] j(2) by simp
    then have ne: "c \<noteq> c - 1" by (auto simp: branch_in_all)
    have par: "K (P l) = KBranch (pair_of l)" "P l < l" using links_parent [OF assms(1,3,4)] by simp_all
    have own: "P c = j" "P (c - 1) = j" "j + 1 < c"
      using assms(1) j unfolding links_def by (metis owner_ok.simps(2) below.simps(2))+
    have "j = P l \<longleftrightarrow> l = c \<or> l = c - 1"
    proof
      assume "j = P l"
      then have "pair_of l = c" using par j by simp
      then show "l = c \<or> l = c - 1" using pair_of_cases assms(3) by blast
    qed (use own in auto)
    moreover have "j = l \<Longrightarrow> l \<noteq> c \<and> l \<noteq> c - 1" using own by auto
    moreover have "\<not> c \<le> Suc 0" using own(3) by simp
    ultimately show ?thesis using old ne by auto
  qed
  ultimately show ?thesis by (simp add: freqs_def sums_def)
qed

subsection \<open>Groups\<close>

text \<open>
  \<open>fs\<close> are the numbers of the groups not in use: two nodes are in the same group when they have
  the same frequency, and the leader of a group is its first node.
\<close>

definition grouping :: "(nat \<Rightarrow> nat) \<Rightarrow> (nat \<Rightarrow> nat) \<Rightarrow> (nat \<Rightarrow> nat) \<Rightarrow> nat list \<Rightarrow> bool" where
  "grouping F G L fs \<longleftrightarrow>
     (\<forall>i<627. \<forall>j<627. G i = G j \<longleftrightarrow> F i = F j) \<and>
     (\<forall>i<627. L (G i) \<le> i \<and> F (L (G i)) = F i \<and> (\<forall>j<L (G i). F j \<noteq> F i)) \<and>
     distinct fs \<and> set fs \<inter> G ` {..<627} = {} \<and> set fs \<union> G ` {..<627} = {..<627}"

lemma groupingD:
  assumes "grouping F G L fs" and "i < 627"
  shows grouping_same: "j < 627 \<Longrightarrow> G i = G j \<longleftrightarrow> F i = F j"
    and grouping_leader: "L (G i) \<le> i" "F (L (G i)) = F i"
    and grouping_first: "j < L (G i) \<Longrightarrow> F j \<noteq> F i"
    and grouping_used: "G i \<notin> set fs" "G i < 627"
  using assms unfolding grouping_def by auto

text \<open>Counting the first node \<open>l\<close> of its frequency, in the four cases of the code.\<close>

definition first_of :: "(nat \<Rightarrow> nat) \<Rightarrow> (nat \<Rightarrow> nat) \<Rightarrow> (nat \<Rightarrow> nat) \<Rightarrow> nat list \<Rightarrow> nat \<Rightarrow> bool" where
  "first_of F G L fs l \<longleftrightarrow> grouping F G L fs \<and> descending F \<and> 0 < l \<and> l < 627 \<and> L (G l) = l"

lemma first_ofD:
  assumes "first_of F G L fs l"
  shows "grouping F G L fs" "descending F" "0 < l" "l < 627" "L (G l) = l"
    and first_before: "j < l \<Longrightarrow> F l + 1 \<le> F j"
    and first_after: "l < j \<Longrightarrow> j < 627 \<Longrightarrow> F j \<le> F l"
proof -
  show facts: "grouping F G L fs" "descending F" "0 < l" "l < 627" "L (G l) = l"
    using assms by (simp_all add: first_of_def)
  show "j < l \<Longrightarrow> F l + 1 \<le> F j"
    using grouping_first [OF facts(1,4), of j] descendingD [OF facts(2), of j l] facts(4,5) by fastforce
  show "l < j \<Longrightarrow> j < 627 \<Longrightarrow> F j \<le> F l" using descendingD [OF facts(2), of l j] by simp
qed

lemma first_alone:
  assumes "first_of F G L fs l" and "F (l - 1) \<noteq> F l + 1" and "j < 627" "j \<noteq> l"
  shows "F j \<noteq> F l + 1"
proof (cases "j < l")
  case True
  then have "F (l - 1) \<le> F j" using descendingD [OF first_ofD(2) [OF assms(1)], of j "l - 1"] assms(3) first_ofD(4) [OF assms(1)] by simp
  moreover have "F l + 1 \<le> F (l - 1)" using first_before [OF assms(1), of "l - 1"] first_ofD(3) [OF assms(1)] by simp
  ultimately show ?thesis using assms(2) by simp
next
  case False
  then show ?thesis using first_after [OF assms(1), of j] assms(3,4) by simp
qed

text \<open>The leaders of the other groups stay.\<close>

lemma other_leader:
  assumes "first_of F G L fs l" and "i < 627" and "F i \<noteq> F l"
  shows "L (G i) \<le> i \<and> (F(l := F l + 1)) (L (G i)) = F i \<and> (\<forall>j<L (G i). (F(l := F l + 1)) j \<noteq> F i)"
proof -
  note g = first_ofD(1) [OF assms(1)]
  have "L (G i) \<noteq> l" using grouping_leader(2) [OF g assms(2)] assms(3) by auto
  moreover have "F l + 1 \<noteq> F i" if "l < L (G i)"
  proof -
    have "l < i" using that grouping_leader(1) [OF g assms(2)] by simp
    then show ?thesis using first_after [OF assms(1), of i] assms(2) by simp
  qed
  ultimately show ?thesis using grouping_leader [OF g assms(2)] grouping_first [OF g assms(2)] by auto
qed

lemma same_later:
  assumes "first_of F G L fs l" and "i < 627" "i \<noteq> l" and "F i = F l"
  shows "l < i" and "G (l + 1) = G l" and "l + 1 < 627" and "F (l + 1) = F l"
proof -
  note d = first_ofD(2) [OF assms(1)]
  have "\<not> i < l" using first_before [OF assms(1), of i] assms(4) by auto
  with assms(3) show l: "l < i" by simp
  with assms(2) show "l + 1 < 627" by simp
  have "F i \<le> F (l + 1)" "F (l + 1) \<le> F l"
    using descendingD [OF d, of "l + 1" i] descendingD [OF d, of l "l + 1"] l assms(2) by simp_all
  with assms(4) show "F (l + 1) = F l" by simp
  with grouping_same [OF first_ofD(1,4) [OF assms(1)], of "l + 1"] l assms(2) show "G (l + 1) = G l" by simp
qed

lemma group_join_shared:
  assumes f: "first_of F G L fs l" and next_node: "l + 1 < 627" "G (l + 1) = G l" and eq: "F l + 1 = F (l - 1)"
  shows "grouping (F(l := F l + 1)) (G(l := G (l - 1))) (L(G l := l + 1)) fs"
proof -
  note g = first_ofD(1) [OF f] and l = first_ofD(3,4) [OF f]
  let ?F = "F(l := F l + 1)" and ?G = "G(l := G (l - 1))" and ?L = "L(G l := l + 1)"
  have prev: "l - 1 < 627" "l - 1 \<noteq> l" using l by simp_all
  have gne: "G (l - 1) \<noteq> G l" using grouping_same [OF g prev(1) l(2)] eq by simp
  have "?G i = ?G j \<longleftrightarrow> ?F i = ?F j" if "i < 627" "j < 627" for i j
    using that grouping_same [OF g] prev eq by auto
  moreover have "?L (?G i) \<le> i \<and> ?F (?L (?G i)) = ?F i \<and> (\<forall>j<?L (?G i). ?F j \<noteq> ?F i)" if i: "i < 627" for i
  proof -
    consider "i = l" | "i \<noteq> l" "F i = F l" | "i \<noteq> l" "F i \<noteq> F l" by blast
    then show ?thesis
    proof cases
      case 1
      have "L (G (l - 1)) \<le> l - 1" using grouping_leader [OF g prev(1)] by simp
      then have "L (G (l - 1)) < l" using l by simp
      with 1 gne eq grouping_leader [OF g prev(1)] grouping_first [OF g prev(1)] show ?thesis by auto
    next
      case 2
      then have "G i = G l" using grouping_same [OF g i l(2)] by simp
      moreover have "F (l + 1) = F l" using grouping_same [OF g next_node(1) l(2)] next_node by simp
      moreover have "F j \<noteq> F l" if "j < l" for j using first_before [OF f that] by simp
      ultimately show ?thesis using same_later(1) [OF f i] 2 by (auto simp: less_Suc_eq)
    next
      case 3
      then have "G i \<noteq> G l" using grouping_same [OF g i l(2)] by simp
      with other_leader [OF f i 3(2)] 3 show ?thesis by simp
    qed
  qed
  moreover have "?G ` {..<627} = G ` {..<627}"
  proof (intro equalityI subsetI)
    fix x assume "x \<in> G ` {..<627}"
    then obtain i where i: "i < 627" "x = G i" by auto
    show "x \<in> ?G ` {..<627}"
    proof (cases "i = l")
      case True
      then have "x = ?G (l + 1)" using next_node i by simp
      with next_node show ?thesis by blast
    next
      case False
      then have "x = ?G i" using i by simp
      with i show ?thesis by blast
    qed
  qed (use prev in auto)
  ultimately show ?thesis using g unfolding grouping_def by simp
qed

lemma group_new_shared:
  assumes f: "first_of F G L (h # fs) l" and next_node: "l + 1 < 627" "G (l + 1) = G l" and ne: "F (l - 1) \<noteq> F l + 1"
  shows "grouping (F(l := F l + 1)) (G(l := h)) (L(G l := l + 1, h := l)) fs"
proof -
  note g = first_ofD(1) [OF f] and l = first_ofD(3,4) [OF f]
  let ?F = "F(l := F l + 1)" and ?G = "G(l := h)" and ?L = "L(G l := l + 1, h := l)"
  have h: "h \<notin> G ` {..<627}" "h < 627" "h \<notin> set fs" "distinct fs" using g by (auto simp: grouping_def)
  then have hG: "G i \<noteq> h" if "i < 627" for i using that by auto
  have "?G i = ?G j \<longleftrightarrow> ?F i = ?F j" if "i < 627" "j < 627" for i j
    using that grouping_same [OF g, of i j] hG [of i] hG [of j] first_alone [OF f ne, of i]
      first_alone [OF f ne, of j] by auto
  moreover have "?L (?G i) \<le> i \<and> ?F (?L (?G i)) = ?F i \<and> (\<forall>j<?L (?G i). ?F j \<noteq> ?F i)" if i: "i < 627" for i
  proof -
    consider "i = l" | "i \<noteq> l" "F i = F l" | "i \<noteq> l" "F i \<noteq> F l" by blast
    then show ?thesis
    proof cases
      case 1
      then show ?thesis using first_alone [OF f ne] l by auto
    next
      case 2
      then have "G i = G l" using grouping_same [OF g i l(2)] by simp
      moreover have "F (l + 1) = F l" using grouping_same [OF g next_node(1) l(2)] next_node by simp
      moreover have "F j \<noteq> F l" if "j < l" for j using first_before [OF f that] by simp
      ultimately show ?thesis using same_later(1) [OF f i] 2 hG [OF i] by (auto simp: less_Suc_eq)
    next
      case 3
      then have "G i \<noteq> G l" using grouping_same [OF g i l(2)] by simp
      with other_leader [OF f i 3(2)] 3 hG [OF i] show ?thesis by simp
    qed
  qed
  moreover have "?G ` {..<627} = insert h (G ` {..<627})"
  proof (intro equalityI subsetI)
    fix x assume "x \<in> insert h (G ` {..<627})"
    then consider "x = ?G l" | i where "i < 627" "x = G i" by auto
    then show "x \<in> ?G ` {..<627}"
    proof cases
      case 1
      with l show ?thesis by blast
    next
      case 2
      then have "x = ?G (if i = l then l + 1 else i)" using next_node by simp
      with 2 next_node show ?thesis by (metis image_eqI lessThan_iff)
    qed
  qed auto
  ultimately show ?thesis using g h unfolding grouping_def by auto
qed

lemma group_join_alone:
  assumes f: "first_of F G L fs l" and alone: "\<not> (l + 1 < 627 \<and> G (l + 1) = G l)" and eq: "F l + 1 = F (l - 1)"
  shows "grouping (F(l := F l + 1)) (G(l := G (l - 1))) L (G l # fs)"
proof -
  note g = first_ofD(1) [OF f] and l = first_ofD(3,4) [OF f]
  let ?F = "F(l := F l + 1)" and ?G = "G(l := G (l - 1))"
  have prev: "l - 1 < 627" "l - 1 \<noteq> l" using l by simp_all
  have single: "F i \<noteq> F l" if "i < 627" "i \<noteq> l" for i using same_later(2,3) [OF f that] alone by auto
  then have other: "G i \<noteq> G l" if "i < 627" "i \<noteq> l" for i using that grouping_same [OF g that(1) l(2)] by simp
  have "?G i = ?G j \<longleftrightarrow> ?F i = ?F j" if "i < 627" "j < 627" for i j
    using that grouping_same [OF g] prev eq by auto
  moreover have "L (?G i) \<le> i \<and> ?F (L (?G i)) = ?F i \<and> (\<forall>j<L (?G i). ?F j \<noteq> ?F i)" if i: "i < 627" for i
  proof (cases "i = l")
    case True
    have "L (G (l - 1)) \<le> l - 1" using grouping_leader [OF g prev(1)] by simp
    then have "L (G (l - 1)) < l" using l by simp
    with True eq grouping_leader [OF g prev(1)] grouping_first [OF g prev(1)] show ?thesis by auto
  next
    case False
    with other_leader [OF f i single [OF i]] show ?thesis by simp
  qed
  moreover have "?G ` {..<627} = G ` {..<627} - {G l}"
  proof (intro equalityI subsetI)
    fix x assume "x \<in> G ` {..<627} - {G l}"
    then obtain i where "i < 627" "x = G i" "i \<noteq> l" by auto
    then show "x \<in> ?G ` {..<627}" by (metis fun_upd_other image_eqI lessThan_iff)
  qed (use prev other [OF prev] other in \<open>auto split: if_splits\<close>)
  moreover have "G l \<notin> set fs" "G l \<in> G ` {..<627}" using g l by (auto simp: grouping_def)
  ultimately show ?thesis using g unfolding grouping_def by auto
qed

lemma group_keep_alone:
  assumes f: "first_of F G L fs l" and alone: "\<not> (l + 1 < 627 \<and> G (l + 1) = G l)" and ne: "F (l - 1) \<noteq> F l + 1"
  shows "grouping (F(l := F l + 1)) G L fs"
proof -
  note g = first_ofD(1) [OF f] and l = first_ofD(3,4,5) [OF f]
  let ?F = "F(l := F l + 1)"
  have single: "F i \<noteq> F l" if "i < 627" "i \<noteq> l" for i using same_later(2,3) [OF f that] alone by auto
  have "G i = G j \<longleftrightarrow> ?F i = ?F j" if "i < 627" "j < 627" for i j
    using that grouping_same [OF g, of i j] single [of i] single [of j] first_alone [OF f ne, of i]
      first_alone [OF f ne, of j] by auto
  moreover have "L (G i) \<le> i \<and> ?F (L (G i)) = ?F i \<and> (\<forall>j<L (G i). ?F j \<noteq> ?F i)" if i: "i < 627" for i
  proof (cases "i = l")
    case True
    then show ?thesis using first_alone [OF f ne] l by auto
  next
    case False
    with other_leader [OF f i single [OF i]] show ?thesis by simp
  qed
  ultimately show ?thesis using g unfolding grouping_def by simp
qed

text \<open>The root is alone in its group.\<close>

lemma group_root:
  assumes g: "grouping F G L fs" and less: "\<And>j. 0 < j \<Longrightarrow> j < 627 \<Longrightarrow> F j < F 0"
  shows "grouping (F(0 := F 0 + 1)) G L fs"
proof -
  let ?F = "F(0 := F 0 + 1)"
  have "G i = G j \<longleftrightarrow> ?F i = ?F j" if "i < 627" "j < 627" for i j
    using that grouping_same [OF g, of i j] less [of i] less [of j] by (cases "i = 0"; cases "j = 0") auto
  moreover have "L (G i) \<le> i \<and> ?F (L (G i)) = ?F i \<and> (\<forall>j<L (G i). ?F j \<noteq> ?F i)" if i: "i < 627" for i
  proof (cases "i = 0")
    case True
    then show ?thesis using grouping_leader(1) [OF g i] by simp
  next
    case False
    then have "F i < F 0" using less i by simp
    moreover from this have "L (G i) \<noteq> 0" using grouping_leader(2) [OF g i] by (metis less_irrefl)
    ultimately show ?thesis using grouping_leader [OF g i] grouping_first [OF g i] False by auto
  qed
  ultimately show ?thesis using g unfolding grouping_def by simp
qed

end
