(* ===== verification/Dyn_Inv.thy ===== *)
theory Dyn_Inv
  imports Dyn_Model
begin

text \<open>
  The walk that counts a value keeps the invariant of the adaptive Huffman tree: the operations of
  \<open>Dyn_Tree\<close> act on the functions of \<open>Dyn_Model\<close>, and none of their checks fails.
\<close>

subsection \<open>The functions of a tree\<close>

fun kind_of :: "node_type \<Rightarrow> node_kind" where
  "kind_of (Leaf v) = KLeaf (unat v)"
| "kind_of (Branch c) = KBranch (unat c)"

definition kind :: "dyn_tree \<Rightarrow> nat \<Rightarrow> node_kind" where
  "kind t i = kind_of (as_type (nd_entry (dt_nodes t ! i)))"

definition fq :: "dyn_tree \<Rightarrow> nat \<Rightarrow> nat" where
  "fq t i = unat (nd_freq (dt_nodes t ! i))"

definition par :: "dyn_tree \<Rightarrow> nat \<Rightarrow> nat" where
  "par t i = unat (nd_parent (dt_nodes t ! i))"

definition grp :: "dyn_tree \<Rightarrow> nat \<Rightarrow> nat" where
  "grp t i = unat (nd_group (dt_nodes t ! i))"

definition leaf_index :: "dyn_tree \<Rightarrow> nat \<Rightarrow> nat" where
  "leaf_index t v = unat (dt_leaves t ! v)"

definition lead :: "dyn_tree \<Rightarrow> nat \<Rightarrow> nat" where
  "lead t g = unat (gr_leaders (dt_groups t) ! g)"

definition unused :: "groups \<Rightarrow> nat list" where
  "unused g = map unat (drop (unat (gr_ngroups g)) (gr_groups g))"

definition free_groups :: "dyn_tree \<Rightarrow> nat list" where
  "free_groups t = unused (dt_groups t)"

definition shape :: "dyn_tree \<Rightarrow> bool" where
  "shape t \<longleftrightarrow> length (dt_nodes t) = 627 \<and> length (dt_leaves t) = 314 \<and>
     length (gr_groups (dt_groups t)) = 627 \<and> length (gr_leaders (dt_groups t)) = 627 \<and>
     unat (gr_ngroups (dt_groups t)) \<le> 627"

text \<open>The invariant while a value is counted and the walk is at node \<open>d\<close>; a tree at rest has \<open>d = 0\<close>.\<close>

definition tree_at :: "nat \<Rightarrow> dyn_tree \<Rightarrow> bool" where
  "tree_at d t \<longleftrightarrow> shape t \<and> links (kind t) (par t, leaf_index t) \<and> freqs (kind t) (fq t) d \<and>
     grouping (fq t) (grp t) (lead t) (free_groups t) \<and> fq t 0 \<le> 32768"

definition dyn_tree_ok :: "dyn_tree \<Rightarrow> bool" where
  "dyn_tree_ok = tree_at 0"

lemma unat_index: "n < 627 \<Longrightarrow> unat (of_nat n :: u16) = n"
  by (simp add: unat_of_nat)

lemma shapeD:
  assumes "shape t"
  shows "length (dt_nodes t) = 627" "length (dt_leaves t) = 314" "length (gr_groups (dt_groups t)) = 627"
    "length (gr_leaders (dt_groups t)) = 627" "unat (gr_ngroups (dt_groups t)) \<le> 627"
  using assms by (simp_all add: shape_def)

lemmas tree_funs = kind_def fq_def par_def grp_def leaf_index_def lead_def free_groups_def

text \<open>The part of the state that neither the links nor the frequencies depend on.\<close>

definition same_groups :: "dyn_tree \<Rightarrow> dyn_tree \<Rightarrow> bool" where
  "same_groups t t' \<longleftrightarrow> fq t' = fq t \<and> grp t' = grp t \<and> dt_groups t' = dt_groups t"

lemma same_groups_lead: "same_groups t t' \<Longrightarrow> lead t' = lead t \<and> free_groups t' = free_groups t"
  by (auto simp: same_groups_def lead_def free_groups_def fun_eq_iff)

lemma get_node_Ok: "i < length (dt_nodes t) \<Longrightarrow> get_node i t = (Ok (dt_nodes t ! i), t)"
  by (simp add: get_node_def)

lemma update_node_Ok:
  "i < length (dt_nodes t) \<Longrightarrow> update_node i f t = (Ok (), t\<lparr>dt_nodes := (dt_nodes t)[i := f (dt_nodes t ! i)]\<rparr>)"
  by (simp add: update_node_def)

lemma on_groups_apply: "m (dt_groups t) = (r, g) \<Longrightarrow> on_groups m t = (r, t\<lparr>dt_groups := g\<rparr>)"
  by (simp add: on_groups_def zoom_def)

lemma bnd_on_groups: "m (dt_groups t) = (Ok x, g) \<Longrightarrow> bnd (on_groups m) f t = f x (t\<lparr>dt_groups := g\<rparr>)"
  by (simp add: bnd_Ok [of "on_groups m", OF on_groups_apply])

subsection \<open>Changing the owner of an entry\<close>

lemma update_entry_owner_Ok:
  assumes "shape t" and "kind_of (as_type e) \<in> all_kinds" and "x < 627"
  obtains t' where "update_entry_owner e x t = ((Ok (), t') :: ('e, _) outcome \<times> _)" and "shape t'" and "kind t' = kind t" and "same_groups t t'"
    and "(par t', leaf_index t') = own (kind_of (as_type e)) x (par t, leaf_index t)"
proof (cases "as_type e")
  case (Leaf v)
  let ?t = "t\<lparr>dt_leaves := (dt_leaves t)[unat v := of_nat x]\<rparr>"
  have v: "unat v < 314" using assms(2) Leaf by (simp add: leaf_in_all)
  show thesis
  proof (rule that [of ?t])
    show "update_entry_owner e x t = ((Ok (), ?t) :: ('e, _) outcome \<times> _)"
      using v assms(3) shapeD(2) [OF assms(1)] by (simp add: update_entry_owner_def Leaf set_leaf_node_index_def num_nodes_eq)
    show "shape ?t" "kind ?t = kind t" "same_groups t ?t"
      using assms(1) by (auto simp: shape_def same_groups_def tree_funs fun_eq_iff)
    show "(par ?t, leaf_index ?t) = own (kind_of (as_type e)) x (par t, leaf_index t)"
      using v assms(3) shapeD(2) [OF assms(1)] by (auto simp: Leaf tree_funs fun_eq_iff unat_index nth_list_update)
  qed
next
  case (Branch c)
  let ?p = "\<lambda>n. n\<lparr>nd_parent := of_nat x\<rparr>" and ?c = "unat c"
  let ?t1 = "t\<lparr>dt_nodes := (dt_nodes t)[?c - 1 := ?p (dt_nodes t ! (?c - 1))]\<rparr>"
  let ?t = "?t1\<lparr>dt_nodes := (dt_nodes ?t1)[?c := ?p (dt_nodes ?t1 ! ?c)]\<rparr>"
  have c: "2 \<le> ?c" "?c < 627" using assms(2) Branch by (auto simp: branch_in_all)
  have len: "length (dt_nodes t) = 627" by (rule shapeD(1) [OF assms(1)])
  have "update_node (?c - 1) ?p t = ((Ok (), ?t1) :: ('e, _) outcome \<times> _)"
    and "update_node ?c ?p ?t1 = ((Ok (), ?t) :: ('e, _) outcome \<times> _)"
    using c len by (simp_all add: update_node_Ok)
  then have "update_entry_owner e x t = ((Ok (), ?t) :: ('e, _) outcome \<times> _)"
    using c assms(3) len by (simp add: update_entry_owner_def Branch set_as_parent_def Let_def num_nodes_eq bnd_def)
  moreover have "shape ?t" "kind ?t = kind t" "same_groups t ?t"
    using assms(1) c len by (auto simp: shape_def same_groups_def tree_funs fun_eq_iff nth_list_update)
  moreover have "(par ?t, leaf_index ?t) = own (kind_of (as_type e)) x (par t, leaf_index t)"
    using c len assms(3) by (auto simp: Branch tree_funs fun_eq_iff unat_index nth_list_update)
  ultimately show thesis by (rule that)
qed

subsection \<open>Promotion to the leader\<close>

definition same_or_swapped :: "nat \<Rightarrow> nat \<Rightarrow> dyn_tree \<Rightarrow> dyn_tree \<Rightarrow> bool" where
  "same_or_swapped i l t t' \<longleftrightarrow> (if l = i then t' = t
     else kind t' = (kind t)(i := kind t l, l := kind t i) \<and>
       (par t', leaf_index t') = own (kind t i) l (own (kind t l) i (par t, leaf_index t)))"

lemma promote_Ok:
  assumes "shape t" and "i < 627" and "lead t (grp t i) = l" and "l \<le> i" and "grp t i < 627"
    and "kind t i \<in> all_kinds" and "kind t l \<in> all_kinds"
  obtains t' where "promote_to_leader i t = ((Ok l, t') :: ('e, _) outcome \<times> _)" and "shape t'" and "same_groups t t'" and "same_or_swapped i l t t'"
proof -
  note len = shapeD [OF assms(1)]
  let ?n = "dt_nodes t ! i"
  have node: "get_node i t = ((Ok ?n, t) :: ('e, _) outcome \<times> _)" using assms(2) len by (simp add: get_node_Ok)
  have leader: "on_groups (get_leader_index (nd_group ?n)) t = ((Ok l, t) :: ('e, _) outcome \<times> _)"
    using assms(3,5) len by (simp add: on_groups_def zoom_def get_leader_index_def tree_funs)
  show thesis
  proof (cases "l = i")
    case True
    with node leader have "promote_to_leader i t = ((Ok l, t) :: ('e, _) outcome \<times> _)"
      by (simp add: promote_to_leader_def bnd_def ret_apply)
    then show thesis using assms(1) True by (intro that) (simp_all add: same_groups_def same_or_swapped_def)
  next
    case False
    let ?m = "dt_nodes t ! l"
    let ?e = "nd_entry ?n" and ?o = "nd_entry ?m"
    let ?t1 = "t\<lparr>dt_nodes := (dt_nodes t)[i := ?n\<lparr>nd_entry := ?o\<rparr>]\<rparr>"
    let ?t2 = "?t1\<lparr>dt_nodes := (dt_nodes ?t1)[l := (dt_nodes ?t1 ! l)\<lparr>nd_entry := ?e\<rparr>]\<rparr>"
    have l: "l < 627" and nle: "\<not> i \<le> l" using assms(2,4) False by simp_all
    have old: "get_node l t = ((Ok ?m, t) :: ('e, _) outcome \<times> _)" using l len by (simp add: get_node_Ok)
    have u1: "update_node i (\<lambda>n. n\<lparr>nd_entry := ?o\<rparr>) t = ((Ok (), ?t1) :: ('e, _) outcome \<times> _)" using assms(2) len by (simp add: update_node_Ok)
    have u2: "update_node l (\<lambda>n. n\<lparr>nd_entry := ?e\<rparr>) ?t1 = ((Ok (), ?t2) :: ('e, _) outcome \<times> _)" using l len by (simp add: update_node_Ok)
    have sh: "shape ?t2" using assms(1) by (simp add: shape_def)
    have sg: "same_groups t ?t2" using len assms(2) l by (auto simp: same_groups_def tree_funs fun_eq_iff nth_list_update)
    have k2: "kind ?t2 = (kind t)(i := kind t l, l := kind t i)"
      using assms(2) l len False by (auto simp: kind_def fun_eq_iff nth_list_update)
    have pv2: "(par ?t2, leaf_index ?t2) = (par t, leaf_index t)"
      using len assms(2) l by (auto simp: tree_funs fun_eq_iff nth_list_update)
    have ke: "kind_of (as_type ?e) = kind t i" and ko: "kind_of (as_type ?o) = kind t l" by (simp_all add: kind_def)
    obtain t3 where t3: "update_entry_owner ?o i ?t2 = ((Ok (), t3) :: ('e, _) outcome \<times> _)" "shape t3" "kind t3 = kind ?t2" "same_groups ?t2 t3"
        "(par t3, leaf_index t3) = own (kind t l) i (par t, leaf_index t)"
      using update_entry_owner_Ok [OF sh, of ?o i] assms(2,7) unfolding ko pv2 by blast
    obtain t4 where t4: "update_entry_owner ?e l t3 = ((Ok (), t4) :: ('e, _) outcome \<times> _)" "shape t4" "kind t4 = kind t3" "same_groups t3 t4"
        "(par t4, leaf_index t4) = own (kind t i) l (par t3, leaf_index t3)"
      using update_entry_owner_Ok [OF t3(2), of ?e l] l assms(6) unfolding ke by blast
    have "promote_to_leader i t = ((Ok l, t4) :: ('e, _) outcome \<times> _)"
      unfolding promote_to_leader_def Let_def bnd_Ok [of "get_node i", OF node] bnd_Ok [of "on_groups _", OF leader]
        if_not_P [OF False] if_not_P [OF nle] bnd_Ok [of "get_node l", OF old] bnd_Ok [of "update_node i _", OF u1]
        bnd_Ok [of "update_node l _", OF u2] bnd_Ok [of "update_entry_owner _ _", OF t3(1)]
        bnd_Ok [of "update_entry_owner _ _", OF t4(1)] ret_apply
      by (rule refl)
    moreover have "same_groups t t4" using sg t3(4) t4(4) by (simp add: same_groups_def)
    moreover have "same_or_swapped i l t t4"
      using False t3(3,5) t4(3,5) k2 by (simp add: same_or_swapped_def)
    ultimately show thesis using t4(2) that by blast
  qed
qed

subsection \<open>Operations on the groups\<close>

lemma allocate_Ok:
  assumes "length (gr_groups g) = 627" and "unused g = h # fs"
  defines "g' \<equiv> g\<lparr>gr_ngroups := gr_ngroups g + 1\<rparr>"
  shows "allocate g = (Ok (gr_groups g ! unat (gr_ngroups g)), g')"
    and "unat (gr_groups g ! unat (gr_ngroups g)) = h" and "unused g' = fs" and "unat (gr_ngroups g') \<le> 627"
proof -
  let ?n = "unat (gr_ngroups g)"
  have "drop ?n (gr_groups g) \<noteq> []" using assms(2) by (auto simp: unused_def)
  then have n: "?n < 627" using assms(1) by simp
  then have split: "drop ?n (gr_groups g) = gr_groups g ! ?n # drop (Suc ?n) (gr_groups g)"
    using assms(1) by (simp add: Cons_nth_drop_Suc)
  have suc: "unat (gr_ngroups g + 1) = Suc ?n" using n by (subst unat_add_lem [THEN iffD1]) simp_all
  show "unat (gr_groups g ! ?n) = h" using assms(2) split by (simp add: unused_def)
  show "unused g' = fs" using assms(2) split suc by (simp add: unused_def g'_def)
  show "unat (gr_ngroups g') \<le> 627" using suc n by (simp add: g'_def)
  show "allocate g = (Ok (gr_groups g ! ?n), g')" using assms(1) n by (simp add: allocate_def g'_def Let_def)
qed

lemma free_Ok:
  fixes x :: u16
  assumes "length (gr_groups g) = 627" and "0 < unat (gr_ngroups g)" and "unat (gr_ngroups g) \<le> 627"
  defines "g' \<equiv> g\<lparr>gr_groups := (gr_groups g)[unat (gr_ngroups g - 1) := x], gr_ngroups := gr_ngroups g - 1\<rparr>"
  shows "free x g = (Ok (), g')" and "unused g' = unat x # unused g" and "unat (gr_ngroups g') \<le> 627"
    and "length (gr_groups g') = 627"
proof -
  have nz: "gr_ngroups g \<noteq> 0" using assms(2) by auto
  then have n: "unat (gr_ngroups g - 1) = unat (gr_ngroups g) - 1" by (simp add: unat_minus_one)
  let ?n = "unat (gr_ngroups g) - 1"
  have lt: "?n < length (gr_groups g)" "Suc ?n = unat (gr_ngroups g)" using assms(1-3) by simp_all
  show "free x g = (Ok (), g')" using nz n lt(1) by (simp add: free_def g'_def Let_def)
  have "drop ?n ((gr_groups g)[?n := x]) = x # drop (Suc ?n) (gr_groups g)"
    using lt(1) by (simp add: drop_update_swap [symmetric] Cons_nth_drop_Suc [symmetric])
  then show "unused g' = unat x # unused g" using n lt(2) by (simp add: unused_def g'_def)
  show "unat (gr_ngroups g') \<le> 627" using n assms(3) by (simp add: g'_def)
  show "length (gr_groups g') = 627" using assms(1) by (simp add: g'_def)
qed

lemma grouping_has_free:
  assumes "grouping F G L fs" and "i < 627" "j < 627" "i \<noteq> j" and "G i = G j"
  shows "fs \<noteq> []"
proof
  assume "fs = []"
  then have "G ` {..<627} = {..<627}" using assms(1) by (simp add: grouping_def)
  then have "card (G ` {..<627}) = card {..<627::nat}" by simp
  then have "inj_on G {..<627}" by (rule eq_card_imp_inj_on [OF finite_lessThan])
  with assms(2-5) show False by (auto dest: inj_onD)
qed

lemma grouping_has_used:
  assumes "grouping F G L fs"
  shows "length fs < 627"
proof -
  have "set fs \<subseteq> {..<627} - {G 0}" using assms unfolding grouping_def by fastforce
  then have "card (set fs) \<le> card ({..<627} - {G 0})" by (rule card_mono [rotated]) simp
  moreover have "card ({..<627} - {G 0}) = 626" using grouping_used(2) [OF assms, of 0] by simp
  ultimately show ?thesis using assms by (simp add: grouping_def distinct_card)
qed

subsection \<open>Counting a node\<close>

definition counted :: "nat \<Rightarrow> u16 \<Rightarrow> groups \<Rightarrow> dyn_tree \<Rightarrow> dyn_tree" where
  "counted l x g t = t\<lparr>dt_nodes := (dt_nodes t)[l := (dt_nodes t ! l)\<lparr>nd_freq := nd_freq (dt_nodes t ! l) + 1, nd_group := x\<rparr>],
     dt_groups := g\<rparr>"

lemma counted_groups: "dt_groups (counted l x g t) = g" "(counted l x g t)\<lparr>dt_groups := g'\<rparr> = counted l x g' t"
  by (simp_all add: counted_def)

lemma counted_funs:
  assumes "shape t" and "l < 627" and "fq t l < 65535"
  shows "kind (counted l x g t) = kind t" "par (counted l x g t) = par t" "leaf_index (counted l x g t) = leaf_index t"
    and "fq (counted l x g t) = (fq t)(l := fq t l + 1)" "grp (counted l x g t) = (grp t)(l := unat x)"
    and "lead (counted l x g t) = (\<lambda>k. unat (gr_leaders g ! k))" "free_groups (counted l x g t) = unused g"
    and "length (gr_groups g) = 627 \<Longrightarrow> length (gr_leaders g) = 627 \<Longrightarrow> unat (gr_ngroups g) \<le> 627 \<Longrightarrow> shape (counted l x g t)"
proof -
  have "unat (nd_freq (dt_nodes t ! l) + 1) = unat (nd_freq (dt_nodes t ! l)) + 1"
    using assms(3) by (subst unat_add_lem [THEN iffD1]) (simp_all add: fq_def)
  then show "fq (counted l x g t) = (fq t)(l := fq t l + 1)"
    using assms(2) shapeD(1) [OF assms(1)] by (auto simp: counted_def fq_def fun_eq_iff nth_list_update)
qed (use assms shapeD [OF assms(1)] in \<open>auto simp: counted_def tree_funs shape_def fun_eq_iff nth_list_update\<close>)

text \<open>The part of \<open>increment_frequency\<close> that changes the groups, after the frequency.\<close>

definition regroup_node :: "nat \<Rightarrow> u16 \<Rightarrow> u16 \<Rightarrow> tree_node \<Rightarrow> bool \<Rightarrow> (dyn_tree, 'e, unit) act" where
  "regroup_node l g fr prev shared =
     (if shared then
        bnd (on_groups (set_next_node_as_leader g)) (\<lambda>_.
          if fr = nd_freq prev then update_node l (\<lambda>n. n\<lparr>nd_group := nd_group prev\<rparr>)
          else bnd (on_groups allocate) (\<lambda>grp.
            bnd (update_node l (\<lambda>n. n\<lparr>nd_group := grp\<rparr>)) (\<lambda>_.
              on_groups (set_leader_index grp l))))
      else if fr = nd_freq prev then
        bnd (on_groups (free g)) (\<lambda>_.
          update_node l (\<lambda>n. n\<lparr>nd_group := nd_group prev\<rparr>))
      else ret ())"

definition raised :: "nat \<Rightarrow> dyn_tree \<Rightarrow> dyn_tree" where
  "raised l t = t\<lparr>dt_nodes := (dt_nodes t)[l := (dt_nodes t ! l)\<lparr>nd_freq := nd_freq (dt_nodes t ! l) + 1\<rparr>]\<rparr>"

lemma update_raised:
  "l < length (dt_nodes t) \<Longrightarrow> update_node l (\<lambda>n. n\<lparr>nd_group := x\<rparr>) ((raised l t)\<lparr>dt_groups := g\<rparr>) = (Ok (), counted l x g t)"
  by (simp add: update_node_def raised_def counted_def)

lemma raised_sel [simp]: "dt_groups (raised l t) = dt_groups t" "length (dt_nodes (raised l t)) = length (dt_nodes t)"
  by (simp_all add: raised_def)

lemma set_next_leader_Ok:
  assumes "length (gr_leaders g) = 627" and "unat x < 627" and "unat (gr_leaders g ! unat x) < 626"
  defines "g' \<equiv> g\<lparr>gr_leaders := (gr_leaders g)[unat x := gr_leaders g ! unat x + 1]\<rparr>"
  shows "set_next_node_as_leader x g = (Ok (), g')"
    and "(\<lambda>k. unat (gr_leaders g' ! k)) = (\<lambda>k. unat (gr_leaders g ! k))(unat x := unat (gr_leaders g ! unat x) + 1)"
proof -
  have "unat (gr_leaders g ! unat x + 1) = unat (gr_leaders g ! unat x) + 1"
    using assms(3) by (subst unat_add_lem [THEN iffD1]) simp_all
  then show "(\<lambda>k. unat (gr_leaders g' ! k)) = (\<lambda>k. unat (gr_leaders g ! k))(unat x := unat (gr_leaders g ! unat x) + 1)"
    using assms(1,2) by (auto simp: g'_def fun_eq_iff nth_list_update)
  show "set_next_node_as_leader x g = (Ok (), g')"
    using assms(1-3) by (simp add: set_next_node_as_leader_def g'_def num_nodes_eq)
qed

lemma set_leader_Ok:
  assumes "length (gr_leaders g) = 627" and "unat x < 627" and "l < 627"
  defines "g' \<equiv> g\<lparr>gr_leaders := (gr_leaders g)[unat x := of_nat l]\<rparr>"
  shows "set_leader_index x l g = (Ok (), g')"
    and "(\<lambda>k. unat (gr_leaders g' ! k)) = (\<lambda>k. unat (gr_leaders g ! k))(unat x := l)"
  using assms(1-3)
  by (auto simp: g'_def fun_eq_iff nth_list_update set_leader_index_def num_nodes_eq unat_index)

text \<open>The result of counting node \<open>l\<close>: the new frequency, and groups that fit it.\<close>

definition counted_ok :: "nat \<Rightarrow> dyn_tree \<Rightarrow> dyn_tree \<Rightarrow> bool" where
  "counted_ok l t t' \<longleftrightarrow> shape t' \<and> kind t' = kind t \<and> par t' = par t \<and> leaf_index t' = leaf_index t \<and>
     fq t' = (fq t)(l := fq t l + 1) \<and> grouping (fq t') (grp t') (lead t') (free_groups t')"

definition countable_at :: "nat \<Rightarrow> dyn_tree \<Rightarrow> bool" where
  "countable_at l t \<longleftrightarrow> shape t \<and> fq t l < 65535 \<and> first_of (fq t) (grp t) (lead t) (free_groups t) l"

lemma countable_atD:
  assumes "countable_at l t"
  shows "shape t" "l < 627" "0 < l" "fq t l < 65535" "first_of (fq t) (grp t) (lead t) (free_groups t) l"
    "grouping (fq t) (grp t) (lead t) (free_groups t)" "lead t (grp t l) = l" "grp t l < 627"
    "unat (nd_group (dt_nodes t ! l)) = grp t l" "unat (nd_group (dt_nodes t ! (l - 1))) = grp t (l - 1)"
proof -
  show f: "shape t" "fq t l < 65535" "first_of (fq t) (grp t) (lead t) (free_groups t) l"
    using assms by (simp_all add: countable_at_def)
  show "l < 627" "0 < l" "grouping (fq t) (grp t) (lead t) (free_groups t)" "lead t (grp t l) = l"
    using first_ofD [OF f(3)] by simp_all
  then show "grp t l < 627" using grouping_used(2) by blast
qed (simp_all add: grp_def)

lemma counted_okI:
  assumes "countable_at l t" and "length (gr_groups g) = 627" "length (gr_leaders g) = 627" "unat (gr_ngroups g) \<le> 627"
    and "grouping ((fq t)(l := fq t l + 1)) ((grp t)(l := unat x)) (\<lambda>k. unat (gr_leaders g ! k)) (unused g)"
  shows "counted_ok l t (counted l x g t)"
  using assms counted_funs [OF countable_atD(1,2,4) [OF assms(1)], where x = x and g = g] by (simp add: counted_ok_def)

lemma regroup_join_shared:
  assumes c: "countable_at l t" and nxt: "l + 1 < 627" "grp t (l + 1) = grp t l"
    and fr: "fr = nd_freq (dt_nodes t ! (l - 1))" and eq: "fq t l + 1 = fq t (l - 1)"
  shows "\<exists>t'. regroup_node l (nd_group (dt_nodes t ! l)) fr (dt_nodes t ! (l - 1)) True (raised l t) = (Ok (), t') \<and> counted_ok l t t'"
proof -
  note len = shapeD [OF countable_atD(1) [OF c]] and facts = countable_atD [OF c]
  let ?x = "nd_group (dt_nodes t ! l)" and ?y = "nd_group (dt_nodes t ! (l - 1))" and ?g = "dt_groups t"
  let ?g' = "?g\<lparr>gr_leaders := (gr_leaders ?g)[unat ?x := gr_leaders ?g ! unat ?x + 1]\<rparr>"
  have x: "unat ?x < 627" "unat (gr_leaders ?g ! unat ?x) = l" using facts(7-9) by (simp_all add: lead_def)
  note lead = set_next_leader_Ok [OF len(4) x(1)] 
  have "unat (gr_leaders ?g ! unat ?x) < 626" using x nxt by simp
  note lead = lead [OF this]
  have "grouping ((fq t)(l := fq t l + 1)) ((grp t)(l := grp t (l - 1))) ((lead t)(grp t l := l + 1)) (free_groups t)"
    using group_join_shared [OF facts(5) nxt eq] .
  then have "counted_ok l t (counted l ?y ?g' t)"
    using lead(2) facts(9,10) len x by (intro counted_okI [OF c]) (simp_all add: lead_def [abs_def] free_groups_def unused_def)
  moreover have "regroup_node l ?x fr (dt_nodes t ! (l - 1)) True (raised l t) = (Ok (), counted l ?y ?g' t)"
    using update_raised [of l t ?y ?g'] facts(2) len(1) fr
    by (simp add: regroup_node_def bnd_on_groups [of "set_next_node_as_leader ?x" "raised l t", unfolded raised_sel, OF lead(1)])
  ultimately show ?thesis by blast
qed

lemma regroup_new_shared:
  assumes c: "countable_at l t" and nxt: "l + 1 < 627" "grp t (l + 1) = grp t l"
    and fr: "fr \<noteq> nd_freq (dt_nodes t ! (l - 1))" and ne: "fq t (l - 1) \<noteq> fq t l + 1"
  shows "\<exists>t'. regroup_node l (nd_group (dt_nodes t ! l)) fr (dt_nodes t ! (l - 1)) True (raised l t) =
    ((Ok (), t') :: ('e, _) outcome \<times> _) \<and> counted_ok l t t'"
proof -
  note len = shapeD [OF countable_atD(1) [OF c]] and facts = countable_atD [OF c]
  let ?x = "nd_group (dt_nodes t ! l)" and ?g = "dt_groups t"
  have x: "unat ?x < 627" "unat (gr_leaders ?g ! unat ?x) = l" using facts(7-9) by (simp_all add: lead_def)
  have "unat (gr_leaders ?g ! unat ?x) < 626" using x nxt by simp
  note lead = set_next_leader_Ok [OF len(4) x(1) this]
  define g1 where "g1 = ?g\<lparr>gr_leaders := (gr_leaders ?g)[unat ?x := gr_leaders ?g ! unat ?x + 1]\<rparr>"
  note lead = lead [folded g1_def]
  have "free_groups t \<noteq> []" using grouping_has_free [OF facts(6,2) nxt(1) _ nxt(2) [symmetric]] by simp
  then obtain h fs where hfs: "free_groups t = h # fs" by (cases "free_groups t") auto
  then have un: "unused g1 = h # fs" by (simp add: free_groups_def unused_def g1_def)
  have len1: "length (gr_groups g1) = 627" "length (gr_leaders g1) = 627" using len by (simp_all add: g1_def)
  note alloc = allocate_Ok [OF len1(1) un]
  define y where "y = gr_groups g1 ! unat (gr_ngroups g1)"
  define g2 where "g2 = g1\<lparr>gr_ngroups := gr_ngroups g1 + 1\<rparr>"
  note alloc = alloc [folded y_def g2_def]
  have h: "h < 627" using facts(6) hfs by (auto simp: grouping_def)
  have len2: "length (gr_leaders g2) = 627" "length (gr_groups g2) = 627" "gr_leaders g2 = gr_leaders g1"
    using len1 by (simp_all add: g2_def)
  note set = set_leader_Ok [OF len2(1) h [folded alloc(2)] facts(2)]
  define g3 where "g3 = g2\<lparr>gr_leaders := (gr_leaders g2)[unat y := of_nat l]\<rparr>"
  note set = set [folded g3_def]
  have len3: "length (gr_leaders g3) = 627" "length (gr_groups g3) = 627" "unat (gr_ngroups g3) \<le> 627" "unused g3 = fs"
    using len2 alloc(3,4) by (simp_all add: g3_def unused_def)
  have "(\<lambda>k. unat (gr_leaders g1 ! k)) = (lead t)(grp t l := l + 1)"
    using lead(2) x(2) facts(9) by (simp add: lead_def [abs_def])
  then have "(\<lambda>k. unat (gr_leaders g3 ! k)) = (lead t)(grp t l := l + 1, h := l)"
    using set(2) alloc(2) len2(3) by simp
  moreover have "grouping ((fq t)(l := fq t l + 1)) ((grp t)(l := h)) ((lead t)(grp t l := l + 1, h := l)) fs"
    using group_new_shared [OF facts(5) [unfolded hfs] nxt ne] .
  ultimately have "counted_ok l t (counted l y g3 t)"
    using alloc(2) len3 by (intro counted_okI [OF c]) simp_all
  moreover have "regroup_node l ?x fr (dt_nodes t ! (l - 1)) True (raised l t) = ((Ok (), counted l y g3 t) :: ('e, _) outcome \<times> _)"
  proof -
    have upd: "update_node l (\<lambda>n. n\<lparr>nd_group := y\<rparr>) ((raised l t)\<lparr>dt_groups := g2\<rparr>) = ((Ok (), counted l y g2 t) :: ('e, _) outcome \<times> _)"
      using update_raised [of l t y g2] facts(2) len(1) by simp
    have fin: "on_groups (set_leader_index y l) (counted l y g2 t) = ((Ok (), counted l y g3 t) :: ('e, _) outcome \<times> _)"
      by (rule on_groups_apply [of "set_leader_index y l" "counted l y g2 t", unfolded counted_groups, OF set(1)])
    have al: "bnd (on_groups allocate) f ((raised l t)\<lparr>dt_groups := g1\<rparr>) = f y ((raised l t)\<lparr>dt_groups := g2\<rparr>)"
      for f :: "u16 \<Rightarrow> (dyn_tree, 'e, unit) act"
      using bnd_on_groups [of allocate "(raised l t)\<lparr>dt_groups := g1\<rparr>" y g2 f] alloc(1) by simp
    show ?thesis
      unfolding regroup_node_def if_P [OF TrueI] if_not_P [OF fr]
        bnd_on_groups [of "set_next_node_as_leader ?x" "raised l t", unfolded raised_sel, OF lead(1)] al
        bnd_Ok [of "update_node l _", OF upd]
      by (rule fin)
  qed
  ultimately show ?thesis by blast
qed

lemma regroup_join_alone:
  assumes c: "countable_at l t" and alone: "\<not> (l + 1 < 627 \<and> grp t (l + 1) = grp t l)"
    and fr: "fr = nd_freq (dt_nodes t ! (l - 1))" and eq: "fq t l + 1 = fq t (l - 1)"
  shows "\<exists>t'. regroup_node l (nd_group (dt_nodes t ! l)) fr (dt_nodes t ! (l - 1)) False (raised l t) =
    ((Ok (), t') :: ('e, _) outcome \<times> _) \<and> counted_ok l t t'"
proof -
  note len = shapeD [OF countable_atD(1) [OF c]] and facts = countable_atD [OF c]
  let ?x = "nd_group (dt_nodes t ! l)" and ?y = "nd_group (dt_nodes t ! (l - 1))" and ?g = "dt_groups t"
  have "length (free_groups t) < 627" by (rule grouping_has_used [OF facts(6)])
  then have n: "0 < unat (gr_ngroups ?g)" using len(3) by (simp add: free_groups_def unused_def)
  note fre = free_Ok [OF len(3) n len(5), of ?x]
  define g1 where "g1 = ?g\<lparr>gr_groups := (gr_groups ?g)[unat (gr_ngroups ?g - 1) := ?x], gr_ngroups := gr_ngroups ?g - 1\<rparr>"
  note fre = fre [folded g1_def]
  have l1: "gr_leaders g1 = gr_leaders ?g" by (simp add: g1_def)
  have "grouping ((fq t)(l := fq t l + 1)) ((grp t)(l := grp t (l - 1))) (lead t) (grp t l # free_groups t)"
    using group_join_alone [OF facts(5) alone eq] .
  then have "counted_ok l t (counted l ?y g1 t)"
    using fre facts(9,10) len l1 by (intro counted_okI [OF c]) (simp_all add: lead_def [abs_def] free_groups_def)
  moreover have "regroup_node l ?x fr (dt_nodes t ! (l - 1)) False (raised l t) = ((Ok (), counted l ?y g1 t) :: ('e, _) outcome \<times> _)"
    using update_raised [of l t ?y g1] facts(2) len(1)
    unfolding regroup_node_def if_False if_P [OF fr]
      bnd_on_groups [of "free ?x" "raised l t", unfolded raised_sel, OF fre(1)]
    by simp
  ultimately show ?thesis by blast
qed

lemma regroup_keep_alone:
  assumes c: "countable_at l t" and alone: "\<not> (l + 1 < 627 \<and> grp t (l + 1) = grp t l)"
    and fr: "fr \<noteq> nd_freq (dt_nodes t ! (l - 1))" and ne: "fq t (l - 1) \<noteq> fq t l + 1"
  shows "\<exists>t'. regroup_node l (nd_group (dt_nodes t ! l)) fr (dt_nodes t ! (l - 1)) False (raised l t) =
    ((Ok (), t') :: ('e, _) outcome \<times> _) \<and> counted_ok l t t'"
proof -
  note len = shapeD [OF countable_atD(1) [OF c]] and facts = countable_atD [OF c]
  let ?x = "nd_group (dt_nodes t ! l)" and ?g = "dt_groups t"
  have "grouping ((fq t)(l := fq t l + 1)) (grp t) (lead t) (free_groups t)"
    using group_keep_alone [OF facts(5) alone ne] .
  then have "counted_ok l t (counted l ?x ?g t)"
    using facts(9) len by (intro counted_okI [OF c]) (simp_all add: lead_def [abs_def] free_groups_def)
  moreover have "counted l ?x ?g t = raised l t" by (simp add: counted_def raised_def)
  ultimately show ?thesis using fr by (simp add: regroup_node_def ret_apply)
qed

lemma increment_frequency_Ok:
  assumes c: "countable_at l t"
  obtains t' where "increment_frequency l t = ((Ok (par t l), t') :: ('e, _) outcome \<times> _)" and "counted_ok l t t'"
proof -
  note len = shapeD(1) [OF countable_atD(1) [OF c]] and facts = countable_atD [OF c]
  let ?n = "dt_nodes t ! l" and ?p = "dt_nodes t ! (l - 1)"
  let ?fr = "nd_freq ?n + 1" and ?s = "l + 1 < 627 \<and> grp t (l + 1) = grp t l"
  have fr: "unat ?fr = fq t l + 1"
    using facts(4) by (subst unat_add_lem [THEN iffD1]) (simp_all add: fq_def)
  have eq: "?fr = nd_freq ?p \<longleftrightarrow> fq t l + 1 = fq t (l - 1)"
    by (simp only: word_unat_eq_iff fr) (simp add: fq_def)
  have "\<exists>t'. regroup_node l (nd_group ?n) ?fr ?p ?s (raised l t) = ((Ok (), t') :: ('e, _) outcome \<times> _) \<and> counted_ok l t t'"
  proof (cases ?s)
    case True
    then have s: "?s = True" and nxt: "l + 1 < 627" "grp t (l + 1) = grp t l" by simp_all
    show ?thesis
      unfolding s using regroup_join_shared [OF c nxt, of ?fr, where ?'a = 'e] regroup_new_shared [OF c nxt, of ?fr, where ?'e = 'e] eq
      by (cases "?fr = nd_freq ?p") metis+
  next
    case False
    then have s: "?s = False" by simp
    show ?thesis
      unfolding s using regroup_join_alone [OF c False, of ?fr, where ?'e = 'e] regroup_keep_alone [OF c False, of ?fr, where ?'e = 'e] eq
      by (cases "?fr = nd_freq ?p") metis+
  qed
  then obtain t' where t': "regroup_node l (nd_group ?n) ?fr ?p ?s (raised l t) = ((Ok (), t') :: ('e, _) outcome \<times> _)" "counted_ok l t t'"
    by blast
  have shared: "(l + 1 < length (dt_nodes (raised l t)) \<and> nd_group ?n = nd_group (dt_nodes (raised l t) ! (l + 1))) = ?s"
    using len by (auto simp: raised_def grp_def word_unat_eq_iff)
  have prog: "increment_frequency l = bnd (check (0 < l) Overflow) (\<lambda>_. bnd (get_node (l - 1)) (\<lambda>prev.
     bnd (get_node l) (\<lambda>node. bnd (add16 (nd_freq node) 1) (\<lambda>fr.
     bnd (update_node l (\<lambda>n. n\<lparr>nd_freq := fr\<rparr>)) (\<lambda>_.
     bnd (get_state (\<lambda>t. l + 1 < length (dt_nodes t) \<and> nd_group node = nd_group (dt_nodes t ! (l + 1))))
       (\<lambda>shared. bnd (regroup_node l (nd_group node) fr prev shared) (\<lambda>_.
          ret (unat (nd_parent node)) :: (dyn_tree, 'e, nat) act)))))))"
    by (simp add: increment_frequency_def regroup_node_def)
  have s1: "check (0 < l) Overflow t = ((Ok (), t) :: ('e, _) outcome \<times> _)" using facts(3) by (simp add: check_def ret_apply)
  have s2: "get_node (l - 1) t = ((Ok ?p, t) :: ('e, _) outcome \<times> _)" and s3: "get_node l t = ((Ok ?n, t) :: ('e, _) outcome \<times> _)"
    using facts(2) len by (simp_all add: get_node_Ok)
  have s4: "add16 (nd_freq ?n) 1 t = ((Ok ?fr, t) :: ('e, _) outcome \<times> _)"
    using facts(4) by (simp add: add16_def ret_apply fq_def)
  have s5: "update_node l (\<lambda>n. n\<lparr>nd_freq := ?fr\<rparr>) t = ((Ok (), raised l t) :: ('e, _) outcome \<times> _)"
    using facts(2) len by (simp add: update_node_Ok raised_def)
  have "increment_frequency l t = ((Ok (par t l), t') :: ('e, _) outcome \<times> _)"
    unfolding prog bnd_Ok [of "check _ _", OF s1] bnd_Ok [of "get_node (l - 1)", OF s2] bnd_Ok [of "get_node l", OF s3]
      bnd_Ok [of "add16 _ _", OF s4] bnd_Ok [of "update_node l _", OF s5] bnd_Ok [of "get_state _", OF get_state_apply]
      shared bnd_Ok [of "regroup_node l _ _ _ _", OF t'(1)] ret_apply par_def
    by (rule refl)
  with t'(2) show thesis by (rule that [rotated])
qed

subsection \<open>The walk\<close>

lemma tree_atD:
  assumes "tree_at d t"
  shows "shape t" "links (kind t) (par t, leaf_index t)" "freqs (kind t) (fq t) d"
    "grouping (fq t) (grp t) (lead t) (free_groups t)" "fq t 0 \<le> 32768"
  using assms by (simp_all add: tree_at_def)

text \<open>The frequency of a value.\<close>

definition leaf_freq :: "dyn_tree \<Rightarrow> nat \<Rightarrow> nat" where
  "leaf_freq t v = fq t (leaf_index t v)"

lemma promote_at:
  assumes at: "tree_at i t" and i: "0 < i" "i < 627"
  obtains l t' where "promote_to_leader i t = ((Ok l, t') :: ('e, _) outcome \<times> _)" and "tree_at l t'"
    and "0 < l" "l \<le> i" and "fq t' = fq t" and "kind t' l = kind t i" and "lead t' (grp t' l) = l"
    and "\<And>v. v < 314 \<Longrightarrow> leaf_freq t' v = leaf_freq t v"
proof -
  note facts = tree_atD [OF at]
  let ?l = "lead t (grp t i)"
  have l: "?l \<le> i" "fq t ?l = fq t i" using grouping_leader [OF facts(4) i(2)] by simp_all
  have "0 < ?l" using root_max [OF facts(2,3) i] l by (cases "?l = 0") simp_all
  have "grp t i < 627" by (rule grouping_used(2) [OF facts(4) i(2)])
  have l': "?l < 627" using l i by simp
  have k: "kind t i \<in> all_kinds" "kind t ?l \<in> all_kinds" using links_kind [OF facts(2)] i l' by simp_all
  obtain t' where t': "promote_to_leader i t = ((Ok ?l, t') :: ('e, _) outcome \<times> _)" "shape t'" "same_groups t t'"
      "same_or_swapped i ?l t t'"
    using promote_Ok [OF facts(1) i(2) refl l(1) \<open>grp t i < 627\<close> k] .
  note same = t'(3) [unfolded same_groups_def] same_groups_lead [OF t'(3)]
  have lead: "lead t' (grp t' ?l) = ?l"
    using same l grouping_same [OF facts(4) l' i(2)] by simp
  have at': "tree_at ?l t'" and kd: "kind t' ?l = kind t i"
    and lf: "\<And>v. v < 314 \<Longrightarrow> leaf_freq t' v = leaf_freq t v"
  proof (atomize (full), cases "?l = i")
    case True
    with t'(4) at show "tree_at ?l t' \<and> kind t' ?l = kind t i \<and> (\<forall>v<314. leaf_freq t' v = leaf_freq t v)"
      by (simp add: same_or_swapped_def)
  next
    case False
    with t'(4) have swap: "kind t' = (kind t)(i := kind t ?l, ?l := kind t i)"
        "(par t', leaf_index t') = own (kind t i) ?l (own (kind t ?l) i (par t, leaf_index t))"
      by (simp_all add: same_or_swapped_def)
    have lt: "?l < i" using l(1) False by simp
    have "below i (kind t ?l)"
    proof (cases "kind t ?l")
      case (KBranch c)
      have "c < 627" using k(2) KBranch by (simp add: branch_in_all)
      moreover have "fq t (c - 1) < fq t i"
        using child_less(2) [OF facts(2,3) l' False KBranch] l(2) by simp
      ultimately have "\<not> c - 1 \<le> i"
        using descendingD [of "fq t" "c - 1" i] facts(3) i(2) by (auto simp: freqs_def)
      then show ?thesis using KBranch by simp
    qed simp
    then have links: "links (kind t') (par t', leaf_index t')"
      unfolding swap using links_swap [OF facts(2) i(2) lt] by simp
    moreover have "freqs (kind t') (fq t') ?l"
      unfolding swap(1) using freqs_swap [OF facts(3) i(2) lt \<open>0 < ?l\<close> l(2)] same by simp
    ultimately have "tree_at ?l t'" using t'(2) facts(4,5) same by (simp add: tree_at_def)
    moreover have "leaf_freq t' v = leaf_freq t v" if v: "v < 314" for v
    proof -
      let ?v = "leaf_index t v"
      define x where "x = (if ?v = i then ?l else if ?v = ?l then i else ?v)"
      have "?v < 627" and "kind t ?v = KLeaf v" using links_leaf [OF facts(2) v] by simp_all
      then have "x < 627" and "kind t' x = KLeaf v" and "fq t x = fq t ?v"
        unfolding swap(1) x_def using i(2) l' l(2) by auto
      then have "leaf_index t' v = x"
        using links_inj [OF links, of "leaf_index t' v" x] links_leaf [OF links v] by simp
      then show ?thesis using \<open>fq t x = fq t ?v\<close> same by (simp add: leaf_freq_def)
    qed
    ultimately show "tree_at ?l t' \<and> kind t' ?l = kind t i \<and> (\<forall>v<314. leaf_freq t' v = leaf_freq t v)"
      using swap(1) by simp
  qed
  show thesis
    using t'(1) at' \<open>0 < ?l\<close> l(1) _ kd lead lf by (rule that) (use same in simp)
qed

lemma increment_at:
  assumes at: "tree_at l t" and l: "0 < l" "l < 627" and lead: "lead t (grp t l) = l"
  obtains t' where "increment_frequency l t = ((Ok (par t l), t') :: ('e, _) outcome \<times> _)" and "tree_at (par t l) t'"
    and "par t l < l" and "\<exists>c. kind t' (par t l) = KBranch c" and "fq t' 0 = fq t 0"
    and "\<And>v. v < 314 \<Longrightarrow> leaf_freq t' v = leaf_freq t v + of_bool (kind t l = KLeaf v)"
proof -
  note facts = tree_atD [OF at]
  have d: "descending (fq t)" using facts(3) by (simp add: freqs_def)
  have "fq t l \<le> fq t 0" using descendingD [OF d, of 0 l] l by simp
  then have c: "countable_at l t"
    using facts d l lead by (simp add: countable_at_def first_of_def)
  obtain t' where t': "increment_frequency l t = ((Ok (par t l), t') :: ('e, _) outcome \<times> _)" "counted_ok l t t'"
    using increment_frequency_Ok [OF c] .
  have new: "shape t'" "kind t' = kind t" "par t' = par t" "leaf_index t' = leaf_index t"
      "fq t' = (fq t)(l := fq t l + 1)" "grouping (fq t') (grp t') (lead t') (free_groups t')"
    using t'(2) unfolding counted_ok_def by blast+
  have "fq t j \<noteq> fq t l" if "j < l" for j using grouping_first [OF facts(4) l(2)] lead that by simp
  then have "freqs (kind t') (fq t') (par t l)"
    unfolding new(2,5) by (rule freqs_increment [OF facts(2,3) l])
  moreover have "links (kind t') (par t', leaf_index t')" unfolding new(2-4) by (rule facts(2))
  moreover have "fq t' 0 \<le> 32768" using new(5) facts(5) l by simp
  ultimately have "tree_at (par t l) t'" using new(1,6) unfolding tree_at_def by blast
  moreover have "par t l < l" "\<exists>c. kind t' (par t l) = KBranch c"
    using links_parent [OF facts(2) l] new by auto
  moreover have "fq t' 0 = fq t 0" using new l by simp
  moreover have "leaf_freq t' v = leaf_freq t v + of_bool (kind t l = KLeaf v)" if v: "v < 314" for v
  proof -
    have "leaf_index t v = l \<longleftrightarrow> kind t l = KLeaf v"
      using links_leaf [OF facts(2) v] links_inj [OF facts(2), of "leaf_index t v" l] l by auto
    then show ?thesis unfolding leaf_freq_def new(4,5) by auto
  qed
  ultimately show thesis using t'(1) that by blast
qed

lemma increment_path_Ok:
  "tree_at i t \<Longrightarrow> i < 627 \<Longrightarrow> i \<le> fuel \<Longrightarrow>
   \<exists>t'. increment_path fuel i t = ((Ok (), t') :: ('e, _) outcome \<times> _) \<and> dyn_tree_ok t' \<and> fq t' 0 = fq t 0 \<and>
     (\<forall>v<314. leaf_freq t' v = leaf_freq t v + of_bool (0 < i \<and> kind t i = KLeaf v))"
proof (induction fuel arbitrary: i t)
  case 0
  then show ?case by (simp add: ret_apply dyn_tree_ok_def)
next
  case (Suc fuel)
  show ?case
  proof (cases i)
    case 0
    then show ?thesis using Suc.prems by (simp add: ret_apply dyn_tree_ok_def)
  next
    case (Suc k)
    then have i: "0 < i" by simp
    obtain l t1 where t1: "promote_to_leader i t = ((Ok l, t1) :: ('e, _) outcome \<times> _)" "tree_at l t1" "0 < l" "l \<le> i"
        "fq t1 = fq t" "kind t1 l = kind t i" "lead t1 (grp t1 l) = l" "\<And>v. v < 314 \<Longrightarrow> leaf_freq t1 v = leaf_freq t v"
      using promote_at [OF Suc.prems(1) i Suc.prems(2)] by blast
    have l: "l < 627" using t1(4) Suc.prems(2) by simp
    obtain t2 where t2: "increment_frequency l t1 = ((Ok (par t1 l), t2) :: ('e, _) outcome \<times> _)" "tree_at (par t1 l) t2"
        "par t1 l < l" "\<exists>c. kind t2 (par t1 l) = KBranch c" "fq t2 0 = fq t1 0"
        "\<And>v. v < 314 \<Longrightarrow> leaf_freq t2 v = leaf_freq t1 v + of_bool (kind t1 l = KLeaf v)"
      using increment_at [OF t1(2,3) l t1(7)] by blast
    have "par t1 l < 627" "par t1 l \<le> fuel" using t2(3) l t1(4) Suc.prems(3) by simp_all
    from Suc.IH [OF t2(2) this] obtain t3 where
      t3: "increment_path fuel (par t1 l) t2 = ((Ok (), t3) :: ('e, _) outcome \<times> _)" "dyn_tree_ok t3" "fq t3 0 = fq t2 0"
        "\<forall>v<314. leaf_freq t3 v = leaf_freq t2 v + of_bool (0 < par t1 l \<and> kind t2 (par t1 l) = KLeaf v)"
      by blast
    have "increment_path (Suc fuel) i t = ((Ok (), t3) :: ('e, _) outcome \<times> _)"
      unfolding Suc increment_path.simps bnd_Ok [of "promote_to_leader _", OF t1(1) [unfolded Suc]]
        bnd_Ok [of "increment_frequency l", OF t2(1)] by (rule t3(1))
    moreover have "\<forall>v<314. leaf_freq t3 v = leaf_freq t v + of_bool (0 < i \<and> kind t i = KLeaf v)"
      using t3(4) t2(4,6) t1(6,8) i by auto
    ultimately show ?thesis using t3(2,3) t2(5) t1(5) by auto
  qed
qed

lemma root_branch: "links K (P, V) \<Longrightarrow> K 0 = KBranch 2"
  using links_parent [of K P V 1] by (simp add: pair_of_def)

lemma increment_root_Ok:
  assumes ok: "dyn_tree_ok t" and room: "fq t 0 < 32768" and v: "v < 314"
  obtains t' where "increment_root t = ((Ok (), t') :: ('e, _) outcome \<times> _)" and "tree_at (leaf_index t v) t'"
    and "kind t' = kind t" and "leaf_index t' = leaf_index t" and "fq t' = (fq t)(0 := fq t 0 + 1)"
proof -
  note facts = tree_atD [OF ok [unfolded dyn_tree_ok_def]]
  note len = shapeD [OF facts(1)]
  let ?n = "dt_nodes t ! 0"
  let ?t = "t\<lparr>dt_nodes := (dt_nodes t)[0 := ?n\<lparr>nd_freq := nd_freq ?n + 1\<rparr>]\<rparr>"
  have fr: "unat (nd_freq ?n + 1) = fq t 0 + 1"
    using room by (subst unat_add_lem [THEN iffD1]) (simp_all add: fq_def)
  have s1: "get_node 0 t = ((Ok ?n, t) :: ('e, _) outcome \<times> _)" using len by (simp add: get_node_Ok)
  have s2: "add16 (nd_freq ?n) 1 t = ((Ok (nd_freq ?n + 1), t) :: ('e, _) outcome \<times> _)"
    using room by (simp add: add16_def ret_apply fq_def)
  have s3: "update_node 0 (\<lambda>n. n\<lparr>nd_freq := nd_freq ?n + 1\<rparr>) t = ((Ok (), ?t) :: ('e, _) outcome \<times> _)"
    using len by (simp add: update_node_Ok)
  have "increment_root t = ((Ok (), ?t) :: ('e, _) outcome \<times> _)"
    unfolding increment_root_def bnd_Ok [of "get_node 0", OF s1] bnd_Ok [of "add16 _ _", OF s2] by (rule s3)
  moreover have same: "kind ?t = kind t" "par ?t = par t" "leaf_index ?t = leaf_index t" "grp ?t = grp t"
      "lead ?t = lead t" "free_groups ?t = free_groups t" "shape ?t"
    using len by (auto simp: tree_funs shape_def fun_eq_iff nth_list_update)
  moreover have fq: "fq ?t = (fq t)(0 := fq t 0 + 1)"
    using fr len by (auto simp: fq_def fun_eq_iff nth_list_update)
  moreover have "tree_at (leaf_index t v) ?t"
  proof -
    have leaf: "kind t (leaf_index t v) = KLeaf v" using links_leaf [OF facts(2) v] by simp
    have d: "descending (fq t)" and s: "sums (kind t) (fq t) 0" using facts(3) by (simp_all add: freqs_def)
    have "descending ((fq t)(0 := fq t 0 + 1))"
      using d unfolding descending_def by (auto intro: le_SucI)
    moreover have "sums (kind t) ((fq t)(0 := fq t 0 + 1)) (leaf_index t v)"
      unfolding sums_def
    proof (intro allI impI)
      fix j c assume j: "j < 627" "kind t j = KBranch c"
      then have "KBranch c \<in> all_kinds" using links_kind [OF facts(2) j(1)] by simp
      then have "2 \<le> c" by (simp add: branch_in_all)
      moreover have "j \<noteq> leaf_index t v" using j(2) leaf by auto
      moreover have "fq t j + of_bool (j = 0) = fq t c + fq t (c - 1) + of_bool (j = 0)"
        using s j by (simp add: sums_def)
      ultimately show "((fq t)(0 := fq t 0 + 1)) j + of_bool (j = leaf_index t v) =
          ((fq t)(0 := fq t 0 + 1)) c + ((fq t)(0 := fq t 0 + 1)) (c - 1) + of_bool (j = 0)"
        by auto
    qed
    moreover have "grouping ((fq t)(0 := fq t 0 + 1)) (grp t) (lead t) (free_groups t)"
      using group_root [OF facts(4)] root_max [OF facts(2,3)] by blast
    ultimately show ?thesis using facts(2,5) room unfolding tree_at_def same fq by (simp add: freqs_def same(7))
  qed
  ultimately show thesis using that by blast
qed

end
