(* ===== verification/Dyn_Rebuild.thy ===== *)
theory Dyn_Rebuild
  imports Dyn_Inv
begin

text \<open>
  Rebuilding the adaptive tree: the leaves keep their order and get half their frequencies, the
  branches are placed among them from the last node to the first, and the groups are formed anew.
  The result satisfies the invariant again.
\<close>

subsection \<open>A tree that is written from its last node\<close>

text \<open>
  The nodes from \<open>tg\<close> on are written, those from \<open>n\<close> on have a parent; \<open>ps\<close> are the values that wait
  with their frequencies. The nodes without a parent and the waiting values add up to \<open>T\<close>.
\<close>

definition waiting :: "nat \<Rightarrow> (nat \<times> nat) list \<Rightarrow> node_kind set" where
  "waiting n ps = KLeaf ` fst ` set ps \<union> (\<lambda>k. KBranch (2 * k)) ` {1..n div 2}"

definition written :: "(nat \<Rightarrow> node_kind) \<Rightarrow> (nat \<Rightarrow> nat) \<Rightarrow> (nat \<Rightarrow> nat) \<times> (nat \<Rightarrow> nat) \<Rightarrow> nat \<Rightarrow> nat \<Rightarrow> (nat \<times> nat) list \<Rightarrow> bool" where
  "written K F PV n tg ps \<longleftrightarrow>
     K ` {tg..<627} \<union> waiting n ps = all_kinds \<and> distinct (map fst ps) \<and>
     (\<forall>i. tg \<le> i \<and> i < 627 \<longrightarrow> owner_ok PV i (K i) \<and> below i (K i) \<and> K i \<notin> waiting n ps) \<and>
     (\<forall>i c. tg \<le> i \<and> i < 627 \<and> K i = KBranch c \<longrightarrow> F i = F c + F (c - 1))"

definition ordered :: "(nat \<Rightarrow> nat) \<Rightarrow> nat \<Rightarrow> (nat \<times> nat) list \<Rightarrow> bool" where
  "ordered F tg ps \<longleftrightarrow> (\<forall>i j. tg \<le> i \<and> i \<le> j \<and> j < 627 \<longrightarrow> 1 \<le> F j \<and> F j \<le> F i) \<and>
     sorted (map snd ps) \<and> (\<forall>p\<in>set ps. 1 \<le> snd p \<and> (\<forall>j. tg \<le> j \<and> j < 627 \<longrightarrow> F j \<le> snd p))"

definition total :: "(nat \<Rightarrow> nat) \<Rightarrow> nat \<Rightarrow> nat \<Rightarrow> (nat \<times> nat) list \<Rightarrow> nat" where
  "total F n tg ps = (\<Sum>j = tg..<n. F j) + sum_list (map snd ps)"

definition counts :: "nat \<Rightarrow> nat \<Rightarrow> (nat \<times> nat) list \<Rightarrow> bool" where
  "counts n tg ps \<longleftrightarrow> odd n \<and> n \<le> 627 \<and> tg \<le> n \<and> tg = length ps + n div 2"

lemma sum_put_first:
  fixes tg n :: nat
  assumes "0 < tg" "tg \<le> n"
  shows "(\<Sum>j = tg - 1..<n. (F(tg - 1 := f)) j) = f + (\<Sum>j = tg..<n. F j :: nat)"
proof -
  have "(\<Sum>j = tg - 1..<n. (F(tg - 1 := f)) j) = f + (\<Sum>j = Suc (tg - 1)..<n. (F(tg - 1 := f)) j)"
    using assms by (subst sum.atLeast_Suc_lessThan) simp_all
  also have "(\<Sum>j = Suc (tg - 1)..<n. (F(tg - 1 := f)) j) = (\<Sum>j = tg..<n. F j)"
    using assms by (intro sum.cong) auto
  finally show ?thesis .
qed

lemma image_put_first: "0 < tg \<Longrightarrow> tg \<le> 627 \<Longrightarrow> (K(tg - 1 := k)) ` {tg - 1..<627} = insert k (K ` {tg..<627::nat})"
proof -
  assume tg: "0 < tg" "tg \<le> 627"
  then have "{tg - 1..<627} = insert (tg - 1) {tg..<627}" by auto
  moreover have "(K(tg - 1 := k)) ` {tg..<627} = K ` {tg..<627}" using tg by (intro image_cong) auto
  ultimately show ?thesis by (simp only: image_insert fun_upd_same)
qed

text \<open>Writing the next node.\<close>

lemma written_put:
  assumes w: "written K F PV n tg ps" and tg: "0 < tg" "tg \<le> 627" and k: "k \<in> all_kinds"
    and wait: "waiting n ps = insert k (waiting n' ps')" "k \<notin> waiting n' ps'" and d: "distinct (map fst ps')"
    and below: "below (tg - 1) k" and sum: "\<And>c. k = KBranch c \<Longrightarrow> tg < c \<and> f = F c + F (c - 1)"
  shows "written (K(tg - 1 := k)) (F(tg - 1 := f)) (own k (tg - 1) PV) n' (tg - 1) ps'"
proof -
  let ?K = "K(tg - 1 := k)" and ?F = "F(tg - 1 := f)"
  have "?K ` {tg - 1..<627} \<union> waiting n' ps' = all_kinds"
    using w wait unfolding image_put_first [OF tg] written_def by auto
  moreover have "owner_ok (own k (tg - 1) PV) i (?K i) \<and> below i (?K i) \<and> ?K i \<notin> waiting n' ps'"
    if i: "tg - 1 \<le> i" "i < 627" for i
  proof (cases "i = tg - 1")
    case True
    then show ?thesis using k below wait(2) by (simp add: owner_own)
  next
    case False
    then have i': "tg \<le> i" "i < 627" using i by simp_all
    then have "K i \<in> all_kinds" "K i \<notin> waiting n ps" "owner_ok PV i (K i)" "below i (K i)"
      using w unfolding written_def by auto
    moreover from this have "k \<noteq> K i" using wait(1) by auto
    ultimately show ?thesis using False k wait(1) owner_own_other [OF k, of "K i"] by auto
  qed
  moreover have "?F i = ?F c + ?F (c - 1)" if i: "tg - 1 \<le> i" "i < 627" "?K i = KBranch c" for i c
  proof (cases "i = tg - 1")
    case True
    then have k: "k = KBranch c" using i(3) by simp
    then have "c \<noteq> tg - 1" "c - 1 \<noteq> tg - 1" using sum [OF k] tg(1) by linarith+
    then show ?thesis using sum [OF k] True by simp
  next
    case False
    then have i': "tg \<le> i" "K i = KBranch c" using i by auto
    then have "below i (K i)" "F i = F c + F (c - 1)" using w i(2) by (auto simp: written_def)
    with i' False show ?thesis by auto
  qed
  ultimately show ?thesis using d unfolding written_def by blast
qed

lemma put_leaf:
  assumes "written K F PV n tg ((v, f) # ps)" and "0 < tg" "tg \<le> 627"
  shows "written (K(tg - 1 := KLeaf v)) (F(tg - 1 := f)) (own (KLeaf v) (tg - 1) PV) n (tg - 1) ps"
proof (rule written_put [OF assms])
  have "waiting n ((v, f) # ps) \<subseteq> all_kinds" "distinct (map fst ((v, f) # ps))" using assms(1) by (auto simp: written_def)
  then show "KLeaf v \<in> all_kinds" "KLeaf v \<notin> waiting n ps" "distinct (map fst ps)"
    by (auto simp: waiting_def image_iff)
  show "waiting n ((v, f) # ps) = insert (KLeaf v) (waiting n ps)" by (simp add: waiting_def)
qed simp_all

lemma put_branch:
  assumes w: "written K F PV n tg ps" and tg: "0 < tg" "tg + 2 \<le> n" and n: "odd n" "n \<le> 627"
  shows "written (K(tg - 1 := KBranch (n - 1))) (F(tg - 1 := F (n - 1) + F (n - 2)))
    (own (KBranch (n - 1)) (tg - 1) PV) (n - 2) (tg - 1) ps"
proof (rule written_put [OF w tg(1)])
  obtain m where m: "n = 2 * m + 1" using n(1) by (elim oddE)
  then have "1 \<le> m" using tg by simp
  then have "{1..m} = insert m {1..m - 1}" by auto
  then show "waiting n ps = insert (KBranch (n - 1)) (waiting (n - 2) ps)"
    and "KBranch (n - 1) \<notin> waiting (n - 2) ps"
    using \<open>1 \<le> m\<close> unfolding m waiting_def by (auto simp: image_iff)
  show "KBranch (n - 1) \<in> all_kinds" unfolding branch_in_all using m \<open>1 \<le> m\<close> n by simp
  show "distinct (map fst ps)" using w by (simp add: written_def)
qed (use tg n in \<open>auto simp: diff_diff_add numeral_2_eq_2\<close>)

lemma ordered_put_leaf:
  assumes "ordered F tg ((v, f) # ps)" and "0 < tg"
  shows "ordered (F(tg - 1 := f)) (tg - 1) ps"
  unfolding ordered_def
proof (intro conjI allI impI ballI)
  have later: "tg \<le> i" if "tg - 1 \<le> i" "i \<noteq> tg - 1" for i using that by simp
  note o = assms(1) [unfolded ordered_def]
  fix i j :: nat assume ij: "tg - 1 \<le> i \<and> i \<le> j \<and> j < 627"
  show "1 \<le> (F(tg - 1 := f)) j"
    using o ij later [of j] by (cases "j = tg - 1") auto
  show "(F(tg - 1 := f)) j \<le> (F(tg - 1 := f)) i"
    using o ij later [of j] later [of i] by (cases "j = tg - 1"; cases "i = tg - 1") auto
next
  fix p j assume p: "p \<in> set ps" and j: "tg - 1 \<le> j \<and> j < 627"
  show "(F(tg - 1 := f)) j \<le> snd p"
    using assms(1) p j unfolding ordered_def by (cases "j = tg - 1") auto
qed (use assms(1) in \<open>auto simp: ordered_def\<close>)

lemma ordered_put_branch:
  assumes "ordered F tg ps" and "0 < tg" and "1 \<le> f" and "\<And>p. p \<in> set ps \<Longrightarrow> f \<le> snd p"
    and "\<And>j. tg \<le> j \<Longrightarrow> j < 627 \<Longrightarrow> F j \<le> f"
  shows "ordered (F(tg - 1 := f)) (tg - 1) ps"
proof (rule ordered_put_leaf [OF _ assms(2), of F "undefined" f])
  show "ordered F tg ((undefined, f) # ps)" using assms unfolding ordered_def by auto
qed

lemma total_put_leaf:
  assumes "0 < tg" "tg \<le> n"
  shows "total (F(tg - 1 := f)) n (tg - 1) ps = total F n tg ((v, f) # ps)"
  using sum_put_first [OF assms, of F f] by (simp add: total_def)

lemma total_put_branch:
  assumes "0 < tg" "tg + 2 \<le> n"
  shows "total (F(tg - 1 := F (n - 1) + F (n - 2))) (n - 2) (tg - 1) ps = total F n tg ps"
proof -
  have "(\<Sum>j = tg..<n. F j) = (\<Sum>j = tg..<n - 2. F j) + F (n - 2) + F (n - 1)"
  proof -
    obtain k where "n = Suc (Suc k)" "tg \<le> k" using assms(2) by (metis Suc_le_D add_2_eq_Suc' Suc_le_mono)
    then show ?thesis by simp
  qed
  then show ?thesis using sum_put_first [of tg "n - 2" F "F (n - 1) + F (n - 2)"] assms by (simp add: total_def)
qed

subsection \<open>The loops over the nodes\<close>

definition value_of :: "tree_entry \<times> u16 \<Rightarrow> nat \<times> nat" where
  "value_of l = (unat (as_value (fst l)), unat (snd l))"

definition leaf_entry :: "tree_entry \<times> u16 \<Rightarrow> bool" where
  "leaf_entry l \<longleftrightarrow> as_type (fst l) = Leaf (as_value (fst l))"

text \<open>The leaves have the frequencies \<open>h\<close> of their values.\<close>

definition weighed :: "(nat \<Rightarrow> nat) \<Rightarrow> (nat \<Rightarrow> node_kind) \<Rightarrow> (nat \<Rightarrow> nat) \<Rightarrow> nat \<Rightarrow> (nat \<times> nat) list \<Rightarrow> bool" where
  "weighed h K F tg ps \<longleftrightarrow> (\<forall>i v. tg \<le> i \<and> i < 627 \<and> K i = KLeaf v \<longrightarrow> F i = h v) \<and> (\<forall>p\<in>set ps. snd p = h (fst p))"

lemma weighed_put:
  assumes "weighed h K F tg ps" and "set ps' \<subseteq> set ps" and "\<And>v. k = KLeaf v \<Longrightarrow> f = h v"
  shows "weighed h (K(tg - 1 := k)) (F(tg - 1 := f)) (tg - 1) ps'"
proof -
  have "tg \<le> i" if "tg - 1 \<le> i" "i \<noteq> tg - 1" for i using that by simp
  then show ?thesis using assms unfolding weighed_def by auto
qed

definition rebuilding :: "(nat \<Rightarrow> nat) \<Rightarrow> nat \<Rightarrow> nat \<Rightarrow> (tree_entry \<times> u16) list \<Rightarrow> nat \<Rightarrow> dyn_tree \<Rightarrow> bool" where
  "rebuilding h n tg ls T t \<longleftrightarrow> shape t \<and> weighed h (kind t) (fq t) tg (map value_of ls) \<and> list_all leaf_entry ls \<and> counts n tg (map value_of ls) \<and>
     written (kind t) (fq t) (par t, leaf_index t) n tg (map value_of ls) \<and> ordered (fq t) tg (map value_of ls) \<and>
     total (fq t) n tg (map value_of ls) = T"

definition bounded :: "dyn_tree \<Rightarrow> nat \<Rightarrow> nat \<Rightarrow> bool" where
  "bounded t tg b \<longleftrightarrow> (\<forall>j. tg \<le> j \<and> j < 627 \<longrightarrow> fq t j \<le> b)"

lemma place_leaf_Ok:
  assumes "shape t" and "i < 627" and "leaf_entry l" and "unat (as_value (fst l)) < 314"
  obtains t' where "place_leaf l i t = ((Ok (), t') :: ('e, _) outcome \<times> _)" and "shape t'"
    and "kind t' = (kind t)(i := KLeaf (fst (value_of l)))" and "fq t' = (fq t)(i := snd (value_of l))"
    and "(par t', leaf_index t') = own (KLeaf (fst (value_of l))) i (par t, leaf_index t)"
proof -
  note len = shapeD [OF assms(1)]
  let ?v = "as_value (fst l)"
  let ?t1 = "t\<lparr>dt_leaves := (dt_leaves t)[unat ?v := of_nat i]\<rparr>"
  let ?t = "?t1\<lparr>dt_nodes := (dt_nodes ?t1)[i := (dt_nodes ?t1 ! i)\<lparr>nd_entry := fst l, nd_freq := snd l\<rparr>]\<rparr>"
  have s1: "set_leaf_node_index ?v i t = ((Ok (), ?t1) :: ('e, _) outcome \<times> _)"
    using assms(2,4) len by (simp add: set_leaf_node_index_def num_nodes_eq)
  have s2: "update_node i (\<lambda>n. n\<lparr>nd_entry := fst l, nd_freq := snd l\<rparr>) ?t1 = ((Ok (), ?t) :: ('e, _) outcome \<times> _)"
    using assms(2) len by (simp add: update_node_Ok)
  have "place_leaf l i t = ((Ok (), ?t) :: ('e, _) outcome \<times> _)"
    unfolding place_leaf_def bnd_Ok [of "set_leaf_node_index _ _", OF s1] by (rule s2)
  moreover have "shape ?t" using assms(1) by (simp add: shape_def)
  moreover have "kind ?t = (kind t)(i := KLeaf (fst (value_of l)))" "fq ?t = (fq t)(i := snd (value_of l))"
    "(par ?t, leaf_index ?t) = own (KLeaf (fst (value_of l))) i (par t, leaf_index t)"
    using assms(2-4) len
    by (auto simp: tree_funs fun_eq_iff nth_list_update value_of_def leaf_entry_def unat_index)
  ultimately show thesis by (rule that)
qed

lemma rebuilding_place:
  assumes r: "rebuilding h n tg (l # ls) T t"
  obtains t' where "place_leaf l (tg - 1) t = ((Ok (), t') :: ('e, _) outcome \<times> _)" and "rebuilding h n (tg - 1) ls T t'"
    and "0 < tg" and "fq t' = (fq t)(tg - 1 := snd (value_of l))"
proof -
  have c: "counts n tg (map value_of (l # ls))" and le: "leaf_entry l" "list_all leaf_entry ls" and sh: "shape t"
      and w: "written (kind t) (fq t) (par t, leaf_index t) n tg (map value_of (l # ls))"
      and o: "ordered (fq t) tg (map value_of (l # ls))" and T: "total (fq t) n tg (map value_of (l # ls)) = T"
    using r by (simp_all add: rebuilding_def)
  have tg: "0 < tg" "tg \<le> n" "tg \<le> 627" using c by (simp_all add: counts_def)
  have "KLeaf (fst (value_of l)) \<in> all_kinds" using w by (auto simp: written_def waiting_def)
  then have v: "unat (as_value (fst l)) < 314" by (simp add: leaf_in_all value_of_def)
  have "tg - 1 < 627" using tg by simp
  then obtain t' where t': "place_leaf l (tg - 1) t = ((Ok (), t') :: ('e, _) outcome \<times> _)" "shape t'"
      "kind t' = (kind t)(tg - 1 := KLeaf (fst (value_of l)))" "fq t' = (fq t)(tg - 1 := snd (value_of l))"
      "(par t', leaf_index t') = own (KLeaf (fst (value_of l))) (tg - 1) (par t, leaf_index t)"
    using place_leaf_Ok [OF sh _ le(1) v] by blast
  obtain v f where vf: "value_of l = (v, f)" by fastforce
  have "rebuilding h n (tg - 1) ls T t'"
    unfolding rebuilding_def t'(3-5)
  proof (intro conjI)
    show "counts n (tg - 1) (map value_of ls)" using c by (auto simp: counts_def)
    show "written ((kind t)(tg - 1 := KLeaf (fst (value_of l)))) ((fq t)(tg - 1 := snd (value_of l)))
        (own (KLeaf (fst (value_of l))) (tg - 1) (par t, leaf_index t)) n (tg - 1) (map value_of ls)"
      unfolding vf fst_conv snd_conv
      by (rule put_leaf [OF w [unfolded list.map vf] tg(1,3)])
    show "ordered ((fq t)(tg - 1 := snd (value_of l))) (tg - 1) (map value_of ls)"
      using ordered_put_leaf [of "fq t" tg v f] o tg by (simp add: vf)
    have "weighed h (kind t) (fq t) tg (map value_of (l # ls))" using r by (simp only: rebuilding_def)
    then show "weighed h ((kind t)(tg - 1 := KLeaf (fst (value_of l)))) ((fq t)(tg - 1 := snd (value_of l))) (tg - 1) (map value_of ls)"
      by (rule weighed_put) (auto simp: weighed_def \<open>weighed h _ _ _ _\<close> [unfolded weighed_def])
    show "total ((fq t)(tg - 1 := snd (value_of l))) n (tg - 1) (map value_of ls) = T"
      using total_put_leaf [OF tg(1,2), of "fq t" f _ v] T by (simp add: vf)
  qed (use t'(2) le in simp_all)
  with t'(1,4) tg(1) show thesis using that by blast
qed

lemma take_leaves_Ok:
  assumes "rebuilding h n tg ls T t" and "k \<le> length ls"
  shows "\<exists>t'. take_leaves k (ls, tg) t = ((Ok (drop k ls, tg - k), t') :: ('e, _) outcome \<times> _) \<and> k \<le> tg \<and>
    rebuilding h n (tg - k) (drop k ls) T t' \<and> (\<forall>j\<ge>tg. fq t' j = fq t j)"
  using assms
proof (induction k arbitrary: tg ls t)
  case 0
  then show ?case by (simp add: ret_apply)
next
  case (Suc k)
  then obtain l ls' where ls: "ls = l # ls'" by (cases ls) auto
  obtain t1 where t1: "place_leaf l (tg - 1) t = ((Ok (), t1) :: ('e, _) outcome \<times> _)" "rebuilding h n (tg - 1) ls' T t1"
      "0 < tg" "fq t1 = (fq t)(tg - 1 := snd (value_of l))"
    using rebuilding_place [OF Suc.prems(1) [unfolded ls]] .
  obtain t2 where t2: "take_leaves k (ls', tg - 1) t1 = ((Ok (drop k ls', tg - 1 - k), t2) :: ('e, _) outcome \<times> _)"
      "k \<le> tg - 1" "rebuilding h n (tg - 1 - k) (drop k ls') T t2" "\<forall>j\<ge>tg - 1. fq t2 j = fq t1 j"
    using Suc.IH [OF t1(2)] Suc.prems(2) ls by auto
  have "take_leaves (Suc k) (ls, tg) t = bnd (place_leaf l (tg - 1)) (\<lambda>_. take_leaves k (ls', tg - 1)) t"
    using ls t1(3) by simp
  also have "\<dots> = ((Ok (drop k ls', tg - 1 - k), t2) :: ('e, _) outcome \<times> _)"
    unfolding bnd_Ok [of "place_leaf _ _", OF t1(1)] by (rule t2(1))
  finally show ?case using t1(3,4) t2(2-4) ls by auto
qed

lemma copy_leaves_Ok:
  assumes "rebuilding h n tg ls T t" and "bounded t tg (unat b)"
  shows "\<exists>ls' tg' t'. copy_leaves b (ls, tg) t = ((Ok (ls', tg'), t') :: ('e, _) outcome \<times> _) \<and> tg' \<le> tg \<and>
    rebuilding h n tg' ls' T t' \<and> bounded t' tg' (unat b) \<and> (\<forall>p\<in>set (map value_of ls'). unat b \<le> snd p) \<and>
    (\<forall>j\<ge>tg. fq t' j = fq t j)"
  using assms
proof (induction ls arbitrary: tg t)
  case Nil
  then show ?case by (auto simp: ret_apply)
next
  case (Cons l ls)
  show ?case
  proof (cases "b < snd l")
    case True
    have "sorted (map snd (map value_of (l # ls)))" using Cons.prems(1) unfolding rebuilding_def ordered_def by blast
    then have "\<forall>p\<in>set (map value_of (l # ls)). unat b \<le> snd p"
      using True by (auto simp: value_of_def word_less_nat_alt)
    with True Cons.prems show ?thesis by (auto simp: ret_apply)
  next
    case False
    obtain t1 where t1: "place_leaf l (tg - 1) t = ((Ok (), t1) :: ('e, _) outcome \<times> _)" "rebuilding h n (tg - 1) ls T t1"
        "0 < tg" "fq t1 = (fq t)(tg - 1 := snd (value_of l))"
      using rebuilding_place [OF Cons.prems(1)] .
    have "snd (value_of l) \<le> unat b" using False by (simp add: value_of_def word_le_nat_alt not_less)
    moreover have "tg \<le> j" if "tg - 1 \<le> j" "j \<noteq> tg - 1" for j using that by simp
    ultimately have "bounded t1 (tg - 1) (unat b)"
      using Cons.prems(2) unfolding bounded_def t1(4) by auto
    from Cons.IH [OF t1(2) this] obtain ls' tg' t2 where
      t2: "copy_leaves b (ls, tg - 1) t1 = ((Ok (ls', tg'), t2) :: ('e, _) outcome \<times> _)" "tg' \<le> tg - 1"
        "rebuilding h n tg' ls' T t2" "bounded t2 tg' (unat b)" "\<forall>p\<in>set (map value_of ls'). unat b \<le> snd p"
        "\<forall>j\<ge>tg - 1. fq t2 j = fq t1 j"
      by blast
    have "copy_leaves b (l # ls, tg) t = bnd (place_leaf l (tg - 1)) (\<lambda>_. copy_leaves b (ls, tg - 1)) t"
      using False t1(3) by simp
    also have "\<dots> = ((Ok (ls', tg'), t2) :: ('e, _) outcome \<times> _)"
      unfolding bnd_Ok [of "place_leaf _ _", OF t1(1)] by (rule t2(1))
    finally show ?thesis
      using t1(3,4) t2(2-6) by (intro exI [of _ ls'] exI [of _ tg'] exI [of _ t2]) auto
  qed
qed

text \<open>A branch over the last two nodes without a parent.\<close>

lemma place_branch_Ok:
  assumes "shape t" and n: "3 \<le> n" "n \<le> 627" and i: "i < 627"
  defines "p \<equiv> \<lambda>nd. nd\<lparr>nd_parent := of_nat i\<rparr>"
  obtains t' where "bnd (make_branch (n - 1) b i) (\<lambda>_. bnd (update_node (n - 1) p) (\<lambda>_.
        bnd (update_node (n - 2) p) (\<lambda>_. ret x))) t = ((Ok x, t') :: ('e, _) outcome \<times> _)"
    and "shape t'" and "kind t' = (kind t)(i := KBranch (n - 1))" and "fq t' = (fq t)(i := unat b)"
    and "(par t', leaf_index t') = own (KBranch (n - 1)) i (par t, leaf_index t)"
proof -
  note len = shapeD [OF assms(1)]
  let ?f = "\<lambda>nd. nd\<lparr>nd_entry := set_as_branch (n - 1) (nd_entry nd), nd_freq := b\<rparr>"
  let ?t1 = "t\<lparr>dt_nodes := (dt_nodes t)[i := ?f (dt_nodes t ! i)]\<rparr>"
  let ?t2 = "?t1\<lparr>dt_nodes := (dt_nodes ?t1)[n - 1 := p (dt_nodes ?t1 ! (n - 1))]\<rparr>"
  let ?t = "?t2\<lparr>dt_nodes := (dt_nodes ?t2)[n - 2 := p (dt_nodes ?t2 ! (n - 2))]\<rparr>"
  have s1: "make_branch (n - 1) b i t = ((Ok (), ?t1) :: ('e, _) outcome \<times> _)"
    using n i len by (auto simp: make_branch_def num_nodes_eq update_node_Ok)
  have s2: "update_node (n - 1) p ?t1 = ((Ok (), ?t2) :: ('e, _) outcome \<times> _)"
    and s3: "update_node (n - 2) p ?t2 = ((Ok (), ?t) :: ('e, _) outcome \<times> _)"
    using n len by (simp_all add: update_node_Ok)
  have "bnd (make_branch (n - 1) b i) (\<lambda>_. bnd (update_node (n - 1) p) (\<lambda>_.
        bnd (update_node (n - 2) p) (\<lambda>_. ret x))) t = ((Ok x, ?t) :: ('e, _) outcome \<times> _)"
    unfolding bnd_Ok [of "make_branch _ _ _", OF s1] bnd_Ok [of "update_node (n - 1) _", OF s2]
      bnd_Ok [of "update_node (n - 2) _", OF s3] ret_apply by (rule refl)
  moreover have "shape ?t" using assms(1) by (simp add: shape_def)
  moreover have "kind ?t = (kind t)(i := KBranch (n - 1))"
  proof -
    have "unat (of_nat (n - 1) :: u16) = n - 1" using n by (intro unat_index) simp
    moreover from this n have "take_bit 15 (of_nat (n - 1) :: u16) = of_nat (n - 1)" by (intro take_bit_15) simp
    ultimately have "kind_of (as_type (set_as_branch (n - 1) e)) = KBranch (n - 1)" for e
      unfolding as_type_set_as_branch kind_of.simps by simp
    then show ?thesis using n i len by (auto simp: kind_def p_def fun_eq_iff nth_list_update)
  qed
  moreover have "fq ?t = (fq t)(i := unat b)"
    using n i len by (auto simp: fq_def p_def fun_eq_iff nth_list_update)
  moreover have "(par ?t, leaf_index ?t) = own (KBranch (n - 1)) i (par t, leaf_index t)"
  proof -
    have "n - 1 - 1 = n - 2" by simp
    moreover have "n - 2 < 627" "n - 1 < 627" using n by simp_all
    ultimately show ?thesis
      using n i len by (auto simp: par_def leaf_index_def p_def fun_eq_iff nth_list_update unat_index
        simp del: of_nat_diff)
  qed
  ultimately show thesis by (rule that)
qed

lemma orderedD:
  assumes "ordered F tg ps" and "tg \<le> i" "i \<le> j" "j < 627"
  shows "F j \<le> F i" and "1 \<le> F j"
  using assms unfolding ordered_def by auto

lemma pair_total:
  assumes "total F n tg ps = T" and "tg + 2 \<le> n"
  shows "F (n - 1) + F (n - 2) \<le> T"
proof -
  have "F (n - 1) + F (n - 2) = (\<Sum>j\<in>{n - 1, n - 2}. F j)" using assms(2) by simp
  also have "\<dots> \<le> (\<Sum>j = tg..<n. F j)" using assms(2) by (intro sum_mono2) auto
  finally show ?thesis using assms(1) by (simp add: total_def)
qed

text \<open>The step begins with two nodes that have no parent, and the next branch is no less than any node.\<close>

definition resumable :: "nat \<Rightarrow> nat \<Rightarrow> dyn_tree \<Rightarrow> bool" where
  "resumable n tg t \<longleftrightarrow> n = 627 \<and> tg = 627 \<or> n < 627 \<and> tg < n \<and> bounded t tg (fq t n + fq t (n + 1))"

lemma children_ready:
  assumes r: "rebuilding h n tg ls T t" and n: "3 \<le> n" and b: "resumable n tg t"
  obtains tg' ls' t' where "take_leaves (2 - (n - tg)) (ls, tg) t = ((Ok (ls', tg'), t') :: ('e, _) outcome \<times> _)"
    and "rebuilding h n tg' ls' T t'" and "tg' + 2 \<le> n" and "bounded t' tg' (fq t' (n - 1) + fq t' (n - 2))"
proof -
  have c: "odd n" "n \<le> 627" "tg \<le> n" "tg = length ls + n div 2"
    using r by (simp_all add: rebuilding_def counts_def)
  define k where "k = 2 - (n - tg)"
  obtain m where m: "n = 2 * m + 1" using c(1) by (elim oddE)
  then have ls: "tg = length ls + m" "1 \<le> m" using c(4) n by simp_all
  consider "tg + 2 \<le> n" | "n = tg + 1" | "n = tg" using c(3) by linarith
  then have k: "k \<le> length ls \<and> tg - k + 2 \<le> n \<and> (tg - k = tg \<or> tg - k + 2 = n)"
  proof cases
    case 1
    then have "k = 0" by (simp add: k_def)
    with 1 show ?thesis by simp
  next
    case 2
    then have "k = 1" by (simp add: k_def)
    then show ?thesis using 2 m ls by linarith
  next
    case 3
    then have "k = 2" by (simp add: k_def)
    then show ?thesis using 3 m ls by linarith
  qed
  then have k: "k \<le> length ls" "tg - k + 2 \<le> n" "tg - k = tg \<or> tg - k + 2 = n" by blast+
  define tg' where "tg' = tg - k"
  obtain t1 where t1: "take_leaves k (ls, tg) t = ((Ok (drop k ls, tg'), t1) :: ('e, _) outcome \<times> _)"
      "rebuilding h n tg' (drop k ls) T t1" "\<And>j. tg \<le> j \<Longrightarrow> fq t1 j = fq t j"
    using take_leaves_Ok [OF r k(1)] unfolding tg'_def by blast
  have o: "ordered (fq t1) tg' (map value_of (drop k ls))" using t1(2) by (simp add: rebuilding_def)
  have "fq t1 j \<le> fq t1 (n - 1) + fq t1 (n - 2)" if j: "tg' \<le> j" "j < 627" for j
  proof -
    have "j = n - 1 \<or> j = n - 2 \<or> n < 627 \<and> tg \<le> j \<and> bounded t tg (fq t n + fq t (n + 1))"
      using b j k(3) n unfolding tg'_def resumable_def by auto
    then show ?thesis
    proof (elim disjE conjE)
      assume nj: "n < 627" "tg \<le> j" and "bounded t tg (fq t n + fq t (n + 1))"
      then have "fq t j \<le> fq t n + fq t (n + 1)" using j(2) by (simp add: bounded_def)
      moreover have "n + 1 < 627" using nj(1) c(1) by presburger
      then have "fq t1 n \<le> fq t1 (n - 1)" "fq t1 (n + 1) \<le> fq t1 (n - 2)"
        using k(2) n by (auto intro!: orderedD(1) [OF o] simp: tg'_def)
      ultimately show ?thesis using t1(3) [of j] t1(3) [of n] t1(3) [of "n + 1"] c(3) nj(2) by simp
    qed auto
  qed
  then show thesis using that [OF t1(1) [unfolded k_def] t1(2) [unfolded k_def]] k(2)
    by (simp add: bounded_def k_def tg'_def)
qed

lemma rebuild_step_Ok:
  assumes r: "rebuilding h n tg ls T t" and n: "3 \<le> n" and T: "T < 65536" and b: "resumable n tg t"
  obtains ls' tg' t' where "rebuild_step (n - 1) (ls, tg) t = ((Ok (ls', tg'), t') :: ('e, _) outcome \<times> _)"
    and "rebuilding h (n - 2) tg' ls' T t'" and "resumable (n - 2) tg' t'"
proof -
  have c: "odd n" "n \<le> 627" "tg \<le> n" using r by (simp_all add: rebuilding_def counts_def)
  obtain tg1 ls1 t1 where s1: "take_leaves (2 - (n - tg)) (ls, tg) t = ((Ok (ls1, tg1), t1) :: ('e, _) outcome \<times> _)"
      and r1: "rebuilding h n tg1 ls1 T t1" and tg1: "tg1 + 2 \<le> n" and b1: "bounded t1 tg1 (fq t1 (n - 1) + fq t1 (n - 2))"
    using children_ready [OF r n b] .
  have o1: "ordered (fq t1) tg1 (map value_of ls1)" and sh1: "shape t1" using r1 by (simp_all add: rebuilding_def)
  note len1 = shapeD(1) [OF sh1]
  define bf where "bf = nd_freq (dt_nodes t1 ! (n - 1)) + nd_freq (dt_nodes t1 ! (n - 2))"
  have small: "fq t1 (n - 1) + fq t1 (n - 2) < 65536"
    using pair_total [of "fq t1" n tg1 "map value_of ls1" T] r1 T tg1 by (simp add: rebuilding_def)
  then have bf: "unat bf = fq t1 (n - 1) + fq t1 (n - 2)"
    unfolding bf_def by (subst unat_add_lem [THEN iffD1]) (simp_all add: fq_def)
  have s2: "get_node (n - 1) t1 = ((Ok (dt_nodes t1 ! (n - 1)), t1) :: ('e, _) outcome \<times> _)"
    and s3: "get_node (n - 2) t1 = ((Ok (dt_nodes t1 ! (n - 2)), t1) :: ('e, _) outcome \<times> _)"
    using len1 c n by (simp_all add: get_node_Ok)
  have s4: "add16 (nd_freq (dt_nodes t1 ! (n - 1))) (nd_freq (dt_nodes t1 ! (n - 2))) t1 = ((Ok bf, t1) :: ('e, _) outcome \<times> _)"
    using small by (simp add: add16_def ret_apply fq_def bf_def)
  obtain ls2 tg2 t2 where s5: "copy_leaves bf (ls1, tg1) t1 = ((Ok (ls2, tg2), t2) :: ('e, _) outcome \<times> _)"
      and tg2: "tg2 \<le> tg1" and r2: "rebuilding h n tg2 ls2 T t2" and b2: "bounded t2 tg2 (unat bf)"
      and w2: "\<forall>p\<in>set (map value_of ls2). unat bf \<le> snd p" and f2: "\<forall>j\<ge>tg1. fq t2 j = fq t1 j"
    using copy_leaves_Ok [OF r1 b1 [folded bf]] by blast
  have c2: "counts n tg2 (map value_of ls2)" and le2: "list_all leaf_entry ls2" and sh2: "shape t2"
      and wr2: "written (kind t2) (fq t2) (par t2, leaf_index t2) n tg2 (map value_of ls2)"
      and o2: "ordered (fq t2) tg2 (map value_of ls2)" and T2: "total (fq t2) n tg2 (map value_of ls2) = T"
    using r2 by (simp_all add: rebuilding_def)
  have tg: "0 < tg2" "tg2 + 2 \<le> n" "tg2 - 1 < 627" using c2 n tg2 tg1 by (auto simp: counts_def)
  have bf2: "unat bf = fq t2 (n - 1) + fq t2 (n - 2)" using f2 tg1 by (simp add: bf)
  obtain t3 where s6: "bnd (make_branch (n - 1) bf (tg2 - 1)) (\<lambda>_. bnd (update_node (n - 1) (\<lambda>nd. nd\<lparr>nd_parent := of_nat (tg2 - 1)\<rparr>))
        (\<lambda>_. bnd (update_node (n - 2) (\<lambda>nd. nd\<lparr>nd_parent := of_nat (tg2 - 1)\<rparr>)) (\<lambda>_. ret (ls2, tg2 - 1)))) t2 =
        ((Ok (ls2, tg2 - 1), t3) :: ('e, _) outcome \<times> _)"
      and sh3: "shape t3" and k3: "kind t3 = (kind t2)(tg2 - 1 := KBranch (n - 1))" and f3: "fq t3 = (fq t2)(tg2 - 1 := unat bf)"
      and pv3: "(par t3, leaf_index t3) = own (KBranch (n - 1)) (tg2 - 1) (par t2, leaf_index t2)"
    using place_branch_Ok [OF sh2 n c(2) tg(3), of bf "(ls2, tg2 - 1)"] .
  have "rebuild_step (n - 1) (ls, tg) t = ((Ok (ls2, tg2 - 1), t3) :: ('e, _) outcome \<times> _)"
  proof -
    have ok: "\<not> n < tg" and eqs: "n - 1 + 1 = n" "n - 1 - 1 = n - 2" and nz: "tg2 \<noteq> 0" using c n tg by simp_all
    show ?thesis
      unfolding rebuild_step_def snd_conv eqs if_not_P [OF ok] bnd_Ok [of "take_leaves _ _", OF s1]
        bnd_Ok [of "get_node (n - 1)", OF s2] bnd_Ok [of "get_node (n - 2)", OF s3] bnd_Ok [of "add16 _ _", OF s4]
        bnd_Ok [of "copy_leaves _ _", OF s5] prod.case if_not_P [OF nz]
      by (rule s6)
  qed
  moreover have "rebuilding h (n - 2) (tg2 - 1) ls2 T t3"
    unfolding rebuilding_def k3 f3 pv3
  proof (intro conjI)
    show "counts (n - 2) (tg2 - 1) (map value_of ls2)" 
      using c2 n tg by (auto simp: counts_def elim!: oddE)
    show "written ((kind t2)(tg2 - 1 := KBranch (n - 1))) ((fq t2)(tg2 - 1 := unat bf))
        (own (KBranch (n - 1)) (tg2 - 1) (par t2, leaf_index t2)) (n - 2) (tg2 - 1) (map value_of ls2)"
      unfolding bf2 by (rule put_branch [OF wr2 tg(1,2) c(1,2)])
    have "tg2 \<le> n - 1" "n - 1 < 627" using tg n c(2) by linarith+
    then have "1 \<le> unat bf" using orderedD(2) [OF o2 _ order_refl] unfolding bf2 by (intro trans_le_add1)
    then show "ordered ((fq t2)(tg2 - 1 := unat bf)) (tg2 - 1) (map value_of ls2)"
      using w2 b2 by (intro ordered_put_branch [OF o2 tg(1)]) (auto simp: bounded_def)
    have "weighed h (kind t2) (fq t2) tg2 (map value_of ls2)" using r2 by (simp only: rebuilding_def)
    then show "weighed h ((kind t2)(tg2 - 1 := KBranch (n - 1))) ((fq t2)(tg2 - 1 := unat bf)) (tg2 - 1) (map value_of ls2)"
      by (rule weighed_put) simp_all
    show "total ((fq t2)(tg2 - 1 := unat bf)) (n - 2) (tg2 - 1) (map value_of ls2) = T"
      unfolding bf2 using total_put_branch [OF tg(1,2), of "fq t2"] T2 by simp
  qed (use sh3 le2 in simp_all)
  moreover have "resumable (n - 2) (tg2 - 1) t3"
  proof -
    have ne: "tg2 - 1 \<noteq> n - 2" "tg2 - 1 \<noteq> n - 1" and e: "n - 2 + 1 = n - 1" using tg n by linarith+
    have "fq t3 (n - 2) + fq t3 (n - 2 + 1) = unat bf"
      unfolding e f3 fun_upd_other [OF not_sym [OF ne(1)]] fun_upd_other [OF not_sym [OF ne(2)]] bf2
      by (rule add.commute)
    moreover have "bounded t3 (tg2 - 1) (unat bf)" unfolding bounded_def f3
    proof (intro allI impI)
      fix j assume "tg2 - 1 \<le> j \<and> j < 627"
      then show "((fq t2)(tg2 - 1 := unat bf)) j \<le> unat bf"
        using b2 by (cases "j = tg2 - 1") (auto simp: bounded_def)
    qed
    ultimately show ?thesis using c n tg unfolding resumable_def by auto
  qed
  ultimately show thesis by (rule that)
qed

end
