(* ===== verification/Dyn_Regroup.thy ===== *)
theory Dyn_Regroup
  imports Dyn_Rebuild
begin

text \<open>
  The end of a rebuild: the loop over the nodes ends with linked nodes whose frequencies fall, the
  groups are formed by one pass over them, and \<open>rebuild_tree\<close> as a whole keeps the invariant.
\<close>

subsection \<open>All nodes\<close>

lemma rebuild_nodes_Ok:
  assumes "rebuilding h n tg ls T t" and "resumable n tg t" and "T < 65536"
  shows "\<exists>t'. rebuild_nodes n (ls, tg) t = ((Ok (), t') :: ('e, _) outcome \<times> _) \<and> rebuilding h 1 0 [] T t'"
  using assms
proof (induction n arbitrary: tg ls t rule: less_induct)
  case (less n)
  have c: "odd n" "tg \<le> n" "tg = length ls + n div 2" using less.prems(1) by (simp_all add: rebuilding_def counts_def)
  show ?case
  proof (cases "n > 2")
    case True
    obtain ls' tg' t1 where s: "rebuild_step (n - 1) (ls, tg) t = ((Ok (ls', tg'), t1) :: ('e, _) outcome \<times> _)"
        "rebuilding h (n - 2) tg' ls' T t1" "resumable (n - 2) tg' t1"
      using rebuild_step_Ok [OF less.prems(1) _ less.prems(3,2)] True by (metis Suc_leI eval_nat_numeral(3))
    have "n - 2 < n" using True by simp
    from less.IH [OF this s(2,3) less.prems(3)] obtain t' where
      t': "rebuild_nodes (n - 2) (ls', tg') t1 = ((Ok (), t') :: ('e, _) outcome \<times> _)" "rebuilding h 1 0 [] T t'" by blast
    have "rebuild_nodes n (ls, tg) t = ((Ok (), t') :: ('e, _) outcome \<times> _)"
      unfolding rebuild_nodes.simps [of n] if_P [OF True] bnd_Ok [of "rebuild_step _ _", OF s(1)] by (rule t'(1))
    with t'(2) show ?thesis by blast
  next
    case False
    with c(1) have n: "n = 1" by (cases n) auto
    moreover from this have "tg = 0" using less.prems(2) by (auto simp: resumable_def)
    ultimately have "ls = []" using c(3) by simp
    with n \<open>tg = 0\<close> less.prems(1) show ?thesis by (simp add: rebuild_nodes.simps ret_apply)
  qed
qed

lemma rebuilt_tree:
  assumes "rebuilding h 1 0 [] T t"
  shows "shape t" and "links (kind t) (par t, leaf_index t)" and "freqs (kind t) (fq t) 0" and "fq t 0 = T"
proof -
  have w: "written (kind t) (fq t) (par t, leaf_index t) 1 0 []" and o: "ordered (fq t) 0 []" and "total (fq t) 1 0 [] = T"
    and "shape t"
    using assms by (simp_all add: rebuilding_def)
  then show "fq t 0 = T" "shape t" by (simp_all add: total_def)
  have "{..<627::nat} = {0..<627}" by auto
  then show "links (kind t) (par t, leaf_index t)"
    using w by (simp add: written_def links_def waiting_def)
  show "freqs (kind t) (fq t) 0"
    using w o unfolding freqs_def descending_def sums_def written_def ordered_def by auto
qed

subsection \<open>The groups\<close>

definition regrouped :: "nat \<Rightarrow> dyn_tree \<Rightarrow> bool" where
  "regrouped i t \<longleftrightarrow> shape t \<and> gr_groups (dt_groups t) = map of_nat [0..<627] \<and> unat (gr_ngroups (dt_groups t)) \<le> i \<and>
     (\<forall>a<i. \<forall>b<i. grp t a = grp t b \<longleftrightarrow> fq t a = fq t b) \<and>
     (\<forall>a<i. lead t (grp t a) \<le> a \<and> fq t (lead t (grp t a)) = fq t a \<and> (\<forall>j<lead t (grp t a). fq t j \<noteq> fq t a)) \<and>
     grp t ` {..<i} = {..<unat (gr_ngroups (dt_groups t))}"

definition same_links :: "dyn_tree \<Rightarrow> dyn_tree \<Rightarrow> bool" where
  "same_links t t' \<longleftrightarrow> kind t' = kind t \<and> fq t' = fq t \<and> par t' = par t \<and> leaf_index t' = leaf_index t"

lemma same_links_trans: "same_links t u \<Longrightarrow> same_links u v \<Longrightarrow> same_links t v"
  by (simp add: same_links_def)

lemma same_links_group:
  assumes "shape t" and "i < 627"
  shows "same_links t (t\<lparr>dt_nodes := (dt_nodes t)[i := (dt_nodes t ! i)\<lparr>nd_group := x\<rparr>], dt_groups := g\<rparr>)"
    and "grp (t\<lparr>dt_nodes := (dt_nodes t)[i := (dt_nodes t ! i)\<lparr>nd_group := x\<rparr>], dt_groups := g\<rparr>) = (grp t)(i := unat x)"
  using assms shapeD(1) [OF assms(1)] by (auto simp: same_links_def tree_funs fun_eq_iff nth_list_update)

lemma regrouped_grouping:
  assumes "regrouped 627 t"
  shows "grouping (fq t) (grp t) (lead t) (free_groups t)"
proof -
  let ?n = "unat (gr_ngroups (dt_groups t))"
  have n: "?n \<le> 627" and g: "gr_groups (dt_groups t) = map of_nat [0..<627]" and i: "grp t ` {..<627} = {..<?n}"
    using assms by (simp_all add: regrouped_def)
  have "free_groups t = map unat (map (of_nat :: nat \<Rightarrow> u16) [?n..<627])"
    unfolding free_groups_def unused_def g by (simp add: drop_map)
  also have "\<dots> = [?n..<627]" unfolding map_map by (rule map_idI) (simp add: unat_index)
  finally have f: "free_groups t = [?n..<627]" .
  have "set [?n..<627] \<union> {..<?n} = {..<627}" using n by auto
  with assms show ?thesis unfolding grouping_def f i regrouped_def by auto
qed

text \<open>A node of the same frequency joins the group.\<close>

lemma regroup_join:
  assumes r: "regrouped i t" and i: "0 < i" "i < 627" and eq: "fq t i = fq t (i - 1)" and x: "unat x = grp t (i - 1)"
  defines "t' \<equiv> t\<lparr>dt_nodes := (dt_nodes t)[i := (dt_nodes t ! i)\<lparr>nd_group := x\<rparr>]\<rparr>"
  shows "regrouped (Suc i) t'" and "same_links t t'" and "grp t' i = grp t (i - 1)"
proof -
  have sh: "shape t" and g: "gr_groups (dt_groups t) = map of_nat [0..<627]" "unat (gr_ngroups (dt_groups t)) \<le> i"
      "grp t ` {..<i} = {..<unat (gr_ngroups (dt_groups t))}"
      and same: "\<And>a b. a < i \<Longrightarrow> b < i \<Longrightarrow> grp t a = grp t b \<longleftrightarrow> fq t a = fq t b"
      and lead: "\<And>a. a < i \<Longrightarrow> lead t (grp t a) \<le> a \<and> fq t (lead t (grp t a)) = fq t a \<and> (\<forall>j<lead t (grp t a). fq t j \<noteq> fq t a)"
    using r by (simp_all add: regrouped_def)
  have t': "t' = t\<lparr>dt_nodes := (dt_nodes t)[i := (dt_nodes t ! i)\<lparr>nd_group := x\<rparr>], dt_groups := dt_groups t\<rparr>"
    by (simp add: t'_def)
  show sl: "same_links t t'" and "grp t' i = grp t (i - 1)" 
    using same_links_group [OF sh i(2), where x = x and g = "dt_groups t"] x unfolding t' by simp_all
  have gr: "grp t' = (grp t)(i := grp t (i - 1))" using same_links_group(2) [OF sh i(2), where x = x and g = "dt_groups t"] x unfolding t' by simp
  have gs: "dt_groups t' = dt_groups t" "lead t' = lead t" "shape t'" and fq: "fq t' = fq t"
    using sh sl by (auto simp: t'_def lead_def fun_eq_iff shape_def same_links_def)
  have p: "i - 1 < i" using i by simp
  have "(grp t)(i := grp t (i - 1)) ` {..<Suc i} = grp t ` {..<i}"
    unfolding lessThan_Suc using p by (auto simp: image_iff)
  moreover have "\<forall>a<Suc i. \<forall>b<Suc i. ((grp t)(i := grp t (i - 1))) a = ((grp t)(i := grp t (i - 1))) b \<longleftrightarrow> fq t a = fq t b"
    using same [OF _ p] same [OF p] same eq by (auto simp: less_Suc_eq)
  moreover have "\<forall>a<Suc i. lead t (((grp t)(i := grp t (i - 1))) a) \<le> a \<and> fq t (lead t (((grp t)(i := grp t (i - 1))) a)) = fq t a \<and>
      (\<forall>j<lead t (((grp t)(i := grp t (i - 1))) a). fq t j \<noteq> fq t a)"
    using lead [OF p] lead eq by (auto simp: less_Suc_eq)
  ultimately show "regrouped (Suc i) t'"
    unfolding regrouped_def gr gs(1,2) fq using gs(3) g by simp
qed

text \<open>A node of a new frequency starts a group.\<close>

lemma regroup_start:
  assumes r: "regrouped i t" and i: "i < 627" and ne: "\<And>a. a < i \<Longrightarrow> fq t a \<noteq> fq t i"
  obtains t' x t1 where "on_groups allocate t = ((Ok x, t1) :: ('e, _) outcome \<times> _)"
    and "dt_nodes t1 = dt_nodes t"
    and "\<And>f :: (dyn_tree, 'e, unit) act. bnd (update_node i (\<lambda>n. n\<lparr>nd_group := x\<rparr>))
      (\<lambda>_. bnd (on_groups (set_leader_index x i)) (\<lambda>_. f)) t1 = f t'"
    and "regrouped (Suc i) t'" and "same_links t t'" and "unat x = grp t' i"
proof -
  let ?g = "dt_groups t"
  let ?n = "unat (gr_ngroups ?g)"
  have sh: "shape t" and g: "gr_groups ?g = map of_nat [0..<627]" "?n \<le> i" "grp t ` {..<i} = {..<?n}"
      and same: "\<And>a b. a < i \<Longrightarrow> b < i \<Longrightarrow> grp t a = grp t b \<longleftrightarrow> fq t a = fq t b"
      and lead: "\<And>a. a < i \<Longrightarrow> lead t (grp t a) \<le> a \<and> fq t (lead t (grp t a)) = fq t a \<and> (\<forall>j<lead t (grp t a). fq t j \<noteq> fq t a)"
    using r by (simp_all add: regrouped_def)
  note len = shapeD [OF sh]
  have n: "?n < 627" using g(2) i by simp
  define x where "x = gr_groups ?g ! ?n"
  have x: "unat x = ?n" using n by (simp add: x_def g(1) unat_index)
  define g1 where "g1 = ?g\<lparr>gr_ngroups := gr_ngroups ?g + 1\<rparr>"
  have suc: "unat (gr_ngroups g1) = Suc ?n"
    unfolding g1_def using n by simp (subst unat_add_lem [THEN iffD1]; simp)
  define t1 where "t1 = t\<lparr>dt_groups := g1\<rparr>"
  have "allocate ?g = ((Ok x, g1) :: ('e, _) outcome \<times> _)"
    using len n by (simp add: allocate_def x_def g1_def Let_def)
  then have a: "on_groups allocate t = ((Ok x, t1) :: ('e, _) outcome \<times> _)" unfolding t1_def by (rule on_groups_apply)
  define t2 where "t2 = t1\<lparr>dt_nodes := (dt_nodes t)[i := (dt_nodes t ! i)\<lparr>nd_group := x\<rparr>]\<rparr>"
  have u: "update_node i (\<lambda>n. n\<lparr>nd_group := x\<rparr>) t1 = ((Ok (), t2) :: ('e, _) outcome \<times> _)"
    using i len by (simp add: update_node_Ok t1_def t2_def)
  have "length (gr_leaders g1) = 627" "unat x < 627" using len n x by (simp_all add: g1_def)
  note sl = set_leader_Ok [OF this i]
  define g2 where "g2 = g1\<lparr>gr_leaders := (gr_leaders g1)[unat x := of_nat i]\<rparr>"
  note sl = sl [folded g2_def]
  have d2: "dt_groups t2 = g1" by (simp add: t2_def t1_def)
  define t' where "t' = t2\<lparr>dt_groups := g2\<rparr>"
  have l: "on_groups (set_leader_index x i) t2 = ((Ok (), t') :: ('e, _) outcome \<times> _)"
    unfolding t'_def by (rule on_groups_apply) (simp add: d2 sl(1))
  have run: "bnd (update_node i (\<lambda>n. n\<lparr>nd_group := x\<rparr>)) (\<lambda>_. bnd (on_groups (set_leader_index x i)) (\<lambda>_. f)) t1 = f t'"
    for f :: "(dyn_tree, 'e, unit) act"
    unfolding bnd_Ok [of "update_node _ _", OF u] bnd_Ok [of "on_groups _", OF l] by (rule refl)
  have t'eq: "t' = t\<lparr>dt_nodes := (dt_nodes t)[i := (dt_nodes t ! i)\<lparr>nd_group := x\<rparr>], dt_groups := g2\<rparr>"
    by (simp add: t'_def t2_def t1_def)
  have links: "same_links t t'" and gr: "grp t' = (grp t)(i := ?n)"
    using same_links_group [OF sh i, where x = x and g = g2] x unfolding t'eq by simp_all
  have fq: "fq t' = fq t" using links by (simp add: same_links_def)
  have ld: "lead t' = (lead t)(?n := i)"
    using sl(2) x by (simp add: lead_def [abs_def] t'_def g1_def)
  have sh': "shape t'" "gr_groups (dt_groups t') = map of_nat [0..<627]" "unat (gr_ngroups (dt_groups t')) = Suc ?n"
    using sh g n suc by (auto simp: shape_def t'eq g2_def g1_def)
  have old: "grp t a \<noteq> ?n \<and> ?n \<noteq> grp t a" if "a < i" for a
  proof -
    have "grp t a \<in> {..<?n}" unfolding g(3) [symmetric] using that by simp
    then show ?thesis by simp
  qed
  have ne: "fq t a \<noteq> fq t i \<and> fq t i \<noteq> fq t a" if "a < i" for a using ne that by metis
  have "((grp t)(i := ?n)) ` {..<Suc i} = {..<Suc ?n}"
  proof -
    have "((grp t)(i := ?n)) ` {..<i} = grp t ` {..<i}" by (intro image_cong) auto
    then show ?thesis unfolding lessThan_Suc image_insert fun_upd_same g(3) by simp
  qed
  moreover have "\<forall>a<Suc i. \<forall>b<Suc i. ((grp t)(i := ?n)) a = ((grp t)(i := ?n)) b \<longleftrightarrow> fq t a = fq t b"
    using same old ne by (auto simp: less_Suc_eq)
  moreover have "\<forall>a<Suc i. ((lead t)(?n := i)) (((grp t)(i := ?n)) a) \<le> a \<and>
      fq t (((lead t)(?n := i)) (((grp t)(i := ?n)) a)) = fq t a \<and>
      (\<forall>j<((lead t)(?n := i)) (((grp t)(i := ?n)) a). fq t j \<noteq> fq t a)"
    using lead old ne by (auto simp: less_Suc_eq)
  ultimately have "regrouped (Suc i) t'"
    unfolding regrouped_def gr ld fq sh'(3) using sh' g(2) by simp
  moreover have "unat x = grp t' i" by (simp add: gr x)
  moreover have "dt_nodes t1 = dt_nodes t" by (simp add: t1_def)
  ultimately show thesis using that a run links by blast
qed

lemma regroup_Ok:
  "regrouped i t \<Longrightarrow> 0 < i \<Longrightarrow> i \<le> 627 \<Longrightarrow> descending (fq t) \<Longrightarrow> unat fr = fq t (i - 1) \<Longrightarrow> unat x = grp t (i - 1) \<Longrightarrow>
   \<exists>t'. regroup [i..<627] fr x t = ((Ok (), t') :: ('e, _) outcome \<times> _) \<and> regrouped 627 t' \<and> same_links t t'"
proof (induction "627 - i" arbitrary: i t fr x)
  case 0
  then show ?case by (simp add: ret_apply same_links_def)
next
  case (Suc k)
  then have i: "i < 627" and k: "k = 627 - Suc i" by simp_all
  then have upt: "[i..<627] = i # [Suc i..<627]" by (simp add: upt_conv_Cons)
  have sh: "shape t" using Suc.prems(1) by (simp add: regrouped_def)
  note len = shapeD(1) [OF sh]
  have n: "get_node i t = ((Ok (dt_nodes t ! i), t) :: ('e, _) outcome \<times> _)" using i len by (simp add: get_node_Ok)
  show ?case
  proof (cases "nd_freq (dt_nodes t ! i) = fr")
    case True
    let ?t = "t\<lparr>dt_nodes := (dt_nodes t)[i := (dt_nodes t ! i)\<lparr>nd_group := x\<rparr>]\<rparr>"
    have eq: "fq t i = fq t (i - 1)" using True Suc.prems(5) by (simp add: fq_def)
    note j = regroup_join [OF Suc.prems(1,2) i eq Suc.prems(6)]
    have u: "update_node i (\<lambda>n. n\<lparr>nd_group := x\<rparr>) t = ((Ok (), ?t) :: ('e, _) outcome \<times> _)"
      using i len by (simp add: update_node_Ok)
    have "fq ?t = fq t" using j(2) by (simp add: same_links_def)
    then have "\<exists>t'. regroup [Suc i..<627] fr x ?t = ((Ok (), t') :: ('e, _) outcome \<times> _) \<and> regrouped 627 t' \<and> same_links ?t t'"
      using Suc.hyps(1) [OF k j(1)] i Suc.prems(4-6) eq j(3) by simp
    then obtain t' where t': "regroup [Suc i..<627] fr x ?t = ((Ok (), t') :: ('e, _) outcome \<times> _)" "regrouped 627 t'" "same_links ?t t'"
      by blast
    have "regroup [i..<627] fr x t = ((Ok (), t') :: ('e, _) outcome \<times> _)"
      unfolding upt regroup.simps bnd_Ok [of "get_node i", OF n] if_P [OF True] bnd_Ok [of "update_node _ _", OF u] by (rule t'(1))
    with t' same_links_trans [OF j(2)] show ?thesis by blast
  next
    case False
    then have ne': "fq t i \<noteq> fq t (i - 1)" using Suc.prems(5) by (metis fq_def word_unat_eq_iff)
    have "fq t a \<noteq> fq t i" if "a < i" for a
    proof -
      have "fq t i \<le> fq t (i - 1)" "fq t (i - 1) \<le> fq t a"
        using descendingD [OF Suc.prems(4)] i that by simp_all
      then show ?thesis using ne' by simp
    qed
    then obtain t2 y t1 where a: "on_groups allocate t = ((Ok y, t1) :: ('e, _) outcome \<times> _)"
        and run: "\<And>f :: (dyn_tree, 'e, unit) act. bnd (update_node i (\<lambda>n. n\<lparr>nd_group := y\<rparr>))
          (\<lambda>_. bnd (on_groups (set_leader_index y i)) (\<lambda>_. f)) t1 = f t2"
        and t2: "regrouped (Suc i) t2" "same_links t t2" "unat y = grp t2 i"
      using regroup_start [OF Suc.prems(1) i] by metis
    have fq2: "fq t2 = fq t" using t2(2) by (simp add: same_links_def)
    have "unat (nd_freq (dt_nodes t ! i)) = fq t2 (Suc i - 1)" "unat y = grp t2 (Suc i - 1)"
      using t2(3) by (simp_all add: fq2) (simp add: fq_def)
    then obtain t' where t': "regroup [Suc i..<627] (nd_freq (dt_nodes t ! i)) y t2 = ((Ok (), t') :: ('e, _) outcome \<times> _)"
        "regrouped 627 t'" "same_links t2 t'"
      using Suc.hyps(1) [OF k t2(1)] i Suc.prems(4) fq2 by auto
    have "regroup [i..<627] fr x t = ((Ok (), t') :: ('e, _) outcome \<times> _)"
      unfolding upt regroup.simps bnd_Ok [of "get_node i", OF n] if_not_P [OF False] bnd_Ok [of "on_groups allocate", OF a] run
      by (rule t'(1))
    with t' same_links_trans [OF t2(2)] show ?thesis by blast
  qed
qed

lemma rebuild_groups_Ok:
  assumes sh: "shape t" and d: "descending (fq t)"
  obtains t' where "rebuild_groups t = ((Ok (), t') :: ('e, _) outcome \<times> _)" and "shape t'" and "same_links t t'"
    and "grouping (fq t') (grp t') (lead t') (free_groups t')"
proof -
  note len = shapeD [OF sh]
  define t0 where "t0 = t\<lparr>dt_groups := groups_reset (dt_groups t)\<rparr>"
  have r: "on_groups (modify groups_reset) t = ((Ok (), t0) :: ('e, _) outcome \<times> _)"
    by (simp add: on_groups_def zoom_def modify_apply t0_def)
  have sl0: "same_links t t0" by (auto simp: same_links_def t0_def tree_funs fun_eq_iff)
  then have fq0: "fq t0 = fq t" by (simp add: same_links_def)
  have "regrouped 0 t0" using sh len by (simp add: regrouped_def t0_def groups_reset_def shape_def)
  then obtain t2 y t1 where a: "on_groups allocate t0 = ((Ok y, t1) :: ('e, _) outcome \<times> _)" and n1: "dt_nodes t1 = dt_nodes t0"
      and run: "\<And>f :: (dyn_tree, 'e, unit) act. bnd (update_node 0 (\<lambda>n. n\<lparr>nd_group := y\<rparr>))
        (\<lambda>_. bnd (on_groups (set_leader_index y 0)) (\<lambda>_. f)) t1 = f t2"
      and t2: "regrouped (Suc 0) t2" "same_links t0 t2" "unat y = grp t2 0"
    using regroup_start [of 0 t0] by (metis less_nat_zero_code zero_less_numeral)
  have fq2: "fq t2 = fq t" using t2(2) fq0 by (simp add: same_links_def)
  have n: "get_node 0 t1 = ((Ok (dt_nodes t ! 0), t1) :: ('e, _) outcome \<times> _)"
  proof -
    have "dt_nodes t \<noteq> []" using len(1) by auto
    then show ?thesis using n1 by (simp add: get_node_def t0_def)
  qed
  have "unat (nd_freq (dt_nodes t ! 0)) = fq t2 (Suc 0 - 1)" unfolding fq2 by (simp add: fq_def)
  then obtain t' where t': "regroup [Suc 0..<627] (nd_freq (dt_nodes t ! 0)) y t2 = ((Ok (), t') :: ('e, _) outcome \<times> _)"
      "regrouped 627 t'" "same_links t2 t'"
    using regroup_Ok [OF t2(1), of "nd_freq (dt_nodes t ! 0)" y, where ?'e = 'e] d t2(3) fq2 by auto
  have "rebuild_groups t = ((Ok (), t') :: ('e, _) outcome \<times> _)"
    unfolding rebuild_groups_def bnd_Ok [of "on_groups (modify _)", OF r] bnd_Ok [of "on_groups allocate", OF a]
      bnd_Ok [of "get_node 0", OF n] run num_nodes_eq One_nat_def
    by (rule t'(1))
  moreover have "shape t'" using t'(2) by (simp add: regrouped_def)
  ultimately show thesis
    using that regrouped_grouping [OF t'(2)] same_links_trans [OF same_links_trans [OF sl0 t2(2)] t'(3)] by blast
qed

end
