(* ===== verification/Dyn_Count.thy ===== *)
theory Dyn_Count
  imports Dyn_Regroup
begin

text \<open>
  Rebuilding and counting as a whole: the frequencies of the values add up to that of the root,
  \<open>rebuild_tree\<close> halves them, \<open>increment_for_value\<close> adds one to the frequency of its value, and both
  keep the invariant.
\<close>

subsection \<open>The frequencies of the values add up\<close>

lemma sum_pairs:
  fixes F :: "nat \<Rightarrow> nat"
  shows "(\<Sum>k = 1..m. F (2 * k) + F (2 * k - 1)) = (\<Sum>j = 1..2 * m. F j)"
  by (induction m) simp_all

lemma branch_sum:
  assumes "links K (P, V)" and "sums K F 0"
  shows "(\<Sum>i | i < 627 \<and> (\<exists>c. K i = KBranch c). F i) = (\<Sum>j = 1..626. F j)"
proof -
  let ?B = "{i. i < 627 \<and> (\<exists>c. K i = KBranch c)}"
  let ?c = "\<lambda>i. case K i of KBranch c \<Rightarrow> c div 2 | KLeaf v \<Rightarrow> 0"
  have "(\<Sum>i\<in>?B. F i) = (\<Sum>k = 1..313. F (2 * k) + F (2 * k - 1))"
  proof (rule sum.reindex_bij_witness [of _ "\<lambda>k. P (2 * k)" ?c])
    fix i assume i: "i \<in> ?B"
    then obtain c where c: "K i = KBranch c" "i < 627" by auto
    then have "KBranch c \<in> all_kinds" using links_kind [OF assms(1), of i] by simp
    then have even: "even c" "2 \<le> c" "c \<le> 626" by (simp_all add: branch_in_all)
    then have "2 * (c div 2) = c" by simp
    then show "P (2 * ?c i) = i" and "F (2 * ?c i) + F (2 * ?c i - 1) = F i"
      using assms c by (auto simp: links_def sums_def dest!: spec [of _ i])
    show "?c i \<in> {1..313}" using c even by auto
  next
    fix k :: nat assume k: "k \<in> {1..313}"
    then have "0 < 2 * k" "2 * k < 627" by simp_all
    from links_parent [OF assms(1) this] have "P (2 * k) < 2 * k" "K (P (2 * k)) = KBranch (2 * k)"
      by (simp_all add: pair_of_def)
    then show "?c (P (2 * k)) = k" "P (2 * k) \<in> ?B" using k by simp_all
  qed
  then show ?thesis using sum_pairs [of F 313] by simp
qed

lemma leaf_positions:
  assumes "links K (P, V)"
  shows "{i. i < 627 \<and> (\<exists>v. K i = KLeaf v)} = V ` {..<314}" and "inj_on V {..<314}"
proof -
  show "{i. i < 627 \<and> (\<exists>v. K i = KLeaf v)} = V ` {..<314}"
  proof (intro equalityI subsetI)
    fix i assume "i \<in> {i. i < 627 \<and> (\<exists>v. K i = KLeaf v)}"
    then obtain v where v: "i < 627" "K i = KLeaf v" by auto
    then have "v < 314" using links_kind [OF assms, of i] by (simp add: leaf_in_all)
    moreover have "V v = i" using assms v by (auto simp: links_def dest!: spec [of _ i])
    ultimately show "i \<in> V ` {..<314}" by auto
  qed (use links_leaf [OF assms] in auto)
  show "inj_on V {..<314}" using links_leaf [OF assms] by (intro inj_onI) (metis lessThan_iff node_kind.inject(1))
qed

lemma leaves_total:
  assumes "links K (P, V)" and "sums K F 0"
  shows "(\<Sum>v<314. F (V v)) = F 0"
proof -
  let ?L = "{i. i < 627 \<and> (\<exists>v. K i = KLeaf v)}" and ?B = "{i. i < 627 \<and> (\<exists>c. K i = KBranch c)}"
  have split: "?L \<union> ?B = {..626}" "?L \<inter> ?B = {}"
  proof -
    have "(\<exists>v. K i = KLeaf v) \<or> (\<exists>c. K i = KBranch c)" for i by (cases "K i") auto
    then show "?L \<union> ?B = {..626}" "?L \<inter> ?B = {}" by auto
  qed
  have "(\<Sum>i\<in>?L. F i) + (\<Sum>i\<in>?B. F i) = (\<Sum>i\<le>626. F i)"
    unfolding split(1) [symmetric] by (rule sum.union_disjoint [symmetric]) (use split(2) in auto)
  also have "\<dots> = F 0 + (\<Sum>j = 1..626. F j)"
    using sum.atLeast_Suc_atMost [of 0 626 F] by (simp add: atLeast0AtMost)
  finally have "(\<Sum>i\<in>?L. F i) = F 0" using branch_sum [OF assms] by simp
  then show ?thesis unfolding leaf_positions(1) [OF assms(1)]
    by (simp add: sum.reindex [OF leaf_positions(2) [OF assms(1)]])
qed

subsection \<open>The leaves that a rebuild starts from\<close>

definition halved :: "dyn_tree \<Rightarrow> (tree_entry \<times> u16) list" where
  "halved t = map (\<lambda>n. (nd_entry n, (nd_freq n + 1) div 2)) (filter (\<lambda>n. is_leaf (nd_entry n)) (dt_nodes t))"

definition leaf_list :: "dyn_tree \<Rightarrow> nat list" where
  "leaf_list t = filter (\<lambda>i. \<exists>v. kind t i = KLeaf v) [0..<627]"

lemma is_leaf_kind: "is_leaf (nd_entry (dt_nodes t ! i)) \<longleftrightarrow> (\<exists>v. kind t i = KLeaf v)"
proof -
  have "(\<exists>v. kind_of k = KLeaf v) \<longleftrightarrow> (\<exists>v. k = Leaf v)" for k by (cases k) auto
  then show ?thesis by (simp add: as_type_is_leaf kind_def)
qed

lemma leaf_nodes_list:
  assumes "shape t"
  shows "filter (\<lambda>n. is_leaf (nd_entry n)) (dt_nodes t) = map (\<lambda>i. dt_nodes t ! i) (leaf_list t)"
proof -
  have "dt_nodes t = map (\<lambda>i. dt_nodes t ! i) [0..<627]"
    using map_nth [of "dt_nodes t"] shapeD(1) [OF assms] by simp
  then have "filter (\<lambda>n. is_leaf (nd_entry n)) (dt_nodes t) =
      filter (\<lambda>n. is_leaf (nd_entry n)) (map (\<lambda>i. dt_nodes t ! i) [0..<627])" by simp
  also have "\<dots> = map (\<lambda>i. dt_nodes t ! i) (leaf_list t)"
    unfolding filter_map leaf_list_def comp_def is_leaf_kind by (rule refl)
  finally show ?thesis .
qed

lemma halve_all_Ok:
  "\<forall>n\<in>set ns. unat (nd_freq n) < 65535 \<Longrightarrow>
   halve_all ns t = (Ok (map (\<lambda>n. (nd_entry n, (nd_freq n + 1) div 2)) ns), t)"
  by (induction ns) (simp_all add: ret_apply halve_def bnd_def add16_def)

lemma set_leaf_list: "links (kind t) (par t, leaf_index t) \<Longrightarrow> set (leaf_list t) = leaf_index t ` {..<314}"
  using leaf_positions(1) [of "kind t"] by (auto simp: leaf_list_def)

lemma length_leaf_list: "links (kind t) (par t, leaf_index t) \<Longrightarrow> length (leaf_list t) = 314"
  using distinct_card [of "leaf_list t"] card_image [OF leaf_positions(2) [of "kind t"]]
  by (simp add: set_leaf_list) (simp add: leaf_list_def)

lemma tree_freq_le: "dyn_tree_ok t \<Longrightarrow> i < 627 \<Longrightarrow> fq t i \<le> 32768"
  unfolding dyn_tree_ok_def tree_at_def freqs_def using descendingD [of "fq t" 0 i] by force

lemma leave_nodes_Ok:
  assumes "dyn_tree_ok t"
  shows "leave_nodes t = (Ok (halved t), t)"
proof -
  note facts = tree_atD [OF assms [unfolded dyn_tree_ok_def]]
  let ?ns = "filter (\<lambda>n. is_leaf (nd_entry n)) (dt_nodes t)"
  have ns: "?ns = map (\<lambda>i. dt_nodes t ! i) (leaf_list t)" by (rule leaf_nodes_list [OF facts(1)])
  have len: "length ?ns = 314" unfolding ns using length_leaf_list [OF facts(2)] by simp
  have "unat (nd_freq n) < 65535" if n: "n \<in> set ?ns" for n
  proof -
    obtain i where "i < 627" "n = dt_nodes t ! i" using n unfolding ns by (auto simp: leaf_list_def)
    then show ?thesis using tree_freq_le [OF assms, of i] by (simp add: fq_def)
  qed
  then have "halve_all ?ns t = (Ok (halved t), t)"
    unfolding halved_def by (intro halve_all_Ok) blast
  then show ?thesis
    using len by (simp add: leave_nodes_def num_leaves_def bnd_def get_state_apply)
qed

fun leaf_value :: "node_kind \<Rightarrow> nat" where
  "leaf_value (KLeaf v) = v"
| "leaf_value (KBranch c) = 0"

definition half_freq :: "dyn_tree \<Rightarrow> nat \<Rightarrow> nat" where
  "half_freq t v = (leaf_freq t v + 1) div 2"

lemma halved_values:
  assumes "dyn_tree_ok t"
  shows "map value_of (halved t) = map (\<lambda>i. (leaf_value (kind t i), (fq t i + 1) div 2)) (leaf_list t)"
proof -
  note facts = tree_atD [OF assms [unfolded dyn_tree_ok_def]]
  have "value_of (nd_entry (dt_nodes t ! i), (nd_freq (dt_nodes t ! i) + 1) div 2) =
      (leaf_value (kind t i), (fq t i + 1) div 2)" if i: "i \<in> set (leaf_list t)" for i
  proof -
    obtain v where v: "kind t i = KLeaf v" "i < 627" using i by (auto simp: leaf_list_def)
    then obtain w where w: "as_type (nd_entry (dt_nodes t ! i)) = Leaf w" "unat w = v"
      by (cases "as_type (nd_entry (dt_nodes t ! i))") (simp_all add: kind_def)
    have "unat (nd_freq (dt_nodes t ! i) + 1) = fq t i + 1"
      using tree_freq_le [OF assms v(2)] by (subst unat_add_lem [THEN iffD1]) (simp_all add: fq_def)
    then have "unat ((nd_freq (dt_nodes t ! i) + 1) div 2) = (fq t i + 1) div 2"
      by (simp add: unat_div_distrib)
    then show ?thesis using v(1) w as_type_as_value [of "nd_entry (dt_nodes t ! i)" w]
      by (simp add: value_of_def)
  qed
  then show ?thesis unfolding halved_def leaf_nodes_list [OF facts(1)] by simp
qed

lemma sorted_halves:
  assumes "descending (fq t)"
  shows "sorted (rev (map (\<lambda>i. (fq t i + 1) div 2) (leaf_list t)))"
proof -
  have "sorted_wrt (<) (leaf_list t)" unfolding leaf_list_def by (intro sorted_wrt_filter) simp
  then have "sorted_wrt (\<lambda>i j. (fq t j + 1) div 2 \<le> (fq t i + 1) div 2) (leaf_list t)"
  proof (rule sorted_wrt_mono_rel [rotated])
    fix i j assume "i \<in> set (leaf_list t)" "j \<in> set (leaf_list t)" "i < j"
    then have "fq t j \<le> fq t i" using descendingD [OF assms, of i j] by (simp add: leaf_list_def)
    then show "(fq t j + 1) div 2 \<le> (fq t i + 1) div 2" by (intro div_le_mono) simp
  qed
  then show ?thesis by (simp add: sorted_wrt_rev sorted_wrt_map)
qed

lemma rebuild_start:
  assumes ok: "dyn_tree_ok t"
  shows "rebuilding (half_freq t) 627 627 (rev (halved t)) (\<Sum>v<314. half_freq t v) t"
proof -
  note facts = tree_atD [OF ok [unfolded dyn_tree_ok_def]]
  have d: "descending (fq t)" using facts(3) by (simp add: freqs_def)
  let ?I = "leaf_list t" and ?v = "\<lambda>i. leaf_value (kind t i)" and ?f = "\<lambda>i. (fq t i + 1) div 2"
  have vals: "map value_of (halved t) = map (\<lambda>i. (?v i, ?f i)) ?I" by (rule halved_values [OF ok])
  have fst: "map fst (map value_of (halved t)) = map ?v ?I" and snd: "map snd (map value_of (halved t)) = map ?f ?I"
    unfolding vals by simp_all
  have inI: "i < 627 \<and> kind t i = KLeaf (?v i) \<and> ?v i < 314 \<and> leaf_index t (?v i) = i" if i: "i \<in> set ?I" for i
  proof -
    obtain v where v: "v < 314" "i = leaf_index t v" using i unfolding set_leaf_list [OF facts(2)] by auto
    then show ?thesis using links_leaf [OF facts(2) v(1)] by simp
  qed
  have set_vals: "?v ` set ?I = {..<314}"
    unfolding set_leaf_list [OF facts(2)] using links_leaf [OF facts(2)] by (force simp: image_iff)
  have inj: "inj_on ?v (set ?I)" using inI by (intro inj_onI) metis
  have dist: "distinct ?I" by (simp add: leaf_list_def)
  have pairs: "set (map value_of (rev (halved t))) = (\<lambda>i. (?v i, ?f i)) ` set ?I"
  proof -
    have "set (map value_of (rev (halved t))) = set (map value_of (halved t))" by simp
    then show ?thesis unfolding vals by simp
  qed
  have "waiting 627 (map value_of (rev (halved t))) = all_kinds"
    unfolding waiting_def pairs all_kinds_def set_vals [symmetric] by (simp add: image_image)
  moreover have "distinct (map fst (map value_of (rev (halved t))))"
    using inj dist fst by (simp add: rev_map [symmetric] distinct_map)
  ultimately have "written (kind t) (fq t) (par t, leaf_index t) 627 627 (map value_of (rev (halved t)))"
    unfolding written_def by auto
  moreover have "ordered (fq t) 627 (map value_of (rev (halved t)))"
    unfolding ordered_def
  proof (intro conjI ballI allI impI)
    show "sorted (map snd (map value_of (rev (halved t))))"
      using sorted_halves [OF d] snd by (simp add: rev_map [symmetric])
    fix p assume "p \<in> set (map value_of (rev (halved t)))"
    then obtain i where "i \<in> set ?I" "p = (?v i, ?f i)" unfolding pairs by auto
    then show "1 \<le> snd p" using inI [of i] descending_pos [OF d, of i] by simp
  qed auto
  moreover have "weighed (half_freq t) (kind t) (fq t) 627 (map value_of (rev (halved t)))"
    unfolding weighed_def pairs using inI by (auto simp: half_freq_def leaf_freq_def)
  moreover have "list_all leaf_entry (rev (halved t))"
  proof -
    have "leaf_entry (nd_entry n, x)" if "is_leaf (nd_entry n)" for n x
      using that as_type_as_value [of "nd_entry n"] by (auto simp: as_type_is_leaf leaf_entry_def)
    then show ?thesis by (auto simp: list_all_iff halved_def)
  qed
  moreover have "length (halved t) = 314"
    using length_leaf_list [OF facts(2)] arg_cong [OF vals, of length] by simp
  then have "counts 627 627 (map value_of (rev (halved t)))" by (simp add: counts_def)
  moreover have "total (fq t) 627 627 (map value_of (rev (halved t))) = (\<Sum>v<314. half_freq t v)"
  proof -
    have "sum_list (map snd (map value_of (rev (halved t)))) = sum_list (map ?f ?I)"
      unfolding snd [symmetric] by (simp add: rev_map [symmetric])
    also have "\<dots> = (\<Sum>i\<in>set ?I. ?f i)" using dist by (simp add: sum_list_distinct_conv_sum_set)
    also have "\<dots> = (\<Sum>v<314. half_freq t v)"
      unfolding set_leaf_list [OF facts(2)]
      by (simp add: sum.reindex [OF leaf_positions(2) [OF facts(2)]] half_freq_def leaf_freq_def)
    finally show ?thesis by (simp add: total_def)
  qed
  ultimately show ?thesis using facts(1) by (simp add: rebuilding_def)
qed

lemma half_total:
  assumes "dyn_tree_ok t"
  shows "(\<Sum>v<314. half_freq t v) \<le> 16541"
proof -
  note facts = tree_atD [OF assms [unfolded dyn_tree_ok_def]]
  have "2 * (\<Sum>v<314. half_freq t v) \<le> (\<Sum>v<314. leaf_freq t v + 1)"
    unfolding sum_distrib_left half_freq_def by (intro sum_mono) simp
  also have "\<dots> = (\<Sum>v<314. leaf_freq t v) + 314" unfolding sum.distrib by simp
  also have "(\<Sum>v<314. leaf_freq t v) = fq t 0"
    unfolding leaf_freq_def using leaves_total [OF facts(2)] facts(3) by (simp add: freqs_def)
  finally show ?thesis using facts(5) by simp
qed

lemma rebuild_tree_Ok:
  assumes ok: "dyn_tree_ok t"
  obtains t' where "rebuild_tree t = ((Ok (), t') :: ('e, _) outcome \<times> _)" and "dyn_tree_ok t'" and "fq t' 0 \<le> 16541"
    and "\<And>v. v < 314 \<Longrightarrow> leaf_freq t' v = half_freq t v"
proof -
  let ?T = "\<Sum>v<314. half_freq t v"
  have T: "?T \<le> 16541" by (rule half_total [OF ok])
  have "resumable 627 627 t" by (simp add: resumable_def)
  then obtain t1 where t1: "rebuild_nodes 627 (rev (halved t), 627) t = ((Ok (), t1) :: ('e, _) outcome \<times> _)"
      "rebuilding (half_freq t) 1 0 [] ?T t1"
    using rebuild_nodes_Ok [OF rebuild_start [OF ok]] T by fastforce
  note links = rebuilt_tree [OF t1(2)]
  have "descending (fq t1)" using links(3) by (simp add: freqs_def)
  then obtain t2 where t2: "rebuild_groups t1 = ((Ok (), t2) :: ('e, _) outcome \<times> _)" "shape t2" "same_links t1 t2"
      "grouping (fq t2) (grp t2) (lead t2) (free_groups t2)"
    using rebuild_groups_Ok [OF links(1)] by blast
  have same: "kind t2 = kind t1" "fq t2 = fq t1" "par t2 = par t1" "leaf_index t2 = leaf_index t1"
    using t2(3) by (simp_all add: same_links_def)
  have "rebuild_tree t = ((Ok (), t2) :: ('e, _) outcome \<times> _)"
    unfolding rebuild_tree_def bnd_Ok [of leave_nodes, OF leave_nodes_Ok [OF ok]] num_nodes_eq
      bnd_Ok [of "rebuild_nodes _ _", OF t1(1)]
    by (rule t2(1))
  moreover have "dyn_tree_ok t2"
    unfolding dyn_tree_ok_def tree_at_def using t2(2,4) links T by (simp only: same) simp
  moreover have "fq t2 0 \<le> 16541" using links(4) T by (simp add: same)
  moreover have "leaf_freq t2 v = half_freq t v" if v: "v < 314" for v
    using links_leaf [OF links(2) v] t1(2) unfolding leaf_freq_def same rebuilding_def weighed_def by simp
  ultimately show thesis by (rule that)
qed

subsection \<open>Counting a value\<close>

definition before_count :: "dyn_tree \<Rightarrow> nat \<Rightarrow> nat" where
  "before_count t v = (if reorder_limit \<le> fq t 0 then half_freq t v else leaf_freq t v)"

lemma increment_for_value_Ok:
  assumes ok: "dyn_tree_ok t" and v: "unat v < 314"
  obtains t' where "increment_for_value v t = ((Ok (), t') :: ('e, _) outcome \<times> _)" and "dyn_tree_ok t'"
    and "\<And>w. w < 314 \<Longrightarrow> leaf_freq t' w = before_count t w + of_bool (w = unat v)"
proof -
  have sh: "shape t" using ok by (simp add: dyn_tree_ok_def tree_at_def)
  note len = shapeD(1) [OF sh]
  have n: "get_node 0 t = ((Ok (dt_nodes t ! 0), t) :: ('e, _) outcome \<times> _)" using len by (intro get_node_Ok) simp
  obtain t1 where t1: "(if reorder_limit \<le> unat (nd_freq (dt_nodes t ! 0)) then rebuild_tree else ret ()) t = ((Ok (), t1) :: ('e, _) outcome \<times> _)"
      "dyn_tree_ok t1" "fq t1 0 < 32768" "\<And>v. v < 314 \<Longrightarrow> leaf_freq t1 v = before_count t v"
  proof (cases "reorder_limit \<le> unat (nd_freq (dt_nodes t ! 0))")
    case True
    obtain t1 where "rebuild_tree t = ((Ok (), t1) :: ('e, _) outcome \<times> _)" "dyn_tree_ok t1" "fq t1 0 \<le> 16541"
        "\<And>v. v < 314 \<Longrightarrow> leaf_freq t1 v = half_freq t v"
      using rebuild_tree_Ok [OF ok] by blast
    with True show thesis by (intro that [of t1]) (simp_all add: before_count_def fq_def)
  next
    case False
    with ok show thesis by (intro that [of t]) (simp_all add: before_count_def fq_def ret_apply reorder_limit_def)
  qed
  obtain t2 where t2: "increment_root t1 = ((Ok (), t2) :: ('e, _) outcome \<times> _)" "tree_at (leaf_index t1 (unat v)) t2"
      "kind t2 = kind t1" "leaf_index t2 = leaf_index t1" "fq t2 = (fq t1)(0 := fq t1 0 + 1)"
    using increment_root_Ok [OF t1(2,3) v] by blast
  let ?i = "leaf_index t1 (unat v)"
  have links1: "links (kind t1) (par t1, leaf_index t1)" using t1(2) by (simp add: dyn_tree_ok_def tree_at_def)
  have i: "?i < 627" "kind t1 ?i = KLeaf (unat v)" using links_leaf [OF links1 v] by simp_all
  have "0 < ?i" using i(2) root_branch [OF links1] by (cases "?i = 0") simp_all
  have "length (dt_leaves t2) = 314" using t2(2) shapeD(2) [of t2] by (simp add: tree_at_def)
  then have l: "get_leaf_node_index v t2 = ((Ok ?i, t2) :: ('e, _) outcome \<times> _)"
    using v t2(4) by (simp add: get_leaf_node_index_def leaf_index_def fun_eq_iff)
  obtain t3 where t3: "increment_path 627 ?i t2 = ((Ok (), t3) :: ('e, _) outcome \<times> _)" "dyn_tree_ok t3"
      "\<forall>w<314. leaf_freq t3 w = leaf_freq t2 w + of_bool (0 < ?i \<and> kind t2 ?i = KLeaf w)"
    using increment_path_Ok [OF t2(2) i(1), of 627] i(1) by auto
  have "increment_for_value v t = ((Ok (), t3) :: ('e, _) outcome \<times> _)"
    unfolding increment_for_value_def num_nodes_eq bnd_Ok [of "get_node 0", OF n] bnd_Ok [of "if _ then _ else _", OF t1(1)]
      bnd_Ok [of increment_root, OF t2(1)] bnd_Ok [of "get_leaf_node_index v", OF l]
    by (rule t3(1))
  moreover have "leaf_freq t3 w = before_count t w + of_bool (w = unat v)" if w: "w < 314" for w
  proof -
    have "leaf_index t1 w \<noteq> 0" using links_leaf [OF links1 w] root_branch [OF links1] by (cases "leaf_index t1 w = 0") simp_all
    then have "leaf_freq t2 w = leaf_freq t1 w" by (simp add: leaf_freq_def t2(4,5))
    then show ?thesis using t3(3) t1(4) w t2(3) i(2) \<open>0 < ?i\<close> by auto
  qed
  ultimately show thesis using t3(2) that by blast
qed

end
