(* ===== verification/Dyn_New.thy ===== *)
theory Dyn_New
  imports Dyn_Count
begin

text \<open>
  The first tree: node \<open>i\<close> is the parent of the nodes \<open>2 i + 1\<close> and \<open>2 i + 2\<close>, the leaves are the last
  314 nodes. The loops of \<open>new\<close> build it from the last branch to the root.
\<close>

subsection \<open>The frequencies of the first tree\<close>

function hf :: "nat \<Rightarrow> nat" where
  "hf j = (if 313 \<le> j then 1 else hf (2 * j + 1) + hf (2 * j + 2))"
  by auto
termination by (relation "measure (\<lambda>j. 627 - j)") auto

declare hf.simps [simp del]

lemma hf_leaf: "313 \<le> j \<Longrightarrow> hf j = 1"
  by (simp add: hf.simps)

lemma hf_branch: "j < 313 \<Longrightarrow> hf j = hf (2 * j + 1) + hf (2 * j + 2)"
  by (subst hf.simps) simp

lemma hf_pos: "1 \<le> hf j"
proof (induction j rule: hf.induct)
  case (1 j)
  then show ?case by (subst hf.simps) auto
qed

lemma hf_step: "hf (Suc j) \<le> hf j"
proof (induction "627 - j" arbitrary: j rule: less_induct)
  case less
  show ?case
  proof (cases "Suc j < 313")
    case True
    have "hf (2 * Suc j + 1) \<le> hf (2 * j + 2)" "hf (2 * j + 2) \<le> hf (2 * j + 1)" "hf (2 * Suc j + 2) \<le> hf (2 * Suc j + 1)"
      using less [of "2 * j + 2"] less [of "2 * j + 1"] less [of "2 * j + 3"] True by (simp_all add: eval_nat_numeral)
    then show ?thesis using hf_branch [OF True] hf_branch [of j] True by simp
  next
    case False
    then show ?thesis using hf_leaf [of "Suc j"] hf_pos [of j] by simp
  qed
qed

lemma hf_mono: "i \<le> j \<Longrightarrow> hf j \<le> hf i"
  by (rule lift_Suc_antimono_le [of hf]) (simp_all add: hf_step)

text \<open>The nodes from \<open>k\<close> to \<open>2 k\<close> cut the tree, so their frequencies add up to the number of leaves.\<close>

lemma hf_cut: "k \<le> 313 \<Longrightarrow> (\<Sum>j = k..2 * k. hf j) = 314"
proof (induction k rule: inc_induct)
  case base
  have "(\<Sum>j = 313..2 * 313. hf j) = (\<Sum>j = 313..2 * 313 :: nat. 1)" by (intro sum.cong) (simp_all add: hf_leaf)
  then show ?case by simp
next
  case (step k)
  have "(\<Sum>j = k..2 * k. hf j) = hf k + (\<Sum>j = Suc k..2 * k. hf j)" by (simp add: sum.atLeast_Suc_atMost)
  also have "\<dots> = (\<Sum>j = Suc k..2 * k. hf j) + hf (2 * k + 1) + hf (2 * k + 2)" using hf_branch [of k] step by simp
  also have "\<dots> = (\<Sum>j = Suc k..2 * Suc k. hf j)" by simp
  finally show ?case using step by simp
qed

lemma hf_root: "hf 0 = 314"
  using hf_cut [of 0] by simp

lemma hf_le: "hf j \<le> 314"
  using hf_mono [of 0 j] by (simp add: hf_root)

subsection \<open>A tree that is built from its leaves\<close>

definition built :: "nat \<Rightarrow> dyn_tree \<Rightarrow> bool" where
  "built k t \<longleftrightarrow> k \<le> 313 \<and> shape t \<and>
     (\<forall>i. k \<le> i \<and> i < 627 \<longrightarrow> kind t i = (if i < 313 then KBranch (2 * i + 2) else KLeaf (626 - i)) \<and> fq t i = hf i) \<and>
     (\<forall>j. 2 * k < j \<and> j < 627 \<longrightarrow> par t j = (j - 1) div 2) \<and> (\<forall>v<314. leaf_index t v = 626 - v)"

definition numbered :: "nat \<Rightarrow> u16 \<Rightarrow> dyn_tree \<Rightarrow> bool" where
  "numbered k x t \<longleftrightarrow> gr_groups (dt_groups t) = map of_nat [0..<627] \<and>
     unat (gr_ngroups (dt_groups t)) = Suc (unat x) \<and> unat x \<le> 626 - k \<and> grp t k = unat x \<and>
     (\<forall>a b. k \<le> a \<and> a < 627 \<and> k \<le> b \<and> b < 627 \<longrightarrow> (grp t a = grp t b \<longleftrightarrow> hf a = hf b)) \<and>
     grp t ` {k..<627} = {..unat x} \<and> (\<forall>g<627. unat x \<le> g \<longrightarrow> lead t g = 0) \<and>
     (\<forall>a. k \<le> a \<and> a < 627 \<and> grp t a \<noteq> unat x \<longrightarrow>
        lead t (grp t a) \<le> a \<and> hf (lead t (grp t a)) = hf a \<and> (\<forall>j<lead t (grp t a). hf j \<noteq> hf a))"

lemma numbered_same:
  "numbered k x t \<Longrightarrow> k \<le> a \<Longrightarrow> a < 627 \<Longrightarrow> k \<le> b \<Longrightarrow> b < 627 \<Longrightarrow> grp t a = grp t b \<longleftrightarrow> hf a = hf b"
  by (simp add: numbered_def)

lemma built_tree_ok:
  assumes b: "built 0 t" and n: "numbered 0 x t"
  shows "dyn_tree_ok t"
proof -
  have sh: "shape t" and kd: "\<And>i. i < 627 \<Longrightarrow> kind t i = (if i < 313 then KBranch (2 * i + 2) else KLeaf (626 - i))"
      and fq: "\<And>i. i < 627 \<Longrightarrow> fq t i = hf i" and pr: "\<And>j. 0 < j \<Longrightarrow> j < 627 \<Longrightarrow> par t j = (j - 1) div 2"
      and lf: "\<And>v. v < 314 \<Longrightarrow> leaf_index t v = 626 - v"
    using b by (auto simp: built_def)
  have "kind t ` {..<627} = all_kinds"
  proof (intro equalityI subsetI)
    fix k assume "k \<in> kind t ` {..<627}"
    then show "k \<in> all_kinds" using kd by (auto simp: leaf_in_all branch_in_all split: if_splits)
  next
    fix k assume "k \<in> all_kinds"
    then consider v where "v < 314" "k = KLeaf v" | m where "1 \<le> m" "m \<le> 313" "k = KBranch (2 * m)"
      by (auto simp: all_kinds_def)
    then show "k \<in> kind t ` {..<627}"
    proof cases
      case 1
      then have "k = kind t (626 - v)" using kd by simp
      moreover have "626 - v \<in> {..<627}" by simp
      ultimately show ?thesis by blast
    next
      case 2
      then obtain m' where "m = Suc m'" by (cases m) auto
      with 2 have "k = kind t m'" "m' \<in> {..<627}" using kd [of m'] by simp_all
      then show ?thesis by blast
    qed
  qed
  moreover have "owner_ok (par t, leaf_index t) i (kind t i) \<and> below i (kind t i)" if "i < 627" for i
    using that kd [OF that] pr [of "2 * i + 1"] pr [of "2 * i + 2"] lf [of "626 - i"] by auto
  ultimately have "links (kind t) (par t, leaf_index t)" unfolding links_def by blast
  moreover have "freqs (kind t) (fq t) 0"
    unfolding freqs_def descending_def sums_def
  proof (intro conjI allI impI)
    fix j c assume j: "j < 627" "kind t j = KBranch c"
    then have "j < 313" "c = 2 * j + 2" using kd by (simp_all split: if_splits)
    then show "fq t j + of_bool (j = 0) = fq t c + fq t (c - 1) + of_bool (j = 0)"
      using fq hf_branch [of j] by simp
  qed (use fq hf_pos hf_mono in auto)
  moreover have "grouping (fq t) (grp t) (lead t) (free_groups t)"
  proof (rule regrouped_grouping)
    have ld: "lead t (grp t a) \<le> a \<and> hf (lead t (grp t a)) = hf a \<and> (\<forall>j<lead t (grp t a). hf j \<noteq> hf a)" if a: "a < 627" for a
    proof (cases "grp t a = unat x")
      case True
      moreover have "unat x < 627" using n by (simp add: numbered_def)
      moreover have eq: "\<forall>a b. 0 \<le> a \<and> a < 627 \<and> 0 \<le> b \<and> b < 627 \<longrightarrow> (grp t a = grp t b \<longleftrightarrow> hf a = hf b)"
        and "grp t 0 = unat x" and "\<forall>g<627. unat x \<le> g \<longrightarrow> lead t g = 0"
        using n unfolding numbered_def by blast+
      ultimately have "lead t (grp t a) = 0" "hf a = hf 0" using a eq [rule_format, of a 0] by simp_all
      then show ?thesis by simp
    next
      case False
      then show ?thesis using n a by (simp add: numbered_def)
    qed
    have all: "{0..<627::nat} = {..<627}" by auto
    have "fq t (lead t (grp t a)) = fq t a" "\<And>j. j < lead t (grp t a) \<Longrightarrow> fq t j \<noteq> fq t a" if "a < 627" for a
      using ld [OF that] that fq by simp_all
    then show "regrouped 627 t"
      using n sh fq ld unfolding regrouped_def numbered_def all
      by (auto simp: lessThan_Suc_atMost)
  qed
  moreover have "fq t 0 \<le> 32768" by (simp add: fq hf_root)
  ultimately show ?thesis using sh by (simp add: dyn_tree_ok_def tree_at_def)
qed

subsection \<open>The loops\<close>

text \<open>The group of the next branch.\<close>

lemma next_group:
  assumes n: "numbered (Suc i) x t" and sh: "shape t" and i: "i < 313"
    and lf: "fr \<noteq> last_freq \<longleftrightarrow> hf i \<noteq> hf (Suc i)"
  obtains y g where "(if fr \<noteq> last_freq then bnd (on_groups (set_leader_index x (i + 1))) (\<lambda>_. on_groups allocate)
      else ret x) t = ((Ok y, t\<lparr>dt_groups := g\<rparr>) :: ('e, _) outcome \<times> _)"
    and "shape (t\<lparr>dt_groups := g\<rparr>)" and "\<And>t'. dt_groups t' = g \<Longrightarrow> grp t' = (grp t)(i := unat y) \<Longrightarrow> numbered i y t'"
proof (cases "hf i = hf (Suc i)")
  case True
  have "numbered i x t'" if t': "dt_groups t' = dt_groups t" "grp t' = (grp t)(i := unat x)" for t'
  proof -
    have ld: "lead t' = lead t" using t'(1) by (simp add: lead_def [abs_def])
    have eq: "{i..<627} = insert i {Suc i..<627}" using i by auto
    have rest: "(grp t)(i := unat x) ` {Suc i..<627} = grp t ` {Suc i..<627}" by (intro image_cong) auto
    have img: "(grp t)(i := unat x) ` {i..<627} = {..unat x}"
      unfolding eq image_insert fun_upd_same rest using n by (auto simp: numbered_def)
    have le: "a = i \<or> Suc i \<le> a" if "i \<le> a" for a using that by auto
    have si: "hf a = hf (Suc i) \<longleftrightarrow> grp t a = unat x" if "Suc i \<le> a" "a < 627" for a
    proof -
      have "grp t (Suc i) = unat x" using n by (simp add: numbered_def)
      then show ?thesis using numbered_same [OF n that, of "Suc i"] i by simp
    qed
    show ?thesis
      unfolding numbered_def t' ld
    proof (intro conjI allI impI)
      fix a b assume "i \<le> a \<and> a < 627 \<and> i \<le> b \<and> b < 627"
      then show "((grp t)(i := unat x)) a = ((grp t)(i := unat x)) b \<longleftrightarrow> hf a = hf b"
        using le [of a] le [of b] si [of a] si [of b] numbered_same [OF n, of a b] True by auto
    qed (use n img le in \<open>auto simp: numbered_def split: if_splits\<close>)
  qed
  moreover have "(if fr \<noteq> last_freq then bnd (on_groups (set_leader_index x (i + 1))) (\<lambda>_. on_groups allocate)
      else ret x) t = ((Ok x, t\<lparr>dt_groups := dt_groups t\<rparr>) :: ('e, _) outcome \<times> _)"
    using lf True by (simp add: ret_apply)
  ultimately show thesis using that [of x "dt_groups t"] sh by simp
next
  case False
  let ?g = "dt_groups t"
  have g: "gr_groups ?g = map of_nat [0..<627]" "unat (gr_ngroups ?g) = Suc (unat x)" "unat x \<le> 626 - Suc i"
    using n by (simp_all add: numbered_def)
  note len = shapeD [OF sh]
  have x: "unat x < 626" "unat x < 627" "i + 1 < 627" using g(3) i by simp_all
  note sl = set_leader_Ok [OF len(4) x(2,3)]
  define g1 where "g1 = ?g\<lparr>gr_leaders := (gr_leaders ?g)[unat x := of_nat (i + 1)]\<rparr>"
  note sl = sl [folded g1_def]
  define y where "y = (of_nat (Suc (unat x)) :: u16)"
  have y: "unat y = Suc (unat x)" unfolding y_def using x by (intro unat_index) simp
  define g2 where "g2 = g1\<lparr>gr_ngroups := gr_ngroups g1 + 1\<rparr>"
  have ng: "unat (gr_ngroups g2) = Suc (Suc (unat x))"
    unfolding g2_def g1_def using g(2) x by simp (subst unat_add_lem [THEN iffD1]; simp)
  have "set_leader_index x (i + 1) ?g = ((Ok (), g1) :: ('e, _) outcome \<times> _)" by (rule sl(1))
  then have s1: "on_groups (set_leader_index x (i + 1)) t = ((Ok (), t\<lparr>dt_groups := g1\<rparr>) :: ('e, _) outcome \<times> _)"
    by (rule on_groups_apply)
  have "allocate g1 = ((Ok y, g2) :: ('e, _) outcome \<times> _)"
    using g x by (simp add: allocate_def g1_def g2_def y_def Let_def del: upt_Suc of_nat_Suc)
  then have s2: "on_groups allocate (t\<lparr>dt_groups := g1\<rparr>) = ((Ok y, t\<lparr>dt_groups := g2\<rparr>) :: ('e, _) outcome \<times> _)"
    using on_groups_apply [of allocate "t\<lparr>dt_groups := g1\<rparr>" "Ok y" g2] by simp
  have "(if fr \<noteq> last_freq then bnd (on_groups (set_leader_index x (i + 1))) (\<lambda>_. on_groups allocate)
      else ret x) t = ((Ok y, t\<lparr>dt_groups := g2\<rparr>) :: ('e, _) outcome \<times> _)"
    unfolding if_P [OF lf [THEN iffD2, OF False]] bnd_Ok [of "on_groups (set_leader_index x (i + 1))", OF s1]
    by (rule s2)
  moreover have "shape (t\<lparr>dt_groups := g2\<rparr>)" using sh ng x by (simp add: shape_def g2_def g1_def)
  moreover have "numbered i y t'" if t': "dt_groups t' = g2" "grp t' = (grp t)(i := unat y)" for t'
  proof -
    have "lead t' = (\<lambda>k. unat (gr_leaders g1 ! k))" using t'(1) by (simp add: lead_def [abs_def] g2_def)
    then have ld: "lead t' = (lead t)(unat x := i + 1)" using sl(2) by (simp add: lead_def [abs_def])
    have eq: "{i..<627} = insert i {Suc i..<627}" using i by auto
    have rest: "(grp t)(i := unat y) ` {Suc i..<627} = grp t ` {Suc i..<627}" by (intro image_cong) auto
    have img: "(grp t)(i := unat y) ` {i..<627} = {..unat y}"
      unfolding eq image_insert fun_upd_same rest using n y by (simp add: numbered_def atMost_Suc)
    have le: "a = i \<or> Suc i \<le> a" if "i \<le> a" for a using that by auto
    have old: "grp t a \<le> unat x" if "Suc i \<le> a" "a < 627" for a
    proof -
      have "grp t a \<in> {..unat x}" using n that unfolding numbered_def by (metis atLeastLessThan_iff image_eqI)
      then show ?thesis by simp
    qed
    have drop: "hf a < hf i" if "Suc i \<le> a" for a
      using hf_mono [OF that] hf_step [of i] False by simp
    have si: "hf a = hf (Suc i)" if "Suc i \<le> a" "a < 627" "grp t a = unat x" for a
    proof -
      have "grp t (Suc i) = unat x" using n by (simp add: numbered_def)
      then show ?thesis using numbered_same [OF n that(1,2), of "Suc i"] that(3) i by simp
    qed
    show ?thesis
      unfolding numbered_def ld t'(2)
    proof (intro conjI allI impI)
      fix a b assume ab: "i \<le> a \<and> a < 627 \<and> i \<le> b \<and> b < 627"
      then show "((grp t)(i := unat y)) a = ((grp t)(i := unat y)) b \<longleftrightarrow> hf a = hf b"
        using le [of a] le [of b] old [of a] old [of b] drop [of a] drop [of b] numbered_same [OF n, of a b] y by auto
    next
      fix a j assume a: "i \<le> a \<and> a < 627 \<and> ((grp t)(i := unat y)) a \<noteq> unat y"
      then have ai: "Suc i \<le> a" "a < 627" using le [of a] by auto
      have new: "hf j \<noteq> hf a" if "j < i + 1" "grp t a = unat x"
        using hf_mono [of j i] drop [of "Suc i"] si [OF ai that(2)] that(1) by simp
      show "((lead t)(unat x := i + 1)) (((grp t)(i := unat y)) a) \<le> a"
        "hf (((lead t)(unat x := i + 1)) (((grp t)(i := unat y)) a)) = hf a"
        using n ai si [OF ai] by (auto simp: numbered_def)
      show "hf j \<noteq> hf a" if "j < ((lead t)(unat x := i + 1)) (((grp t)(i := unat y)) a)"
        using n ai new that by (auto simp: numbered_def split: if_splits)
    qed (use n img y ng t'(1) x i g in \<open>auto simp: numbered_def g2_def g1_def\<close>)
  qed
  ultimately show thesis by (rule that)
qed

text \<open>One pass of the loop.\<close>

lemma numbered_cong: "dt_groups t' = dt_groups t \<Longrightarrow> grp t' = grp t \<Longrightarrow> numbered k x t' \<longleftrightarrow> numbered k x t"
  by (simp add: numbered_def lead_def)

definition branch_freq :: "nat \<Rightarrow> u16" where
  "branch_freq i = (if i < 313 then of_nat (hf i) else 0)"

lemma unat_hf: "unat (of_nat (hf i) :: u16) = hf i"
  using hf_le [of i] by (intro unat_index) simp

lemma branch_freq_last: "i < 313 \<Longrightarrow> (of_nat (hf i) :: u16) \<noteq> branch_freq (Suc i) \<longleftrightarrow> hf i \<noteq> hf (Suc i)"
proof (cases "Suc i < 313")
  case True
  then show ?thesis using unat_hf [of i] unat_hf [of "Suc i"] unfolding branch_freq_def by (metis (full_types))
next
  case False
  moreover assume i: "i < 313"
  ultimately have "hf (Suc i) = 1" "hf i = 2" "i = 312" by (simp_all add: hf_leaf hf_branch)
  then show ?thesis by (simp add: branch_freq_def)
qed

lemma new_branch_step:
  assumes b: "built (Suc i) t" and n: "numbered (Suc i) x t" and i: "i < 313"
  obtains y t' where "\<And>ps. new_branches ((2 * i + 2, i) # ps) (branch_freq (Suc i), x) t
      = (new_branches ps (branch_freq i, y) t' :: ('e, _) outcome \<times> _)"
    and "built i t'" and "numbered i y t'"
proof -
  have sh: "shape t" and kd: "\<And>j. Suc i \<le> j \<Longrightarrow> j < 627 \<Longrightarrow> kind t j = (if j < 313 then KBranch (2 * j + 2) else KLeaf (626 - j))"
      and fq: "\<And>j. Suc i \<le> j \<Longrightarrow> j < 627 \<Longrightarrow> fq t j = hf j"
      and pr: "\<And>j. 2 * Suc i < j \<Longrightarrow> j < 627 \<Longrightarrow> par t j = (j - 1) div 2"
      and lf: "\<forall>v<314. leaf_index t v = 626 - v"
    using b by (auto simp: built_def)
  note len = shapeD [OF sh]
  let ?c = "2 * i + 2" and ?p = "\<lambda>n. n\<lparr>nd_parent := of_nat i\<rparr>"
  have c: "?c < 627" "?c - 1 < 627" "Suc i \<le> ?c" "Suc i \<le> ?c - 1" "i < 627" "?c - 1 \<noteq> i" "?c \<noteq> i" "?c - 1 = 2 * i + 1" using i by simp_all
  define fr where "fr = (of_nat (hf i) :: u16)"
  have sum: "unat (nd_freq (dt_nodes t ! (?c - 1))) + unat (nd_freq (dt_nodes t ! ?c)) = hf i"
    using fq [of ?c] fq [of "?c - 1"] c hf_branch [OF i] by (simp add: fq_def)
  then have fr: "nd_freq (dt_nodes t ! (?c - 1)) + nd_freq (dt_nodes t ! ?c) = fr"
    unfolding fr_def word_arith_nat_add by simp
  define t1 where "t1 = t\<lparr>dt_nodes := (dt_nodes t)[?c - 1 := ?p (dt_nodes t ! (?c - 1))]\<rparr>"
  define t2 where "t2 = t1\<lparr>dt_nodes := (dt_nodes t1)[?c := ?p (dt_nodes t1 ! ?c)]\<rparr>"
  have s1: "get_node (?c - 1) t = ((Ok (dt_nodes t ! (?c - 1)), t) :: ('e, _) outcome \<times> _)"
    and s2: "get_node ?c t = ((Ok (dt_nodes t ! ?c), t) :: ('e, _) outcome \<times> _)"
    using c len by (simp_all add: get_node_Ok)
  have s3: "add16 (nd_freq (dt_nodes t ! (?c - 1))) (nd_freq (dt_nodes t ! ?c)) t = ((Ok fr, t) :: ('e, _) outcome \<times> _)"
    using sum hf_le [of i] fr by (simp add: add16_def ret_apply)
  have len1: "length (dt_nodes t1) = 627" "length (dt_nodes t2) = 627" using len by (simp_all add: t1_def t2_def)
  have s4: "update_node (?c - 1) ?p t = ((Ok (), t1) :: ('e, _) outcome \<times> _)"
    unfolding t1_def using c len by (intro update_node_Ok) simp
  have s5: "update_node ?c ?p t1 = ((Ok (), t2) :: ('e, _) outcome \<times> _)"
    unfolding t2_def using c len1 by (intro update_node_Ok) simp
  have t2: "dt_groups t2 = dt_groups t" "dt_leaves t2 = dt_leaves t" by (simp_all add: t2_def t1_def)
  have sh2: "shape t2" using sh len1 by (simp add: shape_def t2)
  have nodes2: "dt_nodes t2 = (dt_nodes t)[?c - 1 := ?p (dt_nodes t ! (?c - 1)), ?c := ?p (dt_nodes t ! ?c)]"
    by (simp add: t2_def t1_def)
  have funs2: "grp t2 = grp t" "kind t2 = kind t" "fq t2 = fq t" "leaf_index t2 = leaf_index t"
      "par t2 = (par t)(?c - 1 := i, ?c := i)"
    using c len by (auto simp: nodes2 t2 tree_funs fun_eq_iff nth_list_update unat_index)
  have n2: "numbered (Suc i) x t2" using n numbered_cong [OF t2(1) funs2(1)] by simp
  have ne: "fr \<noteq> branch_freq (Suc i) \<longleftrightarrow> hf i \<noteq> hf (Suc i)" unfolding fr_def by (rule branch_freq_last [OF i])
  obtain y g where s6: "(if fr \<noteq> branch_freq (Suc i) then bnd (on_groups (set_leader_index x (i + 1))) (\<lambda>_. on_groups allocate)
      else ret x) t2 = ((Ok y, t2\<lparr>dt_groups := g\<rparr>) :: ('e, _) outcome \<times> _)"
    and sh3: "shape (t2\<lparr>dt_groups := g\<rparr>)" and num: "\<And>t'. dt_groups t' = g \<Longrightarrow> grp t' = (grp t2)(i := unat y) \<Longrightarrow> numbered i y t'"
    using next_group [OF n2 sh2 i ne] by metis
  define t3 where "t3 = t2\<lparr>dt_groups := g\<rparr>"
  define node where "node = \<lparr>nd_entry = TreeEntry (of_nat ?c), nd_freq = fr, nd_parent = 0, nd_group = y\<rparr>"
  have s7: "new_branch ?c fr y t3 = ((Ok node, t3) :: ('e, _) outcome \<times> _)"
    using c by (simp add: new_branch_def num_nodes_eq branch_eq node_def ret_apply)
  define t4 where "t4 = t3\<lparr>dt_nodes := (dt_nodes t3)[i := node]\<rparr>"
  have s8: "update_node i (\<lambda>n. node) t3 = ((Ok (), t4) :: ('e, _) outcome \<times> _)"
    unfolding t4_def using c len1 by (intro update_node_Ok) (simp add: t3_def)
  have run: "new_branches ((?c, i) # ps) (branch_freq (Suc i), x) t
      = (new_branches ps (branch_freq i, y) t4 :: ('e, _) outcome \<times> _)" for ps
    unfolding new_branches.simps bnd_Ok [of "get_node (?c - 1)", OF s1] bnd_Ok [of "get_node ?c", OF s2]
      bnd_Ok [of "add16 _ _", OF s3] bnd_Ok [of "update_node (?c - 1) _", OF s4] bnd_Ok [of "update_node ?c _", OF s5]
      bnd_Ok [of "if _ then _ else _", OF s6] t3_def [symmetric] bnd_Ok [of "new_branch _ _ _", OF s7] bnd_Ok [of "update_node i _", OF s8]
    by (simp add: branch_freq_def fr_def i)
  have t4: "dt_nodes t4 = (dt_nodes t2)[i := node]" "dt_leaves t4 = dt_leaves t2" "dt_groups t4 = g"
    by (simp_all add: t4_def t3_def)
  have kn: "kind_of (as_type (nd_entry node)) = KBranch ?c"
  proof -
    have "as_type (nd_entry node) = Branch (of_nat ?c)"
      using branch_Ok [OF branch_eq [of ?c]] c(1) by (simp add: node_def del: of_nat_add of_nat_mult)
    then show ?thesis using unat_index [OF c(1)] by (simp del: of_nat_add of_nat_mult)
  qed
  have funs4: "grp t4 = (grp t2)(i := unat y)" "kind t4 = (kind t)(i := KBranch ?c)" "fq t4 = (fq t)(i := hf i)"
      "leaf_index t4 = leaf_index t" "par t4 = (par t2)(i := 0)"
    using c len1 kn by (auto simp: fun_eq_iff funs2 [symmetric] tree_funs nth_list_update t4) (simp_all add: node_def fr_def unat_hf)
  have "shape t4" using sh3 by (simp add: shape_def t4)
  moreover have "kind t4 j = (if j < 313 then KBranch (2 * j + 2) else KLeaf (626 - j)) \<and> fq t4 j = hf j" if "i \<le> j" "j < 627" for j
    using kd [of j] fq [of j] that i by (cases "j = i") (auto simp: funs4)
  moreover have "par t4 j = (j - 1) div 2" if "2 * i < j" "j < 627" for j
  proof -
    have "j = ?c - 1 \<or> j = ?c \<or> 2 * Suc i < j" using that by arith
    then show ?thesis using pr [of j] that i by (elim disjE) (auto simp: funs4 funs2)
  qed
  ultimately have "built i t4" using lf i by (simp add: built_def funs4)
  moreover have "numbered i y t4" using num t4 funs4 by simp
  ultimately show thesis using run that by blast
qed

lemma new_branches_Ok:
  "built h t \<Longrightarrow> numbered h x t \<Longrightarrow> l \<le> h \<Longrightarrow> h \<le> 313 \<Longrightarrow>
   \<exists>y t'. new_branches (map (\<lambda>i. (2 * i + 2, i)) (rev [l..<h])) (branch_freq h, x) t
      = ((Ok (branch_freq l, y), t') :: ('e, _) outcome \<times> _) \<and> built l t' \<and> numbered l y t'"
proof (induction h arbitrary: x t)
  case 0
  then show ?case by (auto simp: ret_apply)
next
  case (Suc h)
  show ?case
  proof (cases "l = Suc h")
    case True
    then show ?thesis using Suc.prems by (auto simp: ret_apply)
  next
    case False
    then have l: "l \<le> h" and h: "h < 313" using Suc.prems(3,4) by simp_all
    obtain y t1 where s: "\<And>ps. new_branches ((2 * h + 2, h) # ps) (branch_freq (Suc h), x) t
        = (new_branches ps (branch_freq h, y) t1 :: ('e, _) outcome \<times> _)" and t1: "built h t1" "numbered h y t1"
      using new_branch_step [OF Suc.prems(1,2) h] by metis
    have "map (\<lambda>i. (2 * i + 2, i)) (rev [l..<Suc h]) = (2 * h + 2, h) # map (\<lambda>i. (2 * i + 2, i)) (rev [l..<h])"
      using l by simp
    then show ?thesis using s Suc.IH [OF t1 l] h by simp
  qed
qed

lemma zip_children:
  "p \<le> h \<Longrightarrow> zip (map (\<lambda>k. 2 * h - 2 * k) [0..<p]) (rev [0..<h]) = map (\<lambda>i. (2 * i + 2, i)) (rev [h - p..<h])"
  by (rule nth_equalityI) (auto simp: rev_nth)

lemma new_levels_Ok:
  "built h t \<Longrightarrow> numbered h x t \<Longrightarrow> h \<le> 313 \<Longrightarrow>
   \<exists>y t'. new_levels (h + 1) (2 * h + 1) (branch_freq h, x) t = ((Ok (), t') :: ('e, _) outcome \<times> _) \<and>
     built 0 t' \<and> numbered 0 y t'"
proof (induction h arbitrary: x t rule: less_induct)
  case (less h)
  show ?case
  proof (cases "h = 0")
    case True
    then show ?thesis using less.prems by (auto simp: new_levels.simps ret_apply)
  next
    case False
    define p where "p = (h + 1) div 2"
    have mod: "h + 1 = 2 * p + (h + 1) mod 2" by (simp add: p_def)
    have p: "1 \<le> p" "p \<le> h" "h - p < h" using False by (auto simp: p_def)
    have len: "h + 1 - p = (h - p) + 1" "2 * h + 1 - p * 2 = 2 * (h - p) + 1"
      "2 * h + 1 - p * 2 - (h + 1) mod 2 = h" "\<not> 2 * h + 1 < p * 2" "\<not> 2 * h + 1 - p * 2 < (h + 1) mod 2"
      using p mod by linarith+
    obtain y t1 where run: "new_branches (map (\<lambda>i. (2 * i + 2, i)) (rev [h - p..<h])) (branch_freq h, x) t
          = ((Ok (branch_freq (h - p), y), t1) :: ('e, _) outcome \<times> _)" and t1: "built (h - p) t1" "numbered (h - p) y t1"
      using new_branches_Ok [OF less.prems(1,2) _ less.prems(3), of "h - p"] by auto
    have gt: "1 < h + 1" using False by simp
    have kids: "map (\<lambda>k. 2 * h + 1 - 1 - 2 * k) [0..<p] = map (\<lambda>k. 2 * h - 2 * k) [0..<p]" by simp
    have "new_levels (h + 1) (2 * h + 1) (branch_freq h, x) t
        = (new_levels ((h - p) + 1) (2 * (h - p) + 1) (branch_freq (h - p), y) t1 :: ('e, _) outcome \<times> _)"
      unfolding new_levels.simps [of "h + 1"] if_P [OF gt] Let_def p_def [symmetric] len(3) if_not_P [OF len(4)] if_not_P [OF len(5)]
        kids zip_children [OF p(2)] bnd_Ok [of "new_branches _ _", OF run]
      unfolding len(1,2) by (rule refl)
    moreover have "h - p \<le> 313" using less.prems(3) by simp
    ultimately show ?thesis using less.IH [OF p(3) t1] by simp
  qed
qed

subsection \<open>The result\<close>

lemma new_built:
  assumes nodes: "dt_nodes t = replicate 313 node_default @ leaf_nodes 0"
    and leaves: "dt_leaves t = map (\<lambda>v. of_nat (num_nodes - 1) - of_nat v) [0..<num_leaves]"
    and g: "dt_groups t = groups_new\<lparr>gr_ngroups := 1\<rparr>"
  shows "built 313 t" and "numbered 313 0 t"
proof -
  have node: "dt_nodes t ! i = new_leaf (of_nat (626 - i)) 0" if "313 \<le> i" "i < 627" for i
    using that by (simp add: nodes nth_append leaf_nodes_def num_leaves_def rev_nth del: of_nat_diff upt_Suc)
  have kind: "kind t i = KLeaf (626 - i)" if i: "313 \<le> i" "i < 627" for i
  proof -
    have "unat (of_nat (626 - i) :: u16) = 626 - i" using i by (intro unat_index) simp
    moreover from this i have "take_bit 15 (of_nat (626 - i) :: u16) = of_nat (626 - i)" by (intro take_bit_15) simp
    ultimately have "kind_of (as_type (leaf (of_nat (626 - i)))) = KLeaf (626 - i)"
      unfolding as_type_leaf kind_of.simps by simp
    then show ?thesis unfolding kind_def node [OF i] new_leaf_def by simp
  qed
  have fq: "fq t i = 1" "grp t i = 0" if "313 \<le> i" "i < 627" for i
    unfolding fq_def grp_def node [OF that] new_leaf_def by simp_all
  have lf: "leaf_index t v = 626 - v" if "v < 314" for v
  proof -
    have "unat (of_nat 626 - of_nat v :: u16) = 626 - v"
      using that by (subst unat_sub) (simp_all add: word_le_nat_alt unat_index)
    then show ?thesis using that by (simp add: leaf_index_def leaves num_nodes_eq num_leaves_def del: upt_Suc)
  qed
  have "shape t" using nodes leaves g
    by (simp add: shape_def leaf_nodes_def num_leaves_def groups_new_def groups_reset_def num_nodes_eq del: upt_Suc)
  with kind fq(1) lf show "built 313 t" by (simp add: built_def hf_leaf)
  have "grp t ` {313..<627} = {0}" using fq(2) by force
  moreover have "lead t g = 0" if "g < 627" for g
    using that g by (simp add: lead_def groups_new_def groups_reset_def num_nodes_eq)
  moreover have later: "\<forall>a. 313 \<le> a \<and> a < 627 \<and> grp t a \<noteq> unat (0 :: u16) \<longrightarrow> P a" for P using fq(2) by auto
  ultimately show "numbered 313 0 t"
    unfolding numbered_def
    by (intro conjI later) (use fq(2) g in \<open>simp_all add: hf_leaf groups_new_def groups_reset_def num_nodes_eq del: upt_Suc\<close>)
qed

lemma dyn_tree_new_Ok:
  obtains t where "dyn_tree_new = (Ok t :: ('e, _) outcome)" and "dyn_tree_ok t"
    and "\<And>i. i < 627 \<Longrightarrow> kind t i = (if i < 313 then KBranch (2 * i + 2) else KLeaf (626 - i))"
    and "\<And>i. i < 627 \<Longrightarrow> fq t i = hf i" and "\<And>i. 0 < i \<Longrightarrow> i < 627 \<Longrightarrow> par t i = (i - 1) div 2"
    and "\<And>v. v < 314 \<Longrightarrow> leaf_index t v = 626 - v"
proof -
  define t0 where "t0 = \<lparr>dt_nodes = replicate num_nodes node_default,
      dt_leaves = map (\<lambda>v. of_nat (num_nodes - 1) - of_nat v) [0..<num_leaves], dt_groups = groups_new\<rparr>"
  define t1 where "t1 = t0\<lparr>dt_groups := groups_new\<lparr>gr_ngroups := 1\<rparr>\<rparr>"
  define t2 where "t2 = t1\<lparr>dt_nodes := take (num_nodes - num_leaves) (dt_nodes t1) @ leaf_nodes 0\<rparr>"
  have "allocate (dt_groups t0) = ((Ok 0, groups_new\<lparr>gr_ngroups := 1\<rparr>) :: ('e, _) outcome \<times> _)"
    by (simp add: t0_def allocate_def groups_new_def groups_reset_def num_nodes_eq del: upt_Suc)
  then have s1: "on_groups allocate t0 = ((Ok 0, t1) :: ('e, _) outcome \<times> _)"
    unfolding t1_def by (rule on_groups_apply)
  have s2: "modify (\<lambda>t. t\<lparr>dt_nodes := take (num_nodes - num_leaves) (dt_nodes t) @ leaf_nodes 0\<rparr>) t1 = ((Ok (), t2) :: ('e, _) outcome \<times> _)"
    by (simp add: modify_def t2_def)
  have "built 313 t2" "numbered 313 0 t2"
    by (rule new_built; simp add: t2_def t1_def t0_def num_nodes_eq num_leaves_def)+
  then obtain y t where run: "new_levels (313 + 1) (2 * 313 + 1) (branch_freq 313, 0) t2 = ((Ok (), t) :: ('e, _) outcome \<times> _)"
    and t: "built 0 t" "numbered 0 y t"
    using new_levels_Ok [of 313 t2 0] by auto
  have start: "new_levels num_leaves num_nodes (0, 0) = (new_levels (313 + 1) (2 * 313 + 1) (branch_freq 313, 0) :: (_, 'e, _) act)"
    by (simp add: num_nodes_eq num_leaves_def branch_freq_def)
  have "dyn_tree_new = (Ok t :: ('e, _) outcome)"
    unfolding dyn_tree_new_def Let_def t0_def [symmetric] bnd_Ok [of "on_groups allocate", OF s1]
      bnd_Ok [of "modify _", OF s2] start run by simp
  moreover have "kind t i = (if i < 313 then KBranch (2 * i + 2) else KLeaf (626 - i))" "fq t i = hf i" if "i < 627" for i
    using t(1) that by (simp_all add: built_def)
  moreover have "par t i = (i - 1) div 2" if "0 < i" "i < 627" for i using t(1) that by (simp add: built_def)
  moreover have "leaf_index t v = 626 - v" if "v < 314" for v using t(1) that by (simp add: built_def)
  ultimately show thesis using that built_tree_ok [OF t] by blast
qed

end
