(* ===== verification/Dyn_Read.thy ===== *)
theory Dyn_Read
  imports Dyn_New Bit_Codes
begin

text \<open>
  Reading a value with the adaptive tree: the walk from the root ends at a leaf on every input, the
  path to a leaf is a code for its value, and after a value was read its frequency has grown.
\<close>

subsection \<open>Counting fails with no error\<close>

text \<open>
  The operations on the tree return values and no errors, so their result does not depend on the
  type of the errors around them.
\<close>

named_theorems no_err

lemma map_err_bnd [no_err]: "map_err g (bnd m f) = bnd (map_err g m) (\<lambda>x. map_err g (f x))"
  by (rule ext) (simp add: map_err_def bnd_def split: prod.splits outcome.splits)

lemma map_err_ret [no_err]: "map_err g (ret x) = ret x"
  by (simp add: map_err_def ret_def)

lemma map_err_crash [no_err]: "map_err g (crash q) = crash q"
  by (simp add: map_err_def crash_def)

lemma map_err_if [no_err]: "map_err g (if b then m else n) = (if b then map_err g m else map_err g n)"
  by simp

lemma map_err_get_state [no_err]: "map_err g (get_state f) = get_state f"
  by (simp add: map_err_def get_state_def)

lemma map_err_modify [no_err]: "map_err g (modify f) = modify f"
  by (simp add: map_err_def modify_def)

lemma map_err_add16 [no_err]: "map_err g (add16 a b) = add16 a b"
  by (simp add: add16_def no_err)

lemma map_err_check [no_err]: "map_err g (check b q) = check b q"
  by (simp add: check_def no_err)

lemma map_err_on_groups [no_err]: "map_err g (on_groups m) = on_groups (map_err g m)"
  by (rule ext) (simp add: map_err_def on_groups_def zoom_def split: prod.splits)

lemma map_err_nodes [no_err]:
  "map_err g (get_node i) = get_node i" "map_err g (update_node i f) = update_node i f"
  "map_err g (set_leaf_node_index v i) = set_leaf_node_index v i"
  "map_err g (get_leaf_node_index v) = get_leaf_node_index v"
  by (rule ext; simp add: map_err_def get_node_def update_node_def set_leaf_node_index_def get_leaf_node_index_def)+

lemma map_err_groups [no_err]:
  "map_err g allocate = allocate" "map_err g (free x) = free x" "map_err g (set_leader_index x i) = set_leader_index x i"
  "map_err g (get_leader_index x) = get_leader_index x" "map_err g (set_next_node_as_leader x) = set_next_node_as_leader x"
  by (rule ext; simp add: map_err_def allocate_def free_def set_leader_index_def get_leader_index_def
    set_next_node_as_leader_def Let_def)+

lemma map_err_set_as_parent [no_err]: "map_err g (set_as_parent c i) = set_as_parent c i"
proof (rule ext)
  fix t
  have "map_err g (bnd (update_node (unat c - 1) f) (\<lambda>_. update_node (unat c) f)) t =
      bnd (update_node (unat c - 1) f) (\<lambda>_. update_node (unat c) f) t" for f
    by (simp add: no_err)
  then show "map_err g (set_as_parent c i) t = set_as_parent c i t"
    by (simp add: map_err_def set_as_parent_def Let_def)
qed

lemma map_err_owner [no_err]: "map_err g (update_entry_owner e i) = update_entry_owner e i"
  by (simp add: update_entry_owner_def no_err split: node_type.splits)

lemma map_err_promote [no_err]: "map_err g (promote_to_leader i) = promote_to_leader i"
  by (simp add: promote_to_leader_def no_err Let_def cong: if_cong)

lemma map_err_increment_frequency [no_err]: "map_err g (increment_frequency i) = increment_frequency i"
  by (simp add: increment_frequency_def no_err cong: if_cong)

lemma map_err_increment_path [no_err]: "map_err g (increment_path fuel i) = increment_path fuel i"
  by (induction fuel i rule: increment_path.induct) (simp_all add: no_err cong: if_cong)

lemma map_err_case_prod [no_err]: "map_err g (case p of (x, y) \<Rightarrow> m x y) = (case p of (x, y) \<Rightarrow> map_err g (m x y))"
  by (cases p) simp

lemma map_err_halve_all [no_err]: "map_err g (halve_all ns) = halve_all ns"
  by (induction ns) (simp_all add: no_err halve_def cong: if_cong)

lemma map_err_leave_nodes [no_err]: "map_err g leave_nodes = leave_nodes"
  by (simp add: leave_nodes_def no_err cong: if_cong)

lemma map_err_place_leaf [no_err]: "map_err g (place_leaf l i) = place_leaf l i"
  by (simp add: place_leaf_def no_err cong: if_cong)

lemma map_err_take_leaves [no_err]: "map_err g (take_leaves k rest) = take_leaves k rest"
  by (induction k rest rule: take_leaves.induct) (simp_all add: no_err split: list.splits)

lemma map_err_copy_leaves [no_err]: "map_err g (copy_leaves f rest) = copy_leaves f rest"
  by (induction f rest rule: copy_leaves.induct) (simp_all add: no_err cong: if_cong)

lemma map_err_make_branch [no_err]: "map_err g (make_branch c f i) = make_branch c f i"
  by (simp add: make_branch_def no_err cong: if_cong)

lemma map_err_rebuild_step [no_err]: "map_err g (rebuild_step c rest) = rebuild_step c rest"
  by (cases rest) (simp add: rebuild_step_def no_err cong: if_cong)

lemma map_err_rebuild_nodes [no_err]: "map_err g (rebuild_nodes n rest) = rebuild_nodes n rest"
proof (induction n rest rule: rebuild_nodes.induct)
  case (1 n rest)
  then show ?case by (subst (1 2) rebuild_nodes.simps) (simp add: no_err cong: if_cong)
qed

lemma map_err_regroup [no_err]: "map_err g (regroup is fr x) = regroup is fr x"
  by (induction "is" fr x rule: regroup.induct) (simp_all add: no_err cong: if_cong)

lemma map_err_increment_for_value [no_err]: "map_err g (increment_for_value v) = increment_for_value v"
  by (simp add: increment_for_value_def rebuild_tree_def rebuild_groups_def increment_root_def no_err cong: if_cong)

lemma map_err_new_branch [no_err]: "map_err g (new_branch c f x) = new_branch c f x"
  by (simp add: new_branch_def no_err split: outcome.splits)

lemma map_err_new_branches [no_err]: "map_err g (new_branches pairs prev) = new_branches pairs prev"
  by (induction pairs prev rule: new_branches.induct) (simp_all add: no_err cong: if_cong)

lemma map_err_new_levels [no_err]: "map_err g (new_levels tail_len rest_len prev) = new_levels tail_len rest_len prev"
proof (induction tail_len rest_len prev rule: new_levels.induct)
  case (1 tail_len rest_len prev)
  then show ?case by (subst (1 2) new_levels.simps) (simp add: no_err Let_def cong: if_cong)
qed

lemma dyn_tree_new_any_error:
  assumes "dyn_tree_new = (Ok t :: (unit, _) outcome)"
  shows "dyn_tree_new = (Ok t :: ('e, _) outcome)"
proof -
  define s where "s = \<lparr>dt_nodes = replicate num_nodes node_default,
      dt_leaves = map (\<lambda>v. of_nat (num_nodes - 1) - of_nat v) [0..<num_leaves], dt_groups = groups_new\<rparr>"
  define m where "m = (bnd (on_groups allocate) (\<lambda>grp.
      bnd (modify (\<lambda>t. t\<lparr>dt_nodes := take (num_nodes - num_leaves) (dt_nodes t) @ leaf_nodes grp\<rparr>)) (\<lambda>_.
        new_levels num_leaves num_nodes (0, grp))) :: (dyn_tree, unit, unit) act)"
  have new: "dyn_tree_new = (case bnd (on_groups allocate) (\<lambda>grp.
      bnd (modify (\<lambda>t. t\<lparr>dt_nodes := take (num_nodes - num_leaves) (dt_nodes t) @ leaf_nodes grp\<rparr>)) (\<lambda>_.
        new_levels num_leaves num_nodes (0, grp))) s of (Ok _, t') \<Rightarrow> Ok t' | (Err e, t') \<Rightarrow> Err (e :: 'x) | (Fault q, t') \<Rightarrow> Fault q)"
    unfolding dyn_tree_new_def Let_def s_def by (rule refl)
  have "fst (m s) = Ok () \<and> snd (m s) = t"
    using assms unfolding new m_def by (auto split: prod.splits outcome.splits)
  then have run: "m s = (Ok (), t)" by (simp add: prod_eq_iff)
  have "(bnd (on_groups allocate) (\<lambda>grp.
      bnd (modify (\<lambda>t. t\<lparr>dt_nodes := take (num_nodes - num_leaves) (dt_nodes t) @ leaf_nodes grp\<rparr>)) (\<lambda>_.
        new_levels num_leaves num_nodes (0, grp))) :: (dyn_tree, 'e, unit) act) = map_err (\<lambda>u. undefined) m"
    by (simp add: m_def no_err)
  then show ?thesis unfolding new by (simp add: map_err_def run)
qed

text \<open>The tree after a value was counted.\<close>

definition after_count :: "u16 \<Rightarrow> dyn_tree \<Rightarrow> dyn_tree" where
  "after_count v t = snd (increment_for_value v t :: (unit, unit) outcome \<times> dyn_tree)"

lemma after_count_facts:
  assumes "dyn_tree_ok t" and "unat v < 314"
  shows increment_after_count: "increment_for_value v t = ((Ok (), after_count v t) :: ('e, _) outcome \<times> _)"
    and after_count_ok: "dyn_tree_ok (after_count v t)"
    and after_count_freq: "w < 314 \<Longrightarrow> leaf_freq (after_count v t) w = before_count t w + of_bool (w = unat v)"
proof -
  obtain t' where t': "increment_for_value v t = ((Ok (), t') :: (unit, unit) outcome \<times> _)" "dyn_tree_ok t'"
      "\<And>w. w < 314 \<Longrightarrow> leaf_freq t' w = before_count t w + of_bool (w = unat v)"
    using increment_for_value_Ok [OF assms] by blast
  then have eq: "t' = after_count v t" by (simp add: after_count_def)
  have "increment_for_value v t = (map_err (\<lambda>u :: unit. undefined :: 'e) (increment_for_value v) t :: ('e, _) outcome \<times> _)"
    by (simp add: no_err cong: if_cong)
  then show "increment_for_value v t = ((Ok (), after_count v t) :: ('e, _) outcome \<times> _)"
    by (simp add: map_err_def t'(1) eq)
  show "dyn_tree_ok (after_count v t)" "w < 314 \<Longrightarrow> leaf_freq (after_count v t) w = before_count t w + of_bool (w = unat v)"
    using t' eq by simp_all
qed

lemma bnd_count:
  "dyn_tree_ok t \<Longrightarrow> unat v < 314 \<Longrightarrow>
   bnd (zoom fst (\<lambda>t (_, b). (t, b)) (increment_for_value v)) f (t, s) = f () (after_count v t, s)"
  by (simp add: bnd_def zoom_def increment_after_count)

subsection \<open>The walk\<close>

lemma walk_leaf:
  "as_type e = Leaf v \<Longrightarrow> dyn_walk (Suc fuel) rd nodes e = ret v"
  by simp

lemma tree_links: "dyn_tree_ok t \<Longrightarrow> links (kind t) (par t, leaf_index t) \<and> length (dt_nodes t) = 627"
  by (simp add: dyn_tree_ok_def tree_at_def shape_def)

context reader begin

lemma valid_dyn_walk:
  assumes ok: "dyn_tree_ok t"
  shows "i < 627 \<Longrightarrow> 627 \<le> fuel + i \<Longrightarrow>
    valid stream_ok (dyn_walk fuel rd (dt_nodes t) (nd_entry (dt_nodes t ! i)))
      (\<lambda>v s. stream_ok s \<and> unat v < 314) (\<lambda>e. stream_ok)"
proof (induction fuel arbitrary: i)
  case 0
  then show ?case by simp
next
  case (Suc fuel)
  note links = tree_links [OF ok]
  show ?case
  proof (cases "as_type (nd_entry (dt_nodes t ! i))")
    case (Leaf v)
    then have "kind t i = KLeaf (unat v)" by (simp add: kind_def)
    then have "unat v < 314" using links_kind [of "kind t" _ i] links Suc.prems(1) leaf_in_all by metis
    then show ?thesis by (simp add: Leaf valid_def ret_def)
  next
    case (Branch c)
    then have "kind t i = KBranch (unat c)" by (simp add: kind_def)
    then have c: "2 \<le> unat c" "unat c \<le> 626" "i + 1 < unat c"
      using links_kind [of "kind t" _ i] links Suc.prems(1) branch_in_all links_def by (metis, metis, metis below.simps(2))
    have one: "1 \<le> LENGTH(64)" "LENGTH(64) \<le> 64" by simp_all
    show ?thesis
      unfolding dyn_walk.simps Branch node_type.case
    proof (rule valid_bnd [OF valid_read_bits [OF one]])
      fix b :: u64
      let ?j = "unat c - unat b"
      show "valid (\<lambda>s. stream_ok s \<and> unat b < 2 ^ 1)
        (if unat c < unat b then crash Overflow
         else (let i = ?j in if i < length (dt_nodes t) then dyn_walk fuel rd (dt_nodes t) (nd_entry (dt_nodes t ! i)) else crash OutOfBounds))
        (\<lambda>v s. stream_ok s \<and> unat v < 314) (\<lambda>e. stream_ok)"
      proof (cases "unat b < 2")
        case True
        then have "?j < 627" "627 \<le> fuel + ?j" "\<not> unat c < unat b" using c Suc.prems(2) by linarith+
        with Suc.IH [of ?j] links show ?thesis by (simp add: Let_def valid_pre)
      next
        case False
        then show ?thesis by (simp add: valid_def)
      qed
    qed
  qed
qed

lemma valid_dyn_read_entry:
  "valid (\<lambda>(t, s). dyn_tree_ok t \<and> stream_ok s) (dyn_read_entry rd)
     (\<lambda>v (t, s). dyn_tree_ok t \<and> stream_ok s \<and> unat v < 314) (\<lambda>e (t, s). dyn_tree_ok t \<and> stream_ok s)"
proof (rule validI)
  fix ts :: "dyn_tree \<times> 'r bit_stream" assume "case ts of (t, s) \<Rightarrow> dyn_tree_ok t \<and> stream_ok s"
  then obtain t s where ts: "ts = (t, s)" and ok: "dyn_tree_ok t" "stream_ok s" by (cases ts) auto
  have ne: "dt_nodes t \<noteq> []" using tree_links [OF ok(1)] by auto
  have walk: "valid stream_ok (dyn_walk num_nodes rd (dt_nodes t) (nd_entry (dt_nodes t ! 0)))
      (\<lambda>v s. stream_ok s \<and> unat v < 314) (\<lambda>e. stream_ok)"
    by (rule valid_dyn_walk [OF ok(1)]) (simp_all add: num_nodes_eq)
  from walk ok(2) show "case dyn_read_entry rd ts of (Ok v, t) \<Rightarrow> (case t of (t, s) \<Rightarrow> dyn_tree_ok t \<and> stream_ok s \<and> unat v < 314)
      | (Err e, t) \<Rightarrow> (case t of (t, s) \<Rightarrow> dyn_tree_ok t \<and> stream_ok s) | (Fault q, t) \<Rightarrow> False"
  proof (cases rule: valid_cases)
    case (Ok v u)
    then have "zoom snd (\<lambda>b (t, _). (t, b)) (dyn_walk num_nodes rd (dt_nodes t) (nd_entry (dt_nodes t ! 0))) (t, s) = (Ok v, (t, u))"
      by (simp add: zoom_def)
    then show ?thesis
      using ne Ok(2) after_count_ok [OF ok(1)]
      by (simp add: ts dyn_read_entry_def bnd_Ok [of "get_state fst", OF get_state_apply] bnd_Ok [of "zoom snd _ _"] bnd_count [OF ok(1)] ret_apply)
  next
    case (Err e u)
    then show ?thesis using ne ok by (simp add: ts dyn_read_entry_def bnd_def get_state_def zoom_def)
  qed
qed

end

subsection \<open>The code of a value\<close>

text \<open>The turns on the path from the root to a node: the node before its pair's even one is at bit 1.\<close>

function path_to :: "dyn_tree \<Rightarrow> nat \<Rightarrow> bool list" where
  "path_to t i = (if i = 0 \<or> i \<le> par t i then [] else path_to t (par t i) @ [odd i])"
  by pat_completeness auto
termination by (relation "measure snd") auto

declare path_to.simps [simp del]

definition dyn_code :: "dyn_tree \<Rightarrow> u16 \<Rightarrow> bool list" where
  "dyn_code t v = path_to t (leaf_index t (unat v))"

lemma path_to_length: "length (path_to t i) \<le> i"
proof (induction t i rule: path_to.induct)
  case (1 t i)
  then show ?case by (subst path_to.simps) auto
qed

context reliable_reader begin

lemma walk_path:
  assumes ok: "dyn_tree_ok t"
  shows "i < 627 \<Longrightarrow> length (path_to t i) \<le> fuel \<Longrightarrow> stream_ok s \<Longrightarrow> stream_bits contents s = path_to t i @ rest \<Longrightarrow>
    \<exists>s'. dyn_walk fuel rd (dt_nodes t) (nd_entry (dt_nodes t ! 0)) s =
      dyn_walk (fuel - length (path_to t i)) rd (dt_nodes t) (nd_entry (dt_nodes t ! i)) s' \<and>
      stream_ok s' \<and> stream_bits contents s' = rest"
proof (induction i arbitrary: rest rule: less_induct)
  case (less i)
  note links = tree_links [OF ok]
  show ?case
  proof (cases "i = 0")
    case True
    then have "path_to t i = []" by (simp add: path_to.simps)
    then show ?thesis using less.prems True by auto
  next
    case False
    let ?p = "par t i"
    have p: "?p < i" "kind t ?p = KBranch (pair_of i)" using links_parent [of "kind t" "par t" "leaf_index t" i] links False less.prems(1) by simp_all
    have path: "path_to t i = path_to t ?p @ [odd i]" using p(1) False by (subst path_to.simps) simp
    obtain c where c: "as_type (nd_entry (dt_nodes t ! ?p)) = Branch c" "unat c = pair_of i"
      using p(2) unfolding kind_def by (cases "as_type (nd_entry (dt_nodes t ! ?p))") simp_all
    have "?p < 627" "length (path_to t ?p) \<le> fuel" using p(1) less.prems(1,2) path by simp_all
    from less.IH [OF p(1) this less.prems(3)] obtain u where u: "dyn_walk fuel rd (dt_nodes t) (nd_entry (dt_nodes t ! 0)) s =
        dyn_walk (fuel - length (path_to t ?p)) rd (dt_nodes t) (nd_entry (dt_nodes t ! ?p)) u"
        "stream_ok u" "stream_bits contents u = odd i # rest"
      using less.prems(4) path by auto
    obtain f where f: "fuel - length (path_to t ?p) = Suc f" "fuel - length (path_to t i) = f"
      using less.prems(2) path by (intro that [of "fuel - length (path_to t i)"]) simp_all
    have one: "1 \<le> LENGTH(64)" "LENGTH(64) \<le> 64" "1 \<le> length (stream_bits contents u)" using u(3) by simp_all
    from read_bits_Ok [OF u(2) one] obtain w where w: "read_bits rd 1 u = (Ok (of_bits [odd i] :: u64), w)" "stream_ok w"
        "stream_bits contents w = rest"
      using u(3) by (auto simp: take_Suc)
    have "unat c - unat (of_bits [odd i] :: u64) = i" "\<not> unat c < unat (of_bits [odd i] :: u64)"
      using c(2) by (cases "odd i"; simp add: of_bits_single pair_of_def odd_iff_mod_2_eq_one)+
    then have "dyn_walk (Suc f) rd (dt_nodes t) (nd_entry (dt_nodes t ! ?p)) u = dyn_walk f rd (dt_nodes t) (nd_entry (dt_nodes t ! i)) w"
      using links less.prems(1) by (simp add: c(1) bnd_Ok [of "read_bits rd 1", OF w(1)] del: One_nat_def)
    then show ?thesis using u(1) w(2,3) f by auto
  qed
qed

lemma dyn_read_code:
  assumes ok: "dyn_tree_ok t" and v: "unat v < 314" and s: "stream_ok s" "stream_bits contents s = dyn_code t v @ rest"
  obtains s' where "dyn_read_entry rd (t, s) = (Ok v, (after_count v t, s'))" and "stream_ok s'" and "stream_bits contents s' = rest"
proof -
  note links = tree_links [OF ok]
  let ?i = "leaf_index t (unat v)"
  have i: "?i < 627" "kind t ?i = KLeaf (unat v)" using links_leaf [of "kind t" "par t"] links v by simp_all
  have leaf: "as_type (nd_entry (dt_nodes t ! ?i)) = Leaf v"
    using i(2) unfolding kind_def by (cases "as_type (nd_entry (dt_nodes t ! ?i))") (simp_all add: word_unat_eq_iff)
  have "length (path_to t ?i) \<le> num_nodes" "length (path_to t ?i) < num_nodes" using path_to_length [of t ?i] i(1) by (simp_all add: num_nodes_eq)
  note len = this
  obtain s' where s': "dyn_walk num_nodes rd (dt_nodes t) (nd_entry (dt_nodes t ! 0)) s =
      dyn_walk (num_nodes - length (path_to t ?i)) rd (dt_nodes t) (nd_entry (dt_nodes t ! ?i)) s'"
      "stream_ok s'" "stream_bits contents s' = rest"
    using walk_path [OF ok i(1) len(1) s(1)] s(2) unfolding dyn_code_def by blast
  obtain f where f: "num_nodes - length (path_to t ?i) = Suc f" using len(2) by (metis Suc_diff_Suc)
  have "dyn_walk num_nodes rd (dt_nodes t) (nd_entry (dt_nodes t ! 0)) s = (Ok v, s')"
    unfolding s'(1) f by (simp add: leaf ret_apply)
  then have walk: "zoom snd (\<lambda>b (t, _). (t, b)) (dyn_walk num_nodes rd (dt_nodes t) (nd_entry (dt_nodes t ! 0))) (t, s) = (Ok v, (t, s'))"
    by (simp add: zoom_def)
  have "dt_nodes t \<noteq> []" using links by auto
  then have "dyn_read_entry rd (t, s) = (Ok v, (after_count v t, s'))"
    using walk by (simp add: dyn_read_entry_def bnd_Ok [of "get_state fst", OF get_state_apply] bnd_Ok [of "zoom snd _ _", OF walk]
      bnd_count [OF ok v] ret_apply)
  then show thesis using s'(2,3) by (rule that)
qed

end

lemma first_tree:
  "\<exists>t. dyn_tree_new = (Ok t :: ('e, _) outcome) \<and> dyn_tree_ok t \<and> fq t 0 = 314 \<and>
     (\<forall>i. i < 627 \<longrightarrow> kind t i = (if i < 313 then KBranch (2 * i + 2) else KLeaf (626 - i)))"
proof -
  obtain t where "dyn_tree_new = (Ok t :: ('e, _) outcome)" and "dyn_tree_ok t"
    and "\<And>i. i < 627 \<Longrightarrow> kind t i = (if i < 313 then KBranch (2 * i + 2) else KLeaf (626 - i))"
    and "\<And>i. i < 627 \<Longrightarrow> fq t i = hf i"
    using dyn_tree_new_Ok [where ?'e = 'e] by metis
  then show ?thesis using hf_root by (intro exI [of _ t]) simp
qed

lemma first_code_zero:
  assumes "\<And>i. 0 < i \<Longrightarrow> i < 627 \<Longrightarrow> par t i = (i - 1) div 2" and "\<And>v. v < 314 \<Longrightarrow> leaf_index t v = 626 - v"
  shows "dyn_code t 0 = [True, True, False, False, False, True, True, False, False]"
proof -
  have path: "path_to t i = path_to t ((i - 1) div 2) @ [odd i]" if "0 < i" "i < 627" for i
    using that assms(1) [OF that] by (subst path_to.simps) simp
  have "path_to t 0 = []" by (simp add: path_to.simps)
  then show ?thesis unfolding dyn_code_def by (simp add: assms(2) path)
qed

subsection \<open>Properties\<close>

text \<open>The first adaptive tree is well formed: the loops of \<open>new\<close> end without a panic, node \<open>i\<close> is the
  parent of the nodes \<open>2 i + 1\<close> and \<open>2 i + 2\<close>, the 314 leaves hold the values in descending order, and the
  whole invariant holds: the parents and the leaf table agree with the nodes, the frequencies descend
  and add up, and the groups are the classes of equal frequency with their first nodes as leaders.\<close>

lemma dyn_tree_new_ok:
  "\<exists>t. dyn_tree_new = (Ok t :: ('e, _) outcome) \<and> dyn_tree_ok t \<and> fq t 0 = 314 \<and>
     (\<forall>i. i < 627 \<longrightarrow> kind t i = (if i < 313 then KBranch (2 * i + 2) else KLeaf (626 - i)))"
  by (rule first_tree)

lemma dyn_tree_new_ok_witness:
  "\<exists>t. dyn_tree_new = (Ok t :: (unit, _) outcome) \<and> kind t 626 = KLeaf 0 \<and> kind t 0 = KBranch 2"
  using dyn_tree_new_ok [where ?'e = unit] by auto

text \<open>C12: Counting a value never panics and keeps the whole invariant of the tree, rebuilding included; the
  frequency of the value grows by one and all others stay, but that first all of them are halved,
  rounding up, when the root has reached 32768.\<close>

theorem increment_for_value_counts:
  assumes "dyn_tree_ok t" and "unat v < 314"
  shows "\<exists>t'. increment_for_value v t = ((Ok (), t') :: ('e, _) outcome \<times> _) \<and> dyn_tree_ok t' \<and>
    (\<forall>w. w < 314 \<longrightarrow> leaf_freq t' w =
      (if 32768 \<le> fq t 0 then (leaf_freq t w + 1) div 2 else leaf_freq t w) + (if w = unat v then 1 else 0))"
proof -
  obtain t' where "increment_for_value v t = ((Ok (), t') :: ('e, _) outcome \<times> _)" "dyn_tree_ok t'"
      "\<And>w. w < 314 \<Longrightarrow> leaf_freq t' w = before_count t w + of_bool (w = unat v)"
    using increment_for_value_Ok [OF assms] by blast
  then show ?thesis by (intro exI [of _ t']) (simp add: before_count_def half_freq_def reorder_limit_def)
qed

lemma increment_for_value_counts_witness:
  "\<exists>t t'. dyn_tree_new = (Ok t :: (unit, _) outcome) \<and>
     increment_for_value 65 t = ((Ok (), t') :: (unit, _) outcome \<times> _) \<and> leaf_freq t' 65 = leaf_freq t 65 + 1"
proof -
  obtain t where t: "dyn_tree_new = (Ok t :: (unit, _) outcome)" "dyn_tree_ok t" "fq t 0 = 314"
    using first_tree by blast
  with increment_for_value_counts [OF t(2), of 65, where ?'e = unit] t(1) show ?thesis by auto
qed

text \<open>C29: Reading a value with the adaptive tree ends on every input: whatever the bits of the stream are,
  the walk from the root arrives at a leaf before it has visited all 627 nodes and the tree is
  updated without a panic, or the reader fails; a value is below 314 and the tree stays well formed,
  so that the next value can be read.\<close>

theorem dyn_read_entry_ends:
  assumes "reader rd contents" and "dyn_tree_ok t" and "stream_ok s"
  shows "case dyn_read_entry rd (t, s) of
      (Ok v, t', s') \<Rightarrow> unat v < 314 \<and> dyn_tree_ok t' \<and> stream_ok s'
    | (Err e, t', s') \<Rightarrow> dyn_tree_ok t' \<and> stream_ok s'
    | (Fault q, t', s') \<Rightarrow> False"
proof -
  have "case (t, s) of (t, s) \<Rightarrow> dyn_tree_ok t \<and> stream_ok s" using assms(2,3) by simp
  with reader.valid_dyn_read_entry [OF assms(1)] show ?thesis
    by (cases rule: valid_cases) (auto split: prod.splits)
qed

lemma dyn_read_entry_ends_witness:
  "\<exists>t. dyn_tree_new = (Ok t :: (unit, _) outcome) \<and> \<not> is_fault (fst (dyn_read_entry slice_reader (t, bit_stream_new [0xA5, 0x5A])))"
proof -
  obtain t where t: "dyn_tree_new = (Ok t :: (unit, _) outcome)" "dyn_tree_ok t"
    using first_tree by blast
  with dyn_read_entry_ends [OF slice.reader_axioms t(2) stream_ok_new, of "[0xA5, 0x5A]"] show ?thesis
    by (auto split: prod.splits outcome.splits)
qed

text \<open>C13: The paths of the adaptive tree are a prefix code: when the stream begins with the path to the leaf
  of a value, reading returns this value, takes exactly the path from the stream, and leaves the tree
  as counting the value does.\<close>

theorem dyn_read_entry_decodes:
  assumes "reliable_reader rd contents" and "dyn_tree_ok t" and "unat v < 314" and "stream_ok s"
    and "stream_bits contents s = dyn_code t v @ rest"
  shows "\<exists>s'. dyn_read_entry rd (t, s) = (Ok v, (after_count v t, s')) \<and> stream_ok s' \<and> stream_bits contents s' = rest"
  using reliable_reader.dyn_read_code [OF assms] by blast

lemma dyn_read_entry_decodes_witness:
  "\<exists>t s'. dyn_tree_new = (Ok t :: (unit, _) outcome) \<and>
     dyn_read_entry slice_reader (t, bit_stream_new [0xC6, 0]) = (Ok 0, (after_count 0 t, s'))"
proof -
  obtain t where t: "dyn_tree_new = (Ok t :: (unit, _) outcome)" "dyn_tree_ok t"
      "\<And>i. 0 < i \<Longrightarrow> i < 627 \<Longrightarrow> par t i = (i - 1) div 2" "\<And>v. v < 314 \<Longrightarrow> leaf_index t v = 626 - v"
    using dyn_tree_new_Ok [where ?'e = unit] by metis
  have "stream_bits (\<lambda>s. s) (bit_stream_new [0xC6, 0]) = dyn_code t 0 @ replicate 7 False"
    unfolding stream_bits_new using first_code_zero [OF t(3,4)]
    by (simp add: bytes_bits_def byte_bits_def upt_rec bit_Suc_0_iff numeral_eq_Suc)
  from dyn_read_entry_decodes [OF slice.reliable_reader_axioms t(2) _ stream_ok_new this] t(1) show ?thesis by auto
qed

end
