(* ===== verification/Lhv1.thy ===== *)
theory Lhv1
  imports Dyn_Read Lz_Decoder
begin

text \<open>
  The \<open>-lh1-\<close> decoder of \<open>src/src/decode/lhv1.rs\<close>: values are read from the adaptive tree, a value
  above 255 is a copy whose offset follows in a fixed prefix code.
\<close>

subsection \<open>The program\<close>

record 'r lh1_decoder =
  lh1_bit_reader :: "'r bit_stream"
  lh1_command_tree :: dyn_tree
  lh1_copy_progress :: "(nat \<times> nat) option"
  lh1_ringbuf :: ring

definition lh1_new :: "'r \<Rightarrow> ('e, 'r lh1_decoder) outcome" where
  "lh1_new rd = (case dyn_tree_new of
       Ok t \<Rightarrow> Ok \<lparr>lh1_bit_reader = bit_stream_new rd, lh1_command_tree = t, lh1_copy_progress = None,
         lh1_ringbuf = ring_new 4096\<rparr>
     | Err e \<Rightarrow> Err e
     | Fault q \<Rightarrow> Fault q)"

definition lh1_into_inner :: "'r lh1_decoder \<Rightarrow> 'r" where
  "lh1_into_inner s = inner (lh1_bit_reader s)"

definition lh1_copier :: "'r lh1_decoder copier" where
  "lh1_copier = \<lparr>cp_copy = copy_offset, cp_adv = (\<lambda>m a. a mod 2 ^ 16), cp_width = 16,
     cp_progress = lh1_copy_progress, cp_ring = lh1_ringbuf,
     cp_set = (\<lambda>p r s. s\<lparr>lh1_copy_progress := p, lh1_ringbuf := r\<rparr>)\<rparr>"

definition lh1_read_code :: "('r, 'e) read_impl \<Rightarrow> ('r lh1_decoder, 'e lha_error, u16) act" where
  "lh1_read_code rd = zoom (\<lambda>s. (lh1_command_tree s, lh1_bit_reader s))
     (\<lambda>(t, b) s. s\<lparr>lh1_command_tree := t, lh1_bit_reader := b\<rparr>) (dyn_read_entry rd)"

text \<open>The bits of an offset that nine bits of the stream give, and how many more there are.\<close>

definition decode_offset :: "u16 \<Rightarrow> ('e, u16 \<times> nat) outcome" where
  "decode_offset bits9 =
     (let p = bits9 AND 0x1E0 in
      if p \<le> 0x3F then Ok (bits9, 0)
      else if 0x40 \<le> p \<and> p \<le> 0x9F then Ok (push_bit 1 (bits9 - 0x20), 1)
      else if 0xA0 \<le> p \<and> p \<le> 0x11F then Ok (push_bit 2 (bits9 - 0x60), 2)
      else if 0x120 \<le> p \<and> p \<le> 0x17F then Ok (push_bit 3 (bits9 - 0xC0), 3)
      else if 0x180 \<le> p \<and> p \<le> 0x1DF then Ok (push_bit 4 (bits9 - 0x120), 4)
      else if 0x1E0 \<le> p \<and> p \<le> 0x1FF then Ok (push_bit 5 (bits9 - 0x180), 5)
      else Fault Panicked)"

definition lh1_read_offset :: "('r, 'e) read_impl \<Rightarrow> ('r bit_stream, 'e lha_error, u16) act" where
  "lh1_read_offset rd = bnd (read_bits rd 9) (\<lambda>bits9. case decode_offset bits9 of
       Ok (offset, bits) \<Rightarrow> bnd (read_bits rd bits) (\<lambda>low. ret (offset OR low))
     | Err e \<Rightarrow> fail e
     | Fault q \<Rightarrow> crash q)"

definition lh1_read_command :: "('r, 'e) read_impl \<Rightarrow> ('r lh1_decoder, 'e lha_error, lz_command) act" where
  "lh1_read_command rd = bnd (lh1_read_code rd) (\<lambda>code.
     if code \<le> 0xFF then ret (Literal (ucast code))
     else bnd (zoom lh1_bit_reader (\<lambda>b s. s\<lparr>lh1_bit_reader := b\<rparr>) (lh1_read_offset rd))
       (\<lambda>offset. ret (History (unat offset) (unat code - 0x100 + 3))))"

definition lh1_fill_buffer :: "('r, 'e) read_impl \<Rightarrow> nat \<Rightarrow> ('r lh1_decoder, 'e lha_error, u8 list) act" where
  "lh1_fill_buffer rd = decode_fill lh1_copier (lh1_read_command rd)"

subsection \<open>The code of the offsets\<close>

text \<open>
  Reference: the number of low bits that follow, and what is added to the rest of the offset to
  form the nine bits that come first.
\<close>

definition offset_class :: "nat \<Rightarrow> nat \<times> nat" where
  "offset_class d = (if d < 64 then (0, 0) else if d < 256 then (1, 32) else if d < 768 then (2, 96)
     else if d < 1536 then (3, 192) else if d < 3072 then (4, 288) else (5, 384))"

definition offset_encode :: "nat \<Rightarrow> bool list" where
  "offset_encode d = (case offset_class d of (k, base) \<Rightarrow> nat_bits 9 (d div 2 ^ k + base) @ nat_bits k (d mod 2 ^ k))"

lemma upper_bits: "n < 512 \<Longrightarrow> unat ((of_nat n :: u16) AND 0x1E0) = 32 * (n div 32)"
proof -
  assume n: "n < 512"
  have mask: "(0x1E0 :: nat) = push_bit 5 (mask 4)" by (simp add: push_bit_eq_mult mask_eq_exp_minus_1)
  have "n AND 0x1E0 = push_bit 5 (take_bit 4 (drop_bit 5 n))"
    unfolding mask by (intro bit_eqI) (auto simp: bit_simps)
  also have "\<dots> = 32 * (n div 32)" using n by (simp add: push_bit_eq_mult take_bit_eq_mod drop_bit_eq_div)
  finally have and_nat: "n AND 0x1E0 = 32 * (n div 32)" .
  have "(of_nat n :: u16) AND 0x1E0 = of_nat (n AND 0x1E0)" unfolding of_nat_and_eq by simp
  then show ?thesis using n unfolding and_nat by (simp add: unat_of_nat del: of_nat_mult)
qed

lemma upper_cases:
  fixes n :: nat
  shows "32 * (n div 32) \<le> 32 * k + 31 \<longleftrightarrow> n < 32 * k + 32" and "32 * k \<le> 32 * (n div 32) \<longleftrightarrow> 32 * k \<le> n"
proof -
  have "32 * (n div 32) \<le> 32 * k + 31 \<longleftrightarrow> n div 32 < k + 1" by linarith
  also have "\<dots> \<longleftrightarrow> n < 32 * k + 32" by (simp add: div_less_iff_less_mult algebra_simps)
  finally show "32 * (n div 32) \<le> 32 * k + 31 \<longleftrightarrow> n < 32 * k + 32" .
  have "32 * k \<le> 32 * (n div 32) \<longleftrightarrow> k \<le> n div 32" by simp
  also have "\<dots> \<longleftrightarrow> 32 * k \<le> n" by (simp add: less_eq_div_iff_mult_less_eq mult.commute)
  finally show "32 * k \<le> 32 * (n div 32) \<longleftrightarrow> 32 * k \<le> n" .
qed

lemma decode_offset_eq:
  assumes "n < 512"
  shows "decode_offset (of_nat n) = (Ok (if n < 64 then (of_nat n, 0)
      else if n < 160 then (of_nat (2 * (n - 32)), 1) else if n < 288 then (of_nat (4 * (n - 96)), 2)
      else if n < 384 then (of_nat (8 * (n - 192)), 3) else if n < 480 then (of_nat (16 * (n - 288)), 4)
      else (of_nat (32 * (n - 384)), 5)) :: ('e, _) outcome)"
proof -
  let ?p = "(of_nat n :: u16) AND 0x1E0"
  have p: "unat ?p = 32 * (n div 32)" by (rule upper_bits [OF assms])
  have le: "?p \<le> of_nat k \<longleftrightarrow> 32 * (n div 32) \<le> k" "of_nat k \<le> ?p \<longleftrightarrow> k \<le> 32 * (n div 32)" if "k < 512" for k
    using that by (simp_all add: word_le_nat_alt p unat_of_nat)
  have shift: "push_bit k ((of_nat n :: u16) - of_nat b) = of_nat (2 ^ k * (n - b))" if "b \<le> n" for k b
    using that by (simp add: push_bit_eq_mult mult.commute)
  note cmp = le [of "0x3F"] le [of "0x40"] le [of "0x9F"] le [of "0xA0"] le [of "0x11F"] le [of "0x120"] le [of "0x17F"]
    le [of "0x180"] le [of "0x1DF"] le [of "0x1E0"] le [of "0x1FF"]
  note shifts = shift [of "0x20" 1] shift [of "0x60" 2] shift [of "0xC0" 3] shift [of "0x120" 4] shift [of "0x180" 5]
  have div: "32 * (n div 32) \<le> 63 \<longleftrightarrow> n < 64" "64 \<le> 32 * (n div 32) \<longleftrightarrow> 64 \<le> n" "32 * (n div 32) \<le> 159 \<longleftrightarrow> n < 160"
    "160 \<le> 32 * (n div 32) \<longleftrightarrow> 160 \<le> n" "32 * (n div 32) \<le> 287 \<longleftrightarrow> n < 288" "288 \<le> 32 * (n div 32) \<longleftrightarrow> 288 \<le> n"
    "32 * (n div 32) \<le> 383 \<longleftrightarrow> n < 384" "384 \<le> 32 * (n div 32) \<longleftrightarrow> 384 \<le> n" "32 * (n div 32) \<le> 479 \<longleftrightarrow> n < 480"
    "480 \<le> 32 * (n div 32) \<longleftrightarrow> 480 \<le> n" "32 * (n div 32) \<le> 511"
    using upper_cases(1) [of n 1] upper_cases(1) [of n 4] upper_cases(1) [of n 8] upper_cases(1) [of n 11]
      upper_cases(1) [of n 14] upper_cases(1) [of n 15] assms
    by (simp_all add: less_eq_div_iff_mult_less_eq)
  show ?thesis
    unfolding decode_offset_def Let_def using cmp shifts assms by (simp add: div)
qed

lemma decode_offset_total:
  assumes "unat w < 512"
  obtains x k where "decode_offset w = (Ok (x, k) :: ('e, _) outcome)" and "k \<le> 5"
  using decode_offset_eq [OF assms, where ?'e = 'e] that by (simp split: if_splits)

lemma decode_encoded_offset:
  assumes d: "d < 4096" and c: "offset_class d = (k, base)"
  shows "d div 2 ^ k + base < 512" and "k \<le> 5"
    and "decode_offset (of_nat (d div 2 ^ k + base)) = (Ok (of_nat (d div 2 ^ k * 2 ^ k), k) :: ('e, _) outcome)"
proof -
  have cases: "k = 0 \<and> base = 0 \<and> d < 64 \<or> k = 1 \<and> base = 32 \<and> 64 \<le> d \<and> d < 256 \<or> k = 2 \<and> base = 96 \<and> 256 \<le> d \<and> d < 768 \<or>
      k = 3 \<and> base = 192 \<and> 768 \<le> d \<and> d < 1536 \<or> k = 4 \<and> base = 288 \<and> 1536 \<le> d \<and> d < 3072 \<or> k = 5 \<and> base = 384 \<and> 3072 \<le> d"
    using c by (auto simp: offset_class_def split: if_splits)
  show lt: "d div 2 ^ k + base < 512" and "k \<le> 5" using cases d by auto
  show "decode_offset (of_nat (d div 2 ^ k + base)) = (Ok (of_nat (d div 2 ^ k * 2 ^ k), k) :: ('e, _) outcome)"
    unfolding decode_offset_eq [OF lt] using cases d by (elim disjE) (auto simp: mult.commute)
qed

lemma or_low_bits:
  assumes "d < 4096" and "k \<le> 5"
  shows "unat ((of_nat (d div 2 ^ k * 2 ^ k) :: u16) OR of_nat (d mod 2 ^ k)) = d"
proof -
  have "(d div 2 ^ k * 2 ^ k) OR (d mod 2 ^ k) = d"
    by (intro bit_eqI) (auto simp: bit_simps simp flip: push_bit_eq_mult drop_bit_eq_div take_bit_eq_mod)
  then have "(of_nat (d div 2 ^ k * 2 ^ k) :: u16) OR of_nat (d mod 2 ^ k) = of_nat d"
    unfolding of_nat_or_eq [symmetric] by simp
  then show ?thesis using assms(1) by (simp only:) (simp add: unat_of_nat)
qed

context reader begin

lemma valid_lh1_read_offset: "valid stream_ok (lh1_read_offset rd) (\<lambda>v. stream_ok) (\<lambda>e. stream_ok)"
proof -
  have nums: "9 \<le> LENGTH(16)" "LENGTH(16) \<le> 64" by simp_all
  show ?thesis
    unfolding lh1_read_offset_def
  proof (rule valid_bnd [OF valid_read_bits [OF nums]])
    fix w :: u16
    show "valid (\<lambda>s. stream_ok s \<and> unat w < 2 ^ 9)
      (case decode_offset w of Ok (offset, bits) \<Rightarrow> bnd (read_bits rd bits) (\<lambda>low. ret (offset OR low))
       | Err e \<Rightarrow> fail e | Fault q \<Rightarrow> crash q) (\<lambda>v. stream_ok) (\<lambda>e. stream_ok)"
    proof (cases "unat w < 512")
      case True
      obtain x k where d: "decode_offset w = (Ok (x, k) :: ('e lha_error, _) outcome)" "k \<le> 5"
        using decode_offset_total [OF True] by blast
      have "k \<le> LENGTH(16)" using d(2) by simp
      from valid_read_bits [OF this nums(2)] show ?thesis
        unfolding d(1) outcome.case prod.case
        by (rule valid_bnd [OF valid_pre]) (simp_all add: valid_def ret_def)
    next
      case False
      then show ?thesis by (simp add: valid_def)
    qed
  qed
qed

end

context reliable_reader begin

lemma lh1_read_encoded_offset:
  assumes d: "d < 4096" and s: "stream_ok s" "stream_bits contents s = offset_encode d @ rest"
  obtains w t where "lh1_read_offset rd s = (Ok w, t)" and "unat w = d" and "stream_ok t" and "stream_bits contents t = rest"
proof -
  obtain k base where c: "offset_class d = (k, base)" by fastforce
  note e = decode_encoded_offset [OF d c]
  have bits: "stream_bits contents s = nat_bits 9 (d div 2 ^ k + base) @ (nat_bits k (d mod 2 ^ k) @ rest)"
    using s(2) by (simp add: offset_encode_def c)
  have n: "d div 2 ^ k + base < 2 ^ 9" "9 \<le> LENGTH(16)" "LENGTH(16) \<le> 64" using e(1) by simp_all
  obtain u where u: "read_bits rd 9 s = (Ok (of_nat (d div 2 ^ k + base) :: u16), u)" "stream_ok u"
      "stream_bits contents u = nat_bits k (d mod 2 ^ k) @ rest"
    using read_bits_nat [OF s(1) bits n] by blast
  have l: "d mod 2 ^ k < 2 ^ k" "k \<le> LENGTH(16)" using e(2) by simp_all
  obtain t where t: "read_bits rd k u = (Ok (of_nat (d mod 2 ^ k) :: u16), t)" "stream_ok t" "stream_bits contents t = rest"
    using read_bits_nat [OF u(2,3) l n(3)] by blast
  show thesis
  proof (rule that [OF _ or_low_bits [OF d e(2)] t(2,3)])
    show "lh1_read_offset rd s = (Ok ((of_nat (d div 2 ^ k * 2 ^ k) :: u16) OR of_nat (d mod 2 ^ k)), t)"
      unfolding lh1_read_offset_def bnd_Ok [of "read_bits rd 9", OF u(1)] e(3) outcome.case prod.case
        bnd_Ok [of "read_bits rd k", OF t(1)] ret_apply by (rule refl)
  qed
qed

end

subsection \<open>The invariant\<close>

definition lh1_inv :: "'r lh1_decoder \<Rightarrow> bool" where
  "lh1_inv s \<longleftrightarrow> stream_ok (lh1_bit_reader s) \<and> dyn_tree_ok (lh1_command_tree s) \<and> ring_inv 12 (lh1_ringbuf s) \<and>
     progress_ok (\<lambda>m a. a mod 2 ^ 16) 16 (lh1_copy_progress s)"

lemma lh1_new_Ok:
  obtains s where "lh1_new r = (Ok s :: ('e, _) outcome)" and "lh1_inv s" and "lh1_copy_progress s = None"
    and "lh1_bit_reader s = bit_stream_new r" and "lh1_ringbuf s = ring_new 4096"
proof -
  obtain t where t: "dyn_tree_new = (Ok t :: ('e, _) outcome)" "dyn_tree_ok t" using first_tree by blast
  define s where "s = \<lparr>lh1_bit_reader = bit_stream_new r, lh1_command_tree = t, lh1_copy_progress = None,
        lh1_ringbuf = ring_new 4096\<rparr>"
  have "lh1_new r = (Ok s :: ('e, _) outcome)" unfolding lh1_new_def t(1) s_def by simp
  then show thesis
    by (rule that) (use t ring_inv_new [of 12] in \<open>simp_all add: s_def lh1_inv_def stream_ok_new progress_ok_def\<close>)
qed

lemma lh1_copier_sel [simp]:
  "cp_copy lh1_copier = copy_offset" "cp_adv lh1_copier = (\<lambda>m a. a mod 2 ^ 16)" "cp_width lh1_copier = 16"
  "cp_progress lh1_copier = lh1_copy_progress" "cp_ring lh1_copier = lh1_ringbuf"
  "cp_set lh1_copier = (\<lambda>p r s. s\<lparr>lh1_copy_progress := p, lh1_ringbuf := r\<rparr>)"
  by (simp_all add: lh1_copier_def)

interpretation lh1_copying: copying 12 lh1_copier lh1_inv
proof (rule copying.intro)
  show "sliding_window (ring_inv 12) window push (cp_copy lh1_copier) (cp_adv lh1_copier)"
    unfolding lh1_copier_sel by (rule win_lh1.sliding_window_axioms)
  show "copying_axioms 12 lh1_copier lh1_inv"
    by unfold_locales (simp_all add: lh1_inv_def)
qed

subsection \<open>Reading a command\<close>

lemma lh1_read_code_apply:
  "dyn_read_entry rd (lh1_command_tree s, lh1_bit_reader s) = (r, (t, b)) \<Longrightarrow>
   lh1_read_code rd s = (r, s\<lparr>lh1_command_tree := t, lh1_bit_reader := b\<rparr>)"
  by (simp add: lh1_read_code_def zoom_def)

text \<open>The fields a command leaves alone.\<close>

definition lh1_keeps :: "'r lh1_decoder \<Rightarrow> 'r lh1_decoder \<Rightarrow> bool" where
  "lh1_keeps s t \<longleftrightarrow> lh1_inv t \<and> lh1_copy_progress t = lh1_copy_progress s \<and> lh1_ringbuf t = lh1_ringbuf s"

context reader begin

lemma valid_lh1_read_code:
  "valid (\<lambda>t. lh1_inv t \<and> t = s) (lh1_read_code rd) (\<lambda>v t. lh1_keeps s t \<and> unat v < 314) (\<lambda>e. lh1_keeps s)"
proof (rule validI)
  fix t assume "lh1_inv t \<and> t = s"
  then have t: "lh1_inv s" "t = s" by auto
  then have "case (lh1_command_tree s, lh1_bit_reader s) of (t, b) \<Rightarrow> dyn_tree_ok t \<and> stream_ok b" by (simp add: lh1_inv_def)
  with valid_dyn_read_entry show "case lh1_read_code rd t of (Ok v, t) \<Rightarrow> lh1_keeps s t \<and> unat v < 314
      | (Err e, t) \<Rightarrow> lh1_keeps s t | (Fault q, t) \<Rightarrow> False"
  proof (cases rule: valid_cases)
    case (Ok v p)
    then obtain u b where "p = (u, b)" "dyn_tree_ok u" "stream_ok b" "unat v < 314" by (cases p) auto
    with Ok(1) t show ?thesis by (simp add: lh1_read_code_apply lh1_keeps_def lh1_inv_def)
  next
    case (Err e p)
    then obtain u b where "p = (u, b)" "dyn_tree_ok u" "stream_ok b" by (cases p) auto
    with Err(1) t show ?thesis by (simp add: lh1_read_code_apply lh1_keeps_def lh1_inv_def)
  qed
qed

lemma valid_lh1_offset:
  "valid (lh1_keeps s) (zoom lh1_bit_reader (\<lambda>b s. s\<lparr>lh1_bit_reader := b\<rparr>) (lh1_read_offset rd))
     (\<lambda>v. lh1_keeps s) (\<lambda>e. lh1_keeps s)"
proof (rule validI)
  fix t assume t: "lh1_keeps s t"
  then have "stream_ok (lh1_bit_reader t)" by (simp add: lh1_keeps_def lh1_inv_def)
  with valid_lh1_read_offset show "case zoom lh1_bit_reader (\<lambda>b s. s\<lparr>lh1_bit_reader := b\<rparr>) (lh1_read_offset rd) t of
      (Ok v, t) \<Rightarrow> lh1_keeps s t | (Err e, t) \<Rightarrow> lh1_keeps s t | (Fault q, t) \<Rightarrow> False"
    by (cases rule: valid_cases) (use t in \<open>auto simp: zoom_def lh1_keeps_def lh1_inv_def\<close>)
qed

lemma valid_lh1_read_command:
  "valid (\<lambda>t. lh1_inv t \<and> t = s) (lh1_read_command rd)
     (\<lambda>c t. lh1_keeps s t \<and> 0 < lz_length c \<and> lz_length c < 2 ^ 16) (\<lambda>e. lh1_keeps s)"
  unfolding lh1_read_command_def
proof (rule valid_bnd [OF valid_lh1_read_code])
  fix code :: u16
  show "valid (\<lambda>t. lh1_keeps s t \<and> unat code < 314)
     (if code \<le> 0xFF then ret (Literal (ucast code))
      else bnd (zoom lh1_bit_reader (\<lambda>b s. s\<lparr>lh1_bit_reader := b\<rparr>) (lh1_read_offset rd))
        (\<lambda>offset. ret (History (unat offset) (unat code - 0x100 + 3))))
     (\<lambda>c t. lh1_keeps s t \<and> 0 < lz_length c \<and> lz_length c < 2 ^ 16) (\<lambda>e. lh1_keeps s)"
  proof (rule valid_if)
    show "valid (\<lambda>t. lh1_keeps s t \<and> unat code < 314) (ret (Literal (ucast code)))
      (\<lambda>c t. lh1_keeps s t \<and> 0 < lz_length c \<and> lz_length c < 2 ^ 16) (\<lambda>e. lh1_keeps s)"
      by (simp add: valid_def ret_def)
    show "valid (\<lambda>t. lh1_keeps s t \<and> unat code < 314)
      (bnd (zoom lh1_bit_reader (\<lambda>b s. s\<lparr>lh1_bit_reader := b\<rparr>) (lh1_read_offset rd))
        (\<lambda>offset. ret (History (unat offset) (unat code - 0x100 + 3))))
      (\<lambda>c t. lh1_keeps s t \<and> 0 < lz_length c \<and> lz_length c < 2 ^ 16) (\<lambda>e. lh1_keeps s)"
    proof (cases "unat code < 314")
      case True
      then show ?thesis
        by (intro valid_bnd [OF valid_pre [OF valid_lh1_offset]]) (auto simp: valid_def ret_def)
    next
      case False
      then show ?thesis by (simp add: valid_def)
    qed
  qed
qed

lemma lh1_lz_decoder: "lz_decoder 12 lh1_copier lh1_inv (lh1_read_command rd)"
proof (intro lz_decoder.intro lh1_copying.copying_axioms lz_decoder_axioms.intro)
  fix s c t
  assume "lh1_inv s" and "lh1_read_command rd s = (Ok c, t)"
  with valid_Ok [OF valid_lh1_read_command [of s], of s c t]
  show "lh1_inv t \<and> cp_progress lh1_copier t = cp_progress lh1_copier s \<and>
      cp_ring lh1_copier t = cp_ring lh1_copier s \<and> 0 < lz_length c \<and> lz_length c < 2 ^ cp_width lh1_copier"
    by (simp add: lh1_keeps_def)
qed

lemma lh1_read_command_no_Fault: "lh1_inv s \<Longrightarrow> lh1_read_command rd s \<noteq> (Fault q, t)"
  using valid_no_fault [OF valid_lh1_read_command [of s], of s] by auto

end

subsection \<open>The encoding of commands\<close>

text \<open>The codes of the values depend on the tree, which every command changes.\<close>

fun lh1_symbol :: "lz_command \<Rightarrow> u16" where
  "lh1_symbol (Literal v) = ucast v"
| "lh1_symbol (History d n) = of_nat (0x100 + (n - 3))"

fun lh1_valid :: "lz_command \<Rightarrow> bool" where
  "lh1_valid (Literal v) \<longleftrightarrow> True"
| "lh1_valid (History d n) \<longleftrightarrow> d < 4096 \<and> 3 \<le> n \<and> n \<le> 60"

fun lh1_operand :: "lz_command \<Rightarrow> bool list" where
  "lh1_operand (Literal v) = []"
| "lh1_operand (History d n) = offset_encode d"

fun lh1_encode :: "dyn_tree \<Rightarrow> lz_command list \<Rightarrow> bool list" where
  "lh1_encode t [] = []"
| "lh1_encode t (c # cs) = dyn_code t (lh1_symbol c) @ lh1_operand c @ lh1_encode (after_count (lh1_symbol c) t) cs"

definition lh1_ready :: "('r \<Rightarrow> u8 list) \<Rightarrow> bool list \<Rightarrow> 'r lh1_decoder \<Rightarrow> lz_command list \<Rightarrow> bool" where
  "lh1_ready contents rest s cs \<longleftrightarrow> list_all lh1_valid cs \<and>
     stream_bits contents (lh1_bit_reader s) = lh1_encode (lh1_command_tree s) cs @ rest"

lemma unat_symbol:
  assumes "lh1_valid c"
  shows "unat (lh1_symbol c) = (case c of Literal v \<Rightarrow> unat v | History d n \<Rightarrow> 0x100 + (n - 3))"
proof (cases c)
  case (Literal v)
  then show ?thesis using unat_u8_less [of v] by (simp add: unsigned_ucast_eq take_bit_nat_eq_self)
next
  case (History d n)
  then have "0x100 + (n - 3) < 65536" using assms by simp
  then show ?thesis unfolding History lh1_symbol.simps lz_command.case unat_of_nat by simp
qed

lemma symbol_less: "lh1_valid c \<Longrightarrow> unat (lh1_symbol c) < 314"
  using unat_symbol [of c] order_less_trans [OF unat_u8_less, of 314] by (cases c) simp_all

context reliable_reader begin

lemma lh1_read_encoded:
  assumes inv: "lh1_inv s" and c: "lh1_valid c"
    and bits: "stream_bits contents (lh1_bit_reader s) = dyn_code (lh1_command_tree s) (lh1_symbol c) @ lh1_operand c @ bs"
  obtains t where "lh1_read_command rd s = (Ok c, t)" and "lh1_command_tree t = after_count (lh1_symbol c) (lh1_command_tree s)"
    and "stream_bits contents (lh1_bit_reader t) = bs"
proof -
  have s: "dyn_tree_ok (lh1_command_tree s)" "stream_ok (lh1_bit_reader s)" using inv by (simp_all add: lh1_inv_def)
  obtain b where b: "dyn_read_entry rd (lh1_command_tree s, lh1_bit_reader s) =
      (Ok (lh1_symbol c), (after_count (lh1_symbol c) (lh1_command_tree s), b))" "stream_ok b"
      "stream_bits contents b = lh1_operand c @ bs"
    using dyn_read_code [OF s(1) symbol_less [OF c] s(2) bits] by blast
  define u where "u = s\<lparr>lh1_command_tree := after_count (lh1_symbol c) (lh1_command_tree s), lh1_bit_reader := b\<rparr>"
  have u: "lh1_command_tree u = after_count (lh1_symbol c) (lh1_command_tree s)" "lh1_bit_reader u = b"
    by (simp_all add: u_def)
  have read: "lh1_read_code rd s = (Ok (lh1_symbol c), u)"
    unfolding u_def by (rule lh1_read_code_apply [OF b(1)])
  note step = bnd_Ok [of "lh1_read_code rd", OF read]
  show thesis
  proof (cases c)
    case (Literal v)
    have "lh1_symbol c \<le> 0xFF"
      using unat_symbol [OF c] unat_u8_less [of v] by (simp add: Literal word_le_nat_alt)
    moreover have "(ucast (lh1_symbol c) :: u8) = v"
      by (rule bit_word_eqI) (simp add: Literal bit_simps)
    ultimately have "lh1_read_command rd s = (Ok c, u)"
      unfolding lh1_read_command_def step by (simp add: ret_apply Literal)
    moreover have "stream_bits contents (lh1_bit_reader u) = bs" using b(3) unfolding u(2) Literal by simp
    ultimately show thesis using u(1) by (intro that)
  next
    case (History d n)
    have v: "d < 4096" "3 \<le> n" "n \<le> 60" using c by (simp_all add: History)
    have "stream_bits contents b = offset_encode d @ bs" using b(3) by (simp add: History)
    from lh1_read_encoded_offset [OF v(1) b(2) this] obtain w e where w: "lh1_read_offset rd b = (Ok w, e)" "unat w = d"
        "stream_bits contents e = bs"
      by blast
    have z: "zoom lh1_bit_reader (\<lambda>b s. s\<lparr>lh1_bit_reader := b\<rparr>) (lh1_read_offset rd) u = (Ok w, u\<lparr>lh1_bit_reader := e\<rparr>)"
      using w(1) by (simp add: zoom_def u_def)
    have n: "unat (lh1_symbol c) = 0x100 + (n - 3)" using unat_symbol [OF c] by (simp add: History)
    then have gt: "\<not> lh1_symbol c \<le> 0xFF" by (simp add: word_le_nat_alt)
    have "lh1_read_command rd s = (Ok c, u\<lparr>lh1_bit_reader := e\<rparr>)"
      unfolding lh1_read_command_def step if_not_P [OF gt] bnd_Ok [of "zoom _ _ _", OF z] n w(2) ret_apply
      using v(2) by (simp add: History)
    moreover have "lh1_command_tree (u\<lparr>lh1_bit_reader := e\<rparr>) = after_count (lh1_symbol c) (lh1_command_tree s)"
      "stream_bits contents (lh1_bit_reader (u\<lparr>lh1_bit_reader := e\<rparr>)) = bs"
      using w(3) u(1) by simp_all
    ultimately show thesis by (rule that)
  qed
qed

lemma lh1_lz_command_decoder:
  "lz_command_decoder 12 lh1_copier lh1_inv (lh1_read_command rd) (lh1_ready contents rest)"
proof (intro lz_command_decoder.intro lh1_lz_decoder lz_command_decoder_axioms.intro)
  fix s c cs
  assume inv: "lh1_inv s" and ready: "lh1_ready contents rest s (c # cs)"
  then have c: "lh1_valid c" "list_all lh1_valid cs" and bits: "stream_bits contents (lh1_bit_reader s) =
      dyn_code (lh1_command_tree s) (lh1_symbol c) @ lh1_operand c @
      (lh1_encode (after_count (lh1_symbol c) (lh1_command_tree s)) cs @ rest)"
    by (simp_all add: lh1_ready_def)
  from lh1_read_encoded [OF inv c(1) bits] c(2) show "\<exists>t. lh1_read_command rd s = (Ok c, t) \<and> lh1_ready contents rest t cs"
    unfolding lh1_ready_def by metis
next
  fix p r s cs
  show "lh1_ready contents rest (cp_set lh1_copier p r s) cs \<longleftrightarrow> lh1_ready contents rest s cs"
    by (simp add: lh1_ready_def)
next
  fix s c cs
  assume "lh1_ready contents rest s (c # cs)"
  then show "0 < lz_length c" by (cases c) (auto simp: lh1_ready_def)
qed

end

interpretation lh1_slice: lz_command_decoder 12 lh1_copier lh1_inv "lh1_read_command slice_reader"
    "lh1_ready (\<lambda>s. s) rest" for rest
  by (rule slice.lh1_lz_command_decoder)

subsection \<open>Properties\<close>

lemma lh1_decodes:
  assumes "reliable_reader rd contents" and "lh1_new r = (Ok s :: ('e, _) outcome)" and "list_all lh1_valid cs"
    and "bytes_bits (contents r) = lh1_encode (lh1_command_tree s) cs @ rest"
  shows "case lz_run push copy_offset cs (ring_new 4096) of (bs, w) \<Rightarrow>
    \<exists>t. lh1_fill_buffer rd (length bs) s = (Ok bs, t) \<and> lh1_ringbuf t = w \<and>
      lh1_copy_progress t = None \<and> stream_bits contents (lh1_bit_reader t) = rest \<and> dyn_tree_ok (lh1_command_tree t)"
proof -
  obtain bs w where run: "lz_run push copy_offset cs (ring_new 4096) = (bs, w)" by fastforce
  obtain s' where "lh1_new r = (Ok s' :: ('e, _) outcome)" "lh1_inv s'" "lh1_copy_progress s' = None"
      "lh1_bit_reader s' = bit_stream_new r" "lh1_ringbuf s' = ring_new 4096"
    by (rule lh1_new_Ok)
  then have s: "lh1_inv s" "lh1_copy_progress s = None" "lh1_bit_reader s = bit_stream_new r" "lh1_ringbuf s = ring_new 4096"
    using assms(2) by simp_all
  have "lh1_ready contents rest s cs"
    using assms(3,4) by (simp add: lh1_ready_def s stream_bits_new)
  moreover have "pending_copy lh1_copier s = 0"
    by (simp add: pending_copy_def s progress_count_def)
  ultimately obtain t where t: "lh1_fill_buffer rd (length bs) s = (Ok bs, t)" "lh1_inv t"
      "pending_copy lh1_copier t = 0" "lh1_ringbuf t = w" "lh1_ready contents rest t []"
    using lz_command_decoder.decode_fill_commands [OF reliable_reader.lh1_lz_command_decoder [OF assms(1)] s(1)]
      run s(4) unfolding lh1_fill_buffer_def lh1_copier_sel by metis
  from t(2,3) have "lh1_copy_progress t = None"
    by (auto simp: lh1_inv_def progress_ok_def pending_copy_def progress_count_def split: option.splits)
  with t run show ?thesis by (auto simp: lh1_ready_def lh1_inv_def)
qed

text \<open>C10: Round trip of the \<open>-lh1-\<close> format, the adaptive tree included: when the stream begins with the
  encoding of a list of valid commands, every one of which is encoded with the tree its predecessors
  left, decoding gives exactly what the commands write on the initial ring, leaves the ring and the
  rest of the stream as it should, and the tree stays well formed.\<close>

theorem lh1_round_trip:
  assumes "reliable_reader rd contents" and "lh1_new r = (Ok s :: ('e, _) outcome)" and "list_all lh1_valid cs"
    and "bytes_bits (contents r) = lh1_encode (lh1_command_tree s) cs @ rest"
  shows "case lz_run push copy_offset cs (ring_new 4096) of (bs, w) \<Rightarrow>
    \<exists>t. lh1_fill_buffer rd (length bs) s = (Ok bs, t) \<and> lh1_ringbuf t = w \<and>
      lh1_copy_progress t = None \<and> stream_bits contents (lh1_bit_reader t) = rest \<and> dyn_tree_ok (lh1_command_tree t)"
  using assms by (rule lh1_decodes)

lemma lh1_round_trip_witness:
  "\<exists>s t. lh1_new [0xC6, 0] = (Ok s :: (unit, _) outcome) \<and> lh1_fill_buffer slice_reader 1 s = (Ok [0], t)"
proof -
  obtain t where t: "dyn_tree_new = (Ok t :: (unit, _) outcome)"
      "\<And>i. 0 < i \<Longrightarrow> i < 627 \<Longrightarrow> par t i = (i - 1) div 2" "\<And>v. v < 314 \<Longrightarrow> leaf_index t v = 626 - v"
    using dyn_tree_new_Ok [where ?'e = unit] by metis
  obtain s :: "u8 list lh1_decoder" where s: "lh1_new [0xC6, 0] = (Ok s :: (unit, _) outcome)" "lh1_command_tree s = t"
    by (simp add: lh1_new_def t(1))
  have bits: "bytes_bits [0xC6, 0] = lh1_encode (lh1_command_tree s) [Literal 0] @ replicate 7 False"
    using first_code_zero [OF t(2,3)] s(2)
    by (simp add: bytes_bits_def byte_bits_def upt_rec bit_Suc_0_iff numeral_eq_Suc)
  have "fst (lz_run push copy_offset [Literal 0] (ring_new 4096)) = [0]" by simp
  with lh1_round_trip [OF slice.reliable_reader_axioms s(1) _ bits] s(1) show ?thesis
    by (auto split: prod.splits)
qed

text \<open>The size of the buffers a \<open>-lh1-\<close> file is decoded in does not matter: from every state that can
  occur, filling a buffer of \<open>m + n\<close> bytes gives the same bytes, the same error and the same
  state, the adaptive tree included, as filling one of \<open>m\<close> bytes and then one of \<open>n\<close>.\<close>

lemma lh1_fill_buffer_add:
  assumes "reader rd contents" and "lh1_inv s"
  shows "lh1_fill_buffer rd (m + n) s = app (lh1_fill_buffer rd m) (lh1_fill_buffer rd n) s"
  unfolding lh1_fill_buffer_def
  using lz_decoder.decode_fill_add [OF reader.lh1_lz_decoder [OF assms(1)] assms(2)] .

text \<open>The \<open>-lh1-\<close> decoder is safe on every input: whatever the bytes of the stream, filling a buffer
  never panics, none of the unchecked accesses of the adaptive tree is out of bounds, and it always
  ends; it either fills the whole buffer and keeps the invariant or returns an error.\<close>

lemma lh1_fill_buffer_safe:
  assumes "reader rd contents" and "lh1_inv s"
  shows "case lh1_fill_buffer rd n s of
      (Ok bs, t) \<Rightarrow> length bs = n \<and> lh1_inv t
    | (Err e, t) \<Rightarrow> True
    | (Fault q, t) \<Rightarrow> False"
proof -
  note dec = reader.lh1_lz_decoder [OF assms(1)]
  obtain r t where fill: "lh1_fill_buffer rd n s = (r, t)" by fastforce
  show ?thesis
  proof (cases r)
    case (Ok bs)
    with fill lz_decoder.decode_fill_Ok [OF dec assms(2), of n bs t] show ?thesis
      unfolding lh1_fill_buffer_def by simp
  next
    case (Err e)
    with fill show ?thesis by simp
  next
    case (Fault q)
    with fill have "decode_fill lh1_copier (lh1_read_command rd) n s = (Fault q, t)"
      by (simp add: lh1_fill_buffer_def)
    then have False
      by (rule lz_decoder.decode_fill_Fault [where E = "\<lambda>_ _. False", OF dec _ assms(2), rotated])
        (simp add: reader.lh1_read_command_no_Fault [OF assms(1)])
    then show ?thesis by simp
  qed
qed

end
