(* ===== verification/Decode.thy ===== *)
theory Decode
  imports Crc Lzs Lz5 Lhv2_Format Lhv1 Header_Sound
begin

text \<open>
  \<open>src/src/decode.rs\<close>: the choice of a decoder for a member of an archive, and \<open>LhaDecodeReader\<close>,
  which reads a header, decodes the member behind it through a reader limited to its compressed
  size, keeps the checksum of what it has delivered, and goes on to the next header.

  Every feature is taken to be enabled. The first argument \<open>fuel\<close> bounds the loops of the
  \<open>-lh4-\<close> to \<open>-lhx-\<close> decoders; eight times the bytes of the archive and one more are enough.
\<close>

subsection \<open>The decoders\<close>

record 'r passthrough_decoder =
  pt_inner :: 'r

record 'r unsupported_decoder =
  us_inner :: 'r

definition passthrough_new :: "'r \<Rightarrow> 'r passthrough_decoder" where
  "passthrough_new r = \<lparr>pt_inner = r\<rparr>"

definition unsupported_new :: "'r \<Rightarrow> 'r unsupported_decoder" where
  "unsupported_new r = \<lparr>us_inner = r\<rparr>"

definition passthrough_fill_buffer :: "('r, 'e) read_impl \<Rightarrow> nat \<Rightarrow> ('r passthrough_decoder, 'e lha_error, u8 list) act" where
  "passthrough_fill_buffer rd n = zoom pt_inner (\<lambda>r d. d\<lparr>pt_inner := r\<rparr>) (map_err Io (rd_exact rd n))"

definition unsupported_fill_buffer :: "nat \<Rightarrow> ('r unsupported_decoder, 'e lha_error, u8 list) act" where
  "unsupported_fill_buffer n = fail (Decompress ''unsupported compression method'')"

datatype 'r decoder_any =
    PassthroughDecoder "'r passthrough_decoder"
  | UnsupportedDecoder "'r unsupported_decoder"
  | LzsDecoder "'r lzs_decoder"
  | Lz5Decoder "'r lz5_decoder"
  | Lh1Decoder "'r lh1_decoder"
  | Lh4Decoder "'r lhv2_decoder"
  | Lh5Decoder "'r lhv2_decoder"
  | Lh6Decoder "'r lhv2_decoder"
  | Lh7Decoder "'r lhv2_decoder"
  | LhxDecoder "'r lhv2_decoder"

definition new_from_compression :: "compression_method \<Rightarrow> 'r \<Rightarrow> ('e, 'r decoder_any) outcome" where
  "new_from_compression m rd = (case m of
       Pm0 \<Rightarrow> Ok (PassthroughDecoder (passthrough_new rd))
     | Lz4 \<Rightarrow> Ok (PassthroughDecoder (passthrough_new rd))
     | Lh0 \<Rightarrow> Ok (PassthroughDecoder (passthrough_new rd))
     | Lzs \<Rightarrow> Ok (LzsDecoder (lzs_new rd))
     | Lz5 \<Rightarrow> (case lz5_new rd of Some d \<Rightarrow> Ok (Lz5Decoder d) | None \<Rightarrow> Fault Panicked)
     | Lh1 \<Rightarrow> (case lh1_new rd of Ok d \<Rightarrow> Ok (Lh1Decoder d) | Err e \<Rightarrow> Err e | Fault q \<Rightarrow> Fault q)
     | Lh4 \<Rightarrow> Ok (Lh4Decoder (lhv2_new lh5_config rd))
     | Lh5 \<Rightarrow> Ok (Lh5Decoder (lhv2_new lh5_config rd))
     | Lh6 \<Rightarrow> Ok (Lh6Decoder (lhv2_new lh7_config rd))
     | Lh7 \<Rightarrow> Ok (Lh7Decoder (lhv2_new lh7_config rd))
     | Lhx \<Rightarrow> Ok (LhxDecoder (lhv2_new lhx_config rd))
     | _ \<Rightarrow> Ok (UnsupportedDecoder (unsupported_new rd)))"

definition new_from_header :: "lha_header \<Rightarrow> 'r \<Rightarrow> ('e, 'r take_rd decoder_any) outcome" where
  "new_from_header header rd =
     (let limited_rd = take_new rd (unat (compressed_size header)) in
      case header_compression_method header of
        Ok m \<Rightarrow> new_from_compression m limited_rd
      | _ \<Rightarrow> Ok (UnsupportedDecoder (unsupported_new limited_rd)))"

fun is_supported :: "'r decoder_any \<Rightarrow> bool" where
  "is_supported (UnsupportedDecoder d) \<longleftrightarrow> False"
| "is_supported d \<longleftrightarrow> True"

fun any_into_inner :: "'r decoder_any \<Rightarrow> 'r" where
  "any_into_inner (PassthroughDecoder d) = pt_inner d"
| "any_into_inner (UnsupportedDecoder d) = us_inner d"
| "any_into_inner (LzsDecoder d) = lzs_into_inner d"
| "any_into_inner (Lz5Decoder d) = lz5_into_inner d"
| "any_into_inner (Lh1Decoder d) = lh1_into_inner d"
| "any_into_inner (Lh4Decoder d) = lhv2_into_inner d"
| "any_into_inner (Lh5Decoder d) = lhv2_into_inner d"
| "any_into_inner (Lh6Decoder d) = lhv2_into_inner d"
| "any_into_inner (Lh7Decoder d) = lhv2_into_inner d"
| "any_into_inner (LhxDecoder d) = lhv2_into_inner d"

text \<open>A method of the decoder in a variant, after which the variant holds the decoder it left.\<close>

definition variant :: "('d \<Rightarrow> 'r decoder_any) \<Rightarrow> ('d, 'e, 'a) act \<Rightarrow> 'd \<Rightarrow> ('e, 'a) outcome \<times> 'r decoder_any" where
  "variant C m d = (case m d of (r, d') \<Rightarrow> (r, C d'))"

fun any_fill_buffer :: "nat \<Rightarrow> ('r, 'e) read_impl \<Rightarrow> nat \<Rightarrow> ('r decoder_any, 'e lha_error, u8 list) act" where
  "any_fill_buffer fuel rd n (PassthroughDecoder d) = variant PassthroughDecoder (passthrough_fill_buffer rd n) d"
| "any_fill_buffer fuel rd n (UnsupportedDecoder d) = variant UnsupportedDecoder (unsupported_fill_buffer n) d"
| "any_fill_buffer fuel rd n (LzsDecoder d) = variant LzsDecoder (lzs_fill_buffer rd n) d"
| "any_fill_buffer fuel rd n (Lz5Decoder d) = variant Lz5Decoder (lz5_fill_buffer rd n) d"
| "any_fill_buffer fuel rd n (Lh1Decoder d) = variant Lh1Decoder (lh1_fill_buffer rd n) d"
| "any_fill_buffer fuel rd n (Lh4Decoder d) = variant Lh4Decoder (lhv2_fill_buffer fuel lh5_config rd n) d"
| "any_fill_buffer fuel rd n (Lh5Decoder d) = variant Lh5Decoder (lhv2_fill_buffer fuel lh5_config rd n) d"
| "any_fill_buffer fuel rd n (Lh6Decoder d) = variant Lh6Decoder (lhv2_fill_buffer fuel lh7_config rd n) d"
| "any_fill_buffer fuel rd n (Lh7Decoder d) = variant Lh7Decoder (lhv2_fill_buffer fuel lh7_config rd n) d"
| "any_fill_buffer fuel rd n (LhxDecoder d) = variant LhxDecoder (lhv2_fill_buffer fuel lhx_config rd n) d"

subsection \<open>LhaDecodeReader\<close>

record 'r lha_decode_reader =
  dr_header :: lha_header
  dr_crc :: crc16
  dr_output_length :: u64
  dr_decoder :: "'r take_rd decoder_any option"

record ('r, 'e) lha_decode_error =
  de_read :: 'r
  de_source :: "'e lha_error"

definition wrap_err :: "'r \<Rightarrow> 'e lha_error \<Rightarrow> ('r, 'e) lha_decode_error" where
  "wrap_err r e = \<lparr>de_read = r, de_source = e\<rparr>"

definition dr_default :: "'r lha_decode_reader" where
  "dr_default = \<lparr>dr_header = header_default, dr_crc = crc_new, dr_output_length = 0, dr_decoder = None\<rparr>"

definition dr_new :: "(nat \<Rightarrow> bool) \<Rightarrow> ('r, 'e) read_impl \<Rightarrow> 'r \<Rightarrow>
    (('r, 'e) lha_decode_error, 'r lha_decode_reader) outcome" where
  "dr_new reserve rd r = (case lha_read reserve rd r of
       (Ok (Some header), r') \<Rightarrow> (case new_from_header header r' of
           Ok dec \<Rightarrow> Ok \<lparr>dr_header = header, dr_crc = crc_new, dr_output_length = 0, dr_decoder = Some dec\<rparr>
         | Err e \<Rightarrow> Err e
         | Fault q \<Rightarrow> Fault q)
     | (Ok None, r') \<Rightarrow> Err (wrap_err r' (HeaderParse ''a header is missing''))
     | (Err e, r') \<Rightarrow> Err (wrap_err r' e)
     | (Fault q, r') \<Rightarrow> Fault q)"

definition dr_begin :: "('r lha_decode_reader, 'e, unit) act" where
  "dr_begin = modify (\<lambda>s. s\<lparr>dr_crc := crc_reset (dr_crc s), dr_output_length := 0\<rparr>)"

definition dr_begin_new :: "(nat \<Rightarrow> bool) \<Rightarrow> ('r, 'e) read_impl \<Rightarrow> 'r \<Rightarrow>
    ('r lha_decode_reader, ('r, 'e) lha_decode_error, bool) act" where
  "dr_begin_new reserve rd r = (case lha_read reserve rd r of
       (Ok (Some header), r') \<Rightarrow> (case new_from_header header r' of
           Ok dec \<Rightarrow> bnd (modify (\<lambda>s. s\<lparr>dr_decoder := Some dec, dr_header := header\<rparr>)) (\<lambda>_.
             bnd dr_begin (\<lambda>_. ret True))
         | Err e \<Rightarrow> fail e
         | Fault q \<Rightarrow> crash q)
     | (Ok None, r') \<Rightarrow>
         bnd (modify (\<lambda>s. s\<lparr>dr_decoder := Some (UnsupportedDecoder (unsupported_new (take_new r' 0)))\<rparr>)) (\<lambda>_.
           bnd dr_begin (\<lambda>_. ret False))
     | (Err e, r') \<Rightarrow> fail (wrap_err r' e)
     | (Fault q, r') \<Rightarrow> crash q)"

definition begin_with_header_and_decoder :: "lha_header \<Rightarrow> 'r take_rd decoder_any \<Rightarrow> ('r lha_decode_reader, 'e, unit) act" where
  "begin_with_header_and_decoder header dec =
     bnd (modify (\<lambda>s. s\<lparr>dr_decoder := Some dec, dr_header := header\<rparr>)) (\<lambda>_. dr_begin)"

text \<open>The rest of the member is read into a buffer of \<open>buf\<close> bytes and thrown away.\<close>

definition discard_rest :: "nat \<Rightarrow> ('r, 'e) read_impl \<Rightarrow> nat \<Rightarrow> ('r take_rd, 'e lha_error, unit) act" where
  "discard_rest fuel rd buf = bnd (get_state limit) (\<lambda>l.
     if l \<noteq> 0 then map_err Io (discard_to_end fuel (take_reader rd) buf) else ret ())"

definition next_file_with_sink :: "nat \<Rightarrow> nat \<Rightarrow> (nat \<Rightarrow> bool) \<Rightarrow> ('r, 'e) read_impl \<Rightarrow>
    ('r lha_decode_reader, ('r, 'e) lha_decode_error, bool) act" where
  "next_file_with_sink buf fuel reserve rd = (\<lambda>s. case dr_decoder s of
       None \<Rightarrow> (Fault Panicked, s)
     | Some dec \<Rightarrow> (case discard_rest fuel rd buf (any_into_inner dec) of
           (Ok _, limited_rd) \<Rightarrow> dr_begin_new reserve rd (take_inner limited_rd) (s\<lparr>dr_decoder := None\<rparr>)
         | (Err e, limited_rd) \<Rightarrow> (Err (wrap_err (take_inner limited_rd) e), s\<lparr>dr_decoder := None\<rparr>)
         | (Fault q, limited_rd) \<Rightarrow> (Fault q, s\<lparr>dr_decoder := None\<rparr>)))"

definition next_file :: "nat \<Rightarrow> (nat \<Rightarrow> bool) \<Rightarrow> ('r, 'e) read_impl \<Rightarrow>
    ('r lha_decode_reader, ('r, 'e) lha_decode_error, bool) act" where
  "next_file = next_file_with_sink (8 * 1024)"

text \<open>The variant without \<open>std\<close>.\<close>

definition next_file_no_std :: "nat \<Rightarrow> (nat \<Rightarrow> bool) \<Rightarrow> ('r, 'e) read_impl \<Rightarrow>
    ('r lha_decode_reader, ('r, 'e) lha_decode_error, bool) act" where
  "next_file_no_std = next_file_with_sink 512"

definition dr_into_inner :: "'r lha_decode_reader \<Rightarrow> ('e, 'r) outcome" where
  "dr_into_inner s = (case dr_decoder s of
       Some d \<Rightarrow> Ok (take_inner (any_into_inner d))
     | None \<Rightarrow> Fault Panicked)"

definition dr_take_inner :: "('r lha_decode_reader, 'e, 'r option) act" where
  "dr_take_inner = (\<lambda>s.
     (Ok (map_option (\<lambda>d. take_inner (any_into_inner d)) (dr_decoder s)),
      s\<lparr>dr_header := (dr_header s)\<lparr>original_size := 0\<rparr>, dr_output_length := 0, dr_crc := crc_reset (dr_crc s),
        dr_decoder := None\<rparr>))"

text \<open>The subtraction of \<open>len\<close> overflows when more than the original size was delivered.\<close>

definition dr_len :: "'r lha_decode_reader \<Rightarrow> ('e, u64) outcome" where
  "dr_len s = (if original_size (dr_header s) < dr_output_length s then Fault Overflow
     else Ok (original_size (dr_header s) - dr_output_length s))"

definition dr_is_empty :: "'r lha_decode_reader \<Rightarrow> bool" where
  "dr_is_empty s \<longleftrightarrow> original_size (dr_header s) = dr_output_length s"

definition is_present :: "'r lha_decode_reader \<Rightarrow> bool" where
  "is_present s \<longleftrightarrow> dr_decoder s \<noteq> None"

definition is_absent :: "'r lha_decode_reader \<Rightarrow> bool" where
  "is_absent s \<longleftrightarrow> dr_decoder s = None"

definition crc_is_ok :: "'r lha_decode_reader \<Rightarrow> bool" where
  "crc_is_ok s \<longleftrightarrow> sum16 (dr_crc s) = file_crc (dr_header s)"

definition crc_check :: "'r lha_decode_reader \<Rightarrow> ('e lha_error, u16) outcome" where
  "crc_check s = (if crc_is_ok s then Ok (file_crc (dr_header s)) else Err (Checksum ''crc16 mismatch''))"

definition is_decoder_supported :: "'r lha_decode_reader \<Rightarrow> bool" where
  "is_decoder_supported s \<longleftrightarrow> (case dr_decoder s of Some d \<Rightarrow> is_supported d | None \<Rightarrow> False)"

text \<open>\<open>read\<close> with \<open>std\<close> and \<open>read_all\<close> without, the same but for the type of the error.\<close>

definition dr_read_all :: "nat \<Rightarrow> ('r, 'e) read_impl \<Rightarrow> nat \<Rightarrow> ('r lha_decode_reader, 'e lha_error, u8 list) act" where
  "dr_read_all fuel rd n = (\<lambda>s. case dr_len s of
       Ok rest \<Rightarrow> (let len = min n (unat rest) in case dr_decoder s of
           None \<Rightarrow> (Fault Panicked, s)
         | Some dec \<Rightarrow> (case any_fill_buffer fuel (take_reader rd) len dec of
               (Ok bs, d) \<Rightarrow> (Ok bs, s\<lparr>dr_decoder := Some d, dr_output_length := dr_output_length s + of_nat len,
                 dr_crc := digest bs (dr_crc s)\<rparr>)
             | (Err e, d) \<Rightarrow> (Err e, s\<lparr>dr_decoder := Some d\<rparr>)
             | (Fault q, d) \<Rightarrow> (Fault q, s\<lparr>dr_decoder := Some d\<rparr>)))
     | Err e \<Rightarrow> (Err e, s)
     | Fault q \<Rightarrow> (Fault q, s))"

text \<open>The reader of members is itself a reader, with the \<open>read_exact\<close> the trait provides.\<close>

definition dr_reader :: "nat \<Rightarrow> ('r, 'e) read_impl \<Rightarrow> ('r lha_decode_reader, 'e lha_error) read_impl" where
  "dr_reader fuel rd = \<lparr>rd_all = dr_read_all fuel rd,
     rd_exact = default_read_exact (dr_read_all fuel rd) (Io (rd_eof rd)), rd_eof = Io (rd_eof rd)\<rparr>"

subsection \<open>Every decoder\<close>

fun any_inv :: "('r \<Rightarrow> u8 list) \<Rightarrow> nat \<Rightarrow> 'r decoder_any \<Rightarrow> bool" where
  "any_inv contents fuel (PassthroughDecoder d) \<longleftrightarrow> True"
| "any_inv contents fuel (UnsupportedDecoder d) \<longleftrightarrow> True"
| "any_inv contents fuel (LzsDecoder d) \<longleftrightarrow> lzs_inv d"
| "any_inv contents fuel (Lz5Decoder d) \<longleftrightarrow> lz5_inv d"
| "any_inv contents fuel (Lh1Decoder d) \<longleftrightarrow> lh1_inv d"
| "any_inv contents fuel (Lh4Decoder d) \<longleftrightarrow> lhv2_inv contents fuel lh5_config d"
| "any_inv contents fuel (Lh5Decoder d) \<longleftrightarrow> lhv2_inv contents fuel lh5_config d"
| "any_inv contents fuel (Lh6Decoder d) \<longleftrightarrow> lhv2_inv contents fuel lh7_config d"
| "any_inv contents fuel (Lh7Decoder d) \<longleftrightarrow> lhv2_inv contents fuel lh7_config d"
| "any_inv contents fuel (LhxDecoder d) \<longleftrightarrow> lhv2_inv contents fuel lhx_config d"

lemma variant_apply: "m d = (r, d') \<Longrightarrow> variant C m d = (r, C d')"
  by (simp add: variant_def)

lemma fst_variant: "fst (variant C m d) = fst (m d)"
  by (simp add: variant_def split: prod.splits)

lemma variant_app:
  assumes "\<And>d. M (C d) = variant C f d" and "\<And>d. N (C d) = variant C g d"
  shows "app M N (C d) = variant C (app f g) d"
proof -
  obtain r t where f: "f d = (r, t)" by fastforce
  obtain r' t' where g: "g t = (r', t')" by fastforce
  show ?thesis
    by (cases r; cases r') (simp_all add: assms app_def bnd_def ret_def variant_def f g)
qed

lemma lz5_inv_sound: "lz5_new r = Some d \<Longrightarrow> lz5_inv d \<and> lz5_into_inner d = r"
  using lz5_new_Some [of r] unfolding lz5_into_inner_def by (metis option.inject)

lemma lh1_new_sound: "lh1_new r = (Ok d :: ('e, _) outcome) \<Longrightarrow> lh1_inv d \<and> lh1_into_inner d = r"
  using lh1_new_Ok [of r, where ?'e = 'e] unfolding lh1_into_inner_def
  by (metis bit_stream.select_convs(1) bit_stream_new_def outcome.inject(1))

text \<open>A new decoder is well formed, and no decoder has read anything before it is filled.\<close>

lemma new_from_compression_Ok:
  assumes "8 * length (contents r) < fuel"
  obtains d where "new_from_compression m r = (Ok d :: ('e, _) outcome)" and "any_inv contents fuel d"
    and "any_into_inner d = r" and "is_supported d \<longleftrightarrow> m \<notin> {Lhd, Pm1, Pm2}"
proof -
  obtain d5 where d5: "lz5_new r = Some d5" using lz5_new_Some [of r] by metis
  obtain d1 where d1: "lh1_new r = (Ok d1 :: ('e, _) outcome)" using lh1_new_Ok [of r, where ?'e = 'e] by metis
  note inv = lz5_inv_sound [OF d5] lh1_new_sound [OF d1] lzs_inv_new [of r] lhv2_inv_new [where contents = contents and r = r, OF configs_ok(1) assms] lhv2_inv_new [where contents = contents and r = r, OF configs_ok(2) assms] lhv2_inv_new [where contents = contents and r = r, OF configs_ok(3) assms]
  have inner: "lzs_into_inner (lzs_new r) = r" "lhv2_into_inner (lhv2_new cfg r) = r" for cfg
    by (simp_all add: lzs_into_inner_def lzs_new_def lhv2_into_inner_def lhv2_new_def bit_stream_new_def)
  have "\<exists>d. new_from_compression m r = (Ok d :: ('e, _) outcome) \<and> any_inv contents fuel d \<and> any_into_inner d = r \<and>
      (is_supported d \<longleftrightarrow> m \<notin> {Lhd, Pm1, Pm2})"
    by (cases m) (simp_all add: new_from_compression_def d5 d1 inv inner passthrough_new_def unsupported_new_def)
  with that show thesis by blast
qed

lemma passthrough_fill_cases:
  assumes "reader rd contents"
  shows "case passthrough_fill_buffer rd n d of
      (Ok bs, t) \<Rightarrow> length bs = n | (Err e, t) \<Rightarrow> True | (Fault q, t) \<Rightarrow> False"
  using assms
  by (cases rule: reader.rd_exact_cases [of rd contents n "pt_inner d"])
    (simp_all add: passthrough_fill_buffer_def zoom_def map_err_def)

text \<open>
  The one fault of the decoders: the decoder left is one of \<open>-lh4-\<close> to \<open>-lhx-\<close>, and one of its trees is
  what is left of a build whose level counter has overflowed.
\<close>

fun lhv2_of :: "'r decoder_any \<Rightarrow> 'r lhv2_decoder option" where
  "lhv2_of (Lh4Decoder d) = Some d"
| "lhv2_of (Lh5Decoder d) = Some d"
| "lhv2_of (Lh6Decoder d) = Some d"
| "lhv2_of (Lh7Decoder d) = Some d"
| "lhv2_of (LhxDecoder d) = Some d"
| "lhv2_of d = None"

definition overflowed :: "'r decoder_any \<Rightarrow> bool" where
  "overflowed d \<longleftrightarrow> (\<exists>x. lhv2_of d = Some x \<and> (level_overflow (command_tree x) \<or> level_overflow (offset_tree x)))"

lemma any_fill_safe:
  assumes "reader rd contents" and "any_inv contents fuel d"
  shows "case any_fill_buffer fuel rd n d of
      (Ok bs, t) \<Rightarrow> length bs = n \<and> any_inv contents fuel t
    | (Err e, t) \<Rightarrow> True
    | (Fault q, t) \<Rightarrow> q = Overflow \<and> overflowed t"
proof (cases d)
  case (PassthroughDecoder x)
  then show ?thesis using passthrough_fill_cases [OF assms(1), of n x]
    by (auto simp: variant_def split: prod.splits outcome.splits)
next
  case (UnsupportedDecoder x)
  then show ?thesis by (simp add: variant_def unsupported_fill_buffer_def fail_def)
next
  case (LzsDecoder x)
  then show ?thesis using lzs_fill_buffer_safe [OF assms(1), of x n] assms(2)
    by (auto simp: variant_def split: prod.splits outcome.splits)
next
  case (Lz5Decoder x)
  then show ?thesis using lz5_fill_buffer_safe [OF assms(1), of x n] assms(2)
    by (auto simp: variant_def split: prod.splits outcome.splits)
next
  case (Lh1Decoder x)
  then show ?thesis using lh1_fill_buffer_safe [OF assms(1), of x n] assms(2)
    by (auto simp: variant_def split: prod.splits outcome.splits)
next
  case (Lh4Decoder x)
  then show ?thesis using lhv2_fill_buffer_safe [OF assms(1), of lh5_config fuel x n] assms(2)
    by (auto simp: variant_def tree_fault_def overflowed_def split: prod.splits outcome.splits)
next
  case (Lh5Decoder x)
  then show ?thesis using lhv2_fill_buffer_safe [OF assms(1), of lh5_config fuel x n] assms(2)
    by (auto simp: variant_def tree_fault_def overflowed_def split: prod.splits outcome.splits)
next
  case (Lh6Decoder x)
  then show ?thesis using lhv2_fill_buffer_safe [OF assms(1), of lh7_config fuel x n] assms(2)
    by (auto simp: variant_def tree_fault_def overflowed_def split: prod.splits outcome.splits)
next
  case (Lh7Decoder x)
  then show ?thesis using lhv2_fill_buffer_safe [OF assms(1), of lh7_config fuel x n] assms(2)
    by (auto simp: variant_def tree_fault_def overflowed_def split: prod.splits outcome.splits)
next
  case (LhxDecoder x)
  then show ?thesis using lhv2_fill_buffer_safe [OF assms(1), of lhx_config fuel x n] assms(2)
    by (auto simp: variant_def tree_fault_def overflowed_def split: prod.splits outcome.splits)
qed

lemma passthrough_fill_add:
  assumes "reliable_reader rd contents"
  shows "fst (passthrough_fill_buffer rd (m + n) d) =
    fst (app (passthrough_fill_buffer rd m) (passthrough_fill_buffer rd n) d)"
proof -
  note reliable = reliable_reader.rd_exact_reliable [OF assms] and short = reliable_reader.exact_short [OF assms]
  let ?c = "contents (pt_inner d)"
  have fill: "passthrough_fill_buffer rd k e = (map_outcome_err Io r, e\<lparr>pt_inner := t\<rparr>)" if "rd_exact rd k (pt_inner e) = (r, t)" for k e r t
    using that by (simp add: passthrough_fill_buffer_def zoom_def map_err_def)
  show ?thesis
  proof (cases "m \<le> length ?c")
    case True
    then obtain t where t: "rd_exact rd m (pt_inner d) = (Ok (take m ?c), t)" "contents t = drop m ?c" by (rule reliable)
    show ?thesis
    proof (cases "m + n \<le> length ?c")
      case True
      then have "n \<le> length (contents t)" using t(2) by simp
      then obtain u where "rd_exact rd n t = (Ok (take n (contents t)), u)" by (rule reliable)
      moreover obtain w where "rd_exact rd (m + n) (pt_inner d) = (Ok (take (m + n) ?c), w)"
        using reliable [OF True] by blast
      ultimately show ?thesis using t by (simp add: fill app_def bnd_def ret_def take_add)
    next
      case False
      then have "length (contents t) < n" "length ?c < m + n" using t(2) True by simp_all
      then obtain u w where "rd_exact rd n t = (Err (rd_eof rd), u)" "rd_exact rd (m + n) (pt_inner d) = (Err (rd_eof rd), w)"
        using short by blast
      then show ?thesis using t by (simp add: fill app_def bnd_def)
    qed
  next
    case False
    then have "length ?c < m" "length ?c < m + n" by simp_all
    then obtain u w where "rd_exact rd m (pt_inner d) = (Err (rd_eof rd), u)" "rd_exact rd (m + n) (pt_inner d) = (Err (rd_eof rd), w)"
      using short by blast
    then show ?thesis by (simp add: fill app_def bnd_def)
  qed
qed

lemma any_fill_add:
  assumes "reliable_reader rd contents" and "any_inv contents fuel d"
  shows "fst (any_fill_buffer fuel rd (m + n) d) = fst (app (any_fill_buffer fuel rd m) (any_fill_buffer fuel rd n) d)"
proof -
  have base: "reader rd contents" using assms(1) by (simp add: reliable_reader_def)
  have via: "fst (any_fill_buffer fuel rd (m + n) d) = fst (app (any_fill_buffer fuel rd m) (any_fill_buffer fuel rd n) d)"
    if "d = C x" and "\<And>k e. any_fill_buffer fuel rd k (C e) = variant C (f k) e" and "fst (f (m + n) x) = fst (app (f m) (f n) x)"
    for C x f
    using that variant_app [of "any_fill_buffer fuel rd m" C "f m" "any_fill_buffer fuel rd n" "f n"] by (simp add: fst_variant)
  show ?thesis
  proof (cases d)
    case (PassthroughDecoder x)
    then show ?thesis using passthrough_fill_add [OF assms(1), of m n x] by (intro via [of PassthroughDecoder x "passthrough_fill_buffer rd"]) (simp_all)
  next
    case (UnsupportedDecoder x)
    then show ?thesis by (intro via [of UnsupportedDecoder x "unsupported_fill_buffer"]) (simp_all add: unsupported_fill_buffer_def app_def bnd_def fail_def)
  next
    case (LzsDecoder x)
    then show ?thesis using assms(2) lzs_fill_buffer_add [OF base, of x m n] by (intro via [of LzsDecoder x "lzs_fill_buffer rd"]) (simp_all)
  next
    case (Lz5Decoder x)
    then show ?thesis using assms(2) lz5_fill_buffer_add [OF base, of x m n] by (intro via [of Lz5Decoder x "lz5_fill_buffer rd"]) (simp_all)
  next
    case (Lh1Decoder x)
    then show ?thesis using assms(2) lh1_fill_buffer_add [OF base, of x m n] by (intro via [of Lh1Decoder x "lh1_fill_buffer rd"]) (simp_all)
  next
    case (Lh4Decoder x)
    then show ?thesis using assms(2) lhv2_fill_buffer_add [OF base, of lh5_config fuel x m n] by (intro via [of Lh4Decoder x "lhv2_fill_buffer fuel lh5_config rd"]) (simp_all)
  next
    case (Lh5Decoder x)
    then show ?thesis using assms(2) lhv2_fill_buffer_add [OF base, of lh5_config fuel x m n] by (intro via [of Lh5Decoder x "lhv2_fill_buffer fuel lh5_config rd"]) (simp_all)
  next
    case (Lh6Decoder x)
    then show ?thesis using assms(2) lhv2_fill_buffer_add [OF base, of lh7_config fuel x m n] by (intro via [of Lh6Decoder x "lhv2_fill_buffer fuel lh7_config rd"]) (simp_all)
  next
    case (Lh7Decoder x)
    then show ?thesis using assms(2) lhv2_fill_buffer_add [OF base, of lh7_config fuel x m n] by (intro via [of Lh7Decoder x "lhv2_fill_buffer fuel lh7_config rd"]) (simp_all)
  next
    case (LhxDecoder x)
    then show ?thesis using assms(2) lhv2_fill_buffer_add [OF base, of lhx_config fuel x m n] by (intro via [of LhxDecoder x "lhv2_fill_buffer fuel lhx_config rd"]) (simp_all)
  qed
qed

subsection \<open>Reading a member\<close>

definition remaining :: "'r lha_decode_reader \<Rightarrow> nat" where
  "remaining s = unat (original_size (dr_header s)) - unat (dr_output_length s)"

text \<open>A reader of members with a decoder in it.\<close>

definition reader_ok :: "('r \<Rightarrow> u8 list) \<Rightarrow> nat \<Rightarrow> 'r lha_decode_reader \<Rightarrow> bool" where
  "reader_ok contents fuel s \<longleftrightarrow> dr_output_length s \<le> original_size (dr_header s) \<and>
     (\<exists>d. dr_decoder s = Some d \<and> any_inv (take_contents contents) fuel d)"

text \<open>What the delivery of \<open>xs\<close> does to the reader.\<close>

definition delivered :: "u8 list \<Rightarrow> 'r lha_decode_reader \<Rightarrow> 'r lha_decode_reader \<Rightarrow> bool" where
  "delivered xs s t \<longleftrightarrow> dr_header t = dr_header s \<and> length xs \<le> remaining s \<and> remaining t = remaining s - length xs \<and>
     dr_output_length t = dr_output_length s + of_nat (length xs) \<and> dr_crc t = digest xs (dr_crc s)"

lemma delivered_trans: "delivered xs s t \<Longrightarrow> delivered ys t u \<Longrightarrow> delivered (xs @ ys) s u"
  by (auto simp: delivered_def digest_append)

lemma delivered_refl: "delivered [] s s"
  by (simp add: delivered_def digest_Nil)

lemma read_all_run:
  assumes "reader_ok contents fuel s" and "dr_decoder s = Some d"
  shows "dr_read_all fuel rd n s = (case any_fill_buffer fuel (take_reader rd) (min n (remaining s)) d of (r, d') \<Rightarrow> (case r of
      Ok bs \<Rightarrow> (Ok bs, s\<lparr>dr_decoder := Some d', dr_output_length := dr_output_length s + of_nat (min n (remaining s)), dr_crc := digest bs (dr_crc s)\<rparr>)
    | Err e \<Rightarrow> (Err e, s\<lparr>dr_decoder := Some d'\<rparr>) | Fault q \<Rightarrow> (Fault q, s\<lparr>dr_decoder := Some d'\<rparr>)))"
proof -
  have l: "dr_len s = Ok (original_size (dr_header s) - dr_output_length s)"
    "unat (original_size (dr_header s) - dr_output_length s) = remaining s"
    using assms(1) by (simp_all add: reader_ok_def dr_len_def remaining_def unat_sub not_less)
  show ?thesis
    unfolding dr_read_all_def l(1) outcome.case l(2) Let_def assms(2) option.case
    by (simp split: prod.splits outcome.splits)
qed

lemma read_all_cases:
  assumes rd: "reader rd contents" and ok: "reader_ok contents fuel s"
  obtains (Ok) xs t where "dr_read_all fuel rd n s = (Ok xs, t)" and "length xs = min n (remaining s)"
      and "delivered xs s t" and "reader_ok contents fuel t"
    | (Err) e d where "dr_read_all fuel rd n s = (Err e, s\<lparr>dr_decoder := Some d\<rparr>)"
    | (Fault) d where "dr_read_all fuel rd n s = (Fault Overflow, s\<lparr>dr_decoder := Some d\<rparr>)" and "overflowed d"
proof -
  obtain d where d: "dr_decoder s = Some d" "any_inv (take_contents contents) fuel d" and out: "dr_output_length s \<le> original_size (dr_header s)"
    using ok by (auto simp: reader_ok_def)
  let ?n = "min n (remaining s)"
  obtain r d' where fill: "any_fill_buffer fuel (take_reader rd) ?n d = (r, d')" by fastforce
  note safe = any_fill_safe [OF reader_take [OF rd] d(2), of ?n, unfolded fill]
  note run = read_all_run [OF ok d(1), of rd n, unfolded fill prod.case]
  show thesis
  proof (cases r)
    case r: (Ok bs)
    let ?t = "s\<lparr>dr_decoder := Some d', dr_output_length := dr_output_length s + of_nat ?n, dr_crc := digest bs (dr_crc s)\<rparr>"
    have bs: "length bs = ?n" "any_inv (take_contents contents) fuel d'" using safe r by simp_all
    have le: "unat (dr_output_length s) + ?n \<le> unat (original_size (dr_header s))"
      using out by (simp add: remaining_def word_le_nat_alt)
    then have lt: "unat (dr_output_length s) + ?n < 2 ^ 64" using unsigned_less [of "original_size (dr_header s)", where ?'a = nat] by simp
    then have n: "unat (of_nat ?n :: u64) = ?n" by (simp add: unat_of_nat)
    have sum: "unat (dr_output_length s + of_nat ?n) = unat (dr_output_length s) + ?n"
      using lt n by (subst unat_add_lem [THEN iffD1]) simp_all
    show thesis
    proof (rule Ok)
      show "dr_read_all fuel rd n s = (Ok bs, ?t)" unfolding run r by simp
      show "length bs = ?n" by (rule bs(1))
      show "delivered bs s ?t" using sum bs(1) by (simp add: delivered_def remaining_def)
      show "reader_ok contents fuel ?t" using sum le bs(2) by (simp add: reader_ok_def word_le_nat_alt)
    qed
  next
    case (Err e)
    with run show thesis by (intro that(2)) simp
  next
    case (Fault q)
    with run safe show thesis by (intro that(3)) auto
  qed
qed

lemma fst_bnd_ret:
  "fst (bnd m (\<lambda>x. ret (f x)) s) = (case fst (m s) of Ok x \<Rightarrow> Ok (f x) | Err e \<Rightarrow> Err e | Fault q \<Rightarrow> Fault q)"
  by (simp add: bnd_def ret_def split: prod.splits outcome.splits)

lemma read_all_add:
  assumes rd: "reliable_reader rd contents" and ok: "reader_ok contents fuel s"
  shows "fst (dr_read_all fuel rd (m + n) s) = fst (app (dr_read_all fuel rd m) (dr_read_all fuel rd n) s)"
proof -
  have base: "reader rd contents" using rd by (simp add: reliable_reader_def)
  obtain d where d: "dr_decoder s = Some d" "any_inv (take_contents contents) fuel d"
    using ok by (auto simp: reader_ok_def)
  let ?R = "remaining s" and ?f = "any_fill_buffer fuel (take_reader rd)"
  have split: "min m ?R + min n (?R - min m ?R) = min (m + n) ?R" by simp
  have fst_run: "fst (dr_read_all fuel rd k u) = fst (?f (min k (remaining u)) e)"
    if "reader_ok contents fuel u" "dr_decoder u = Some e" for k u e
    unfolding read_all_run [OF that] by (simp split: prod.splits outcome.splits)
  have "fst (app (dr_read_all fuel rd m) (dr_read_all fuel rd n) s) = fst (app (?f (min m ?R)) (?f (min n (?R - min m ?R))) d)"
    using base ok
  proof (cases rule: read_all_cases [where n = m])
    case (Ok xs t)
    then obtain e where e: "?f (min m ?R) d = (Ok xs, e)" "dr_decoder t = Some e"
      unfolding read_all_run [OF ok d(1)] by (auto split: prod.splits outcome.splits)
    have "remaining t = ?R - min m ?R" using Ok(2,3) by (simp add: delivered_def)
    with fst_run [OF Ok(4) e(2), of n] have r: "fst (dr_read_all fuel rd n t) = fst (?f (min n (?R - min m ?R)) e)" by simp
    show ?thesis
      unfolding app_def bnd_Ok [of "dr_read_all fuel rd m", OF Ok(1)] bnd_Ok [of "?f (min m ?R)", OF e(1)]
      by (simp add: fst_bnd_ret r)
  next
    case (Err e t)
    then have "fst (?f (min m ?R) d) = Err e" using fst_run [OF ok d(1), of m] by simp
    with Err show ?thesis by (cases "?f (min m ?R) d") (simp add: app_def bnd_def)
  next
    case (Fault t)
    then have "fst (?f (min m ?R) d) = Fault Overflow" using fst_run [OF ok d(1), of m] by simp
    with Fault show ?thesis by (cases "?f (min m ?R) d") (simp add: app_def bnd_def)
  qed
  then show ?thesis
    unfolding fst_run [OF ok d(1)] split [symmetric] any_fill_add [OF reliable_take [OF rd] d(2)] by simp
qed

text \<open>Successive reads.\<close>

fun read_many :: "nat \<Rightarrow> ('r, 'e) read_impl \<Rightarrow> nat list \<Rightarrow> ('r lha_decode_reader, 'e lha_error, u8 list) act" where
  "read_many fuel rd [] = ret []"
| "read_many fuel rd (n # ns) = app (dr_read_all fuel rd n) (read_many fuel rd ns)"

text \<open>Reading into a buffer until nothing comes, as \<open>io::copy\<close> does.\<close>

fun read_to_end :: "nat \<Rightarrow> nat \<Rightarrow> ('r, 'e) read_impl \<Rightarrow> nat \<Rightarrow> ('r lha_decode_reader, 'e lha_error, u8 list) act" where
  "read_to_end 0 fuel rd buf = crash OutOfFuel"
| "read_to_end (Suc k) fuel rd buf = bnd (dr_read_all fuel rd buf) (\<lambda>bs.
     if bs = [] then ret [] else bnd (read_to_end k fuel rd buf) (\<lambda>cs. ret (bs @ cs)))"

lemma read_many_Ok:
  assumes rd: "reader rd contents"
  shows "reader_ok contents fuel s \<Longrightarrow> read_many fuel rd ns s = (Ok xs, t) \<Longrightarrow>
    delivered xs s t \<and> reader_ok contents fuel t \<and> length xs = min (sum_list ns) (remaining s)"
proof (induction ns arbitrary: s xs)
  case Nil
  then show ?case by (simp add: ret_def delivered_refl)
next
  case (Cons n ns)
  from Cons.prems(2) obtain bs u cs where run: "dr_read_all fuel rd n s = (Ok bs, u)" "read_many fuel rd ns u = (Ok cs, t)" "xs = bs @ cs"
    by (auto simp: app_eq_Ok_iff)
  have u: "length bs = min n (remaining s)" "delivered bs s u" "reader_ok contents fuel u"
    by (rule read_all_cases [OF rd Cons.prems(1), of n]; use run(1) in simp)+
  from Cons.IH [OF u(3) run(2)] u delivered_trans [OF u(2), of cs t] run(3) show ?case
    by (auto simp: delivered_def)
qed

lemma read_many_sum:
  assumes rd: "reliable_reader rd contents"
  shows "reader_ok contents fuel s \<Longrightarrow> ns \<noteq> [] \<Longrightarrow> fst (read_many fuel rd ns s) = fst (dr_read_all fuel rd (sum_list ns) s)"
proof (induction ns arbitrary: s)
  case Nil
  then show ?case by simp
next
  case (Cons n ns)
  have base: "reader rd contents" using rd by (simp add: reliable_reader_def)
  have "fst (app (dr_read_all fuel rd n) (read_many fuel rd ns) s) = fst (dr_read_all fuel rd (n + sum_list ns) s)"
    using base Cons.prems(1)
  proof (cases rule: read_all_cases [where n = n])
    case (Ok xs t)
    show ?thesis
    proof (cases "ns = []")
      case True
      then show ?thesis using Ok(1) by (simp add: app_def bnd_def ret_def)
    next
      case False
      have "fst (app (dr_read_all fuel rd n) (read_many fuel rd ns) s) =
          fst (app (dr_read_all fuel rd n) (dr_read_all fuel rd (sum_list ns)) s)"
        unfolding app_def bnd_Ok [of "dr_read_all fuel rd n", OF Ok(1)] by (simp add: fst_bnd_ret Cons.IH [OF Ok(4) False])
      then show ?thesis using read_all_add [OF rd Cons.prems(1)] by simp
    qed
  next
    case (Err e d)
    then show ?thesis using read_all_add [OF rd Cons.prems(1), of n "sum_list ns"] by (simp add: app_def bnd_def)
  next
    case (Fault d)
    then show ?thesis using read_all_add [OF rd Cons.prems(1), of n "sum_list ns"] by (simp add: app_def bnd_def)
  qed
  then show ?case by simp
qed

lemma read_to_end_ends:
  assumes rd: "reader rd contents" and buf: "0 < buf"
  shows "reader_ok contents fuel s \<Longrightarrow> remaining s < k \<Longrightarrow>
    case read_to_end k fuel rd buf s of
      (Ok xs, t) \<Rightarrow> delivered xs s t \<and> length xs = remaining s \<and> reader_ok contents fuel t
    | (Err e, t) \<Rightarrow> True
    | (Fault q, t) \<Rightarrow> q = Overflow"
proof (induction k arbitrary: s)
  case 0
  then show ?case by simp
next
  case (Suc k)
  show ?case
    using rd Suc.prems(1)
  proof (cases rule: read_all_cases [where n = buf])
    case (Ok xs t)
    show ?thesis
    proof (cases "xs = []")
      case True
      then have "remaining s = 0" using Ok(2) buf by simp
      with True Ok show ?thesis by (simp add: bnd_def ret_def)
    next
      case False
      then have "remaining t < k" using Ok(2,3) Suc.prems(2) by (cases xs) (auto simp: delivered_def)
      note rest = Suc.IH [OF Ok(4) this]
      obtain r u where ru: "read_to_end k fuel rd buf t = (r, u)" by fastforce
      show ?thesis
      proof (cases r)
        case r: (Ok ys)
        with rest ru have "delivered ys t u" "length ys = remaining t" "reader_ok contents fuel u" by simp_all
        moreover have "delivered (xs @ ys) s u" using Ok(3) \<open>delivered ys t u\<close> by (rule delivered_trans)
        moreover have "length xs + remaining t = remaining s" using Ok(3) by (simp add: delivered_def)
        ultimately show ?thesis using False Ok(1) ru r by (simp add: bnd_def ret_def)
      qed (use rest ru False Ok(1) in \<open>simp_all add: bnd_def\<close>)
    qed
  next
    case (Err e d)
    then show ?thesis by (simp add: bnd_def)
  next
    case (Fault d)
    then show ?thesis by (simp add: bnd_def)
  qed
qed

end
