(* ===== verification/Decode_Member.thy ===== *)
theory Decode_Member
  imports Decode
begin

text \<open>
  The borders of the members of an archive: whatever a decoder does, it takes bytes from its limited
  reader only through the two methods of the trait, so what lies behind the member stays where it
  is, and \<open>next_file\<close> goes on exactly there.
\<close>

subsection \<open>What every action keeps\<close>

definition keeps :: "('s \<Rightarrow> bool) \<Rightarrow> ('s, 'e, 'a) act \<Rightarrow> bool" where
  "keeps P m \<longleftrightarrow> (\<forall>s. P s \<longrightarrow> P (snd (m s)))"

named_theorems keeps_rules

lemma keepsD: "keeps P m \<Longrightarrow> P s \<Longrightarrow> P (snd (m s))"
  by (simp add: keeps_def)

lemma keepsE: "keeps P m \<Longrightarrow> P s \<Longrightarrow> m s = (r, t) \<Longrightarrow> P t"
  by (auto simp: keeps_def)

lemma keeps_ret [keeps_rules]: "keeps P (ret x)"
  by (simp add: keeps_def ret_def)

lemma keeps_fail [keeps_rules]: "keeps P (fail e)"
  by (simp add: keeps_def fail_def)

lemma keeps_crash [keeps_rules]: "keeps P (crash q)"
  by (simp add: keeps_def crash_def)

lemma keeps_get_state [keeps_rules]: "keeps P (get_state f)"
  by (simp add: keeps_def get_state_def)

lemma keeps_modify: "(\<And>s. P s \<Longrightarrow> P (f s)) \<Longrightarrow> keeps P (modify f)"
  by (simp add: keeps_def modify_def)

lemma keeps_bnd [keeps_rules]: "keeps P m \<Longrightarrow> (\<And>x. keeps P (f x)) \<Longrightarrow> keeps P (bnd m f)"
  by (fastforce simp: keeps_def bnd_def split: prod.splits outcome.splits)

lemma keeps_if [keeps_rules]: "(b \<Longrightarrow> keeps P m) \<Longrightarrow> (\<not> b \<Longrightarrow> keeps P n) \<Longrightarrow> keeps P (if b then m else n)"
  by simp

lemma keeps_let [keeps_rules]: "(\<And>x. x = y \<Longrightarrow> keeps P (f x)) \<Longrightarrow> keeps P (let x = y in f x)"
  by simp

lemma keeps_case_prod [keeps_rules]: "(\<And>x y. p = (x, y) \<Longrightarrow> keeps P (f x y)) \<Longrightarrow> keeps P (case p of (x, y) \<Rightarrow> f x y)"
  by (cases p) simp

lemma keeps_map_err [keeps_rules]: "keeps P m \<Longrightarrow> keeps P (map_err g m)"
  unfolding keeps_def map_err_def by (simp add: case_prod_beta)

lemma keeps_zoom:
  assumes "keeps Q m" and "\<And>s. P s \<Longrightarrow> Q (g s)" and "\<And>s t. P s \<Longrightarrow> Q t \<Longrightarrow> P (p t s)"
  shows "keeps P (zoom g p m)"
  using assms by (fastforce simp: keeps_def zoom_def split: prod.splits)

lemma keeps_any: "keeps (\<lambda>s. True) m"
  by (simp add: keeps_def)

lemma keeps_app [keeps_rules]: "keeps P m \<Longrightarrow> keeps P n \<Longrightarrow> keeps P (app m n)"
  unfolding app_def by (intro keeps_rules)

lemma keeps_fill_loop: "(\<And>n. keeps P (step n)) \<Longrightarrow> keeps P (fill_loop fuel step n)"
  by (induction fuel step n rule: fill_loop.induct) (simp_all add: keeps_rules)

text \<open>The fields a copy changes.\<close>

definition copy_free :: "'s copier \<Rightarrow> ('s \<Rightarrow> bool) \<Rightarrow> bool" where
  "copy_free cp P \<longleftrightarrow> (\<forall>p r s. P s \<longrightarrow> P (cp_set cp p r s))"

lemma keeps_copy: "copy_free cp P \<Longrightarrow> keeps P (copy_from_history cp n a count)"
  by (simp add: keeps_def copy_free_def copy_from_history_def split: prod.splits)

lemma keeps_decode_fill:
  assumes "copy_free cp P" and "keeps P read_command"
  shows "keeps P (decode_fill cp read_command n)"
proof -
  have "keeps P (continue_copy cp n)" for n
    using keepsD [OF keeps_copy [OF assms(1)]] by (auto simp: keeps_def continue_copy_def split: option.splits)
  moreover have "keeps P (execute cp n c)" for n c
    using assms(1) keepsD [OF keeps_copy [OF assms(1)]] by (cases c) (auto simp: keeps_def copy_free_def)
  ultimately show ?thesis
    unfolding decode_fill_def fill_with_def decode_step_def
    by (intro keeps_rules keeps_fill_loop assms(2))
qed

subsection \<open>What every decoder keeps of its reader\<close>

locale inner_kept =
  fixes rd :: "('r, 'e) read_impl" and I :: "'r \<Rightarrow> bool"
  assumes all_keeps: "keeps I (rd_all rd n)"
    and exact_keeps: "keeps I (rd_exact rd n)"

context inner_kept begin

abbreviation bits_at :: "'r bit_stream \<Rightarrow> bool" where
  "bits_at \<equiv> \<lambda>b. I (inner b)"

lemma keeps_next_bits [keeps_rules]: "keeps bits_at (next_bits rd n)"
proof -
  have "I r" if "I r'" "rd_all rd 8 r' = (x, r)" for r r' x
    using keepsD [OF all_keeps, of r' 8] that by simp
  then show ?thesis
    by (auto simp: keeps_def next_bits_def Let_def split: prod.splits outcome.splits)
qed

lemma keeps_read_bits [keeps_rules]: "keeps bits_at (read_bits rd n)"
  unfolding read_bits_def by (intro keeps_rules)

lemma keeps_read_bit [keeps_rules]: "keeps bits_at (read_bit rd)"
  unfolding read_bit_def by (intro keeps_rules)

lemma passthrough_keeps: "keeps (\<lambda>d. I (pt_inner d)) (passthrough_fill_buffer rd n)"
  unfolding passthrough_fill_buffer_def
  by (rule keeps_zoom [OF keeps_map_err [OF exact_keeps]]) simp_all

lemma lzs_keeps: "keeps (\<lambda>s. I (lzs_into_inner s)) (lzs_fill_buffer rd n)"
  unfolding lzs_fill_buffer_def lzs_read_command_def lzs_read_def
  by (intro keeps_decode_fill keeps_zoom [where Q = bits_at] keeps_rules) (simp_all add: copy_free_def lzs_into_inner_def)

lemma lz5_exact_keeps: "keeps (\<lambda>s. I (lz5_into_inner s)) (zoom lz5_reader (\<lambda>r s. s\<lparr>lz5_reader := r\<rparr>) (map_err Io (rd_exact rd n)))"
  by (rule keeps_zoom [OF keeps_map_err [OF exact_keeps]]) (simp_all add: lz5_into_inner_def)

lemma lz5_keeps: "keeps (\<lambda>s. I (lz5_into_inner s)) (lz5_fill_buffer rd n)"
proof -
  have "keeps (\<lambda>s. I (lz5_into_inner s)) (lz5_read_byte rd)" "keeps (\<lambda>s. I (lz5_into_inner s)) (lz5_read_pair rd)"
    unfolding lz5_read_byte_def lz5_read_pair_def
    by (intro keeps_bnd lz5_exact_keeps; simp add: keeps_rules split: list.splits)+
  then have "keeps (\<lambda>s. I (lz5_into_inner s)) (lz5_read_command rd)"
    unfolding lz5_read_command_def by (intro keeps_rules keeps_modify) (simp_all add: lz5_into_inner_def)
  then have "keeps (\<lambda>s. I (lz5_into_inner s)) (decode_fill lz5_copier (lz5_read_command rd) n)"
    by (rule keeps_decode_fill [rotated]) (simp add: copy_free_def lz5_into_inner_def)
  then show ?thesis
    by (fastforce simp: keeps_def lz5_fill_buffer_def lz5_into_inner_def split: prod.splits outcome.splits)
qed

lemma dyn_walk_keeps: "keeps bits_at (dyn_walk fuel rd nodes e)"
proof (induction fuel arbitrary: e)
  case 0
  then show ?case by (simp add: keeps_rules)
next
  case (Suc fuel)
  then show ?case by (cases "as_type e") (simp_all add: keeps_rules Let_def)
qed

lemma dyn_read_keeps: "keeps (\<lambda>(t, b). bits_at b) (dyn_read_entry rd)"
  unfolding dyn_read_entry_def
  by (intro keeps_rules keeps_zoom [OF dyn_walk_keeps] keeps_zoom [OF keeps_any]) auto

lemma lh1_reader_keeps: "keeps (\<lambda>s. I (lh1_into_inner s)) (lh1_fill_buffer rd n)"
proof -
  have "keeps (\<lambda>s. I (lh1_into_inner s)) (lh1_read_code rd)"
    unfolding lh1_read_code_def by (rule keeps_zoom [OF dyn_read_keeps]) (auto simp: lh1_into_inner_def)
  moreover have "keeps bits_at (lh1_read_offset rd)"
    unfolding lh1_read_offset_def by (auto intro!: keeps_rules split: outcome.splits)
  then have "keeps (\<lambda>s. I (lh1_into_inner s)) (zoom lh1_bit_reader (\<lambda>b s. s\<lparr>lh1_bit_reader := b\<rparr>) (lh1_read_offset rd))"
    by (rule keeps_zoom) (simp_all add: lh1_into_inner_def)
  ultimately have "keeps (\<lambda>s. I (lh1_into_inner s)) (lh1_read_command rd)"
    unfolding lh1_read_command_def by (intro keeps_rules)
  then show ?thesis
    unfolding lh1_fill_buffer_def by (rule keeps_decode_fill [rotated]) (simp add: copy_free_def lh1_into_inner_def)
qed

subsubsection \<open>The decoders of LHA version 2\<close>

abbreviation lhv2_at :: "'r lhv2_decoder \<Rightarrow> bool" where
  "lhv2_at \<equiv> \<lambda>s. I (lhv2_into_inner s)"

lemma keeps_on_bits [keeps_rules]: "keeps bits_at m \<Longrightarrow> keeps lhv2_at (on_bits m)"
  unfolding on_bits_def by (rule keeps_zoom) (simp_all add: lhv2_into_inner_def)

lemma keeps_lhv2_modify [keeps_rules]:
  "keeps lhv2_at (modify (\<lambda>s. s\<lparr>offset_tree := f s\<rparr>))" "keeps lhv2_at (modify (\<lambda>s. s\<lparr>command_tree := f s\<rparr>))"
  "keeps lhv2_at (modify (\<lambda>s. s\<lparr>remaining_commands := k s\<rparr>))"
  by (rule keeps_modify; simp add: lhv2_into_inner_def)+

lemma keeps_build [keeps_rules]: "keeps lhv2_at (build_offset_tree lens)" "keeps lhv2_at (build_command_tree lens)"
  unfolding build_offset_tree_def build_command_tree_def
  by (rule keeps_zoom [OF keeps_any]; simp add: lhv2_into_inner_def)+

lemma code_length_loop_keeps: "rd' = rd \<Longrightarrow> keeps bits_at (code_length_loop rd' len)"
proof (induction rd' len rule: code_length_loop.induct)
  case (1 rd' len)
  then show ?case by (subst code_length_loop.simps) (auto intro!: keeps_rules)
qed

lemmas keeps_code_length_loop [keeps_rules] = code_length_loop_keeps [OF refl]

lemma keeps_read_code_lengths [keeps_rules]: "keeps bits_at (read_code_lengths rd n)"
  by (induction n) (simp_all add: read_code_length_def keeps_rules)

lemma keeps_read_code_skip [keeps_rules]: "keeps bits_at (read_code_skip rd n)"
  unfolding read_code_skip_def by (intro keeps_rules)

lemma keeps_read_entry_from: "keeps bits_at (read_entry_from fuel rd t e)"
proof (induction fuel arbitrary: e)
  case 0
  then show ?case by (simp add: keeps_rules)
next
  case (Suc fuel)
  then show ?case by (cases "as_type e") (simp_all add: keeps_rules Let_def)
qed

lemma keeps_read_entry [keeps_rules]: "keeps bits_at (read_entry rd h)"
  unfolding read_entry_def by (intro keeps_rules keeps_read_entry_from)

lemma keeps_read_command_lengths [keeps_rules]: "keeps lhv2_at (read_command_lengths fuel rd k i lens)"
  by (induction fuel arbitrary: i lens) (simp_all add: keeps_rules)

lemma keeps_begin_new_block [keeps_rules]: "keeps lhv2_at (begin_new_block cfg rd)"
  unfolding begin_new_block_def read_temp_tree_def read_command_tree_def read_offset_tree_def
  by (intro keeps_rules)

lemma keeps_begin_blocks [keeps_rules]: "keeps lhv2_at (begin_blocks fuel cfg rd)"
  by (induction fuel) (simp_all add: keeps_rules)

lemma lhv2_keeps: "keeps lhv2_at (lhv2_fill_buffer fuel cfg rd n)"
proof -
  have "keeps lhv2_at (lhv2_read_command fuel cfg rd)"
    unfolding lhv2_read_command_def read_offset_def by (intro keeps_rules)
  then show ?thesis
    unfolding lhv2_fill_buffer_def by (rule keeps_decode_fill [rotated]) (simp add: copy_free_def lhv2_into_inner_def)
qed

lemma any_keeps: "keeps (\<lambda>d. I (any_into_inner d)) (any_fill_buffer fuel rd n)"
proof -
  have via: "I (any_into_inner (snd (variant C m x)))" if "keeps J m" "J x" "\<And>x. any_into_inner (C x) = g x" "J = (\<lambda>x. I (g x))" for C m x J g
    using keepsE [OF that(1,2)] that(3,4) by (simp add: variant_def split: prod.splits)
  have "I (any_into_inner (snd (any_fill_buffer fuel rd n d)))" if "I (any_into_inner d)" for d
  proof (cases d)
    case (UnsupportedDecoder x)
    with that show ?thesis by (simp add: variant_def unsupported_fill_buffer_def fail_def)
  qed (use that in \<open>simp_all add: via [OF passthrough_keeps] via [OF lzs_keeps] via [OF lz5_keeps] via [OF lh1_reader_keeps] via [OF lhv2_keeps]\<close>)
  then show ?thesis by (simp add: keeps_def)
qed

end

subsection \<open>What lies behind a member\<close>

text \<open>At most \<open>l\<close> bytes of the member are left, all of them are there, and \<open>C\<close> follows.\<close>

definition behind :: "('r \<Rightarrow> u8 list) \<Rightarrow> u8 list \<Rightarrow> nat \<Rightarrow> 'r take_rd \<Rightarrow> bool" where
  "behind contents C l t \<longleftrightarrow> limit t \<le> l \<and> limit t \<le> length (contents (take_inner t)) \<and>
     drop (limit t) (contents (take_inner t)) = C"

lemma behind_kept:
  assumes "reliable_reader rd contents"
  shows "inner_kept (take_reader rd) (behind contents C l)"
proof -
  note all = reliable_reader.rd_all_reliable [OF assms] and exact = reliable_reader.rd_exact_reliable [OF assms]
  have "behind contents C l (snd (take_read_all rd n t))" if "behind contents C l t" for n t
  proof (cases "limit t = 0")
    case False
    obtain u where "rd_all rd (min n (limit t)) (take_inner t) = (Ok (take (min n (limit t)) (contents (take_inner t))), u)"
        "contents u = drop (min n (limit t)) (contents (take_inner t))"
      by (rule all)
    with that False show ?thesis by (auto simp: behind_def take_read_all_def)
  qed (use that in \<open>simp add: take_read_all_def\<close>)
  moreover have "behind contents C l (snd (take_read_exact rd n t))" if "behind contents C l t" for n t
  proof (cases "n \<le> limit t")
    case True
    then have "n \<le> length (contents (take_inner t))" using that by (simp add: behind_def)
    then obtain u where "rd_exact rd n (take_inner t) = (Ok (take n (contents (take_inner t))), u)"
        "contents u = drop n (contents (take_inner t))"
      by (rule exact)
    with that True show ?thesis by (auto simp: behind_def take_read_exact_def)
  qed (use that in \<open>simp add: take_read_exact_def\<close>)
  ultimately show ?thesis by unfold_locales (simp_all add: keeps_def)
qed

interpretation slice_member: inner_kept "take_reader slice_reader" "behind (\<lambda>s. s) C l" for C l
  by (rule behind_kept) (rule slice.reliable_reader_axioms)

definition member_at :: "('r \<Rightarrow> u8 list) \<Rightarrow> u8 list \<Rightarrow> nat \<Rightarrow> 'r lha_decode_reader \<Rightarrow> bool" where
  "member_at contents C l s \<longleftrightarrow> (\<exists>d. dr_decoder s = Some d \<and> behind contents C l (any_into_inner d))"

lemma read_all_keeps:
  assumes "reliable_reader rd contents"
  shows "keeps (member_at contents C l) (dr_read_all fuel rd n)"
proof -
  have "member_at contents C l (snd (dr_read_all fuel rd n s))" if s: "member_at contents C l s" for s
  proof -
    obtain d where d: "dr_decoder s = Some d" "behind contents C l (any_into_inner d)"
      using s by (auto simp: member_at_def)
    have "behind contents C l (any_into_inner (snd (any_fill_buffer fuel (take_reader rd) k d)))" for k
      using keepsD [OF inner_kept.any_keeps [OF behind_kept [OF assms]] d(2)] .
    with d(1) s show ?thesis
      by (auto simp: dr_read_all_def dr_len_def member_at_def Let_def split: prod.splits outcome.splits) (metis snd_conv)+
  qed
  then show ?thesis by (simp add: keeps_def)
qed

text \<open>The state after reads of these sizes, failed ones included.\<close>

fun after_reads :: "nat \<Rightarrow> ('r, 'e) read_impl \<Rightarrow> nat list \<Rightarrow> 'r lha_decode_reader \<Rightarrow> 'r lha_decode_reader" where
  "after_reads fuel rd [] s = s"
| "after_reads fuel rd (n # ns) s = after_reads fuel rd ns (snd (dr_read_all fuel rd n s))"

lemma after_reads_member:
  assumes "reliable_reader rd contents"
  shows "member_at contents C l s \<Longrightarrow> member_at contents C l (after_reads fuel rd ns s)"
  by (induction ns arbitrary: s) (simp_all add: keepsD [OF read_all_keeps [OF assms]])

lemma discard_rest_behind:
  assumes "reliable_reader rd contents" and "behind contents C l t" and "0 < buf" and "l < fuel"
  obtains u where "discard_rest fuel rd buf t = (Ok (), u)" and "contents (take_inner u) = C"
proof (cases "limit t = 0")
  case True
  with assms(2) show thesis by (intro that [of t]) (simp_all add: discard_rest_def bnd_def get_state_def ret_def behind_def)
next
  case False
  have base: "reader rd contents" using assms(1) by (simp add: reliable_reader_def)
  have "length (take_contents contents t) < fuel" using assms(2,4) by (simp add: take_contents_def behind_def)
  then obtain u where u: "discard_loop fuel (take_reader rd) buf t = (Ok (), u)"
    using assms(3) by (rule reliable_reader.discard_loop_reliable [OF reliable_take [OF assms(1)]])
  have "contents (take_inner u) = C"
    using discard_loop_take_inner [OF base assms(3) u] assms(2) by (simp add: behind_def)
  moreover have "discard_rest fuel rd buf t = (Ok (), u)"
    using u False assms(3) by (simp add: discard_rest_def bnd_def get_state_def map_err_def discard_to_end_def)
  ultimately show thesis by (rule that [rotated])
qed

lemma next_file_behind:
  assumes "reliable_reader rd contents" and "member_at contents C l s" and "0 < buf" and "l < fuel"
  obtains r where "next_file_with_sink buf fuel reserve rd s = dr_begin_new reserve rd r (s\<lparr>dr_decoder := None\<rparr>)"
    and "contents r = C"
proof -
  obtain d where d: "dr_decoder s = Some d" "behind contents C l (any_into_inner d)"
    using assms(2) by (auto simp: member_at_def)
  obtain u where "discard_rest fuel rd buf (any_into_inner d) = (Ok (), u)" "contents (take_inner u) = C"
    using discard_rest_behind [OF assms(1) d(2) assms(3,4)] by blast
  with d(1) show thesis by (intro that) (simp_all add: next_file_with_sink_def)
qed

subsection \<open>Opening a member\<close>

lemma new_from_header_Ok:
  assumes "8 * length (contents r) < fuel"
  obtains d where "new_from_header h r = (Ok d :: ('e, _) outcome)" and "any_inv (take_contents contents) fuel d"
    and "any_into_inner d = take_new r (unat (compressed_size h))"
    and "\<And>m. header_compression_method h = Ok m \<Longrightarrow>
      new_from_compression m (take_new r (unat (compressed_size h))) = (Ok d :: ('e, _) outcome)"
    and "is_supported d \<longleftrightarrow> (\<exists>m. header_compression_method h = Ok m \<and> m \<notin> {Lhd, Pm1, Pm2})"
proof -
  let ?r = "take_new r (unat (compressed_size h))"
  have short: "8 * length (take_contents contents ?r) < fuel" using assms by (simp add: take_contents_def take_new_def)
  show thesis
  proof (cases "header_compression_method h")
    case (Ok m)
    obtain d where "new_from_compression m ?r = (Ok d :: ('e, _) outcome)" "any_inv (take_contents contents) fuel d"
        "any_into_inner d = ?r" "is_supported d \<longleftrightarrow> m \<notin> {Lhd, Pm1, Pm2}"
      by (rule new_from_compression_Ok [where ?'e = 'e and m = m and r = ?r and contents = "take_contents contents", OF short])
    then show thesis using Ok by (intro that [of d]) (simp_all add: new_from_header_def)
  qed (intro that [of "UnsupportedDecoder (unsupported_new ?r)"]; simp add: new_from_header_def unsupported_new_def)+
qed

lemma dr_new_Ok:
  fixes rd :: "('r, 'x) read_impl"
  assumes read: "lha_read reserve rd r = (Ok (Some h), r')" and fuel: "8 * length (contents r') < fuel"
  obtains s d where "dr_new reserve rd r = Ok s" and "reader_ok contents fuel s" and "dr_header s = h" and "dr_crc s = crc_new"
    and "remaining s = unat (original_size h)" and "dr_decoder s = Some d"
    and "any_into_inner d = take_new r' (unat (compressed_size h))"
    and "is_decoder_supported s \<longleftrightarrow> (\<exists>m. header_compression_method h = Ok m \<and> m \<notin> {Lhd, Pm1, Pm2})"
    and "\<And>m. header_compression_method h = Ok m \<Longrightarrow>
      new_from_compression m (take_new r' (unat (compressed_size h))) = (Ok d :: (('r, 'x) lha_decode_error, _) outcome)"
proof -
  obtain d where d: "new_from_header h r' = (Ok d :: (('r, 'x) lha_decode_error, _) outcome)" "any_inv (take_contents contents) fuel d"
      "any_into_inner d = take_new r' (unat (compressed_size h))"
      "\<And>m. header_compression_method h = Ok m \<Longrightarrow>
        new_from_compression m (take_new r' (unat (compressed_size h))) = (Ok d :: (('r, 'x) lha_decode_error, _) outcome)"
      "is_supported d \<longleftrightarrow> (\<exists>m. header_compression_method h = Ok m \<and> m \<notin> {Lhd, Pm1, Pm2})"
    using new_from_header_Ok [where ?'e = "('r, 'x) lha_decode_error" and r = r' and h = h and contents = contents, OF fuel] by blast
  define s where "s = \<lparr>dr_header = h, dr_crc = crc_new, dr_output_length = 0, dr_decoder = Some d\<rparr>"
  have "dr_new reserve rd r = Ok s" by (simp add: dr_new_def read d(1) s_def)
  then show thesis
    by (rule that [of s d])
      (simp_all add: s_def reader_ok_def remaining_def is_decoder_supported_def d)
qed

lemma begin_new_new:
  fixes rd :: "('r, 'x) read_impl"
  assumes read: "lha_read reserve rd r = (Ok (Some h), r')" and new: "dr_new reserve rd r = Ok s"
  shows "dr_begin_new reserve rd r t = (Ok True, s)"
  using assms
  by (auto simp: dr_new_def dr_begin_new_def dr_begin_def bnd_def modify_def ret_def crc_reset_def crc_new_def split: outcome.splits)

end
