(* ===== verification/Decode_Format.thy ===== *)
theory Decode_Format
  imports Decode_Member
begin

text \<open>
  What the members of an archive hold: \<open>encodes m data bs\<close> says that \<open>data\<close> is a compressed form
  of the bytes \<open>bs\<close> under the method \<open>m\<close>, and a member that holds it is extracted to \<open>bs\<close>.
\<close>

subsection \<open>Compressed forms\<close>

inductive encodes :: "compression_method \<Rightarrow> u8 list \<Rightarrow> u8 list \<Rightarrow> bool" where
  stored: "m \<in> {Lh0, Lz4, Pm0} \<Longrightarrow> encodes m bs bs"
| lzs: "list_all lzs_valid cs \<Longrightarrow> bytes_bits data = concat (map lzs_encode cs) @ pad \<Longrightarrow>
    fst (lz_run push copy_pos cs (set_cursor (- 17) (ring_new 2048))) = bs \<Longrightarrow> encodes Lzs data bs"
| lz5: "list_all lz5_valid cs \<Longrightarrow> data = lz5_encode cs @ pad \<Longrightarrow> lz5_ring = Some w \<Longrightarrow>
    fst (lz_run push copy_pos cs w) = bs \<Longrightarrow> encodes Lz5 data bs"
| lh1: "dyn_tree_new = (Ok t :: (unit, _) outcome) \<Longrightarrow> list_all lh1_valid cs \<Longrightarrow> bytes_bits data = lh1_encode t cs @ pad \<Longrightarrow>
    fst (lz_run push copy_offset cs (ring_new 4096)) = bs \<Longrightarrow> encodes Lh1 data bs"
| lhv2: "(m, cfg) \<in> {(Lh4, lh5_config), (Lh5, lh5_config), (Lh6, lh7_config), (Lh7, lh7_config), (Lhx, lhx_config)} \<Longrightarrow>
    list_all (valid_block cfg) blocks \<Longrightarrow> bytes_bits data = concat (map (encode_block cfg) blocks) @ pad \<Longrightarrow>
    fst (lz_run push copy_offset (concat (map commands blocks)) (ring_new (2 ^ (history_bits cfg - 1)))) = bs \<Longrightarrow>
    encodes m data bs"

lemma passthrough_decodes:
  assumes "reliable_reader rd contents" and "contents r = bs"
  shows "\<exists>d. passthrough_fill_buffer rd (length bs) (passthrough_new r) = (Ok bs, d)"
proof -
  have "length bs \<le> length (contents r)" using assms(2) by simp
  then obtain t where "rd_exact rd (length bs) r = (Ok (take (length bs) (contents r)), t)"
    by (rule reliable_reader.rd_exact_reliable [OF assms(1)])
  then show ?thesis using assms(2) by (simp add: passthrough_fill_buffer_def passthrough_new_def zoom_def map_err_def)
qed

lemma member_decodes:
  fixes rd :: "('r, 'x) read_impl"
  assumes rd: "reliable_reader rd contents" and enc: "encodes m (contents r) bs" and fuel: "8 * length (contents r) < fuel"
    and new: "new_from_compression m r = (Ok d :: ('e, _) outcome)"
  shows "\<exists>d'. any_fill_buffer fuel rd (length bs) d = (Ok bs, d')"
  using enc
proof (cases rule: encodes.cases)
  case stored
  then have "d = PassthroughDecoder (passthrough_new r)" using new by (auto simp: new_from_compression_def)
  then show ?thesis using passthrough_decodes [OF rd, of r bs] stored by (auto simp: variant_def)
next
  case (lzs cs pad)
  then have "d = LzsDecoder (lzs_new r)" using new by (auto simp: new_from_compression_def)
  then show ?thesis using lzs_decodes [OF rd lzs(2,3)] lzs(4) by (auto simp: variant_def lzs_new_def split: prod.splits)
next
  case (lz5 cs pad w)
  obtain s t xs where s: "lz5_new r = Some s" "lz5_fill_buffer rd (length xs) s = (Ok xs, t)"
      "lz_run push copy_pos cs (lz5_ringbuf s) = (xs, lz5_ringbuf t)"
    using lz5_decodes [OF rd lz5(2,3)] by blast
  have "lz5_ringbuf s = w" using s(1) unfolding lz5_new_def lz5(4) by auto
  then have "xs = bs" using s(3) lz5(5) by simp
  moreover have "d = Lz5Decoder s" using new s(1) lz5(1) by (auto simp: new_from_compression_def)
  ultimately show ?thesis using s(2) by (simp add: variant_def)
next
  case (lh1 t cs pad)
  obtain s where s: "lh1_new r = (Ok s :: ('e, _) outcome)" by (rule lh1_new_Ok)
  have "d = Lh1Decoder s" using new lh1(1) by (simp add: new_from_compression_def s)
  moreover have "lh1_command_tree s = t"
    using s unfolding lh1_new_def dyn_tree_new_any_error [OF lh1(2), where ?'e = 'e] by auto
  then have bits: "bytes_bits (contents r) = lh1_encode (lh1_command_tree s) cs @ pad" using lh1(4) by simp
  ultimately show ?thesis
    using lh1_decodes [OF rd s lh1(3) bits] lh1(5) by (auto simp: variant_def split: prod.splits)
next
  case (lhv2 cfg blocks pad)
  have cfg: "cfg \<in> {lh5_config, lh7_config, lhx_config}" using lhv2(1) by auto
  obtain C where C: "d = C (lhv2_new cfg r)" and fill: "\<And>n x. any_fill_buffer fuel rd n (C x) = variant C (lhv2_fill_buffer fuel cfg rd n) x"
  proof -
    consider "m = Lh4" "cfg = lh5_config" | "m = Lh5" "cfg = lh5_config" | "m = Lh6" "cfg = lh7_config"
      | "m = Lh7" "cfg = lh7_config" | "m = Lhx" "cfg = lhx_config"
      using lhv2(1) by auto
    then show thesis
    proof cases
      case 1
      with new show thesis by (intro that [of Lh4Decoder]) (simp_all add: new_from_compression_def)
    next
      case 2
      with new show thesis by (intro that [of Lh5Decoder]) (simp_all add: new_from_compression_def)
    next
      case 3
      with new show thesis by (intro that [of Lh6Decoder]) (simp_all add: new_from_compression_def)
    next
      case 4
      with new show thesis by (intro that [of Lh7Decoder]) (simp_all add: new_from_compression_def)
    next
      case 5
      with new show thesis by (intro that [of LhxDecoder]) (simp_all add: new_from_compression_def)
    qed
  qed
  show ?thesis
    unfolding C fill using lhv2_decodes [OF rd cfg lhv2(2,3) fuel] lhv2(4)
    by (auto simp: variant_def lhv2_new_def split: prod.splits)
qed

subsection \<open>Extraction\<close>

lemma delivered_all: "delivered bs s t \<Longrightarrow> length bs = remaining s \<Longrightarrow> reader_ok contents fuel t \<Longrightarrow> dr_is_empty t"
proof -
  assume "delivered bs s t" "length bs = remaining s" and t: "reader_ok contents fuel t"
  then have "remaining t = 0" by (simp add: delivered_def)
  with t show "dr_is_empty t"
    by (simp add: dr_is_empty_def remaining_def reader_ok_def word_unat_eq_iff word_le_nat_alt)
qed

lemma extract_member:
  fixes rd :: "('r, 'x) read_impl"
  assumes rd: "reliable_reader rd contents" and read: "lha_read reserve rd r = (Ok (Some h), r')"
    and m: "header_compression_method h = Ok m" and data: "contents r' = data @ rest" "length data = unat (compressed_size h)"
    and enc: "encodes m data bs" and size: "length bs = unat (original_size h)"
    and fuel: "8 * length (contents r') < fuel" and n: "length bs \<le> n"
  obtains s t where "dr_new reserve rd r = Ok s" and "dr_read_all fuel rd n s = (Ok bs, t)" and "dr_is_empty t"
    and "dr_header t = h" and "crc_is_ok t \<longleftrightarrow> sum16 (digest bs crc_new) = file_crc h"
    and "member_at contents rest (unat (compressed_size h)) t"
proof -
  have base: "reader rd contents" using rd by (simp add: reliable_reader_def)
  let ?r = "take_new r' (unat (compressed_size h))"
  obtain s d where s: "dr_new reserve rd r = Ok s" "reader_ok contents fuel s" "dr_header s = h" "dr_crc s = crc_new"
      "remaining s = unat (original_size h)" "dr_decoder s = Some d" "any_into_inner d = ?r"
      "new_from_compression m ?r = (Ok d :: (('r, 'x) lha_decode_error, _) outcome)"
    using dr_new_Ok [where contents = contents and fuel = fuel, OF read fuel] m by metis
  have c: "take_contents contents ?r = data" using data by (simp add: take_contents_def take_new_def)
  have "8 * length (take_contents contents ?r) < fuel" using fuel data by (simp add: c)
  then obtain d' where fill: "any_fill_buffer fuel (take_reader rd) (length bs) d = (Ok bs, d')"
    using member_decodes [OF reliable_take [OF rd] _ _ s(8), of bs] enc c by auto
  have min: "min n (remaining s) = length bs" using n size s(5) by simp
  obtain t where run: "dr_read_all fuel rd n s = (Ok bs, t)"
    unfolding read_all_run [OF s(2,6)] min fill by simp
  have del: "delivered bs s t" using read_many_Ok [where ns = "[n]" and xs = bs and t = t, OF base s(2)] run by (simp add: app_def bnd_def ret_def)
  have "member_at contents rest (unat (compressed_size h)) s"
    using s(6,7) data by (simp add: member_at_def behind_def take_new_def)
  from keepsD [OF read_all_keeps [OF rd, where fuel = fuel and n = n] this] run
  have "member_at contents rest (unat (compressed_size h)) t" by simp
  moreover have "dr_is_empty t"
    using read_many_Ok [where ns = "[n]" and xs = bs and t = t, OF base s(2)] run del size s(5)
    by (intro delivered_all [OF del, where contents = contents and fuel = fuel]) (simp_all add: app_def bnd_def ret_def)
  moreover have "crc_is_ok t \<longleftrightarrow> sum16 (digest bs crc_new) = file_crc h" "dr_header t = h"
    using del s(3,4) by (simp_all add: delivered_def crc_is_ok_def)
  ultimately show thesis using s(1) run by (intro that)
qed

text \<open>An archive with a stored member of three bytes, and the mark of its end behind it.\<close>

definition example_archive :: "u8 list" where
  "example_archive = [4, 0, 0x2D, 0x6C, 0x68, 0x30, 0x2D, 3, 0, 0, 0, 3, 0, 0, 0, 0, 0, 0, 0, 32, 3, 0x10, 0xA1, 0,
     32, 0, 0, 0, 0, 0, 0, 0, 1, 2, 3, 0]"

lemma example_archive_header:
  obtains h where "lha_read reserve slice_reader example_archive = (Ok (Some h), [1, 2, 3, 0])"
    and "header_compression_method h = Ok Lh0" and "compressed_size h = 3" and "original_size h = 3" and "file_crc h = 0xA110"
proof -
  have "\<exists>h. lha_read reserve slice_reader example_archive = (Ok (Some h), [1, 2, 3, 0]) \<and>
      header_compression_method h = Ok Lh0 \<and> compressed_size h = 3 \<and> original_size h = 3 \<and> file_crc h = 0xA110"
    by (simp add: example_archive_def header_eval extra_loop_0 header_fuel_def check_long_len_def check_header_crc_def
      adjust_compressed_size_def extra_start_def header_of_def header_compression_method_def compression_try_from_def ascii_def)
  with that show thesis by blast
qed

text \<open>A directory, of which nothing is decoded.\<close>

definition example_directory :: "u8 list" where
  "example_directory = [4, 0, 0x2D, 0x6C, 0x68, 0x64, 0x2D, 0, 0, 0, 0, 0, 0, 0, 0, 0, 0, 0, 0, 32, 3, 0, 0, 0, 32, 0, 0, 0, 0, 0, 0, 0]"

lemma example_directory_header:
  obtains h where "lha_read reserve slice_reader example_directory = (Ok (Some h), [])" and "header_compression_method h = Ok Lhd"
proof -
  have "\<exists>h. lha_read reserve slice_reader example_directory = (Ok (Some h), []) \<and> header_compression_method h = Ok Lhd"
    by (simp add: example_directory_def header_eval extra_loop_0 header_fuel_def check_long_len_def check_header_crc_def
      adjust_compressed_size_def extra_start_def header_of_def header_compression_method_def compression_try_from_def ascii_def)
  with that show thesis by blast
qed

lemma example_crc: "sum16 (digest [1, 2, 3] crc_new) = 0xA110"
  by code_simp

lemma example_end: "lha_read reserve slice_reader [0] = (Ok None, [])"
  by (simp add: header_eval)

lemma example_member:
  obtains s where "dr_new reserve slice_reader example_archive = Ok s" and "reader_ok (\<lambda>s. s) 33 s" and "remaining s = 3"
    and "is_decoder_supported s"
proof -
  obtain h where h: "lha_read reserve slice_reader example_archive = (Ok (Some h), [1, 2, 3, 0])"
    "header_compression_method h = Ok Lh0" "original_size h = 3"
    using example_archive_header [of reserve] by metis
  show thesis
    by (rule dr_new_Ok [where contents = "\<lambda>s. s" and fuel = 33, OF h(1)]) (use h that in simp_all)
qed

subsection \<open>Copying a member\<close>

lemma read_all_beyond:
  assumes "reader_ok contents fuel s" and "remaining s \<le> n"
  shows "fst (dr_read_all fuel rd (k + n) s) = fst (dr_read_all fuel rd n s)"
proof -
  obtain d where d: "dr_decoder s = Some d" using assms(1) by (auto simp: reader_ok_def)
  have "min (k + n) (remaining s) = min n (remaining s)" using assms(2) by simp
  then show ?thesis unfolding read_all_run [OF assms(1) d] by (simp only:)
qed

text \<open>A copy in pieces delivers what one read of everything delivers.\<close>

lemma read_to_end_Ok:
  assumes rd: "reliable_reader rd contents" and buf: "0 < buf"
  shows "reader_ok contents fuel s \<Longrightarrow> remaining s < k \<Longrightarrow> remaining s \<le> n \<Longrightarrow>
    fst (dr_read_all fuel rd n s) = Ok bs \<Longrightarrow> fst (read_to_end k fuel rd buf s) = Ok bs"
proof (induction k arbitrary: s bs)
  case 0
  then show ?case by simp
next
  case (Suc k)
  have base: "reader rd contents" using rd by (simp add: reliable_reader_def)
  obtain u where "app (dr_read_all fuel rd buf) (dr_read_all fuel rd n) s = (Ok bs, u)"
    using Suc.prems read_all_beyond [OF Suc.prems(1,3), of rd buf] read_all_add [OF rd Suc.prems(1), of buf n]
    by (metis prod.collapse)
  then obtain xs t ys where run: "dr_read_all fuel rd buf s = (Ok xs, t)" "dr_read_all fuel rd n t = (Ok ys, u)" "bs = xs @ ys"
    by (auto simp: app_eq_Ok_iff)
  have t: "length xs = min buf (remaining s)" "delivered xs s t" "reader_ok contents fuel t"
    by (rule read_all_cases [OF base Suc.prems(1), of buf]; use run(1) in simp)+
  have left: "remaining t = remaining s - length xs" using t(2) by (simp add: delivered_def)
  have ys: "length ys = min n (remaining t)"
    by (rule read_all_cases [OF base t(3), of n]; use run(2) in simp)
  show ?case
  proof (cases "xs = []")
    case True
    then have "remaining s = 0" using t(1) buf by simp
    then show ?thesis using True run ys left by (simp add: bnd_def ret_def)
  next
    case False
    then have "length xs \<noteq> 0" by simp
    then have "remaining t < k" "remaining t \<le> n" using t(1) left Suc.prems(2,3) by linarith+
    then have "fst (read_to_end k fuel rd buf t) = Ok ys" using Suc.IH [OF t(3)] run(2) by simp
    then show ?thesis using False run by (simp add: bnd_Ok [of "dr_read_all fuel rd buf", OF run(1)] fst_bnd_ret)
  qed
qed

subsection \<open>Properties\<close>

text \<open>C4: Extraction inverts compression. When a header is read and behind it lies a compressed form, under the
  method of the header, of bytes of the length the header states, then the reader of members opens the member, one
  read delivers exactly these bytes, the member is empty afterwards, the checksum is accepted exactly when the
  bytes have the one of the header, and the next file is looked for exactly where the compressed data ends.\<close>

theorem member_extraction:
  fixes rd :: "('r, 'x) read_impl"
  assumes "reliable_reader rd contents" and "lha_read reserve rd r = (Ok (Some h), r')"
    and "header_compression_method h = Ok m" and "contents r' = data @ rest" and "length data = unat (compressed_size h)"
    and "encodes m data bs" and "length bs = unat (original_size h)"
    and "8 * length (contents r') < fuel" and "length bs \<le> n" and "0 < buf"
  shows "\<exists>s t q. dr_new reserve rd r = Ok s \<and> dr_read_all fuel rd n s = (Ok bs, t) \<and> dr_is_empty t \<and>
    (crc_check t = (Ok (file_crc h) :: ('x lha_error, _) outcome) \<longleftrightarrow> sum16 (digest bs crc_new) = file_crc h) \<and>
    next_file_with_sink buf fuel reserve rd t = dr_begin_new reserve rd q (t\<lparr>dr_decoder := None\<rparr>) \<and> contents q = rest"
proof -
  obtain s t where st: "dr_new reserve rd r = Ok s" "dr_read_all fuel rd n s = (Ok bs, t)" "dr_is_empty t" "dr_header t = h"
      "crc_is_ok t \<longleftrightarrow> sum16 (digest bs crc_new) = file_crc h" "member_at contents rest (unat (compressed_size h)) t"
    by (rule extract_member [OF assms(1-9)])
  have "unat (compressed_size h) < fuel" using assms(4,5,8) by simp
  then obtain q where "next_file_with_sink buf fuel reserve rd t = dr_begin_new reserve rd q (t\<lparr>dr_decoder := None\<rparr>)"
      "contents q = rest"
    by (rule next_file_behind [OF assms(1) st(6) assms(10)])
  with st show ?thesis by (auto simp: crc_check_def)
qed

theorem member_extraction_witness:
  "\<exists>s t q. dr_new (\<lambda>n. True) slice_reader example_archive = Ok s \<and> dr_read_all 33 slice_reader 10 s = (Ok [1, 2, 3], t) \<and>
    dr_is_empty t \<and> crc_check t = (Ok 0xA110 :: (eof_error lha_error, _) outcome) \<and>
    next_file_with_sink 2 33 (\<lambda>n. True) slice_reader t = dr_begin_new (\<lambda>n. True) slice_reader q (t\<lparr>dr_decoder := None\<rparr>) \<and> q = [0]"
proof -
  obtain h where h: "lha_read (\<lambda>n. True) slice_reader example_archive = (Ok (Some h), [1, 2, 3, 0])"
    "header_compression_method h = Ok Lh0" "compressed_size h = 3" "original_size h = 3" "file_crc h = 0xA110"
    by (rule example_archive_header)
  have "[1, 2, 3, 0] = [1, 2, 3] @ [0 :: u8]" "encodes Lh0 [1, 2, 3] [1, 2, 3]" by (simp_all add: encodes.stored)
  then show ?thesis
    using member_extraction [where n = 10 and buf = 2 and fuel = 33, OF slice.reliable_reader_axioms h(1,2), of "[1, 2, 3]" "[0]" "[1, 2, 3]"]
    by (simp add: h example_crc)
qed

text \<open>C5: Copying ends. Reading a member that holds a compressed form of \<open>bs\<close> into a buffer of any size but 0 until
  nothing more comes delivers exactly \<open>bs\<close>, in at most one read more than there are bytes, and leaves the reader
  empty with the checksum of \<open>bs\<close> in it.\<close>

theorem member_copied:
  fixes rd :: "('r, 'x) read_impl"
  assumes "reliable_reader rd contents" and "lha_read reserve rd r = (Ok (Some h), r')"
    and "header_compression_method h = Ok m" and "contents r' = data @ rest" and "length data = unat (compressed_size h)"
    and "encodes m data bs" and "length bs = unat (original_size h)"
    and "8 * length (contents r') < fuel" and "0 < buf" and "length bs < k"
  shows "\<exists>s t. dr_new reserve rd r = Ok s \<and> read_to_end k fuel rd buf s = (Ok bs, t) \<and> dr_is_empty t \<and>
    sum16 (dr_crc t) = sum16 (digest bs crc_new)"
proof -
  have base: "reader rd contents" using assms(1) by (simp add: reliable_reader_def)
  obtain s where s: "dr_new reserve rd r = Ok s" "reader_ok contents fuel s" "dr_crc s = crc_new" "remaining s = length bs"
    using dr_new_Ok [where contents = contents and fuel = fuel, OF assms(2,8)] assms(7) by metis
  have "fst (dr_read_all fuel rd (length bs) s) = Ok bs"
    by (rule extract_member [OF assms(1-8) order_refl]) (use s(1) in auto)
  then have "fst (read_to_end k fuel rd buf s) = Ok bs"
    using s(4) assms(10) by (intro read_to_end_Ok [OF assms(1,9) s(2)]) simp_all
  then obtain t where t: "read_to_end k fuel rd buf s = (Ok bs, t)" by (metis prod.collapse)
  have del: "delivered bs s t" and ok: "reader_ok contents fuel t"
    using read_to_end_ends [OF base assms(9) s(2), of k] t s(4) assms(10) by simp_all
  have "dr_is_empty t" by (rule delivered_all [OF del _ ok]) (simp add: s(4))
  with s(1,3) t del show ?thesis by (auto simp: delivered_def)
qed

theorem member_copied_witness:
  "\<exists>s t. dr_new (\<lambda>n. True) slice_reader example_archive = Ok s \<and> read_to_end 4 33 slice_reader 2 s = (Ok [1, 2, 3], t) \<and>
    dr_is_empty t \<and> sum16 (dr_crc t) = 0xA110"
proof -
  obtain h where h: "lha_read (\<lambda>n. True) slice_reader example_archive = (Ok (Some h), [1, 2, 3, 0])"
    "header_compression_method h = Ok Lh0" "compressed_size h = 3" "original_size h = 3" "file_crc h = 0xA110"
    by (rule example_archive_header)
  have "[1, 2, 3, 0] = [1, 2, 3] @ [0 :: u8]" "encodes Lh0 [1, 2, 3] [1, 2, 3]" by (simp_all add: encodes.stored)
  then show ?thesis
    using member_copied [where buf = 2 and k = 4 and fuel = 33, OF slice.reliable_reader_axioms h(1,2), of "[1, 2, 3]" "[0]" "[1, 2, 3]"]
    by (simp add: h example_crc del: read_to_end.simps)
qed

text \<open>C11: Every compression method has a decoder, also the ones the crate cannot decode, and a new one has not read
  anything. Filling a buffer from a well-formed decoder, whatever the data, fills all of it and leaves a well-formed
  decoder, or reports an error; the loops end and no index leaves a table. The one panic is the overflow of the
  level counter while one of the \<open>-lh4-\<close> to \<open>-lhx-\<close> decoders builds a tree from code lengths of which one is
  255, and that decoder is left with the tree of the failed build; the other decoders never panic.\<close>

theorem any_fill_buffer_safe:
  assumes "reader rd contents" and "8 * length (contents r) < fuel" and "any_inv contents fuel e"
  shows "(\<exists>d. new_from_compression m r = (Ok d :: ('e, _) outcome) \<and> any_inv contents fuel d \<and> any_into_inner d = r \<and>
      (is_supported d \<longleftrightarrow> m \<notin> {Lhd, Pm1, Pm2})) \<and>
    (case any_fill_buffer fuel rd n e of
      (Ok bs, t) \<Rightarrow> length bs = n \<and> any_inv contents fuel t
    | (Err err, t) \<Rightarrow> True
    | (Fault q, t) \<Rightarrow> q = Overflow \<and> (\<exists>x lens h0. lhv2_of t = Some x \<and> 255 \<in> set lens \<and>
        (build_tree lens h0 = (Fault Overflow, command_tree x) \<or> build_tree lens h0 = (Fault Overflow, offset_tree x))))"
proof
  show "\<exists>d. new_from_compression m r = (Ok d :: ('e, _) outcome) \<and> any_inv contents fuel d \<and> any_into_inner d = r \<and>
      (is_supported d \<longleftrightarrow> m \<notin> {Lhd, Pm1, Pm2})"
    using new_from_compression_Ok [where contents = contents and m = m, OF assms(2)] by metis
next
  have "overflowed t \<longleftrightarrow> (\<exists>x lens h0. lhv2_of t = Some x \<and> 255 \<in> set lens \<and>
      (build_tree lens h0 = (Fault Overflow, command_tree x) \<or> build_tree lens h0 = (Fault Overflow, offset_tree x)))"
    for t :: "'a decoder_any"
    unfolding overflowed_def level_overflow_def by blast
  from any_fill_safe [OF assms(1,3), of n, unfolded this]
  show "case any_fill_buffer fuel rd n e of
      (Ok bs, t) \<Rightarrow> length bs = n \<and> any_inv contents fuel t
    | (Err err, t) \<Rightarrow> True
    | (Fault q, t) \<Rightarrow> q = Overflow \<and> (\<exists>x lens h0. lhv2_of t = Some x \<and> 255 \<in> set lens \<and>
        (build_tree lens h0 = (Fault Overflow, command_tree x) \<or> build_tree lens h0 = (Fault Overflow, offset_tree x)))" .
qed

theorem any_fill_buffer_safe_witness:
  "\<exists>bs d t. new_from_compression Pm0 [7, 8] = (Ok d :: (unit, _) outcome) \<and>
    any_fill_buffer 17 slice_reader 2 d = (Ok bs, t) \<and> length bs = 2"
proof -
  let ?d = "PassthroughDecoder (passthrough_new [7, 8 :: u8])"
  have "any_fill_buffer 17 slice_reader 2 ?d = (Ok [7, 8], PassthroughDecoder (passthrough_new []))"
    by (simp add: variant_def passthrough_fill_buffer_def passthrough_new_def zoom_def map_err_def slice_reader_def slice_read_exact_def slice_read_all_def Let_def)
  then show ?thesis
    using any_fill_buffer_safe [where ?'e = unit and fuel = 17 and r = "[7, 8]" and m = Pm0 and n = 2 and e = ?d, OF slice.reader_axioms]
    by (simp add: new_from_compression_def)
qed

text \<open>C19: A read of a well-formed reader of members fills a prefix of the buffer, as much of it as the member has
  left, and the reader is well formed again: its header is the same, no more than the original size has been
  delivered (so the length never overflows), and its checksum goes on with the bytes. A failed read delivers
  nothing, and changes neither the length nor the checksum. A read panics only in one of the \<open>-lh4-\<close> to \<open>-lhx-\<close>
  decoders, whose tree builder has overflowed its level counter.\<close>

theorem dr_read_all_type:
  assumes "reader rd contents" and "reader_ok contents fuel s"
  shows "case dr_read_all fuel rd n s of
      (Ok bs, t) \<Rightarrow> length bs = min n (remaining s) \<and> reader_ok contents fuel t \<and> dr_header t = dr_header s \<and>
        remaining t = remaining s - length bs \<and> dr_crc t = digest bs (dr_crc s) \<and>
        (\<exists>l. dr_len t = (Ok l :: (unit, _) outcome) \<and> unat l = remaining t)
    | (Err err, t) \<Rightarrow> \<exists>d. t = s\<lparr>dr_decoder := Some d\<rparr>
    | (Fault q, t) \<Rightarrow> q = Overflow \<and> (\<exists>d. t = s\<lparr>dr_decoder := Some d\<rparr> \<and> overflowed d)"
  using assms
proof (cases rule: read_all_cases [where n = n])
  case (Ok xs t)
  have "\<exists>l. dr_len t = (Ok l :: (unit, _) outcome) \<and> unat l = remaining t"
    using Ok(4) by (simp add: reader_ok_def dr_len_def remaining_def unat_sub not_less)
  with Ok show ?thesis by (simp add: delivered_def)
qed auto

theorem dr_read_all_type_witness:
  "\<exists>s t. dr_new (\<lambda>n. True) slice_reader example_archive = Ok s \<and>
    dr_read_all 33 slice_reader 2 s = ((Ok [1, 2], t) :: (eof_error lha_error, _) outcome \<times> _) \<and>
    reader_ok (\<lambda>s. s) 33 t \<and> remaining t = 1"
proof -
  obtain h where h: "lha_read (\<lambda>n. True) slice_reader example_archive = (Ok (Some h), [1, 2, 3, 0])"
    "header_compression_method h = Ok Lh0" "compressed_size h = 3" "original_size h = 3"
    using example_archive_header [of "\<lambda>n. True"] by metis
  obtain s d where s: "dr_new (\<lambda>n. True) slice_reader example_archive = Ok s" "reader_ok (\<lambda>s. s) 33 s" "remaining s = 3"
      "dr_decoder s = Some d" "d = PassthroughDecoder (passthrough_new (take_new [1, 2, 3, 0] 3))"
    by (rule dr_new_Ok [where contents = "\<lambda>s. s" and fuel = 33, OF h(1)])
      (simp, use h in \<open>simp add: new_from_compression_def\<close>)
  have "fst (dr_read_all 33 slice_reader 2 s) = (Ok [1, 2] :: (eof_error lha_error, _) outcome)"
    unfolding read_all_run [OF s(2,4)] s(3,5)
    by (simp add: variant_def passthrough_fill_buffer_def passthrough_new_def zoom_def map_err_def take_read_exact_def
        take_new_def slice_reader_def slice_read_exact_def slice_read_all_def Let_def)
  then obtain t where t: "dr_read_all 33 slice_reader 2 s = ((Ok [1, 2], t) :: (eof_error lha_error, _) outcome \<times> _)"
    by (cases "dr_read_all 33 slice_reader 2 s") auto
  from dr_read_all_type [OF slice.reader_axioms s(2), of 2, unfolded t s(3)] s(1) t show ?thesis
    by (intro exI [of _ s] exI [of _ t]) simp
qed

text \<open>C18: The sizes of the reads do not matter. Successive reads deliver what one read of their total size delivers,
  and fail with the same error; when they succeed the header, the length and the checksum are the same.\<close>

theorem reads_in_pieces:
  assumes "reliable_reader rd contents" and "reader_ok contents fuel s" and "ns \<noteq> []"
  shows "fst (read_many fuel rd ns s) = fst (dr_read_all fuel rd (sum_list ns) s) \<and>
    (\<forall>bs t u. read_many fuel rd ns s = (Ok bs, t) \<longrightarrow> dr_read_all fuel rd (sum_list ns) s = (Ok bs, u) \<longrightarrow>
      dr_header t = dr_header u \<and> dr_output_length t = dr_output_length u \<and> dr_crc t = dr_crc u)"
proof (intro conjI allI impI)
  have base: "reader rd contents" using assms(1) by (simp add: reliable_reader_def)
  show "fst (read_many fuel rd ns s) = fst (dr_read_all fuel rd (sum_list ns) s)"
    by (rule read_many_sum [OF assms])
  fix bs t u
  assume many: "read_many fuel rd ns s = (Ok bs, t)" and one: "dr_read_all fuel rd (sum_list ns) s = (Ok bs, u)"
  have "delivered bs s t" using read_many_Ok [OF base assms(2) many] by simp
  moreover have "delivered bs s u"
    by (rule read_all_cases [OF base assms(2), of "sum_list ns"]; use one in simp)
  ultimately show "dr_header t = dr_header u" "dr_output_length t = dr_output_length u" "dr_crc t = dr_crc u"
    by (simp_all add: delivered_def)
qed

theorem reads_in_pieces_witness:
  "\<exists>s. dr_new (\<lambda>n. True) slice_reader example_archive = Ok s \<and>
    fst (read_many 33 slice_reader [2, 5] s) = fst (dr_read_all 33 slice_reader 7 s)"
proof -
  obtain s where s: "dr_new (\<lambda>n. True) slice_reader example_archive = Ok s" "reader_ok (\<lambda>s. s) 33 s"
    using example_member [of "\<lambda>n. True"] by metis
  have "fst (read_many 33 slice_reader [2, 5] s) = fst (dr_read_all 33 slice_reader (sum_list [2, 5]) s)"
    using reads_in_pieces [OF slice.reliable_reader_axioms s(2), of "[2, 5]"] by simp
  with s(1) show ?thesis by (simp del: read_many.simps)
qed

text \<open>C8: The position of the next file does not depend on what was read. Whatever reads were made of a member,
  of any sizes, succeeding or failing, \<open>next_file\<close> goes on with the header directly behind the compressed data
  of the member, and its loop ends.\<close>

theorem next_file_position:
  fixes rd :: "('r, 'x) read_impl"
  assumes "reliable_reader rd contents" and "lha_read reserve rd r = (Ok (Some h), r')"
    and "8 * length (contents r') < fuel" and "unat (compressed_size h) \<le> length (contents r')" and "0 < buf"
  shows "\<exists>s t q. dr_new reserve rd r = Ok s \<and> t = after_reads fuel rd ns s \<and>
    next_file_with_sink buf fuel reserve rd t = dr_begin_new reserve rd q (t\<lparr>dr_decoder := None\<rparr>) \<and>
    contents q = drop (unat (compressed_size h)) (contents r')"
proof -
  let ?C = "drop (unat (compressed_size h)) (contents r')"
  obtain s d where s: "dr_new reserve rd r = Ok s" "dr_decoder s = Some d" "any_into_inner d = take_new r' (unat (compressed_size h))"
    using dr_new_Ok [where contents = contents and fuel = fuel, OF assms(2,3)] by metis
  have "member_at contents ?C (unat (compressed_size h)) s"
    using s(2,3) assms(4) by (simp add: member_at_def behind_def take_new_def)
  then have "member_at contents ?C (unat (compressed_size h)) (after_reads fuel rd ns s)"
    by (rule after_reads_member [OF assms(1)])
  moreover have "unat (compressed_size h) < fuel" using assms(3,4) by simp
  ultimately show ?thesis
    using next_file_behind [OF assms(1) _ assms(5)] s(1) by metis
qed

theorem next_file_position_witness:
  "\<exists>s t. dr_new (\<lambda>n. True) slice_reader example_archive = Ok s \<and> t = after_reads 33 slice_reader [1, 1] s \<and>
    next_file_with_sink 2 33 (\<lambda>n. True) slice_reader t = dr_begin_new (\<lambda>n. True) slice_reader [0] (t\<lparr>dr_decoder := None\<rparr>)"
proof -
  obtain h where h: "lha_read (\<lambda>n. True) slice_reader example_archive = (Ok (Some h), [1, 2, 3, 0])" "compressed_size h = 3"
    using example_archive_header [of "\<lambda>n. True"] by metis
  then show ?thesis
    using next_file_position [where fuel = 33 and buf = 2 and ns = "[1, 1]", OF slice.reliable_reader_axioms h(1)]
    by (simp add: drop_Cons' del: after_reads.simps)
qed

text \<open>C26: Opening a member of an archive, for the first time (\<open>new\<close>) and on a reader that has done others
  (\<open>begin_new\<close>). When there is a header both give the same reader, of which nothing is left over from before; at the
  end of the archive \<open>new\<close> reports a missing header and \<open>begin_new\<close> answers \<open>False\<close>, with a decoder that
  decodes nothing; an error is handed on with the reader of the archive in it, and \<open>begin_new\<close> has then changed nothing.\<close>

theorem begin_new_cases:
  fixes rd :: "('r, 'x) read_impl"
  shows "case lha_read reserve rd r of
      (Ok (Some h), r') \<Rightarrow> \<exists>s. dr_new reserve rd r = Ok s \<and> dr_begin_new reserve rd r t = (Ok True, s) \<and>
        dr_header s = h \<and> dr_output_length s = 0 \<and> sum16 (dr_crc s) = 0
    | (Ok None, r') \<Rightarrow> dr_new reserve rd r = Err (wrap_err r' (HeaderParse ''a header is missing'')) \<and>
        (\<exists>u. dr_begin_new reserve rd r t = (Ok False, u) \<and> \<not> is_decoder_supported u \<and> dr_into_inner u = (Ok r' :: (unit, _) outcome))
    | (Err e, r') \<Rightarrow> dr_new reserve rd r = Err (wrap_err r' e) \<and> dr_begin_new reserve rd r t = (Err (wrap_err r' e), t)
    | (Fault q, r') \<Rightarrow> dr_new reserve rd r = Fault q \<and> dr_begin_new reserve rd r t = (Fault q, t)"
proof -
  have none: "8 * length ([] :: u8 list) < 1" by simp
  obtain res r' where read: "lha_read reserve rd r = (res, r')" by fastforce
  consider h where "res = Ok (Some h)" | "res = Ok None" | e where "res = Err e" | q where "res = Fault q"
    by (cases res) auto
  then show ?thesis
  proof cases
    case 1
    note run = read [unfolded 1]
    obtain s where s: "dr_new reserve rd r = Ok s" "dr_header s = h" "dr_crc s = crc_new"
      using dr_new_Ok [where contents = "\<lambda>_. []" and fuel = 1, OF run none] by metis
    moreover have "dr_output_length s = 0" using s(1) run by (auto simp: dr_new_def split: outcome.splits)
    ultimately show ?thesis using begin_new_new [OF run s(1), of t] run by (simp add: sum16_def crc_new_def)
  next
    case 2
    with read show ?thesis
      by (simp add: dr_new_def dr_begin_new_def dr_begin_def bnd_def modify_def ret_def is_decoder_supported_def
        dr_into_inner_def unsupported_new_def take_new_def)
  next
    case 3
    with read show ?thesis by (simp add: dr_new_def dr_begin_new_def fail_def)
  next
    case 4
    with read show ?thesis by (simp add: dr_new_def dr_begin_new_def crash_def)
  qed
qed

text \<open>C27: A member whose method the crate does not know, or knows but cannot decode, is opened all the same.
  The reader says that the decoder is not supported, exactly then, and every read of it, also into an empty buffer,
  reports that the method is not supported and leaves the reader as it was.\<close>

theorem unsupported_member:
  fixes rd :: "('r, 'x) read_impl"
  assumes "lha_read reserve rd r = (Ok (Some h), r')"
  shows "\<exists>s. dr_new reserve rd r = Ok s \<and>
    (is_decoder_supported s \<longleftrightarrow> (\<exists>m. header_compression_method h = Ok m \<and> m \<notin> {Lhd, Pm1, Pm2})) \<and>
    (is_decoder_supported s \<or> dr_read_all fuel rd n s = (Err (Decompress ''unsupported compression method''), s))"
proof -
  have none: "8 * length ([] :: u8 list) < 1" by simp
  obtain s d where s: "dr_new reserve rd r = Ok s" "reader_ok (\<lambda>_. []) 1 s" "dr_decoder s = Some d"
      "is_decoder_supported s \<longleftrightarrow> (\<exists>m. header_compression_method h = Ok m \<and> m \<notin> {Lhd, Pm1, Pm2})"
    using dr_new_Ok [where contents = "\<lambda>_. []" and fuel = 1, OF assms none] by metis
  have "dr_read_all fuel rd n s = (Err (Decompress ''unsupported compression method''), s)" if un: "\<not> is_decoder_supported s"
  proof -
    obtain x where x: "d = UnsupportedDecoder x" using un s(3) by (cases d) (simp_all add: is_decoder_supported_def)
    have ok: "reader_ok (\<lambda>_. []) fuel s" using s(2,3) x by (simp add: reader_ok_def)
    have "s\<lparr>dr_decoder := Some d\<rparr> = s" using s(3) by (cases s) simp
    then show ?thesis
      unfolding read_all_run [OF ok s(3)] x by (simp add: variant_def unsupported_fill_buffer_def fail_def)
  qed
  with s(1,4) show ?thesis by blast
qed

theorem unsupported_member_witness:
  "\<exists>s. dr_new (\<lambda>n. True) slice_reader example_directory = Ok s \<and> \<not> is_decoder_supported s \<and>
    dr_read_all 0 slice_reader 5 s = (Err (Decompress ''unsupported compression method''), s)"
proof -
  obtain h where h: "lha_read (\<lambda>n. True) slice_reader example_directory = (Ok (Some h), [])" "header_compression_method h = Ok Lhd"
    by (rule example_directory_header)
  from unsupported_member [OF h(1), where fuel = 0 and n = 5] h(2) show ?thesis by auto
qed

end
