(* ===== verification/Archive.thy ===== *)
theory Archive
  imports Decode_Format Header_Format
begin

text \<open>
  A whole archive: what a sequence of members is, and the loop of a program that extracts all of
  them with the methods of \<open>LhaDecodeReader\<close>, as the example in the documentation of the crate
  does.
\<close>

subsection \<open>Archives\<close>

text \<open>
  \<open>archive reserve rd contents bs fs\<close>: the bytes \<open>bs\<close> are the members \<open>fs\<close>, each with its header and its
  data, and the mark of the end. What a reader has left decides which header it gives.
\<close>

inductive archive :: "(nat \<Rightarrow> bool) \<Rightarrow> ('r, 'e) read_impl \<Rightarrow> ('r \<Rightarrow> u8 list) \<Rightarrow> u8 list \<Rightarrow> (lha_header \<times> u8 list) list \<Rightarrow> bool"
  for reserve rd contents where
  archive_end: "(\<And>q. contents q = bs \<Longrightarrow> \<exists>q'. lha_read reserve rd q = (Ok None, q')) \<Longrightarrow> archive reserve rd contents bs []"
| archive_member: "(\<And>q. contents q = bs \<Longrightarrow> \<exists>q'. lha_read reserve rd q = (Ok (Some h), q') \<and> contents q' = data @ rest) \<Longrightarrow>
    length (data @ rest) \<le> length bs \<Longrightarrow> header_compression_method h = Ok m \<Longrightarrow> length data = unat (compressed_size h) \<Longrightarrow>
    encodes m data xs \<Longrightarrow> length xs = unat (original_size h) \<Longrightarrow> sum16 (digest xs crc_new) = file_crc h \<Longrightarrow>
    archive reserve rd contents rest fs \<Longrightarrow> archive reserve rd contents bs ((h, xs) # fs)"

lemma archive_header:
  assumes "archive reserve rd contents bs fs" and "contents q = bs"
  obtains q' where "fs = []" and "lha_read reserve rd q = (Ok None, q')"
    | h q' where "fs \<noteq> []" and "lha_read reserve rd q = (Ok (Some h), q')"
  using assms by (cases rule: archive.cases) blast+

text \<open>
  Read all of a member, check its checksum, go on with the next file. The arguments are the most
  members, the most reads of one member, the fuel of the decoders and the size of the buffer.
\<close>

fun extract_all :: "nat \<Rightarrow> nat \<Rightarrow> nat \<Rightarrow> nat \<Rightarrow> (nat \<Rightarrow> bool) \<Rightarrow> ('r, 'e) read_impl \<Rightarrow>
    ('r lha_decode_reader, 'e lha_error, (lha_header \<times> u8 list) list) act" where
  "extract_all 0 reads fuel buf reserve rd = crash OutOfFuel"
| "extract_all (Suc k) reads fuel buf reserve rd =
     bnd (get_state dr_header) (\<lambda>h.
     bnd (read_to_end reads fuel rd buf) (\<lambda>xs.
     bnd (\<lambda>s. (crc_check s, s)) (\<lambda>_.
     bnd (map_err de_source (next_file_with_sink buf fuel reserve rd)) (\<lambda>more.
       if more then bnd (extract_all k reads fuel buf reserve rd) (\<lambda>fs. ret ((h, xs) # fs))
       else ret [(h, xs)]))))"

subsection \<open>Extracting everything\<close>

lemma read_to_end_keeps:
  assumes "reliable_reader rd contents"
  shows "keeps (member_at contents C l) (read_to_end k fuel rd buf)"
  by (induction k) (simp_all add: keeps_rules read_all_keeps [OF assms])

lemma dr_new_opens:
  fixes rd :: "('r, 'x) read_impl"
  assumes "lha_read reserve rd r = (Ok (Some h), r')"
  shows "\<exists>s. dr_new reserve rd r = Ok s"
proof -
  have none: "8 * length ([] :: u8 list) < 1" by simp
  show ?thesis using dr_new_Ok [where contents = "\<lambda>_. []" and fuel = 1, OF assms none] by metis
qed

text \<open>One round of the loop.\<close>

lemma copy_member:
  fixes rd :: "('r, 'x) read_impl"
  assumes rd: "reliable_reader rd contents" and read: "lha_read reserve rd r = (Ok (Some h), r')"
    and m: "header_compression_method h = Ok m" and data: "contents r' = data @ rest" "length data = unat (compressed_size h)"
    and enc: "encodes m data bs" and size: "length bs = unat (original_size h)" and crc: "sum16 (digest bs crc_new) = file_crc h"
    and fuel: "8 * length (contents r') < fuel" and buf: "0 < buf" and reads: "length bs < reads"
  obtains s t q where "dr_new reserve rd r = Ok s" and "dr_header s = h" and "read_to_end reads fuel rd buf s = (Ok bs, t)"
    and "crc_check t = (Ok (file_crc h) :: ('x lha_error, _) outcome)"
    and "next_file_with_sink buf fuel reserve rd t = dr_begin_new reserve rd q (t\<lparr>dr_decoder := None\<rparr>)" and "contents q = rest"
proof -
  have base: "reader rd contents" using rd by (simp add: reliable_reader_def)
  obtain s d where s: "dr_new reserve rd r = Ok s" "reader_ok contents fuel s" "dr_header s = h" "dr_crc s = crc_new"
      "remaining s = length bs" "dr_decoder s = Some d" "any_into_inner d = take_new r' (unat (compressed_size h))"
    using dr_new_Ok [where contents = contents and fuel = fuel, OF read fuel] size by metis
  have "fst (dr_read_all fuel rd (length bs) s) = Ok bs"
    by (rule extract_member [OF rd read m data enc size fuel order_refl]) (use s(1) in auto)
  then have "fst (read_to_end reads fuel rd buf s) = Ok bs"
    using s(5) reads by (intro read_to_end_Ok [OF rd buf s(2)]) simp_all
  then obtain t where t: "read_to_end reads fuel rd buf s = (Ok bs, t)" by (metis prod.collapse)
  have del: "delivered bs s t"
    using read_to_end_ends [OF base buf s(2), of reads] t s(5) reads by simp
  have "member_at contents rest (unat (compressed_size h)) s"
    using s(6,7) data by (simp add: member_at_def behind_def take_new_def)
  from keepsE [OF read_to_end_keeps [OF rd] this t] have t_at: "member_at contents rest (unat (compressed_size h)) t" .
  have "unat (compressed_size h) < fuel" using data fuel by simp
  then obtain q where q: "next_file_with_sink buf fuel reserve rd t = dr_begin_new reserve rd q (t\<lparr>dr_decoder := None\<rparr>)"
      "contents q = rest"
    by (rule next_file_behind [OF rd t_at buf])
  have "crc_check t = (Ok (file_crc h) :: ('x lha_error, _) outcome)"
    using del s(3,4) crc by (simp add: delivered_def crc_check_def crc_is_ok_def)
  with s(1,3) t q show thesis by (intro that)
qed

lemma extract_archive:
  fixes rd :: "('r, 'x) read_impl"
  assumes rd: "reliable_reader rd contents" and buf: "0 < buf"
  shows "archive reserve rd contents bs fs \<Longrightarrow> contents r = bs \<Longrightarrow> fs \<noteq> [] \<Longrightarrow> 8 * length bs < fuel \<Longrightarrow> length fs \<le> k \<Longrightarrow>
    \<forall>f\<in>set fs. length (snd f) < reads \<Longrightarrow>
    \<exists>s t. dr_new reserve rd r = Ok s \<and> extract_all k reads fuel buf reserve rd s = (Ok fs, t)"
proof (induction arbitrary: r k rule: archive.induct)
  case (archive_end bs)
  then show ?case by simp
next
  case (archive_member bs h data rest m xs fs)
  obtain r' where r': "lha_read reserve rd r = (Ok (Some h), r')" "contents r' = data @ rest"
    using archive_member.hyps(1) archive_member.prems(1) by blast
  have short: "8 * length (contents r') < fuel" "8 * length rest < fuel"
    using r'(2) archive_member.hyps(2) archive_member.prems(3) by simp_all
  obtain k' where k: "k = Suc k'" "length fs \<le> k'" using archive_member.prems(4) by (cases k) auto
  obtain s t q where st: "dr_new reserve rd r = Ok s" "dr_header s = h" "read_to_end reads fuel rd buf s = (Ok xs, t)"
      "crc_check t = (Ok (file_crc h) :: ('x lha_error, _) outcome)"
      "next_file_with_sink buf fuel reserve rd t = dr_begin_new reserve rd q (t\<lparr>dr_decoder := None\<rparr>)" "contents q = rest"
    by (rule copy_member [OF rd r'(1) archive_member.hyps(3) r'(2) archive_member.hyps(4-7) short(1) buf])
      (use archive_member.prems(5) in auto)
  have next_file: "\<exists>u. (if more then bnd (extract_all k' reads fuel buf reserve rd) (\<lambda>fs. ret ((h, xs) # fs)) else ret [(h, xs)]) v =
      ((Ok ((h, xs) # fs), u) :: ('x lha_error, _) outcome \<times> _)"
    if "dr_begin_new reserve rd q (t\<lparr>dr_decoder := None\<rparr>) = (Ok more, v)" for more v
  proof (cases "fs = []")
    case True
    then obtain q' where "lha_read reserve rd q = (Ok None, q')"
      using archive_header [OF archive_member.hyps(8) st(6)] by metis
    with that True show ?thesis
      by (auto simp: dr_begin_new_def dr_begin_def bnd_def modify_def ret_def)
  next
    case False
    obtain s' u where s': "dr_new reserve rd q = Ok s'" "extract_all k' reads fuel buf reserve rd s' = (Ok fs, u)"
      using archive_member.IH [OF st(6) False short(2) k(2)] archive_member.prems(5) by auto
    obtain h' q' where "lha_read reserve rd q = (Ok (Some h'), q')"
      using archive_header [OF archive_member.hyps(8) st(6)] False by metis
    from begin_new_new [OF this s'(1)] that s'(2) show ?thesis by (simp add: bnd_def ret_def)
  qed
  obtain more v where start: "dr_begin_new reserve rd q (t\<lparr>dr_decoder := None\<rparr>) = (Ok more, v)"
  proof -
    consider q' where "lha_read reserve rd q = (Ok None, q')" | h' q' where "lha_read reserve rd q = (Ok (Some h'), q')"
      using archive_header [OF archive_member.hyps(8) st(6)] by metis
    then show thesis
    proof cases
      case 1
      then have "\<exists>v. dr_begin_new reserve rd q (t\<lparr>dr_decoder := None\<rparr>) = (Ok False, v)"
        by (simp add: dr_begin_new_def dr_begin_def bnd_def modify_def ret_def)
      with that show thesis by blast
    next
      case 2
      obtain s' where "dr_new reserve rd q = Ok s'" using dr_new_opens [OF 2] by blast
      from begin_new_new [OF 2 this] that show thesis by blast
    qed
  qed
  have "extract_all k reads fuel buf reserve rd s =
      (if more then bnd (extract_all k' reads fuel buf reserve rd) (\<lambda>fs. ret ((h, xs) # fs)) else ret [(h, xs)]) v"
    unfolding k(1) extract_all.simps
    by (simp add: bnd_def get_state_def map_err_def st start)
  with next_file [OF start] st(1) show ?case by simp
qed

subsection \<open>Writing an archive\<close>

text \<open>\<open>data\<close> is a compressed form of \<open>xs\<close> under the method of the header, and the header says so.\<close>

definition holds_data :: "header_fields \<Rightarrow> u8 list \<Rightarrow> u8 list \<Rightarrow> bool" where
  "holds_data f data xs \<longleftrightarrow> valid_fields f \<and> (\<exists>m. compression_try_from (fd_method f) = Ok m \<and> encodes m data xs) \<and>
     length data = unat (compressed_size (header_fields_of f)) \<and> length xs = unat (original_size (header_fields_of f)) \<and>
     fd_crc f = sum16 (digest xs crc_new)"

fun write_archive :: "(header_fields \<times> u8 list \<times> u8 list) list \<Rightarrow> u8 list" where
  "write_archive [] = [0]"
| "write_archive ((f, data, xs) # ms) = encode_header f @ data @ write_archive ms"

definition members_of :: "(header_fields \<times> u8 list \<times> u8 list) list \<Rightarrow> (lha_header \<times> u8 list) list" where
  "members_of ms = map (\<lambda>(f, data, xs). (header_fields_of f, xs)) ms"

lemma write_archive_archive:
  assumes rd: "reliable_reader rd contents" and reserve: "\<And>n. reserve n"
  shows "list_all (\<lambda>(f, data, xs). holds_data f data xs) ms \<Longrightarrow>
    archive reserve rd contents (write_archive ms) (members_of ms)"
proof (induction ms)
  case Nil
  have "\<exists>q'. lha_read reserve rd q = (Ok None, q')" if "contents q = [0]" for q
    using reliable_reader.lha_read_end [OF rd, of q "[]" reserve] that by metis
  then show ?case by (simp add: members_of_def archive_end)
next
  case (Cons m ms)
  obtain f data xs where m: "m = (f, data, xs)" by (cases m)
  then have f: "valid_fields f" and size: "length data = unat (compressed_size (header_fields_of f))"
      "length xs = unat (original_size (header_fields_of f))" and crc: "fd_crc f = sum16 (digest xs crc_new)"
      and coded: "\<exists>m. compression_try_from (fd_method f) = Ok m \<and> encodes m data xs"
    using Cons.prems by (simp_all add: holds_data_def)
  from coded obtain m' where m': "compression_try_from (fd_method f) = Ok m'" "encodes m' data xs" by blast
  have "archive reserve rd contents (encode_header f @ data @ write_archive ms) ((header_fields_of f, xs) # members_of ms)"
  proof (rule archive_member)
    fix q assume q: "contents q = encode_header f @ data @ write_archive ms"
    obtain q' where "lha_read reserve rd q = (Ok (Some (header_fields_of f)), q')" "contents q' = data @ write_archive ms"
      by (rule reliable_reader.lha_read_encoded [OF rd f reserve q])
    then show "\<exists>q'. lha_read reserve rd q = (Ok (Some (header_fields_of f)), q') \<and> contents q' = data @ write_archive ms"
      by (intro exI conjI)
  next
    show "header_compression_method (header_fields_of f) = Ok m'"
      using m'(1) by (simp add: header_compression_method_def header_fields_of_def)
    show "sum16 (digest xs crc_new) = file_crc (header_fields_of f)" using crc by (simp add: header_fields_of_def)
    show "archive reserve rd contents (write_archive ms) (members_of ms)" using Cons by simp
  qed (use size m'(2) in simp_all)
  then show ?case by (simp add: m members_of_def)
qed

subsection \<open>Properties\<close>

text \<open>C3: A whole archive is extracted. When the bytes of a reader are a sequence of members, each a header
  followed by a compressed form of data of the size and with the checksum the header states, and the mark of the end,
  the loop that copies a member in pieces of any size, checks its checksum and goes on with the next file
  ends and gives exactly the headers and the data of all members in their order.\<close>

theorem archive_extraction:
  fixes rd :: "('r, 'x) read_impl"
  assumes "reliable_reader rd contents" and "archive reserve rd contents (contents r) fs" and "fs \<noteq> []"
    and "8 * length (contents r) < fuel" and "0 < buf" and "length fs \<le> k" and "list_all (\<lambda>f. length (snd f) < reads) fs"
  shows "\<exists>s t. dr_new reserve rd r = Ok s \<and> extract_all k reads fuel buf reserve rd s = (Ok fs, t)"
  using extract_archive [OF assms(1,5,2) refl assms(3,4,6)] assms(7) by (simp add: list_all_iff)

lemma example_is_archive:
  obtains h where "archive reserve slice_reader (\<lambda>s. s) example_archive [(h, [1, 2, 3])]"
proof -
  obtain h where h: "lha_read reserve slice_reader example_archive = (Ok (Some h), [1, 2, 3, 0])"
    "header_compression_method h = Ok Lh0" "compressed_size h = 3" "original_size h = 3" "file_crc h = 0xA110"
    by (rule example_archive_header)
  have "archive reserve slice_reader (\<lambda>s. s) example_archive [(h, [1, 2, 3])]"
  proof (rule archive_member)
    show "encodes Lh0 [1, 2, 3] [1, 2, 3]" by (simp add: encodes.stored)
    show "archive reserve slice_reader (\<lambda>s. s) [0] []" by (rule archive_end) (simp add: example_end)
    show "length ([1, 2, 3] @ [0 :: u8]) \<le> length example_archive" by (simp add: example_archive_def)
  qed (simp_all add: h example_crc)
  with that show thesis by blast
qed

theorem archive_extraction_witness:
  "\<exists>s t h. dr_new (\<lambda>n. True) slice_reader example_archive = Ok s \<and>
    extract_all 1 4 500 2 (\<lambda>n. True) slice_reader s = (Ok [(h, [1, 2, 3])], t)"
proof -
  obtain h where "archive (\<lambda>n. True) slice_reader (\<lambda>s. s) example_archive [(h, [1, 2, 3])]"
    by (rule example_is_archive)
  moreover have "8 * length example_archive < 500" by (simp add: example_archive_def)
  ultimately have "\<exists>s t. dr_new (\<lambda>n. True) slice_reader example_archive = Ok s \<and>
      extract_all 1 4 500 2 (\<lambda>n. True) slice_reader s = (Ok [(h, [1, 2, 3])], t)"
    by (intro archive_extraction [OF slice.reliable_reader_axioms]) simp_all
  then show ?thesis by blast
qed

text \<open>C1: What is written is extracted. An archive is the encoded headers of its members, each followed by its
  compressed data, and a final zero; when the headers have the sizes and the checksums of the data, extracting
  everything with the reader gives back the fields of all headers and the data that was compressed.\<close>

theorem written_archive_extraction:
  fixes rd :: "('r, 'x) read_impl"
  assumes "reliable_reader rd contents" and "\<And>n. reserve n" and "list_all (\<lambda>(f, data, xs). holds_data f data xs) ms"
    and "contents r = write_archive ms" and "ms \<noteq> []" and "8 * length (contents r) < fuel" and "0 < buf"
    and "length ms \<le> k" and "list_all (\<lambda>(f, data, xs). length xs < reads) ms"
  shows "\<exists>s t. dr_new reserve rd r = Ok s \<and> extract_all k reads fuel buf reserve rd s = (Ok (members_of ms), t)"
proof -
  have "archive reserve rd contents (contents r) (members_of ms)"
    unfolding assms(4) by (rule write_archive_archive [OF assms(1-3)])
  moreover have "members_of ms \<noteq> []" "length (members_of ms) \<le> k" "\<forall>f\<in>set (members_of ms). length (snd f) < reads"
    using assms(5,8,9) by (auto simp: members_of_def list_all_iff)
  ultimately show ?thesis
    using extract_archive [OF assms(1,7) _ refl, of reserve r "members_of ms" fuel k reads] assms(6) by blast
qed

text \<open>Two members, the first one in a level 1 header, the second one empty and in a level 0 header.\<close>

definition example_members :: "(header_fields \<times> u8 list \<times> u8 list) list" where
  "example_members =
     [(\<lparr>fd_level = 1, fd_method = as_identifier Lh0, fd_compressed = 3, fd_original = 3, fd_modified = 0, fd_attrs = 32,
        fd_name = [0x61], fd_crc = 0xA110, fd_os = 0, fd_area = [], fd_extras = [[1, 0x62]]\<rparr>, [1, 2, 3], [1, 2, 3]),
      (\<lparr>fd_level = 0, fd_method = as_identifier Lz4, fd_compressed = 0, fd_original = 0, fd_modified = 0, fd_attrs = 32,
        fd_name = [0x62], fd_crc = 0, fd_os = 0, fd_area = [], fd_extras = []\<rparr>, [], [])]"

lemmas example_eval = holds_data_def valid_fields_def example_members_def length_ascii as_identifier.simps size_field_def extra_len_def
  hdr_raws_def hdr_counter_def counter_size_def hdr_base_def name_part_def lens_part_def fixed_part_def first_len_def body_ok_def
  stored_crc_def ext_defs header_fields_of_def said_def body_effect_def

lemma example_members_ok: "list_all (\<lambda>(f, data, xs). holds_data f data xs) example_members"
proof -
  have "encodes Lh0 [1, 2, 3] [1, 2, 3]" "encodes Lz4 [] []" by (simp_all add: encodes.stored)
  then show ?thesis
    using compression_identifier [of Lh0] compression_identifier [of Lz4] example_crc by (simp add: example_eval word_le_nat_alt digest_Nil crc_new_def sum16_def)
qed

lemma example_archive_length: "8 * length (write_archive example_members) < 1000"
  by (simp add: example_members_def as_identifier.simps encode_header_def hdr_front_def hdr_base_def name_part_def lens_part_def
    fixed_part_def hdr_raws_def hdr_counter_def counter_size_def first_len_def hdr_pad_def)

lemma example_members_facts:
  "example_members \<noteq> []" "length example_members = 2" "list_all (\<lambda>(f, data, xs). length xs < 4) example_members"
  by (simp_all add: example_members_def)

theorem written_archive_extraction_witness:
  "\<exists>s t. dr_new (\<lambda>n. True) slice_reader (write_archive example_members) = Ok s \<and>
    extract_all 2 4 1000 2 (\<lambda>n. True) slice_reader s = (Ok (members_of example_members), t)"
  by (rule written_archive_extraction [OF slice.reliable_reader_axioms _ example_members_ok refl])
    (use example_archive_length in \<open>simp_all add: example_members_facts\<close>)

end
