(* ===== verification/Fmt.thy ===== *)
theory Fmt
  imports Header_Types Stub_Io
begin

text \<open>
  What the small types of the crate display: numbers, compression methods, unrecognized
  identifiers, errors (\<open>src/src/error.rs\<close>, \<open>src/src/header/compression.rs\<close>,
  \<open>src/src/header/ostype.rs\<close>). Width and padding are not asked for by the crate.
\<close>

subsection \<open>Numbers\<close>

definition digit :: "nat \<Rightarrow> char" where
  "digit d = char_of (if d < 10 then 48 + d else 87 + d)"

text \<open>\<open>{}\<close> and \<open>{:x}\<close> of an unsigned integer.\<close>

fun in_base :: "nat \<Rightarrow> nat \<Rightarrow> string" where
  "in_base b n = (if n < b \<or> b < 2 then [digit n] else in_base b (n div b) @ [digit (n mod b)])"

declare in_base.simps [simp del]

definition decimal :: "nat \<Rightarrow> string" where
  "decimal n = in_base 10 n"

text \<open>\<open>{:x?}\<close> of an array of bytes.\<close>

fun separated :: "string \<Rightarrow> string list \<Rightarrow> string" where
  "separated sep [] = []"
| "separated sep [s] = s"
| "separated sep (s # ss) = s @ sep @ separated sep ss"

definition debug_hex :: "u8 list \<Rightarrow> string" where
  "debug_hex bs = ''['' @ separated '', '' (map (\<lambda>b. in_base 16 (unat b)) bs) @ '']''"

subsection \<open>The types of a header\<close>

text \<open>The identifiers are ASCII, which the code asserts.\<close>

definition compression_display :: "compression_method \<Rightarrow> ('e, string) outcome" where
  "compression_display m =
     (let strid = as_identifier m in
      if list_all (\<lambda>b. unat b < 128) strid then Ok (map (\<lambda>b. char_of (unat b)) strid) else Fault Panicked)"

fun unrecognized_compression_display :: "unrecognized_compression \<Rightarrow> string" where
  "unrecognized_compression_display (UnrecognizedCompressionMethod s) = ''Unrecognized compression method: '' @ debug_hex s"

fun unrecognized_os_display :: "unrecognized_os \<Rightarrow> string" where
  "unrecognized_os_display (UnrecognizedOsType b) = ''Unrecognized OS type: '' @ decimal (unat b)"

subsection \<open>Errors\<close>

text \<open>\<open>Error::source\<close>: the error an error was caused by.\<close>

fun error_source :: "'e lha_error \<Rightarrow> 'e option" where
  "error_source (Io e) = Some e"
| "error_source _ = None"

definition eof_display :: "eof_error \<Rightarrow> string" where
  "eof_display e = ''failed to fill whole buffer''"

text \<open>What an I/O error displays is the argument.\<close>

fun error_display :: "('e \<Rightarrow> string) \<Rightarrow> 'e lha_error \<Rightarrow> string" where
  "error_display display (Io e) = display e"
| "error_display display (HeaderParse e) = ''while parsing LHA header: '' @ e"
| "error_display display (Decompress e) = ''while decompressing: '' @ e"
| "error_display display (Checksum e) = ''checksum: '' @ e"

subsection \<open>What is displayed can be read\<close>

text \<open>The number a string of digits stands for.\<close>

definition digit_value :: "char \<Rightarrow> nat" where
  "digit_value c = (let n = of_char c in if n < 58 then n - 48 else n - 87)"

definition value_in :: "nat \<Rightarrow> string \<Rightarrow> nat" where
  "value_in b s = foldl (\<lambda>n c. b * n + digit_value c) 0 s"

lemma digit_value_digit: "d < 36 \<Longrightarrow> digit_value (digit d) = d"
  by (simp add: digit_value_def digit_def)

lemma value_in_base:
  assumes "1 < b" and "b \<le> 36"
  shows "value_in b (in_base b n) = n"
  using assms
proof (induction n rule: less_induct)
  case (less n)
  show ?case
  proof (cases "n < b")
    case True
    then show ?thesis using less.prems by (subst in_base.simps) (simp add: value_in_def digit_value_digit)
  next
    case False
    then have "n div b < n" using less.prems by simp
    with less have "value_in b (in_base b (n div b)) = n div b" by simp
    moreover have "n mod b < 36" using less.prems by (meson mod_less_divisor less_le_trans order_less_trans zero_less_one)
    ultimately show ?thesis using False less.prems by (subst in_base.simps) (simp add: value_in_def digit_value_digit)
  qed
qed

lemma value_decimal: "value_in 10 (decimal n) = n"
  by (simp add: decimal_def value_in_base)

lemma compression_display_Ok: "compression_display m = Ok (map (\<lambda>b. char_of (unat b)) (as_identifier m))"
  by (cases m) (simp_all add: compression_display_def ascii_def)

end
