(* ===== verification/Std_Io.thy ===== *)
theory Std_Io
  imports Fmt
begin

text \<open>
  The part of \<open>src/src/stub_io.rs\<close> and \<open>src/src/error.rs\<close> that rests on the standard library: every
  \<open>std::io::Read\<close> is a \<open>Read\<close> of the crate, and an \<open>LhaError\<close> is turned into a \<open>std::io::Error\<close>.

  Of \<open>std::io::Error\<close> the source uses the kind and the message. A \<open>std::io::Read\<close> is a record of its
  two methods; what its documentation promises is in the locales \<open>std_read\<close>, \<open>std_reader\<close> and
  \<open>reliable_std_reader\<close>: a call may deliver fewer bytes than there is room for, and it may be
  interrupted, but not without end (\<open>patience\<close> bounds the interruptions to come).
\<close>

subsection \<open>Errors of the standard library\<close>

datatype error_kind = Interrupted | UnexpectedEof | InvalidData | OtherKind nat

record io_error =
  io_kind :: error_kind
  io_message :: string

definition io_error_new :: "error_kind \<Rightarrow> string \<Rightarrow> io_error" where
  "io_error_new k m = \<lparr>io_kind = k, io_message = m\<rparr>"

text \<open>\<open>From<LhaError<io::Error>> for io::Error\<close>.\<close>

fun io_error_from :: "io_error lha_error \<Rightarrow> io_error" where
  "io_error_from (Io e) = e"
| "io_error_from (HeaderParse e) = io_error_new InvalidData e"
| "io_error_from (Decompress e) = io_error_new InvalidData e"
| "io_error_from (Checksum e) = io_error_new InvalidData e"

text \<open>The conversions of the errors of \<open>CompressionMethod\<close> and \<open>OsType\<close>.\<close>

definition io_error_from_compression :: "unrecognized_compression \<Rightarrow> io_error" where
  "io_error_from_compression e = io_error_new InvalidData (unrecognized_compression_display e)"

definition io_error_from_os :: "unrecognized_os \<Rightarrow> io_error" where
  "io_error_from_os e = io_error_new InvalidData (unrecognized_os_display e)"

subsection \<open>Every reader of the standard library\<close>

record 'r io_read =
  io_some :: "nat \<Rightarrow> ('r, io_error, u8 list) act"
  io_exact :: "nat \<Rightarrow> ('r, io_error, u8 list) act"

text \<open>
  The loop of \<open>read_all\<close>: the room left and the bytes read so far. A \<open>usize\<close> beyond the buffer panics
  when the rest of the buffer is sliced. A reader that is interrupted for ever keeps the loop going.
\<close>

partial_function (option) std_read_loop ::
  "(nat \<Rightarrow> ('r, io_error, u8 list) act) \<Rightarrow> nat \<Rightarrow> u8 list \<Rightarrow> 'r \<Rightarrow> ((io_error, u8 list) outcome \<times> 'r) option" where
  "std_read_loop read n acc s =
     (if n = 0 then Some (Ok acc, s)
      else case read n s of (r, t) \<Rightarrow> (case r of
          Ok bs \<Rightarrow>
            (if bs = [] then Some (Ok acc, t)
             else if n < length bs then Some (Fault Panicked, t)
             else std_read_loop read (n - length bs) (acc @ bs) t)
        | Err e \<Rightarrow> (if io_kind e = Interrupted then std_read_loop read n acc t else Some (Err e, t))
        | Fault q \<Rightarrow> Some (Fault q, t)))"

definition std_unexpected_eof :: io_error where
  "std_unexpected_eof = io_error_new UnexpectedEof ''failed to fill whole buffer''"

definition std_read_all :: "(nat \<Rightarrow> ('r, io_error, u8 list) act) \<Rightarrow> nat \<Rightarrow> ('r, io_error, u8 list) act" where
  "std_read_all read n = (\<lambda>s. case std_read_loop read n [] s of Some x \<Rightarrow> x | None \<Rightarrow> (Fault OutOfFuel, s))"

text \<open>The implementation of \<open>Read\<close> for every \<open>std::io::Read\<close>.\<close>

definition std_impl :: "'r io_read \<Rightarrow> ('r, io_error) read_impl" where
  "std_impl rd = \<lparr>rd_all = std_read_all (io_some rd), rd_exact = io_exact rd, rd_eof = std_unexpected_eof\<rparr>"

text \<open>The method \<open>read_exact\<close> that \<open>std::io::Read\<close> provides, the same loop and a check of the length.\<close>

definition provided_read_exact :: "(nat \<Rightarrow> ('r, io_error, u8 list) act) \<Rightarrow> nat \<Rightarrow> ('r, io_error, u8 list) act" where
  "provided_read_exact read = default_read_exact (std_read_all read) std_unexpected_eof"

definition io_provided :: "(nat \<Rightarrow> ('r, io_error, u8 list) act) \<Rightarrow> 'r io_read" where
  "io_provided read = \<lparr>io_some = read, io_exact = provided_read_exact read\<rparr>"

subsection \<open>References and boxes\<close>

text \<open>Without \<open>std\<close> a mutable reference to a reader and a box of a reader are readers; they forward.\<close>

definition ref_reader :: "('r, 'e) read_impl \<Rightarrow> ('r, 'e) read_impl" where
  "ref_reader rd = \<lparr>rd_all = rd_all rd, rd_exact = rd_exact rd, rd_eof = rd_eof rd\<rparr>"

definition box_reader :: "('r, 'e) read_impl \<Rightarrow> ('r, 'e) read_impl" where
  "box_reader rd = \<lparr>rd_all = rd_all rd, rd_exact = rd_exact rd, rd_eof = rd_eof rd\<rparr>"

subsection \<open>The contract of the standard library\<close>

locale std_read =
  fixes read :: "nat \<Rightarrow> ('r, io_error, u8 list) act"
    and contents :: "'r \<Rightarrow> u8 list"
    and patience :: "'r \<Rightarrow> nat"
  assumes read_Ok: "read n s = (Ok bs, t) \<Longrightarrow> length bs \<le> n \<and> contents s = bs @ contents t"
    and read_Nil: "read n s = (Ok [], t) \<Longrightarrow> 0 < n \<Longrightarrow> contents s = []"
    and read_Interrupted: "read n s = (Err e, t) \<Longrightarrow> io_kind e = Interrupted \<Longrightarrow>
      contents t = contents s \<and> patience t < patience s"
    and read_Err: "read n s = (Err e, t) \<Longrightarrow> length (contents t) \<le> length (contents s)"
    and read_no_Fault: "read n s \<noteq> (Fault q, t)"

locale std_reader = std_read "io_some rd" contents patience
  for rd :: "'r io_read" and contents :: "'r \<Rightarrow> u8 list" and patience :: "'r \<Rightarrow> nat" +
  assumes io_exact_Ok: "io_exact rd n s = (Ok bs, t) \<Longrightarrow>
      n \<le> length (contents s) \<and> bs = take n (contents s) \<and> contents t = drop n (contents s)"
    and io_exact_Err: "io_exact rd n s = (Err e, t) \<Longrightarrow> length (contents t) \<le> length (contents s)"
    and io_exact_no_Fault: "io_exact rd n s \<noteq> (Fault q, t)"

locale reliable_std_reader = std_reader +
  assumes only_Interrupted: "io_some rd n s = (Err e, t) \<Longrightarrow> io_kind e = Interrupted"
    and io_exact_total: "n \<le> length (contents s) \<Longrightarrow> \<exists>bs t. io_exact rd n s = (Ok bs, t)"
    and io_exact_short: "length (contents s) < n \<Longrightarrow> \<exists>t. io_exact rd n s = (Err std_unexpected_eof, t)"

context std_read begin

text \<open>The loop ends, with all the bytes it was asked for or an error that is not an interruption.\<close>

lemma read_loop_cases:
  obtains (Ok) t where "std_read_loop read n acc s = Some (Ok (acc @ take n (contents s)), t)"
      and "contents t = drop n (contents s)"
    | (Err) e t n' s' where "std_read_loop read n acc s = Some (Err e, t)" and "length (contents t) \<le> length (contents s)"
      and "read n' s' = (Err e, t)" and "io_kind e \<noteq> Interrupted"
proof -
  have "(\<exists>t. std_read_loop read n acc s = Some (Ok (acc @ take n (contents s)), t) \<and> contents t = drop n (contents s)) \<or>
      (\<exists>e t n' s'. std_read_loop read n acc s = Some (Err e, t) \<and> length (contents t) \<le> length (contents s) \<and>
        read n' s' = (Err e, t) \<and> io_kind e \<noteq> Interrupted)"
  proof (induction "(n, patience s)" arbitrary: n acc s rule: wf_induct_rule [OF wf_lex_prod [OF wf_less_than wf_less_than]])
    case 1
    note IH = 1
    show ?case
    proof (cases "n = 0")
      case True
      then show ?thesis by (simp add: std_read_loop.simps)
    next
      case False
      obtain r t where r: "read n s = (r, t)" by fastforce
      show ?thesis
      proof (cases r)
        case (Ok bs)
        note bs = read_Ok [OF r [unfolded Ok]]
        show ?thesis
        proof (cases "bs = []")
          case True
          then have "contents s = []" using read_Nil r Ok False by blast
          then show ?thesis using False r Ok True bs by (simp add: std_read_loop.simps)
        next
          case ne: False
          have step: "std_read_loop read n acc s = std_read_loop read (n - length bs) (acc @ bs) t"
            using False r Ok ne bs by (subst std_read_loop.simps) simp
          have "((n - length bs, patience t), (n, patience s)) \<in> less_than <*lex*> less_than"
            using False ne by simp
          from IH [OF this, of "acc @ bs"] bs show ?thesis unfolding step by auto
        qed
      next
        case (Err e)
        show ?thesis
        proof (cases "io_kind e = Interrupted")
          case True
          have step: "std_read_loop read n acc s = std_read_loop read n acc t"
            using False r Err True by (subst std_read_loop.simps) simp
          have t: "contents t = contents s" "patience t < patience s"
            using read_Interrupted r Err True by blast+
          then have "((n, patience t), (n, patience s)) \<in> less_than <*lex*> less_than" by simp
          from IH [OF this, of acc] t(1) show ?thesis unfolding step by simp
        next
          case other: False
          have "std_read_loop read n acc s = Some (Err e, t)"
            using False r Err other by (subst std_read_loop.simps) simp
          then show ?thesis using read_Err r Err other by blast
        qed
      next
        case (Fault q)
        with r read_no_Fault show ?thesis by blast
      qed
    qed
  qed
  with that show thesis by blast
qed

lemma std_all_cases:
  obtains (Ok) t where "std_read_all read n s = (Ok (take n (contents s)), t)" and "contents t = drop n (contents s)"
    | (Err) e t n' s' where "std_read_all read n s = (Err e, t)" and "length (contents t) \<le> length (contents s)"
      and "read n' s' = (Err e, t)" and "io_kind e \<noteq> Interrupted"
  by (cases rule: read_loop_cases [of n "[]" s]) (auto simp: std_read_all_def intro: that)

lemma provided_exact_cases:
  obtains (Ok) t where "provided_read_exact read n s = (Ok (take n (contents s)), t)" and "n \<le> length (contents s)"
      and "contents t = drop n (contents s)"
    | (Short) t where "provided_read_exact read n s = (Err std_unexpected_eof, t)" and "length (contents s) < n"
      and "length (contents t) \<le> length (contents s)"
    | (Err) e t n' s' where "provided_read_exact read n s = (Err e, t)" and "length (contents t) \<le> length (contents s)"
      and "read n' s' = (Err e, t)" and "io_kind e \<noteq> Interrupted"
proof (cases rule: std_all_cases [of n s])
  case (Ok t)
  then have run: "provided_read_exact read n s = (if n \<noteq> min n (length (contents s)) then fail std_unexpected_eof
      else ret (take n (contents s))) t"
    by (simp add: provided_read_exact_def default_read_exact_def bnd_Ok)
  show thesis
  proof (cases "n \<le> length (contents s)")
    case True
    with run Ok(2) show thesis by (intro that(1)) (simp_all add: act_simps)
  next
    case False
    with run Ok(2) show thesis by (intro that(2) [of t]) (simp_all add: act_simps)
  qed
next
  case (Err e t n' s')
  then show thesis
    by (intro that(3) [of e t n' s']) (simp_all add: provided_read_exact_def default_read_exact_def bnd_Err)
qed

text \<open>A reader with the provided \<open>read_exact\<close> keeps the contract of both methods.\<close>

lemma provided_reader: "std_reader (io_provided read) contents patience"
proof (intro std_reader.intro std_reader_axioms.intro, goal_cases)
  case 1
  show ?case by (simp add: io_provided_def std_read_axioms)
next
  case (2 n s bs t)
  then show ?case by (cases rule: provided_exact_cases [of n s]) (simp_all add: io_provided_def)
next
  case (3 n s e t)
  then show ?case by (cases rule: provided_exact_cases [of n s]) (simp_all add: io_provided_def)
next
  case (4 n s q t)
  then show ?case by (cases rule: provided_exact_cases [of n s]) (simp_all add: io_provided_def)
qed

lemma provided_reliable:
  assumes "\<And>n s e t. read n s = (Err e, t) \<Longrightarrow> io_kind e = Interrupted"
  shows "reliable_std_reader (io_provided read) contents patience"
proof (rule reliable_std_reader.intro [OF provided_reader], unfold_locales, goal_cases)
  case (1 n s e t)
  then show ?case by (simp add: io_provided_def assms)
next
  case (2 n s)
  then show ?case by (cases rule: provided_exact_cases [of n s]) (auto simp: io_provided_def dest: assms)
next
  case (3 s n)
  then show ?case by (cases rule: provided_exact_cases [of n s]) (auto simp: io_provided_def dest: assms)
qed

end

subsection \<open>A reader of the standard library is a reader of the crate\<close>

sublocale std_reader \<subseteq> impl: reader "std_impl rd" contents
proof (unfold_locales, goal_cases)
  case (1 n s bs t)
  then show ?case by (cases rule: std_all_cases [of n s]) (simp_all add: std_impl_def)
next
  case (2 n s e t)
  then show ?case by (cases rule: std_all_cases [of n s]) (simp_all add: std_impl_def)
next
  case (3 n s q t)
  then show ?case by (cases rule: std_all_cases [of n s]) (simp_all add: std_impl_def)
qed (simp_all add: std_impl_def io_exact_Ok io_exact_Err io_exact_no_Fault)

sublocale reliable_std_reader \<subseteq> impl: reliable_reader "std_impl rd" contents
proof (unfold_locales, goal_cases)
  case (1 n s)
  then show ?case by (cases rule: std_all_cases [of n s]) (auto simp: std_impl_def dest: only_Interrupted)
qed (simp_all add: std_impl_def io_exact_total io_exact_short)

context std_reader begin

lemma std_impl_reader: "reader (std_impl rd) contents"
  by (rule impl.reader_axioms)

end

context reliable_std_reader begin

lemma std_impl_reliable: "reliable_reader (std_impl rd) contents"
  by (rule impl.reliable_reader_axioms)

end

lemma ref_reader_same: "ref_reader rd = rd" "box_reader rd = rd"
  by (simp_all add: ref_reader_def box_reader_def)

subsection \<open>A reader in pieces\<close>

text \<open>
  Bytes that come as the calls of the list say: interrupted (0), or at most so many; when the list has
  ended, as many as there is room for.
\<close>

record pieces =
  pc_bytes :: "u8 list"
  pc_calls :: "nat list"

definition pieces_read :: "nat \<Rightarrow> (pieces, io_error, u8 list) act" where
  "pieces_read n = (\<lambda>s. case pc_calls s of
       [] \<Rightarrow> (Ok (take n (pc_bytes s)), s\<lparr>pc_bytes := drop n (pc_bytes s)\<rparr>)
     | 0 # cs \<Rightarrow> (Err (io_error_new Interrupted []), s\<lparr>pc_calls := cs\<rparr>)
     | Suc k # cs \<Rightarrow> (Ok (take (min n (Suc k)) (pc_bytes s)),
         \<lparr>pc_bytes = drop (min n (Suc k)) (pc_bytes s), pc_calls = cs\<rparr>))"

lemma pieces_std_read: "std_read pieces_read pc_bytes (length \<circ> pc_calls)"
  by unfold_locales
    (auto simp: pieces_read_def io_error_new_def min_def split: list.splits nat.splits if_splits)

interpretation pieces: reliable_std_reader "io_provided pieces_read" pc_bytes "length \<circ> pc_calls"
  by (rule std_read.provided_reliable [OF pieces_std_read])
    (auto simp: pieces_read_def io_error_new_def split: list.splits nat.splits)

subsection \<open>Errors of the loop\<close>

text \<open>These hold of any reader, whatever it promises.\<close>

lemma std_read_loop_result:
  assumes "std_read_loop read n acc s = Some res"
  shows "(\<forall>e t. res = (Err e, t) \<longrightarrow> io_kind e \<noteq> Interrupted \<and> (\<exists>m u. read m u = (Err e, t))) \<and>
    (n = 0 \<or> (\<exists>m u. \<forall>e t. read m u = (Err e, t) \<longrightarrow> io_kind e \<noteq> Interrupted))"
proof (rule std_read_loop.raw_induct [OF _ assms, where P = "\<lambda>read n acc s res.
      (\<forall>e t. res = (Err e, t) \<longrightarrow> io_kind e \<noteq> Interrupted \<and> (\<exists>m u. read m u = (Err e, t))) \<and>
      (n = 0 \<or> (\<exists>m u. \<forall>e t. read m u = (Err e, t) \<longrightarrow> io_kind e \<noteq> Interrupted))"], goal_cases)
  case (1 loop read n acc s res)
  note IH = 1(1) and step = 1(2)
  show ?case
  proof (cases "n = 0")
    case True
    with step show ?thesis by auto
  next
    case False
    obtain r t where r: "read n s = (r, t)" by fastforce
    show ?thesis
    proof (cases r)
      case (Ok bs)
      then have "\<exists>m u. \<forall>e t. read m u = (Err e, t) \<longrightarrow> io_kind e \<noteq> Interrupted"
        using r by (intro exI [of _ n] exI [of _ s]) simp
      moreover have "res = (Ok acc, t) \<or> res = (Fault Panicked, t) \<or> loop read (n - length bs) (acc @ bs) t = Some res"
        using step False r Ok by (auto split: if_splits)
      ultimately show ?thesis using IH [of read "n - length bs" "acc @ bs" t res] by auto
    next
      case (Err e)
      show ?thesis
      proof (cases "io_kind e = Interrupted")
        case True
        then have "loop read n acc t = Some res" using step False r Err by simp
        then show ?thesis by (rule IH)
      next
        case other: False
        then have "res = (Err e, t)" using step False r Err by simp
        moreover have "\<exists>m u. \<forall>e t. read m u = (Err e, t) \<longrightarrow> io_kind e \<noteq> Interrupted"
          using r Err other by (intro exI [of _ n] exI [of _ s]) simp
        ultimately show ?thesis using r Err other by blast
      qed
    next
      case (Fault q)
      then have "res = (Fault q, t)" using step False r by simp
      moreover have "\<exists>m u. \<forall>e t. read m u = (Err e, t) \<longrightarrow> io_kind e \<noteq> Interrupted"
        using r Fault by (intro exI [of _ n] exI [of _ s]) simp
      ultimately show ?thesis by simp
    qed
  qed
qed

lemma std_read_loop_error:
  "std_read_loop read n acc s = Some (Err e, t) \<Longrightarrow> io_kind e \<noteq> Interrupted \<and> (\<exists>m u. read m u = (Err e, t))"
  by (drule std_read_loop_result) simp

lemma endless_interruption:
  assumes "\<And>n s. \<exists>e t. read n s = (Err e, t) \<and> io_kind e = Interrupted" and "0 < n"
  shows "std_read_loop read n acc s = None"
proof (rule ccontr)
  assume "std_read_loop read n acc s \<noteq> None"
  then obtain res where "std_read_loop read n acc s = Some res" by blast
  from std_read_loop_result [OF this] assms(2) obtain m u
    where other: "\<forall>e t. read m u = (Err e, t) \<longrightarrow> io_kind e \<noteq> Interrupted" by (elim conjE disjE exE) simp
  obtain e t where "read m u = (Err e, t)" "io_kind e = Interrupted" using assms(1) by blast
  with other show False by simp
qed

text \<open>A reader that is interrupted as often as its state says and then fails.\<close>

definition broken_read :: "nat \<Rightarrow> (nat, io_error, u8 list) act" where
  "broken_read n s = (if s = 0 then (Err (io_error_new (OtherKind 5) []), s) else (Err (io_error_new Interrupted []), s - 1))"

subsection \<open>Properties\<close>

text \<open>C16: The blanket implementation of \<open>read_all\<close> ends and delivers everything: over a reader of the standard library that
  hands out its bytes in pieces of any size and may be interrupted, finitely often in a row, but has
  no other errors, a call fills the buffer as far as there are bytes, and takes no byte more.\<close>

theorem std_read_all_delivers:
  assumes "reliable_std_reader rd contents patience"
  shows "\<exists>t. rd_all (std_impl rd) n s = (Ok (take n (contents s)), t) \<and> contents t = drop n (contents s)"
proof -
  from assms have "reliable_reader (std_impl rd) contents"
    by (rule reliable_std_reader.std_impl_reliable)
  then show ?thesis by (rule reliable_reader.rd_all_reliable) blast
qed

theorem std_read_all_delivers_witness:
  "\<exists>t. rd_all (std_impl (io_provided pieces_read)) 4 \<lparr>pc_bytes = [1, 2, 3, 4, 5], pc_calls = [0, 1, 0, 0, 2]\<rparr> =
    (Ok [1, 2, 3, 4], t) \<and> pc_bytes t = [5]"
  using std_read_all_delivers [OF pieces.reliable_std_reader_axioms, of 4 "\<lparr>pc_bytes = [1, 2, 3, 4, 5], pc_calls = [0, 1, 0, 0, 2]\<rparr>"]
  by simp

text \<open>An interruption is never reported: whatever the reader of the standard library does, an error of
  \<open>read_all\<close> is not of the kind \<open>Interrupted\<close>, and it is the error of one of the calls to the reader.\<close>

lemma std_read_all_error:
  assumes "rd_all (std_impl rd) n s = (Err e, t)"
  shows "io_kind e \<noteq> Interrupted \<and> (\<exists>m u. io_some rd m u = (Err e, t))"
proof -
  from assms have "std_read_loop (io_some rd) n [] s = Some (Err e, t)"
    by (simp add: std_impl_def std_read_all_def split: option.splits)
  then show ?thesis by (rule std_read_loop_error)
qed

lemma std_read_all_error_example:
  "\<exists>e. rd_all (std_impl (io_provided broken_read)) 4 2 = (Err e, 0) \<and> io_kind e = OtherKind 5 \<and> io_kind e \<noteq> Interrupted"
proof -
  have run: "rd_all (std_impl (io_provided broken_read)) 4 2 = (Err (io_error_new (OtherKind 5) []), 0)"
    by (simp add: std_impl_def std_read_all_def io_provided_def std_read_loop.simps broken_read_def io_error_new_def)
  from std_read_all_error [OF run] run show ?thesis by (simp add: io_error_new_def)
qed

end
