(* ===== verification/Std_Decode.thy ===== *)
theory Std_Decode
  imports Archive Std_Io
begin

text \<open>
  The parts of \<open>src/src/decode.rs\<close> and \<open>src/src/lib.rs\<close> that rest on the standard library: the errors of
  \<open>LhaDecodeReader\<close> as errors of \<open>std::io\<close>, \<open>LhaDecodeReader\<close> as a \<open>std::io::Read\<close>, and \<open>parse_file\<close>.
\<close>

subsection \<open>LhaDecodeError\<close>

definition decode_error_into_inner :: "('r, 'e) lha_decode_error \<Rightarrow> 'r" where
  "decode_error_into_inner e = de_read e"

definition decode_error_get_ref :: "('r, 'e) lha_decode_error \<Rightarrow> 'r" where
  "decode_error_get_ref e = de_read e"

text \<open>What is done to the reader through the reference of \<open>get_mut\<close> is done to the reader of the error.\<close>

definition decode_error_get_mut :: "('r \<Rightarrow> 'r) \<Rightarrow> ('r, 'e) lha_decode_error \<Rightarrow> ('r, 'e) lha_decode_error" where
  "decode_error_get_mut f e = e\<lparr>de_read := f (de_read e)\<rparr>"

definition decode_error_source :: "('r, 'e) lha_decode_error \<Rightarrow> 'e lha_error option" where
  "decode_error_source e = Some (de_source e)"

definition decode_error_display :: "('e \<Rightarrow> string) \<Rightarrow> ('r, 'e) lha_decode_error \<Rightarrow> string" where
  "decode_error_display display e = ''LHA decode error: '' @ error_display display (de_source e)"

definition lha_error_from :: "('r, 'e) lha_decode_error \<Rightarrow> 'e lha_error" where
  "lha_error_from e = de_source e"

definition decode_io_error_from :: "('r, io_error) lha_decode_error \<Rightarrow> io_error" where
  "decode_io_error_from e = io_error_from (de_source e)"

subsection \<open>Reading a member with the standard library\<close>

text \<open>
  \<open>read\<close> is \<open>read_all\<close> of the variant without \<open>std\<close>, but for the operator \<open>?\<close>, which turns the error of
  \<open>fill_buffer\<close> into one of the standard library. The other methods are those the trait provides.
\<close>

definition dr_read :: "nat \<Rightarrow> ('r, io_error) read_impl \<Rightarrow> nat \<Rightarrow> ('r lha_decode_reader, io_error, u8 list) act" where
  "dr_read fuel rd n = (\<lambda>s. case dr_len s of
       Ok rest \<Rightarrow> (let len = min n (unat rest) in case dr_decoder s of
           None \<Rightarrow> (Fault Panicked, s)
         | Some dec \<Rightarrow> (case any_fill_buffer fuel (take_reader rd) len dec of
               (Ok target, d) \<Rightarrow> (Ok target, s\<lparr>dr_decoder := Some d, dr_output_length := dr_output_length s + of_nat len,
                 dr_crc := digest target (dr_crc s)\<rparr>)
             | (Err e, d) \<Rightarrow> (Err (io_error_from e), s\<lparr>dr_decoder := Some d\<rparr>)
             | (Fault q, d) \<Rightarrow> (Fault q, s\<lparr>dr_decoder := Some d\<rparr>)))
     | Err e \<Rightarrow> (Err e, s)
     | Fault q \<Rightarrow> (Fault q, s))"

definition dr_io_read :: "nat \<Rightarrow> ('r, io_error) read_impl \<Rightarrow> 'r lha_decode_reader io_read" where
  "dr_io_read fuel rd = io_provided (dr_read fuel rd)"

subsection \<open>Opening a file\<close>

text \<open>\<open>File::open\<close> and the reads of a \<open>File\<close> are the arguments.\<close>

definition parse_file :: "('p \<Rightarrow> (io_error, 'r) outcome) \<Rightarrow> 'r io_read \<Rightarrow> (nat \<Rightarrow> bool) \<Rightarrow> 'p \<Rightarrow>
    (io_error, 'r lha_decode_reader) outcome" where
  "parse_file file_open file reserve path = (case file_open path of
       Ok r \<Rightarrow> map_outcome_err decode_io_error_from (dr_new reserve (std_impl file) r)
     | Err e \<Rightarrow> Err e
     | Fault q \<Rightarrow> Fault q)"

subsection \<open>The two variants of reading agree\<close>

lemma dr_read_eq: "dr_read fuel rd n = map_err io_error_from (dr_read_all fuel rd n)"
  by (rule ext) (simp add: dr_read_def dr_read_all_def map_err_def dr_len_def Let_def split: outcome.splits prod.splits option.splits)

lemma dr_read_Ok: "dr_read_all fuel rd n s = (Ok bs, t) \<Longrightarrow> dr_read fuel rd n s = (Ok bs, t)"
  by (simp add: dr_read_eq map_err_def)

lemma dr_read_Err: "dr_read_all fuel rd n s = (Err e, t) \<Longrightarrow> dr_read fuel rd n s = (Err (io_error_from e), t)"
  by (simp add: dr_read_eq map_err_def)

text \<open>After a read that succeeded, reading what is left when nothing is left succeeds.\<close>

lemma read_again:
  assumes rd: "reliable_reader rd contents" and ok: "reader_ok contents fuel s"
    and read: "dr_read_all fuel rd n s = (Ok bs, t)" and short: "length bs < n"
  obtains u where "dr_read_all fuel rd k t = (Ok [], u)" and "delivered [] t u"
proof -
  have base: "reader rd contents" using rd by (simp add: reliable_reader_def)
  have t: "length bs = min n (remaining s)" "delivered bs s t" "reader_ok contents fuel t"
    by (rule read_all_cases [OF base ok, of n]; use read in simp)+
  then have none: "remaining s \<le> n" "remaining t = 0" using short by (auto simp: delivered_def)
  have "fst (app (dr_read_all fuel rd n) (dr_read_all fuel rd k) s) = Ok bs"
    using read_all_add [OF rd ok, of n k] read_all_beyond [OF ok none(1), of rd k] read by (simp add: add.commute)
  then obtain xs u where u: "dr_read_all fuel rd k t = (Ok xs, u)" "bs @ xs = bs"
    using read by (auto simp: app_def bnd_def ret_def split: outcome.splits prod.splits)
  have "delivered xs t u" by (rule read_all_cases [OF base t(3), of k]; use u(1) in simp)
  with u that show thesis by simp
qed

subsection \<open>Properties\<close>

text \<open>C17: With the standard library a member reads the same, but for two cases. Through \<open>std::io::Read\<close> of \<open>LhaDecodeReader\<close> and the
  blanket implementation over it, \<open>read_all\<close> delivers what \<open>read_all\<close> without \<open>std\<close> delivers and leaves the same
  header, length and checksum. When that fails, it fails with the same error, converted, unless the buffer is
  empty (the loop of the blanket implementation then asks for nothing and answers that nothing was read, and
  the reader is left as it was, also where the variant without \<open>std\<close> reports an unsupported method) or the error is
  an interruption (which the loop does not report, but tries again). A panic is the same panic.\<close>

theorem std_member_reads_same:
  assumes "reliable_reader rd contents" and "reader_ok contents fuel s"
  shows "(\<forall>bs t. dr_read_all fuel rd n s = (Ok bs, t) \<longrightarrow> (\<exists>u. rd_all (std_impl (dr_io_read fuel rd)) n s = (Ok bs, u) \<and>
      dr_header u = dr_header t \<and> dr_output_length u = dr_output_length t \<and> dr_crc u = dr_crc t)) \<and>
    (\<forall>e t. dr_read_all fuel rd n s = (Err e, t) \<longrightarrow> 0 < n \<longrightarrow> io_kind (io_error_from e) \<noteq> Interrupted \<longrightarrow>
      rd_all (std_impl (dr_io_read fuel rd)) n s = (Err (io_error_from e), t)) \<and>
    (\<forall>q t. dr_read_all fuel rd n s = (Fault q, t) \<longrightarrow> 0 < n \<longrightarrow> rd_all (std_impl (dr_io_read fuel rd)) n s = (Fault q, t)) \<and>
    (n = 0 \<longrightarrow> rd_all (std_impl (dr_io_read fuel rd)) n s = (Ok [], s))"
proof (intro conjI allI impI)
  let ?loop = "std_read_loop (dr_read fuel rd)"
  have all: "rd_all (std_impl (dr_io_read fuel rd)) n s = r" if "?loop n [] s = Some r" for r
    using that by (simp add: std_impl_def dr_io_read_def io_provided_def std_read_all_def)
  have base: "reader rd contents" using assms(1) by (simp add: reliable_reader_def)
  {
    fix bs t assume read: "dr_read_all fuel rd n s = (Ok bs, t)"
    have len: "length bs \<le> n" and del: "delivered bs s t"
      by (rule read_all_cases [OF base assms(2), of n]; use read in simp)+
    show "\<exists>u. rd_all (std_impl (dr_io_read fuel rd)) n s = (Ok bs, u) \<and>
        dr_header u = dr_header t \<and> dr_output_length u = dr_output_length t \<and> dr_crc u = dr_crc t"
    proof (cases "n = 0")
      case True
      then have "?loop n [] s = Some (Ok bs, s)" using len by (simp add: std_read_loop.simps)
      from all [OF this] True len del show ?thesis by (auto simp: delivered_def digest_Nil)
    next
      case False
      then have first: "?loop n [] s = (if bs = [] then Some (Ok [], t) else ?loop (n - length bs) bs t)"
        using len dr_read_Ok [OF read] by (subst std_read_loop.simps) simp
      show ?thesis
      proof (cases "bs = [] \<or> length bs = n")
        case True
        then have "?loop n [] s = Some (Ok bs, t)" using first by (auto simp: std_read_loop.simps)
        from all [OF this] show ?thesis by blast
      next
        case False
        then have "length bs < n" using len by simp
        then obtain u where u: "dr_read_all fuel rd (n - length bs) t = (Ok [], u)" "delivered [] t u"
          by (rule read_again [OF assms read])
        have "?loop (n - length bs) bs t = Some (Ok bs, u)"
          using False len dr_read_Ok [OF u(1)] by (subst std_read_loop.simps) simp
        then have "?loop n [] s = Some (Ok bs, u)" using first False by simp
        from all [OF this] u(2) show ?thesis by (auto simp: delivered_def digest_Nil)
      qed
    qed
  next
    fix e t assume read: "dr_read_all fuel rd n s = (Err e, t)" "0 < n" "io_kind (io_error_from e) \<noteq> Interrupted"
    show "rd_all (std_impl (dr_io_read fuel rd)) n s = (Err (io_error_from e), t)"
      by (rule all) (use dr_read_Err [OF read(1)] read(2,3) in \<open>subst std_read_loop.simps, simp\<close>)
  next
    fix q t assume read: "dr_read_all fuel rd n s = (Fault q, t)" "0 < n"
    then have "dr_read fuel rd n s = (Fault q, t)" by (simp add: dr_read_eq map_err_def)
    then show "rd_all (std_impl (dr_io_read fuel rd)) n s = (Fault q, t)"
      by (intro all) (use read(2) in \<open>subst std_read_loop.simps, simp\<close>)
  next
    assume "n = 0"
    then show "rd_all (std_impl (dr_io_read fuel rd)) n s = (Ok [], s)"
      by (intro all) (simp add: std_read_loop.simps)
  }
qed

lemma example_io_member:
  fixes calls :: "nat list"
  defines "rd \<equiv> std_impl (io_provided pieces_read)"
  obtains s t where "dr_new (\<lambda>n. True) rd \<lparr>pc_bytes = write_archive example_members, pc_calls = calls\<rparr> = Ok s"
    and "reader_ok pc_bytes 1000 s" and "dr_read_all 1000 rd 7 s = (Ok [1, 2, 3], t)"
proof -
  have rd: "reliable_reader rd pc_bytes" unfolding rd_def by (rule pieces.std_impl_reliable)
  obtain f ms where ex: "example_members = (f, [1, 2, 3], [1, 2, 3]) # ms" unfolding example_members_def by blast
  have ok: "holds_data f [1, 2, 3] [1, 2, 3]" using example_members_ok unfolding ex by simp
  let ?r = "\<lparr>pc_bytes = write_archive example_members, pc_calls = calls\<rparr>" and ?h = "header_fields_of f"
  obtain r' where r': "lha_read (\<lambda>n. True) rd ?r = (Ok (Some ?h), r')" "pc_bytes r' = [1, 2, 3] @ write_archive ms"
    by (rule reliable_reader.lha_read_encoded [OF rd, of f "\<lambda>n. True" ?r "[1, 2, 3] @ write_archive ms"])
      (use ok in \<open>simp_all add: holds_data_def ex\<close>)
  have fuel: "8 * length (pc_bytes r') < 1000" using example_archive_length r'(2) by (simp add: ex)
  obtain m where m: "header_compression_method ?h = Ok m" "encodes m [1, 2, 3] [1, 2, 3]"
    using ok by (auto simp: holds_data_def header_compression_method_def header_fields_of_def)
  obtain s where s: "dr_new (\<lambda>n. True) rd ?r = Ok s" "reader_ok pc_bytes 1000 s"
    by (rule dr_new_Ok [where contents = pc_bytes and fuel = 1000, OF r'(1) fuel])
  have "\<exists>t. dr_read_all 1000 rd 7 s = (Ok [1, 2, 3], t)"
    by (rule extract_member [OF rd r'(1) m(1) r'(2) _ m(2) _ fuel, of 7]) (use ok s(1) in \<open>auto simp: holds_data_def\<close>)
  with s that show thesis by blast
qed

theorem std_member_reads_same_witness:
  "\<exists>s t u. dr_new (\<lambda>n. True) (std_impl (io_provided pieces_read)) \<lparr>pc_bytes = write_archive example_members, pc_calls = [2, 0]\<rparr> = Ok s \<and>
    dr_read_all 1000 (std_impl (io_provided pieces_read)) 7 s = (Ok [1, 2, 3], t) \<and>
    rd_all (std_impl (dr_io_read 1000 (std_impl (io_provided pieces_read)))) 7 s = (Ok [1, 2, 3], u) \<and> dr_crc u = dr_crc t"
proof -
  obtain s t where s: "dr_new (\<lambda>n. True) (std_impl (io_provided pieces_read)) \<lparr>pc_bytes = write_archive example_members, pc_calls = [2, 0]\<rparr> = Ok s"
    "reader_ok pc_bytes 1000 s" "dr_read_all 1000 (std_impl (io_provided pieces_read)) 7 s = (Ok [1, 2, 3], t)"
    by (rule example_io_member)
  from std_member_reads_same [OF pieces.std_impl_reliable s(2), of 7] s show ?thesis by blast
qed

text \<open>C15: What \<open>parse_file\<close> answers. An error of opening the file is handed on. Of a file that opens it gives a reader of the
  first member when there is a header; a missing header and a bad one are errors of the kind \<open>InvalidData\<close>, an error
  of the file is handed on as it is; and it panics only for the overflow in the length check of a level 3 header.\<close>

theorem parse_file_cases:
  assumes "std_reader file contents patience"
  shows "case file_open path of
      Ok r \<Rightarrow> (case fst (lha_read reserve (std_impl file) r) of
          Ok (Some h) \<Rightarrow> \<exists>s. parse_file file_open file reserve path = Ok s \<and> dr_header s = h \<and> dr_output_length s = 0 \<and> sum16 (dr_crc s) = 0
        | Ok None \<Rightarrow> parse_file file_open file reserve path = Err (io_error_new InvalidData ''a header is missing'')
        | Err (Io e) \<Rightarrow> parse_file file_open file reserve path = Err e
        | Err _ \<Rightarrow> (\<exists>e. parse_file file_open file reserve path = Err e \<and> io_kind e = InvalidData)
        | Fault q \<Rightarrow> q = Overflow \<and> parse_file file_open file reserve path = Fault q \<and> 20 < length (contents r) \<and> contents r ! 20 = 3)
    | Err e \<Rightarrow> parse_file file_open file reserve path = Err e
    | Fault q \<Rightarrow> parse_file file_open file reserve path = Fault q"
proof (cases "file_open path")
  case (Ok r)
  have rd: "reader (std_impl file) contents" by (rule std_reader.std_impl_reader [OF assms])
  obtain res r' where run: "lha_read reserve (std_impl file) r = (res, r')" by fastforce
  note parse = Ok parse_file_def dr_new_def decode_io_error_from_def wrap_err_def
  show ?thesis
  proof (cases res)
    case res: (Ok oh)
    show ?thesis
    proof (cases oh)
      case None
      with run res show ?thesis by (simp add: parse)
    next
      case (Some h)
      have none: "8 * length ([] :: u8 list) < 1" by simp
      obtain s where "dr_new reserve (std_impl file) r = Ok s" "dr_header s = h" "dr_crc s = crc_new"
        by (rule dr_new_Ok [where contents = "\<lambda>_. []" and fuel = 1, OF run [unfolded res Some] none])
      moreover from this(1) have "dr_output_length s = 0" using run res Some by (auto simp: dr_new_def split: outcome.splits)
      ultimately show ?thesis using run res Some by (simp add: Ok parse_file_def sum16_def crc_new_def)
    qed
  next
    case (Err e)
    with run show ?thesis by (cases e) (simp_all add: parse io_error_new_def)
  next
    case (Fault q)
    with run lha_read_fault [OF rd run [unfolded Fault]] show ?thesis by (simp add: parse level3_overflows_def)
  qed
qed (simp_all add: parse_file_def)

theorem parse_file_cases_witness:
  "parse_file (\<lambda>p. Ok \<lparr>pc_bytes = [0], pc_calls = [0]\<rparr>) (io_provided pieces_read) (\<lambda>n. True) ''a.lzh'' =
    Err (io_error_new InvalidData ''a header is missing'')"
proof -
  let ?r = "\<lparr>pc_bytes = [0], pc_calls = [0]\<rparr>" and ?rd = "std_impl (io_provided pieces_read)"
  obtain r' where "lha_read (\<lambda>n. True) ?rd ?r = (Ok None, r')"
    by (rule reliable_reader.lha_read_end [OF pieces.std_impl_reliable, of ?r "[]" "\<lambda>n. True"]) simp_all
  with parse_file_cases [OF pieces.std_reader_axioms, of "\<lambda>p :: string. Ok ?r" "\<lambda>n. True" "''a.lzh''"] show ?thesis by simp
qed

text \<open>C14: A file is extracted. From a file that holds an archive as it is written, and whose reads come in pieces and may be
  interrupted, \<open>parse_file\<close> gives a reader with which all members are extracted.\<close>

theorem parse_file_extracts:
  assumes "reliable_std_reader file contents patience" and "\<And>n. reserve n" and "list_all (\<lambda>(f, data, xs). holds_data f data xs) ms"
    and "file_open path = Ok r" and "contents r = write_archive ms" and "ms \<noteq> []" and "8 * length (contents r) < fuel" and "0 < buf"
    and "length ms \<le> k" and "list_all (\<lambda>(f, data, xs). length xs < reads) ms"
  shows "\<exists>s t. parse_file file_open file reserve path = Ok s \<and>
    extract_all k reads fuel buf reserve (std_impl file) s = (Ok (members_of ms), t)"
proof -
  have rd: "reliable_reader (std_impl file) contents" by (rule reliable_std_reader.std_impl_reliable [OF assms(1)])
  have "archive reserve (std_impl file) contents (contents r) (members_of ms)"
    unfolding assms(5) by (rule write_archive_archive [OF rd assms(2,3)])
  moreover have "members_of ms \<noteq> []" "length (members_of ms) \<le> k" "\<forall>f\<in>set (members_of ms). length (snd f) < reads"
    using assms(6,9,10) by (auto simp: members_of_def list_all_iff)
  ultimately obtain s t where "dr_new reserve (std_impl file) r = Ok s"
      "extract_all k reads fuel buf reserve (std_impl file) s = (Ok (members_of ms), t)"
    using extract_archive [OF rd assms(8) _ refl, of reserve r "members_of ms" fuel k reads] assms(7) by blast
  then show ?thesis by (simp add: parse_file_def assms(4))
qed

theorem parse_file_extracts_witness:
  "\<exists>s t. parse_file (\<lambda>p. Ok \<lparr>pc_bytes = write_archive example_members, pc_calls = [0, 1, 0, 0, 7]\<rparr>) (io_provided pieces_read)
      (\<lambda>n. True) ''a.lzh'' = Ok s \<and>
    extract_all 2 4 1000 2 (\<lambda>n. True) (std_impl (io_provided pieces_read)) s = (Ok (members_of example_members), t)"
  by (rule parse_file_extracts [where r = "\<lparr>pc_bytes = write_archive example_members, pc_calls = [0, 1, 0, 0, 7]\<rparr>",
      OF pieces.reliable_std_reader_axioms _ example_members_ok])
    (use example_archive_length in \<open>simp_all add: example_members_facts\<close>)

end
