(* ===== verification/Tree_Fmt.thy ===== *)
theory Tree_Fmt
  imports Fmt Huff_Canonical Dyn_Read
begin

text \<open>
  The \<open>Display\<close> of the two Huffman trees (\<open>src/src/statictree.rs\<close>, \<open>src/src/decode/lhv1/dyntree.rs\<close>), which
  writes one line for every leaf with the path that leads to it. A path is kept in a string to
  which a digit is pushed before a child is written, and popped after it. The locale \<open>tree_fmt\<close>
  is what both recursions share; the lines are shown to be the code words of the decoders.
\<close>

subsection \<open>Formatting\<close>

text \<open>What was written, and the prefix; a formatter of a string does not fail.\<close>

record fmt_state =
  fm_out :: string
  fm_prefix :: string

definition push_prefix :: "char \<Rightarrow> (fmt_state, 'e, unit) act" where
  "push_prefix c = modify (\<lambda>f. f\<lparr>fm_prefix := fm_prefix f @ [c]\<rparr>)"

definition pop_prefix :: "(fmt_state, 'e, unit) act" where
  "pop_prefix = modify (\<lambda>f. f\<lparr>fm_prefix := butlast (fm_prefix f)\<rparr>)"

text \<open>\<open>writeln!(f, "{}...", prefix, ...)\<close>.\<close>

definition write_line :: "string \<Rightarrow> (fmt_state, 'e, unit) act" where
  "write_line s = modify (\<lambda>f. f\<lparr>fm_out := fm_out f @ fm_prefix f @ s @ [CHR 0x0A]\<rparr>)"

definition code_text :: "u16 \<Rightarrow> string" where
  "code_text v = '' -> '' @ decimal (unat v)"

subsection \<open>The static tree\<close>

text \<open>The recursion goes from an index to larger ones; its depth is at most the number of nodes.\<close>

fun huff_fmt_step :: "nat \<Rightarrow> tree_entry list \<Rightarrow> nat \<Rightarrow> (fmt_state, 'e, unit) act" where
  "huff_fmt_step 0 t i = crash OutOfFuel"
| "huff_fmt_step (Suc depth) t i =
     (if i < length t then
        (case as_type (t ! i) of
           Leaf v \<Rightarrow> write_line (code_text v)
         | Branch c \<Rightarrow>
             bnd (push_prefix CHR ''0'') (\<lambda>_.
             bnd (huff_fmt_step depth t (unat c)) (\<lambda>_.
             bnd pop_prefix (\<lambda>_.
             bnd (push_prefix CHR ''1'') (\<lambda>_.
             bnd (huff_fmt_step depth t (unat c + 1)) (\<lambda>_. pop_prefix))))))
      else crash Panicked)"

definition huff_fmt :: "huff_tree \<Rightarrow> (fmt_state, 'e, unit) act" where
  "huff_fmt h = (if tree h = [] then ret () else huff_fmt_step (length (tree h)) (tree h) 0)"

subsection \<open>The adaptive tree\<close>

definition node_text :: "u16 \<Rightarrow> tree_node \<Rightarrow> string" where
  "node_text v n = code_text v @ '' f: '' @ decimal (unat (nd_freq n)) @ '' g: '' @ decimal (unat (nd_group n))"

fun dyn_fmt_step :: "nat \<Rightarrow> tree_node list \<Rightarrow> nat \<Rightarrow> (fmt_state, 'e, unit) act" where
  "dyn_fmt_step 0 nodes i = crash OutOfFuel"
| "dyn_fmt_step (Suc depth) nodes i =
     (if i < length nodes then
        (case as_type (nd_entry (nodes ! i)) of
           Leaf v \<Rightarrow> write_line (node_text v (nodes ! i))
         | Branch c \<Rightarrow>
             bnd (push_prefix CHR ''0'') (\<lambda>_.
             bnd (dyn_fmt_step depth nodes (unat c)) (\<lambda>_.
             bnd pop_prefix (\<lambda>_.
             bnd (push_prefix CHR ''1'') (\<lambda>_.
             bnd (if unat c < 1 then crash Overflow else dyn_fmt_step depth nodes (unat c - 1)) (\<lambda>_. pop_prefix))))))
      else crash Panicked)"

definition dyn_fmt :: "dyn_tree \<Rightarrow> (fmt_state, 'e, unit) act" where
  "dyn_fmt t = dyn_fmt_step num_nodes (dt_nodes t) 0"

subsection \<open>Lines and paths\<close>

text \<open>
  A tree as a function of the index of a node: the text of a leaf or the two children. The lines below a
  node with the path from it, and the text a path leads to.
\<close>

fun lines_from :: "nat \<Rightarrow> (nat \<Rightarrow> string + (nat \<times> nat)) \<Rightarrow> nat \<Rightarrow> (bool list \<times> string) list" where
  "lines_from 0 node i = []"
| "lines_from (Suc depth) node i = (case node i of
     Inl s \<Rightarrow> [([], s)]
   | Inr (l, r) \<Rightarrow> map (\<lambda>(bs, s). (False # bs, s)) (lines_from depth node l) @
       map (\<lambda>(bs, s). (True # bs, s)) (lines_from depth node r))"

fun leads :: "(nat \<Rightarrow> string + (nat \<times> nat)) \<Rightarrow> nat \<Rightarrow> bool list \<Rightarrow> string option" where
  "leads node i [] = (case node i of Inl s \<Rightarrow> Some s | Inr _ \<Rightarrow> None)"
| "leads node i (b # bs) = (case node i of Inl _ \<Rightarrow> None | Inr (l, r) \<Rightarrow> leads node (if b then r else l) bs)"

definition bit_chars :: "bool list \<Rightarrow> string" where
  "bit_chars bs = map (\<lambda>b. if b then CHR ''1'' else CHR ''0'') bs"

definition fmt_line :: "string \<Rightarrow> bool list \<times> string \<Rightarrow> string" where
  "fmt_line prefix = (\<lambda>(bs, s). prefix @ bit_chars bs @ s @ [CHR 0x0A])"

text \<open>Paths in the order of their bits.\<close>

definition in_order :: "(bool list \<times> string) list \<Rightarrow> bool" where
  "in_order = sorted_wrt (\<lambda>p q. (fst p, fst q) \<in> lexord {(False, True)})"

lemma bit_chars_simps [simp]: "bit_chars [] = []" "bit_chars (True # bs) = CHR ''1'' # bit_chars bs"
  "bit_chars (False # bs) = CHR ''0'' # bit_chars bs"
  by (simp_all add: bit_chars_def)

lemma fmt_line_child: "map (fmt_line (prefix @ [CHR ''0''])) ls = map (fmt_line prefix) (map (\<lambda>(bs, s). (False # bs, s)) ls)"
  "map (fmt_line (prefix @ [CHR ''1''])) ls = map (fmt_line prefix) (map (\<lambda>(bs, s). (True # bs, s)) ls)"
  by (simp_all add: fmt_line_def case_prod_beta)

lemma in_order_branch:
  "in_order ls \<Longrightarrow> in_order rs \<Longrightarrow> in_order (map (\<lambda>(bs, s). (False # bs, s)) ls @ map (\<lambda>(bs, s). (True # bs, s)) rs)"
  by (auto simp: in_order_def sorted_wrt_append sorted_wrt_map case_prod_beta)

text \<open>
  A recursion \<open>step\<close> over a well-formed tree that writes a leaf and goes down a branch with a digit pushed,
  towards larger indices.
\<close>

locale tree_fmt =
  fixes step :: "nat \<Rightarrow> 't \<Rightarrow> nat \<Rightarrow> (fmt_state, 'e, unit) act"
    and node :: "'t \<Rightarrow> nat \<Rightarrow> string + (nat \<times> nat)"
    and size :: "'t \<Rightarrow> nat"
    and ok :: "'t \<Rightarrow> bool"
  assumes step_leaf: "ok t \<Longrightarrow> i < size t \<Longrightarrow> node t i = Inl s \<Longrightarrow> step (Suc depth) t i = write_line s"
    and step_branch: "ok t \<Longrightarrow> i < size t \<Longrightarrow> node t i = Inr (l, r) \<Longrightarrow> step (Suc depth) t i =
      bnd (push_prefix CHR ''0'') (\<lambda>_. bnd (step depth t l) (\<lambda>_. bnd pop_prefix (\<lambda>_.
      bnd (push_prefix CHR ''1'') (\<lambda>_. bnd (step depth t r) (\<lambda>_. pop_prefix)))))"
    and child: "ok t \<Longrightarrow> i < size t \<Longrightarrow> node t i = Inr (l, r) \<Longrightarrow> i < l \<and> i < r \<and> l < size t \<and> r < size t"

context tree_fmt begin

lemma step_lines:
  assumes "ok t"
  shows "i < size t \<Longrightarrow> size t \<le> depth + i \<Longrightarrow> step depth t i f =
    (Ok (), f\<lparr>fm_out := fm_out f @ concat (map (fmt_line (fm_prefix f)) (lines_from depth (node t) i))\<rparr>)"
proof (induction depth arbitrary: i f)
  case 0
  then show ?case by simp
next
  case (Suc depth)
  show ?case
  proof (cases "node t i")
    case (Inl s)
    with step_leaf [OF assms Suc.prems(1) Inl] show ?thesis
      by (simp add: write_line_def modify_apply fmt_line_def)
  next
    case (Inr c)
    obtain l r where c: "node t i = Inr (l, r)" using Inr by (cases c) simp
    note children = child [OF assms Suc.prems(1) c]
    have d: "size t \<le> depth + l" "size t \<le> depth + r" using children Suc.prems(2) by simp_all
    note IH = Suc.IH [OF _ d(1)] Suc.IH [OF _ d(2)]
    show ?thesis
      unfolding step_branch [OF assms Suc.prems(1) c]
      using children
      by (simp add: c bnd_def push_prefix_def pop_prefix_def modify_apply IH fmt_line_child del: map_map)
  qed
qed

lemma lines_lead:
  assumes "ok t"
  shows "i < size t \<Longrightarrow> size t \<le> depth + i \<Longrightarrow> (bs, s) \<in> set (lines_from depth (node t) i) \<longleftrightarrow> leads (node t) i bs = Some s"
proof (induction depth arbitrary: i bs)
  case 0
  then show ?case by simp
next
  case (Suc depth)
  show ?case
  proof (cases "node t i")
    case (Inl s)
    then show ?thesis by (cases bs) auto
  next
    case (Inr c)
    obtain l r where c: "node t i = Inr (l, r)" using Inr by (cases c) simp
    note children = child [OF assms Suc.prems(1) c]
    have d: "size t \<le> depth + l" "size t \<le> depth + r" using children Suc.prems(2) by simp_all
    show ?thesis
      using children Suc.IH [OF _ d(1)] Suc.IH [OF _ d(2)] by (cases bs) (auto simp: c)
  qed
qed

lemma lines_in_order: "in_order (lines_from depth (node t) i)"
proof (induction depth arbitrary: i)
  case 0
  show ?case by (simp add: in_order_def)
next
  case (Suc depth)
  then show ?case by (auto simp: in_order_branch split: sum.split) (simp add: in_order_def)
qed

text \<open>The whole output: one line for every path from the root to a leaf, in the order of the paths.\<close>

lemma step_root:
  assumes "ok t" and "0 < size t"
  obtains ls where "step (size t) t 0 \<lparr>fm_out = [], fm_prefix = []\<rparr> =
      (Ok (), \<lparr>fm_out = concat (map (fmt_line []) ls), fm_prefix = []\<rparr>)"
    and "in_order ls" and "\<And>bs s. (bs, s) \<in> set ls \<longleftrightarrow> leads (node t) 0 bs = Some s"
  by (rule that [of "lines_from (size t) (node t) 0"])
    (use assms step_lines [OF assms] lines_lead [OF assms] lines_in_order in simp_all)

end

subsection \<open>The static tree is well formed\<close>

definition static_node :: "tree_entry list \<Rightarrow> nat \<Rightarrow> string + (nat \<times> nat)" where
  "static_node t i = (case as_type (t ! i) of Leaf v \<Rightarrow> Inl (code_text v) | Branch c \<Rightarrow> Inr (unat c, unat c + 1))"

interpretation static_fmt: tree_fmt huff_fmt_step static_node length wf_tree
proof (unfold_locales, goal_cases)
  case (3 t i l r)
  then have "node_ok t i" by (simp add: wf_tree_def)
  with 3(3) show ?case by (auto simp: static_node_def node_ok_def split: node_type.splits)
qed (auto simp: static_node_def split: node_type.splits)

lemma leads_follow: "leads (static_node t) i bs = Some s \<longleftrightarrow> (\<exists>v. follow t i bs = Some v \<and> s = code_text v)"
  by (induction bs arbitrary: i) (auto simp: static_node_def split: node_type.splits)

subsection \<open>The adaptive tree is well formed\<close>

definition dyn_node :: "dyn_tree \<Rightarrow> nat \<Rightarrow> string + (nat \<times> nat)" where
  "dyn_node t i = (case as_type (nd_entry (dt_nodes t ! i)) of
     Leaf v \<Rightarrow> Inl (node_text v (dt_nodes t ! i)) | Branch c \<Rightarrow> Inr (unat c, unat c - 1))"

lemma dyn_children:
  assumes "dyn_tree_ok t" and "i < 627" and "dyn_node t i = Inr (l, r)"
  shows "i < l \<and> i < r \<and> l < 627 \<and> r < 627 \<and> 0 < l \<and> r = l - 1 \<and> even l \<and> par t l = i \<and> par t r = i"
proof -
  have links: "links (kind t) (par t, leaf_index t)" using tree_links [OF assms(1)] by simp
  have k: "kind t i = KBranch l" "r = l - 1"
    using assms(3) by (auto simp: dyn_node_def kind_def split: node_type.splits)
  then have "KBranch l \<in> all_kinds" using links_kind [OF links assms(2)] by simp
  then have l: "even l" "2 \<le> l" "l \<le> 626" by (simp_all add: branch_in_all)
  have "owner_ok (par t, leaf_index t) i (kind t i)" "below i (kind t i)" using links assms(2) by (simp_all add: links_def)
  then show ?thesis using k l by auto
qed

interpretation adaptive_fmt: tree_fmt "\<lambda>d t. dyn_fmt_step d (dt_nodes t)" dyn_node "\<lambda>t. length (dt_nodes t)" dyn_tree_ok
proof (unfold_locales, goal_cases)
  case (2 t i l r depth)
  then have "i < 627" using tree_links [of t] by simp
  from dyn_children [OF 2(1) this 2(3)] 2(2,3) show ?case
    by (auto simp: dyn_node_def split: node_type.splits)
next
  case (3 t i l r)
  then have "i < 627" using tree_links [of t] by simp
  from dyn_children [OF 3(1) this 3(3)] tree_links [OF 3(1)] show ?case by simp
qed (auto simp: dyn_node_def split: node_type.splits)

text \<open>The paths from the root are the codes of the values.\<close>

lemma leads_path:
  assumes "dyn_tree_ok t"
  shows "j < 627 \<Longrightarrow> leads (dyn_node t) 0 (path_to t j @ bs) = leads (dyn_node t) j bs"
proof (induction j arbitrary: bs rule: less_induct)
  case (less j)
  show ?case
  proof (cases "j = 0")
    case True
    then show ?thesis by (simp add: path_to.simps)
  next
    case False
    have links: "links (kind t) (par t, leaf_index t)" using tree_links [OF assms] by simp
    have p: "par t j < j" "kind t (par t j) = KBranch (pair_of j)" using links_parent [OF links] False less.prems by simp_all
    then have path: "path_to t j = path_to t (par t j) @ [odd j]" using False by (subst path_to.simps) simp
    have node: "dyn_node t (par t j) = Inr (pair_of j, pair_of j - 1)"
      using p(2) by (auto simp: dyn_node_def kind_def split: node_type.splits)
    have "odd j \<Longrightarrow> pair_of j - Suc 0 = j" "even j \<Longrightarrow> pair_of j = j" by (simp_all add: pair_of_def odd_iff_mod_2_eq_one)
    then show ?thesis using less.IH [OF p(1)] p(1) less.prems by (simp add: path node)
  qed
qed

lemma leads_to_leaf:
  assumes "dyn_tree_ok t"
  shows "i < 627 \<Longrightarrow> leads (dyn_node t) i bs = Some s \<Longrightarrow>
    \<exists>j<627. dyn_node t j = Inl s \<and> path_to t j = path_to t i @ bs"
proof (induction bs arbitrary: i)
  case Nil
  then show ?case by (auto split: sum.splits)
next
  case (Cons b bs)
  obtain l r where c: "dyn_node t i = Inr (l, r)" "leads (dyn_node t) (if b then r else l) bs = Some s"
    using Cons.prems(2) by (auto split: sum.splits)
  note children = dyn_children [OF assms Cons.prems(1) c(1)]
  let ?j = "if b then r else l"
  have j: "?j < 627" "par t ?j = i" "i < ?j" "odd ?j \<longleftrightarrow> b" using children by auto
  then have "path_to t ?j = path_to t i @ [b]" by (subst path_to.simps) simp
  with Cons.IH [OF j(1) c(2)] show ?case by simp
qed

lemma leads_code:
  assumes "dyn_tree_ok t"
  shows "leads (dyn_node t) 0 bs = Some s \<longleftrightarrow>
    (\<exists>v. unat v < 314 \<and> bs = dyn_code t v \<and> s = node_text v (dt_nodes t ! leaf_index t (unat v)))"
proof
  have links: "links (kind t) (par t, leaf_index t)" using tree_links [OF assms] by simp
  {
    assume "leads (dyn_node t) 0 bs = Some s"
    then obtain j where j: "j < 627" "dyn_node t j = Inl s" "path_to t j = path_to t 0 @ bs"
      using leads_to_leaf [OF assms, of 0 bs s] by auto
    then obtain v where v: "as_type (nd_entry (dt_nodes t ! j)) = Leaf v" "s = node_text v (dt_nodes t ! j)"
      by (auto simp: dyn_node_def split: node_type.splits)
    then have k: "kind t j = KLeaf (unat v)" by (simp add: kind_def)
    then have "unat v < 314" using links_kind [OF links j(1)] by (simp add: leaf_in_all)
    moreover have "leaf_index t (unat v) = j" using links j(1) k by (auto simp: links_def dest: spec [of _ j])
    moreover have "path_to t 0 = []" by (simp add: path_to.simps)
    ultimately show "\<exists>v. unat v < 314 \<and> bs = dyn_code t v \<and> s = node_text v (dt_nodes t ! leaf_index t (unat v))"
      using j(3) v(2) by (intro exI [of _ v]) (simp add: dyn_code_def)
  next
    assume "\<exists>v. unat v < 314 \<and> bs = dyn_code t v \<and> s = node_text v (dt_nodes t ! leaf_index t (unat v))"
    then obtain v where v: "unat v < 314" "bs = dyn_code t v" "s = node_text v (dt_nodes t ! leaf_index t (unat v))" by blast
    let ?j = "leaf_index t (unat v)"
    have j: "?j < 627" "kind t ?j = KLeaf (unat v)" using links_leaf [OF links v(1)] by simp_all
    then have "dyn_node t ?j = Inl s"
      using v(3) by (auto simp: dyn_node_def kind_def dest!: word_unat_eq_iff [THEN iffD2] split: node_type.splits)
    then show "leads (dyn_node t) 0 bs = Some s"
      using leads_path [OF assms j(1), of "[]"] v(2) by (simp add: dyn_code_def)
  }
qed

subsection \<open>Properties\<close>

text \<open>C31: What is displayed of a static tree are its code words. Of a tree built from code lengths one line is written for every
  symbol with a code, with its canonical code word and the symbol, in the order of the code words.\<close>

theorem huff_fmt_canonical:
  assumes "build_tree lens h = (Ok (), h')"
  shows "\<exists>ls. huff_fmt h' \<lparr>fm_out = [], fm_prefix = []\<rparr> =
      ((Ok (), \<lparr>fm_out = concat (map (fmt_line []) ls), fm_prefix = []\<rparr>) :: ('e, _) outcome \<times> _) \<and> in_order ls \<and>
    set ls = {(canonical_code lens i, '' -> '' @ decimal i) | i. i < length lens \<and> lens ! i \<noteq> 0}"
proof -
  have wf: "wf_tree (tree h')" by (rule built_tree(1) [OF assms])
  then have ne: "tree h' \<noteq> []" by (simp add: wf_tree_def)
  obtain ls where ls: "huff_fmt_step (length (tree h')) (tree h') 0 \<lparr>fm_out = [], fm_prefix = []\<rparr> =
      ((Ok (), \<lparr>fm_out = concat (map (fmt_line []) ls), fm_prefix = []\<rparr>) :: ('e, _) outcome \<times> _)"
    "in_order ls" "\<And>bs s. (bs, s) \<in> set ls \<longleftrightarrow> leads (static_node (tree h')) 0 bs = Some s"
    using static_fmt.step_root [OF wf] ne by blast
  have "length lens \<le> 16383" by (rule build_tree_sound [OF assms]) simp
  then have i: "code_text (of_nat i) = '' -> '' @ decimal i" if "i < length lens" for i
    using that by (simp add: code_text_def unat_of_nat)
  have "(bs, s) \<in> set ls \<longleftrightarrow> (\<exists>i<length lens. lens ! i \<noteq> 0 \<and> bs = canonical_code lens i \<and> s = '' -> '' @ decimal i)" for bs s
    unfolding ls(3) leads_follow built_tree(2) [OF assms] using i by metis
  then have "set ls = {(canonical_code lens i, '' -> '' @ decimal i) | i. i < length lens \<and> lens ! i \<noteq> 0}" by auto
  then show ?thesis using ls(1,2) ne by (simp add: huff_fmt_def) blast
qed

theorem huff_fmt_canonical_witness:
  "\<exists>h' ls. build_tree [1, 2, 0, 2] (with_capacity 8) = (Ok (), h') \<and>
    huff_fmt h' \<lparr>fm_out = [], fm_prefix = []\<rparr> = ((Ok (), \<lparr>fm_out = concat (map (fmt_line []) ls), fm_prefix = []\<rparr>) :: (unit, _) outcome \<times> _) \<and>
    ([True, False], '' -> 1'') \<in> set ls"
proof -
  obtain h' where h': "build_tree [1, 2, 0, 2] (with_capacity 8) = (Ok (), h')" using build_example by blast
  have "canonical_code [1, 2, 0, 2] 1 = [True, False]" by code_simp
  moreover have "decimal 1 = ''1''" by code_simp
  moreover obtain ls where "huff_fmt h' \<lparr>fm_out = [], fm_prefix = []\<rparr> =
      ((Ok (), \<lparr>fm_out = concat (map (fmt_line []) ls), fm_prefix = []\<rparr>) :: (unit, _) outcome \<times> _)"
    "set ls = {(canonical_code [1, 2, 0, 2] i, '' -> '' @ decimal i) | i. i < length [1, 2, 0, 2 :: u8] \<and> [1, 2, 0, 2 :: u8] ! i \<noteq> 0}"
    using huff_fmt_canonical [OF h', where ?'e = unit] by blast
  ultimately show ?thesis using h' by (intro exI [of _ h'] exI [of _ ls]) (auto intro!: exI [of _ 1])
qed

text \<open>What is displayed of an adaptive tree are its code words as well: one line for each of the 314 values, with the
  bits that decode it, and its frequency and group, in the order of the bits.\<close>

lemma dyn_fmt_codes:
  assumes "dyn_tree_ok t"
  shows "\<exists>ls. dyn_fmt t \<lparr>fm_out = [], fm_prefix = []\<rparr> =
      ((Ok (), \<lparr>fm_out = concat (map (fmt_line []) ls), fm_prefix = []\<rparr>) :: ('e, _) outcome \<times> _) \<and> in_order ls \<and>
    set ls = {(dyn_code t v, node_text v (dt_nodes t ! leaf_index t (unat v))) | v. unat v < 314}"
proof -
  have len: "length (dt_nodes t) = num_nodes" using tree_links [OF assms] by (simp add: num_nodes_eq)
  then have "0 < length (dt_nodes t)" by (simp add: num_nodes_eq)
  then obtain ls where ls: "dyn_fmt_step (length (dt_nodes t)) (dt_nodes t) 0 \<lparr>fm_out = [], fm_prefix = []\<rparr> =
      ((Ok (), \<lparr>fm_out = concat (map (fmt_line []) ls), fm_prefix = []\<rparr>) :: ('e, _) outcome \<times> _)"
    "in_order ls" "\<And>bs s. (bs, s) \<in> set ls \<longleftrightarrow> leads (dyn_node t) 0 bs = Some s"
    using adaptive_fmt.step_root [OF assms] by blast
  have "set ls = {(dyn_code t v, node_text v (dt_nodes t ! leaf_index t (unat v))) | v. unat v < 314}"
    by (auto simp: ls(3) leads_code [OF assms])
  then show ?thesis using ls(1,2) len by (simp add: dyn_fmt_def) blast
qed

lemma dyn_fmt_codes_example:
  "\<exists>t ls s. dyn_tree_new = (Ok t :: (unit, _) outcome) \<and>
    dyn_fmt t \<lparr>fm_out = [], fm_prefix = []\<rparr> = ((Ok (), \<lparr>fm_out = concat (map (fmt_line []) ls), fm_prefix = []\<rparr>) :: (unit, _) outcome \<times> _) \<and>
    ([True, True, False, False, False, True, True, False, False], s) \<in> set ls"
proof -
  obtain t where t: "dyn_tree_new = (Ok t :: (unit, _) outcome)" "dyn_tree_ok t"
      "\<And>i. 0 < i \<Longrightarrow> i < 627 \<Longrightarrow> par t i = (i - 1) div 2" "\<And>v. v < 314 \<Longrightarrow> leaf_index t v = 626 - v"
    using dyn_tree_new_Ok [where ?'e = unit] by metis
  obtain ls where ls: "dyn_fmt t \<lparr>fm_out = [], fm_prefix = []\<rparr> =
      ((Ok (), \<lparr>fm_out = concat (map (fmt_line []) ls), fm_prefix = []\<rparr>) :: (unit, _) outcome \<times> _)"
    "set ls = {(dyn_code t v, node_text v (dt_nodes t ! leaf_index t (unat v))) | v. unat v < 314}"
    using dyn_fmt_codes [OF t(2), where ?'e = unit] by blast
  have "(dyn_code t 0, node_text 0 (dt_nodes t ! leaf_index t (unat 0))) \<in> set ls"
    unfolding ls(2) by (intro CollectI exI [of _ 0]) simp
  moreover have "dyn_code t 0 = [True, True, False, False, False, True, True, False, False]"
    by (rule first_code_zero) (use t(3,4) in simp_all)
  ultimately show ?thesis using t(1) ls(1) by metis
qed

end
