(* ===== verification/Spec2Isabelle.thy ===== *)
theory Spec2Isabelle
  imports Ring_Buf Header_Path Header_Time Std_Decode Tree_Fmt
begin

text \<open>
  A verification development for the Rust crate \<open>delharc\<close>, a library that reads LHA/LZH archives.

  \<^bold>\<open>The program.\<close> An archive is a sequence of members, each a header followed by compressed data.
  \<open>LhaDecodeReader\<close> (\<open>src/src/decode.rs\<close>) reads a header with \<open>LhaHeader::read\<close>
  (\<open>src/src/header/parser.rs\<close>), chooses a decoder by the compression method of the header
  (\<open>DecoderAny\<close>), gives it a reader limited to the compressed size (\<open>Take\<close>, \<open>src/src/stub_io.rs\<close>),
  fills buffers from it while it keeps the CRC-16 of what was delivered (\<open>src/src/crc.rs\<close>), and
  skips the rest of the member before the next header. The decoders (\<open>src/src/decode/\<close>) are four
  LZ77 decoders over a ring buffer (\<open>src/src/ringbuf.rs\<close>): \<open>LzsDecoder\<close> and \<open>Lh1Decoder\<close> read bits
  (\<open>src/src/bitstream.rs\<close>), \<open>Lz5Decoder\<close> reads bytes, \<open>LhaV2Decoder\<close> reads blocks of commands coded
  with static Huffman trees (\<open>src/src/statictree.rs\<close>), \<open>Lh1Decoder\<close> codes them with an adaptive tree
  (\<open>src/src/decode/lhv1/dyntree.rs\<close>). The methods of \<open>LhaHeader\<close> (\<open>src/src/header.rs\<close>) give the
  path name, the comment and the time of a member.

  \<^bold>\<open>The shape of the model.\<close> A struct is a record with the fields of the source (prefixed where
  two structs share a name), an enumeration a datatype, an integer of the source a word of its
  width (\<open>usize\<close>, which is 64 bits wide, is \<open>nat\<close> with the overflow written out). A method with
  \<open>&mut self\<close> is an action of type \<open>('s, 'e, 'a) act\<close> (theory \<open>Prelude\<close>): a function from a state to
  an outcome and a state. An outcome is \<open>Ok\<close>, \<open>Err\<close> or \<open>Fault\<close>; the faults are a panic (\<open>Panicked\<close>),
  an arithmetic overflow (\<open>Overflow\<close>, a panic with overflow checks), an access out of range that the
  code checks only by a debug assertion (\<open>OutOfBounds\<close>: a panic in a build with debug assertions,
  undefined behaviour in one without), and \<open>OutOfFuel\<close>, which stands for a loop that has not ended. A buffer
  argument is given by its length, and what is written to it is the value of the action. Code that
  is generic over \<open>R: Read\<close> takes a record of the functions of the trait; what the trait
  promises is in the locales \<open>reader\<close> (the bytes come in order, or there is an error) and
  \<open>reliable_reader\<close> (they come without errors until the end), which the byte slices of the
  source and \<open>Take\<close> over any reader are shown to satisfy. A failed \<open>debug_assert!\<close> is a panic,
  but for those in front of an unchecked access (\<open>OutOfBounds\<close>). An allocation is taken to succeed
  where its failure aborts the program (\<open>Vec::with_capacity\<close>); only where the source asks whether memory
  can be reserved (\<open>try_reserve_exact\<close>) is the answer a parameter.

  \<^bold>\<open>The theories.\<close>
  \<^item> \<open>Prelude\<close>: outcomes, actions, the pre- and postcondition calculus (\<open>valid\<close>, \<open>safe\<close>).
  \<^item> \<open>Stub_Io\<close>: \<open>LhaError\<close>, the trait \<open>Read\<close>, the slice reader, \<open>Take\<close>, \<open>discard_to_end\<close>.
  \<^item> \<open>Fmt\<close>: what numbers, errors and enumerations display.
  \<^item> \<open>Std_Io\<close>: readers and errors of the standard library (locales \<open>std_read\<close>, \<open>std_reader\<close>,
    \<open>reliable_std_reader\<close>); the blanket implementation of \<open>Read\<close> turns each into a reader of the crate,
    also when it delivers in pieces and is interrupted.
  \<^item> \<open>Crc\<close>: the table and \<open>digest\<close>, against the bitwise CRC-16.
  \<^item> \<open>Ring_Buf\<close>, \<open>Lz_Window\<close>: the ring and its iterators; the ring refines a sliding window
    (locale \<open>sliding_window\<close>, interpreted for each size and addressing of the decoders).
  \<^item> \<open>Bit_Stream\<close>, \<open>Bit_Codes\<close>: \<open>next_bits\<close> with its 64-bit buffer and marker bit, as a refinement of
    reading from a list of bits; numbers written and read back.
  \<^item> \<open>Tree_Entry\<close>, \<open>Huff_Tree\<close>, \<open>Code_Lengths\<close>, \<open>Huff_Canonical\<close>: the packed nodes, \<open>build_tree\<close> and
    \<open>read_entry\<close>; the arithmetic of code lengths; a tree is built exactly from the lengths of a
    complete code, and its paths are the canonical code words.
  \<^item> \<open>Fill_Buffer\<close>, \<open>Lz_Decoder\<close>: the loop and the interrupted copy that every \<open>fill_buffer\<close> of the
    source repeats (locales \<open>decoder\<close>, \<open>command_decoder\<close>, \<open>copying\<close>, \<open>lz_decoder\<close>,
    \<open>lz_command_decoder\<close>); filling two buffers is filling one, and nothing panics.
  \<^item> \<open>Lzs\<close>, \<open>Lz5\<close>, \<open>Lhv2\<close>, \<open>Lhv2_Format\<close>, \<open>Lhv1\<close>: the decoders, each with its invariant, an encoder of
    its format as the specification, and the proof that decoding inverts it.
  \<^item> \<open>Dyn_Tree\<close> (the program), \<open>Dyn_Model\<close>, \<open>Dyn_Inv\<close>, \<open>Dyn_Rebuild\<close>, \<open>Dyn_Regroup\<close>, \<open>Dyn_Count\<close>, \<open>Dyn_New\<close>,
    \<open>Dyn_Read\<close>: the adaptive Huffman tree. Its invariant \<open>dyn_tree_ok\<close> says that the parents and the leaf
    table agree with the nodes, the frequencies descend along the array and add up at the
    branches, and the groups are the classes of equal frequency, each with its first node as
    leader; it holds of the first tree and is kept by counting a value and by rebuilding.
  \<^item> \<open>Header_Types\<close>, \<open>Header_Parser\<close>, \<open>Header_Sound\<close>: the enumerations, \<open>LhaHeader::read\<close> for the levels
    0 to 3 and the iterator over extra headers; an accepted header says what its input says.
  \<^item> \<open>Header_Format\<close>: an encoder of headers of every level with extra headers; what it writes is parsed
    to the fields it was given.
  \<^item> \<open>Header_Path\<close>, \<open>Header_Time\<close>: path names and comments, time stamps.
  \<^item> \<open>Decode\<close>, \<open>Decode_Member\<close>, \<open>Decode_Format\<close>: the choice of a decoder and \<open>LhaDecodeReader\<close>; what every
    decoder keeps of its reader (locale \<open>inner_kept\<close>), so that the next file is found where it
    begins; the formats of all methods in one relation \<open>encodes\<close>, and the extraction of a member.
  \<^item> \<open>Tree_Fmt\<close>: \<open>Display\<close> of the two trees, a recursion they share (locale \<open>tree_fmt\<close>); the lines are the
    code words.
  \<^item> \<open>Archive\<close>: the sequence of members, the loop that extracts them all, and archives that are written.
  \<^item> \<open>Std_Decode\<close>: \<open>LhaDecodeReader\<close> as a \<open>std::io::Read\<close>, its errors, and \<open>parse_file\<close>.

  \<^bold>\<open>What the theorems show.\<close> From the outside in: an archive written with
  the encoders of headers and data is extracted to its members (\<open>written_archive_extraction\<close>), as is
  whatever consists of members (\<open>archive_extraction\<close>); every header the encoder writes is parsed to
  its fields (\<open>header_round_trip\<close>); with the standard library a file is opened and extracted alike,
  whatever the pieces it is read in (\<open>parse_file_extracts\<close>, \<open>std_read_all_delivers\<close>), and a member reads the
  same through either trait (\<open>std_member_reads_same\<close>); a member that holds a compressed form of some
  bytes is extracted to exactly these bytes, in one read or by copying in pieces
  (\<open>member_extraction\<close>, \<open>member_copied\<close>, \<open>reads_in_pieces\<close>), whatever was read the next header is
  looked for behind the member (\<open>next_file_position\<close>), and on arbitrary data every decoder fills
  its buffer or reports an error, but for the level counter of \<open>build_tree\<close> (\<open>any_fill_buffer_safe\<close>,
  \<open>dr_read_all_type\<close>). Below them stand the round trips of the formats and of the Huffman codes; the parser of
  headers: what is accepted is said by the bytes at their places (\<open>lha_read_sound\<close>), and the one panic is
  characterised exactly (\<open>lha_read_safe\<close>, \<open>level3_length_overflow\<close>); the path name, comment and time of a member as
  functions of its extra headers and base header (\<open>pathname_components\<close>, \<open>comment_printable\<close>,
  \<open>last_modified_total\<close>); and the refinement of the bit reader. Some theorems state what the code does where
  a comment or the evident intent says otherwise: the overflow in the length check of a level 3
  header, its unchecked total length, the kept \<open>..\<close> of a file name, the number of code lengths \<open>build_tree\<close>
  accepts, its level counter and the tree that is left after it fails, the time zone of \<open>to_naive_local\<close>.

  \<^bold>\<open>Fuel.\<close> Loops whose end depends on data count their iterations down. \<open>dyn_walk\<close> and
  \<open>increment_path\<close> have 627, the number of nodes, since the index of a child is larger than that of its
  parent; \<open>read_entry\<close> has the number of nodes of its tree for the same reason; the loop over the extra
  headers has \<open>header_fuel\<close>, more than the bytes the headers may take; these are part of the definitions, and
  that they are enough is part of the theorems. The loops over blocks without commands of the
  \<open>-lh4-\<close> to \<open>-lhx-\<close> decoders and the loop of \<open>discard_to_end\<close> take their fuel as an argument; the
  theorems ask for more than the bits, respectively the bytes, that are left, since every iteration takes some.
  The loop that fills the history of \<open>-lz5-\<close> and the loop of \<open>read_all\<close> over the standard library are
  partial functions: the first is shown to return, the second when the reader is interrupted only
  finitely often in a row (and not to return otherwise, \<open>endless_interruption\<close>).

  \<^bold>\<open>Not modelled.\<close> \<open>Debug\<close> output, which only names fields, the re-exports of \<open>lib.rs\<close>, and the
  constants and parsing of extra headers that no code of the crate uses. Functions of the crates
  \<open>chrono\<close> and \<open>memchr\<close>, of the operating system (\<open>File::open\<close> and the reads of a file) and whether an
  allocation succeeds are parameters. Every feature of the crate is enabled, the target has 64 bits,
  and path names are those of a Unix system where the source distinguishes; of what \<open>std\<close> changes both
  variants are modelled.
\<close>

end
